(* ===== verification/Prelude.thy ===== *)
theory Prelude
  imports Main "HOL-Library.Word"
begin

text \<open>
  The shared vocabulary of the development: names for the machine integers of the C++ sources,
  the parts of the C library the sources call (\<^verbatim>\<open>strchr\<close>, \<^verbatim>\<open>strrchr\<close>, \<^verbatim>\<open>strtol\<close>,
  \<^verbatim>\<open>atoi\<close>, \<^verbatim>\<open>strtok\<close>), byte-level access to a fixed block of memory, and the generic lemmas on
  words, lists and options that the component theories use.

  The target is x86-64 Linux: \<^verbatim>\<open>int\<close> has 32 bits, \<^verbatim>\<open>long\<close>, pointers and \<^verbatim>\<open>size_t\<close> have 64 bits,
  plain \<^verbatim>\<open>char\<close> is signed and integers are stored little-endian. A C string is a
  \<^typ>\<open>string\<close> without its terminating NUL.
\<close>

unbundle bit_operations_syntax

section \<open>Machine integers\<close>

type_synonym u8 = "8 word"
type_synonym u16 = "16 word"
type_synonym u32 = "32 word"
type_synonym u64 = "64 word"

text \<open>
  Signed C integers that take part in arithmetic are modelled by \<^typ>\<open>int\<close> together with an explicit
  reduction to their width.
\<close>

definition s32 :: "int \<Rightarrow> int" where
  "s32 x = signed_take_bit 31 x"

definition s64 :: "int \<Rightarrow> int" where
  "s64 x = signed_take_bit 63 x"

text \<open>
  Collections: \<open>bytes\<close> rewrites encodings of words into lists of bytes, \<open>c_lib\<close> unfolds the
  C library functions for evaluation on concrete strings.
\<close>

named_theorems bytes
named_theorems c_lib

lemma s32_id: "- (2 ^ 31) \<le> x \<Longrightarrow> x < 2 ^ 31 \<Longrightarrow> s32 x = x"
  unfolding s32_def by (simp add: signed_take_bit_int_eq_self)

lemma s32_range: "- (2 ^ 31) \<le> s32 x \<and> s32 x < 2 ^ 31"
  unfolding s32_def
  using signed_take_bit_int_greater_eq_minus_exp [of 31 x] signed_take_bit_int_less_exp [of 31 x]
  by simp

lemma s64_range: "- (2 ^ 63) \<le> s64 x \<and> s64 x < 2 ^ 63"
  unfolding s64_def
  using signed_take_bit_int_greater_eq_minus_exp [of 63 x] signed_take_bit_int_less_exp [of 63 x]
  by simp

subsection \<open>Shifts and the continuation bit\<close>

lemma unat_drop_bit_div [simp]: "unat (drop_bit n (v :: 'a::len word)) = unat v div 2 ^ n"
  by (simp add: unat_drop_bit_eq drop_bit_eq_div [symmetric])

lemma bit_128_iff: "bit (128 :: nat) k \<longleftrightarrow> k = 7"
  using bit_exp_iff [where 'a = nat, of 7 k] by simp

lemma take_bit_or_128: "(take_bit 8 n OR 128 :: nat) = n mod 128 + 128"
proof -
  have "take_bit 7 n + 128 = take_bit 7 n OR 128"
    by (rule disjunctive_add) (auto simp: bit_simps bit_128_iff)
  moreover have "take_bit 7 n OR 128 = take_bit 8 n OR 128"
    by (rule bit_eqI) (auto simp: bit_simps bit_128_iff)
  ultimately show ?thesis by (simp add: take_bit_eq_mod)
qed

lemma unat_ucast_or_128 [bytes]:
  fixes v :: "'a::len word"
  shows "unat ((ucast v :: u8) OR 0x80) = unat v mod 128 + 128"
proof -
  have "unat ((ucast v :: u8) OR 0x80) = take_bit 8 (unat v) OR 128"
    by (simp add: unsigned_or_eq unsigned_ucast_eq take_bit_word_eq_self)
  then show ?thesis by (simp only: take_bit_or_128)
qed

lemma unat_ucast_u8 [bytes]: "unat (ucast (v :: 'a::len word) :: u8) = unat v mod 256"
  by (simp add: unsigned_ucast_eq take_bit_eq_mod)

lemma drop_bit_decreases:
  fixes v :: "'a::len word"
  assumes "0 < n" and "0 < unat v"
  shows "unat (drop_bit n v) < unat v"
proof -
  have "1 < (2::nat) ^ n" using assms(1) using one_less_power [of "2::nat" n] by simp
  then show ?thesis using assms(2) by simp
qed

lemma unat_word_of_nat:
  "n < 2 ^ LENGTH('a::len) \<Longrightarrow> unat (word_of_nat n :: 'a word) = n"
  by (simp add: unat_of_nat take_bit_nat_eq_self)

lemma or_push_bit_add:
  fixes h w :: "'a::len word"
  assumes "unat h < 2 ^ n" and "unat h + 2 ^ n * unat w < 2 ^ LENGTH('a)"
  shows "unat (h OR push_bit n w) = unat h + 2 ^ n * unat w"
proof -
  have "\<not> bit h k" if "n \<le> k" for k
  proof -
    have "unat h < 2 ^ k" using assms(1) that by (meson less_le_trans one_le_numeral power_increasing)
    then have "\<not> bit (unat h) k" by (simp add: bit_nat_def)
    then show ?thesis by (simp add: bit_unsigned_iff)
  qed
  then have "h OR push_bit n w = h + push_bit n w"
    by (intro disjunctive_add [symmetric]) (auto simp: bit_push_bit_iff)
  moreover have "unat (push_bit n w) = 2 ^ n * unat w"
  proof -
    have "unat (push_bit n w) = take_bit LENGTH('a) (push_bit n (unat w))" by (subst unsigned_push_bit_eq) simp
    also have "push_bit n (unat w) = 2 ^ n * unat w" by (simp add: push_bit_eq_mult)
    finally show ?thesis using assms(2) by (simp add: take_bit_nat_eq_self)
  qed
  ultimately show ?thesis using assms(2) by (simp add: unat_word_ariths)
qed

lemma sint_u32_small:
  assumes "unat (w :: u32) < 2 ^ 31"
  shows "sint w = int (unat w)"
proof -
  have "int (unat w) < 2 ^ 31" using assms by (simp del: of_nat_unat)
  then have "uint w < 2 ^ 31" by simp
  moreover have "- (2 ^ 31) \<le> uint w"
    by (rule order_trans [of _ 0]) simp_all
  ultimately have "signed_take_bit 31 (uint w) = uint w"
    by (simp only: signed_take_bit_int_eq_self)
  then show ?thesis by (simp add: sint_uint)
qed

lemma word_gt_iff_unat: "(v :: 'a::len word) > w \<longleftrightarrow> unat v > unat w"
  by (simp add: word_less_nat_alt)

section \<open>Blocks of memory\<close>

text \<open>
  \<open>overwrite off bs m\<close> stores the bytes \<open>bs\<close> at offset \<open>off\<close> of the block \<open>m\<close>; the callers check
  that the range lies inside the block.
\<close>

definition overwrite :: "nat \<Rightarrow> 'a list \<Rightarrow> 'a list \<Rightarrow> 'a list" where
  "overwrite off bs m = take off m @ bs @ drop (off + length bs) m"

lemma length_overwrite [simp]:
  "off + length bs \<le> length m \<Longrightarrow> length (overwrite off bs m) = length m"
  by (simp add: overwrite_def)

lemma take_overwrite [simp]:
  "off \<le> length m \<Longrightarrow> take (off + length bs) (overwrite off bs m) = take off m @ bs"
  by (simp add: overwrite_def)

lemma overwrite_Nil [simp]: "overwrite off [] m = m"
  by (simp add: overwrite_def)

lemma overwrite_append:
  "off + length as + length bs \<le> length m \<Longrightarrow>
   overwrite (off + length as) bs (overwrite off as m) = overwrite off (as @ bs) m"
  by (simp add: overwrite_def ac_simps)

lemma overwrite_same:
  "length as = length bs \<Longrightarrow> off + length as \<le> length m \<Longrightarrow>
   overwrite off bs (overwrite off as m) = overwrite off bs m"
  by (simp add: overwrite_def)

lemma list_update_overwrite:
  "i < length m \<Longrightarrow> m[i := x] = overwrite i [x] m"
  by (simp add: overwrite_def upd_conv_take_nth_drop)

section \<open>C strings\<close>

text \<open>The value of a plain (signed) \<^verbatim>\<open>char\<close> widened to 32 bits.\<close>

definition schar32 :: "char \<Rightarrow> u32" where
  "schar32 c = scast (of_char c :: u8)"

text \<open>\<^verbatim>\<open>strchr(s, c)\<close>: the part of \<open>s\<close> from the first \<open>c\<close> on.\<close>

definition strchr :: "string \<Rightarrow> char \<Rightarrow> string option" where
  [c_lib]: "strchr s c = (case dropWhile (\<lambda>x. x \<noteq> c) s of [] \<Rightarrow> None | r \<Rightarrow> Some r)"

text \<open>\<^verbatim>\<open>strrchr(s, c)\<close> as an index into \<open>s\<close>.\<close>

definition strrchr_pos :: "string \<Rightarrow> char \<Rightarrow> nat option" where
  [c_lib]: "strrchr_pos s c =
     (if c \<in> set s then Some (length s - 1 - length (takeWhile (\<lambda>x. x \<noteq> c) (rev s))) else None)"

lemma strchr_None_iff: "strchr s c = None \<longleftrightarrow> c \<notin> set s"
proof -
  have "strchr s c = None \<longleftrightarrow> dropWhile (\<lambda>x. x \<noteq> c) s = []"
    by (cases "dropWhile (\<lambda>x. x \<noteq> c) s") (simp_all add: strchr_def del: dropWhile_eq_Nil_conv)
  then show ?thesis by auto
qed

lemma strchr_Some:
  "strchr s c = Some r \<Longrightarrow> r = c # tl r \<and> s = takeWhile (\<lambda>x. x \<noteq> c) s @ r"
proof -
  assume "strchr s c = Some r"
  then have r: "r = dropWhile (\<lambda>x. x \<noteq> c) s" and "r \<noteq> []"
    by (auto simp: strchr_def split: list.splits)
  then have "hd r = c"
    using hd_dropWhile [of "\<lambda>x. x \<noteq> c" s] by simp
  with \<open>r \<noteq> []\<close> have "r = c # tl r" by (cases r) auto
  moreover have "s = takeWhile (\<lambda>x. x \<noteq> c) s @ r" by (simp add: r)
  ultimately show ?thesis by blast
qed

text \<open>
  \<^verbatim>\<open>strtol(s, &end, base)\<close> of C: white space, an optional sign, an optional \<^verbatim>\<open>0x\<close> or \<^verbatim>\<open>0\<close> prefix
  when the base is 0 (the prefix \<^verbatim>\<open>0x\<close> counts only when a hexadecimal digit follows), then the
  longest run of digits. The value saturates at the limits of \<^verbatim>\<open>long\<close>; without a digit the value is 0
  and \<open>end\<close> is the start of the string.
\<close>

definition is_space :: "char \<Rightarrow> bool" where
  [c_lib]: "is_space c \<longleftrightarrow> c \<in> {CHR '' '', CHR 0x09, CHR 0x0A, CHR 0x0B, CHR 0x0C, CHR 0x0D}"

definition digit_val :: "char \<Rightarrow> nat" where
  [c_lib]: "digit_val c =
     (let n = (of_char c :: nat) in
      if 48 \<le> n \<and> n \<le> 57 then n - 48
      else if 97 \<le> n \<and> n \<le> 122 then n - 87
      else if 65 \<le> n \<and> n \<le> 90 then n - 55
      else 99)"

fun strtol_digits :: "nat \<Rightarrow> nat \<Rightarrow> string \<Rightarrow> nat \<times> string" where
  "strtol_digits base acc [] = (acc, [])"
| "strtol_digits base acc (c # cs) =
     (if digit_val c < base then strtol_digits base (acc * base + digit_val c) cs
      else (acc, c # cs))"

definition LONG_MAX :: int where "LONG_MAX = 2 ^ 63 - 1"
definition LONG_MIN :: int where "LONG_MIN = - (2 ^ 63)"
definition INT_MAX :: int where "INT_MAX = 2 ^ 31 - 1"

definition strtol_body :: "nat \<Rightarrow> string \<Rightarrow> (nat \<times> string) option" where
  [c_lib]: "strtol_body base s =
     (let has_digit = (\<lambda>b r. r \<noteq> [] \<and> digit_val (hd r) < b) in
      if base = 0 then
        (if length s \<ge> 2 \<and> hd s = CHR ''0'' \<and> (s ! 1 = CHR ''x'' \<or> s ! 1 = CHR ''X'') \<and> has_digit 16 (drop 2 s)
         then Some (strtol_digits 16 0 (drop 2 s))
         else if has_digit 10 s
         then Some (strtol_digits (if hd s = CHR ''0'' then 8 else 10) 0 s) else None)
      else if has_digit base s then Some (strtol_digits base 0 s) else None)"

definition strtol :: "string \<Rightarrow> nat \<Rightarrow> int \<times> string" where
  [c_lib]: "strtol s base =
     (let t = dropWhile is_space s;
          neg = (t \<noteq> [] \<and> hd t = CHR ''-'');
          u = (if t \<noteq> [] \<and> (hd t = CHR ''-'' \<or> hd t = CHR ''+'') then tl t else t)
      in case strtol_body base u of
           None \<Rightarrow> (0, s)
         | Some (n, rest) \<Rightarrow>
             (if neg then max LONG_MIN (- int n) else min LONG_MAX (int n), rest))"

text \<open>\<^verbatim>\<open>atoi(s)\<close> is \<^verbatim>\<open>(int)strtol(s, NULL, 10)\<close>.\<close>

definition atoi :: "string \<Rightarrow> int" where
  [c_lib]: "atoi s = s32 (fst (strtol s 10))"

lemma strtol_range: "LONG_MIN \<le> fst (strtol s base) \<and> fst (strtol s base) \<le> LONG_MAX"
  by (auto simp: strtol_def Let_def LONG_MIN_def LONG_MAX_def split: option.splits)

lemma strtol_digits_rest: "length (snd (strtol_digits base acc s)) \<le> length s"
  by (induction base acc s rule: strtol_digits.induct) auto

lemma strtol_body_rest:
  assumes "strtol_body base s = Some (n, rest)"
  shows "length rest \<le> length s"
proof -
  obtain b t where d: "strtol_digits b 0 t = (n, rest)" and t: "t = s \<or> t = drop 2 s"
    using assms unfolding strtol_body_def Let_def by (auto split: if_splits)
  have "length rest \<le> length t" using strtol_digits_rest [of b 0 t] d by simp
  with t show ?thesis by auto
qed

lemma strtol_rest: "length (snd (strtol s base)) \<le> length s"
proof -
  define t where "t = dropWhile is_space s"
  define u where "u = (if t \<noteq> [] \<and> (hd t = CHR ''-'' \<or> hd t = CHR ''+'') then tl t else t)"
  have "length u \<le> length t" by (simp add: u_def)
  also have "\<dots> \<le> length s" unfolding t_def by (rule length_dropWhile_le)
  finally have "length u \<le> length s" .
  then show ?thesis
    using strtol_body_rest [of base u] unfolding strtol_def Let_def t_def [symmetric] u_def [symmetric]
    by (fastforce split: option.splits prod.splits)
qed

text \<open>
  \<^verbatim>\<open>strtok(s, ",")\<close> called until it returns NULL: the maximal non-empty runs without the separator.
\<close>

function strtok_all :: "char \<Rightarrow> string \<Rightarrow> string list" where
  "strtok_all sep s =
     (case dropWhile (\<lambda>c. c = sep) s of
        [] \<Rightarrow> []
      | c # cs \<Rightarrow> (c # takeWhile (\<lambda>x. x \<noteq> sep) cs)
                  # strtok_all sep (dropWhile (\<lambda>x. x \<noteq> sep) cs))"
  by pat_completeness auto
termination
proof (relation "measure (\<lambda>(_, s). length s)", simp)
  fix sep :: char and s c cs
  assume "dropWhile (\<lambda>c. c = sep) s = c # cs"
  then have "length (c # cs) \<le> length s"
    by (metis length_dropWhile_le)
  moreover have "length (dropWhile (\<lambda>x. x \<noteq> sep) cs) \<le> length cs"
    by (rule length_dropWhile_le)
  ultimately show "((sep, dropWhile (\<lambda>x. x \<noteq> sep) cs), sep, s) \<in> measure (\<lambda>(_, s). length s)"
    by simp
qed

declare strtok_all.simps [simp del]

lemma strtok_all_tokens:
  "t \<in> set (strtok_all sep s) \<Longrightarrow> t \<noteq> [] \<and> sep \<notin> set t"
proof (induction sep s rule: strtok_all.induct)
  case (1 sep s)
  show ?case
  proof (cases "dropWhile (\<lambda>c. c = sep) s")
    case Nil
    with "1.prems" show ?thesis by (subst (asm) strtok_all.simps) simp
  next
    case (Cons c cs)
    then have "c \<noteq> sep"
      using hd_dropWhile [of "\<lambda>c. c = sep" s] by simp
    with Cons "1.prems" "1.IH" [OF Cons] show ?thesis
      by (subst (asm) strtok_all.simps) (auto dest: set_takeWhileD)
  qed
qed

text \<open>The decimal digits that \<^verbatim>\<open>printf("%d")\<close> prints for a non-negative number.\<close>

function dec :: "nat \<Rightarrow> string" where
  "dec n = (if n < 10 then [char_of (48 + n)] else dec (n div 10) @ [char_of (48 + n mod 10)])"
  by auto
termination by (relation "measure id") auto

declare dec.simps [simp del]

section \<open>Results\<close>

text \<open>Sequential composition of fallible state transformers, as a list of steps.\<close>

fun run_ops :: "('s \<Rightarrow> 'e + 's) list \<Rightarrow> 's \<Rightarrow> 'e + 's" where
  "run_ops [] s = Inr s"
| "run_ops (f # fs) s = (case f s of Inl e \<Rightarrow> Inl e | Inr s' \<Rightarrow> run_ops fs s')"

lemma run_ops_append:
  "run_ops (fs @ gs) s = (case run_ops fs s of Inl e \<Rightarrow> Inl e | Inr s' \<Rightarrow> run_ops gs s')"
  by (induction fs arbitrary: s) (auto split: sum.splits)

end
