(* ===== verification/Buffers.thy ===== *)
theory Buffers
  imports Prelude
begin

text \<open>
  Model of \<^verbatim>\<open>buffers.h\<close>: the \<^verbatim>\<open>Buffer\<close> and \<^verbatim>\<open>RecordingBuffer\<close> classes every JFR event is
  serialised into. The state is the write offset, the bytes of the data array (for a recording
  buffer, the inherited array and the array that extends it) and the value the virtual
  \<^verbatim>\<open>limit()\<close> returns. Each operation yields an error where the C++ assertion fails and where it
  would touch memory outside the array.

  \<open>appends n bs op\<close> is the contract of a write operation: given room for \<open>n\<close> bytes below the limit it
  succeeds and appends exactly the bytes \<open>bs\<close>, at most \<open>n\<close> of them. The contracts compose, so the
  layout of a whole event follows from the contracts of its fields. The variable-length integers are
  shown to be what a JFR reader decodes.
\<close>

section \<open>Constants and state\<close>

definition BUFFER_SIZE :: nat where "BUFFER_SIZE = 1024"
definition BUFFER_LIMIT :: nat where "BUFFER_LIMIT = BUFFER_SIZE - 128"
definition RECORDING_BUFFER_OVERFLOW :: nat where "RECORDING_BUFFER_OVERFLOW = 8192"
definition RECORDING_BUFFER_SIZE :: nat where "RECORDING_BUFFER_SIZE = 65536"
definition RECORDING_BUFFER_LIMIT :: nat where
  "RECORDING_BUFFER_LIMIT = RECORDING_BUFFER_SIZE - 4096"
definition MAX_STRING_LENGTH :: nat where "MAX_STRING_LENGTH = 8191"

text \<open>\<^verbatim>\<open>_limit\<close> of the two classes; \<^verbatim>\<open>sizeof(Buffer)\<close> is a virtual table pointer, the offset and
  the data array.\<close>

definition Buffer_limit :: nat where "Buffer_limit = BUFFER_SIZE - 4"
definition sizeof_Buffer :: nat where "sizeof_Buffer = 8 + 4 + Buffer_limit"
definition RecordingBuffer_limit :: nat where
  "RecordingBuffer_limit = RECORDING_BUFFER_SIZE - sizeof_Buffer"

lemmas buffer_consts =
  BUFFER_SIZE_def BUFFER_LIMIT_def RECORDING_BUFFER_OVERFLOW_def RECORDING_BUFFER_SIZE_def
  RECORDING_BUFFER_LIMIT_def MAX_STRING_LENGTH_def Buffer_limit_def sizeof_Buffer_def
  RecordingBuffer_limit_def

record buffer =
  offset :: nat
  data :: "u8 list"
  limit :: nat

datatype buffer_error = AssertionFailed | OutOfBounds

type_synonym buffer_op = "buffer \<Rightarrow> buffer_error + buffer"

definition new_Buffer :: buffer where
  "new_Buffer = \<lparr>offset = 0, data = replicate Buffer_limit 0, limit = Buffer_limit\<rparr>"

text \<open>The constructor clears \<^verbatim>\<open>_limit\<close> bytes of \<^verbatim>\<open>_buf\<close>; the overflow area \<open>junk\<close> keeps what it held.\<close>

definition new_RecordingBuffer :: "u8 list \<Rightarrow> buffer" where
  "new_RecordingBuffer junk =
     \<lparr>offset = 0,
      data = replicate Buffer_limit 0 @ replicate RecordingBuffer_limit 0
             @ take RECORDING_BUFFER_OVERFLOW (junk @ replicate RECORDING_BUFFER_OVERFLOW 0),
      limit = RecordingBuffer_limit\<rparr>"

section \<open>Operations\<close>

text \<open>\<^verbatim>\<open>Buffer::flushIfNeeded\<close>: \<open>callback\<close> receives the bytes and their number and returns how many it
  wrote.\<close>

definition reset :: "buffer \<Rightarrow> buffer" where
  "reset b = b\<lparr>offset := 0\<rparr>"

definition Buffer_flushIfNeeded :: "(u8 list \<Rightarrow> int \<Rightarrow> int) \<Rightarrow> nat \<Rightarrow> buffer \<Rightarrow> bool \<times> buffer" where
  "Buffer_flushIfNeeded callback lim b =
     (if offset b > lim
      then if callback (data b) (int (offset b)) = int (offset b) then (True, reset b) else (False, b)
      else (False, b))"

definition RecordingBuffer_flushIfNeeded ::
    "(u8 list \<Rightarrow> int \<Rightarrow> int) \<Rightarrow> buffer \<Rightarrow> bool \<times> buffer" where
  "RecordingBuffer_flushIfNeeded callback b = Buffer_flushIfNeeded callback RECORDING_BUFFER_LIMIT b"

text \<open>Storing bytes at the offset and stepping over them.\<close>

definition store :: "u8 list \<Rightarrow> buffer_op" where
  "store bs b =
     (if offset b + length bs \<le> length (data b)
      then Inr (b\<lparr>offset := offset b + length bs, data := overwrite (offset b) bs (data b)\<rparr>)
      else Inl OutOfBounds)"

text \<open>\<^verbatim>\<open>skip\<close> returns the position before skipping.\<close>

definition skip :: "nat \<Rightarrow> buffer \<Rightarrow> buffer_error + nat \<times> buffer" where
  "skip delta b =
     (if offset b + delta < limit b then Inr (offset b, b\<lparr>offset := offset b + delta\<rparr>)
      else Inl AssertionFailed)"

text \<open>
  \<^verbatim>\<open>put(v, len)\<close>: the assertion compares \<^verbatim>\<open>static_cast<int>(_offset + len)\<close>, a 32-bit sum, with the
  limit; \<^verbatim>\<open>memcpy\<close> reads \<open>len\<close> bytes of \<open>v\<close>.
\<close>

definition put :: "u8 list \<Rightarrow> u32 \<Rightarrow> buffer_op" where
  "put v len b =
     (if sint (word_of_nat (offset b) + len :: u32) < int (limit b)
      then if unat len \<le> length v then store (take (unat len) v) b else Inl OutOfBounds
      else Inl AssertionFailed)"

definition put8 :: "u8 \<Rightarrow> buffer_op" where
  "put8 v b = (if offset b < limit b then store [v] b else Inl AssertionFailed)"

text \<open>\<^verbatim>\<open>htons\<close>, \<^verbatim>\<open>htonl\<close> and \<^verbatim>\<open>OS::hton64\<close>: the bytes in network order.\<close>

definition be16 :: "u16 \<Rightarrow> u8 list" where
  "be16 v = [ucast (drop_bit 8 v), ucast v]"

definition be32 :: "u32 \<Rightarrow> u8 list" where
  "be32 v = [ucast (drop_bit 24 v), ucast (drop_bit 16 v), ucast (drop_bit 8 v), ucast v]"

definition be64 :: "u64 \<Rightarrow> u8 list" where
  "be64 v = be32 (ucast (drop_bit 32 v)) @ be32 (ucast v)"

definition put16 :: "u16 \<Rightarrow> buffer_op" where
  "put16 v b = (if offset b + 2 < limit b then store (be16 v) b else Inl AssertionFailed)"

definition put32 :: "u32 \<Rightarrow> buffer_op" where
  "put32 v b = (if offset b + 4 < limit b then store (be32 v) b else Inl AssertionFailed)"

definition put64 :: "u64 \<Rightarrow> buffer_op" where
  "put64 v b = (if offset b + 8 < limit b then store (be64 v) b else Inl AssertionFailed)"

text \<open>\<^verbatim>\<open>putFloat\<close> reinterprets the float as an integer; a float is given by its bit pattern.\<close>

definition putFloat :: "u32 \<Rightarrow> buffer_op" where
  "putFloat f = put32 f"

text \<open>\<^verbatim>\<open>(char)v | 0x80\<close>.\<close>

definition cont_byte :: "'a::len word \<Rightarrow> u8" where
  "cont_byte v = ucast v OR 0x80"

text \<open>The loop \<^verbatim>\<open>while (v > 0x7f)\<close> and the final byte, for \<^verbatim>\<open>u32\<close> and \<^verbatim>\<open>u64\<close>.\<close>

function var_loop :: "'a::len word \<Rightarrow> u8 list" where
  "var_loop v = (if unat v > 0x7f then cont_byte v # var_loop (drop_bit 7 v) else [ucast v])"
  by pat_completeness auto
termination
  by (relation "measure unat") (use drop_bit_decreases in auto)

declare var_loop.simps [simp del]

definition putVar32 :: "u32 \<Rightarrow> buffer_op" where
  "putVar32 v b = (if offset b + 5 < limit b then store (var_loop v) b else Inl AssertionFailed)"

text \<open>
  \<^verbatim>\<open>putVar64\<close>: three bytes per round while more than 21 bits are left, stopping after the third round
  (nine bytes) without a final byte; otherwise the loop above.
\<close>

function var64_loop :: "nat \<Rightarrow> u64 \<Rightarrow> u8 list" where
  "var64_loop iter v =
     (if unat v > 0x1fffff
      then [cont_byte v, cont_byte (drop_bit 7 v), cont_byte (drop_bit 14 v)]
           @ (if iter + 1 = 3 then [] else var64_loop (iter + 1) (drop_bit 21 v))
      else var_loop v)"
  by pat_completeness auto
termination
  by (relation "measure (\<lambda>(_, v). unat v)") (use drop_bit_decreases in auto)

declare var64_loop.simps [simp del]

definition putVar64 :: "u64 \<Rightarrow> buffer_op" where
  "putVar64 v b =
     (if offset b + 9 < limit b then store (var64_loop 0 v) b else Inl AssertionFailed)"

text \<open>\<^verbatim>\<open>putUtf8(v, len)\<close> truncates to \<^verbatim>\<open>MAX_STRING_LENGTH\<close>; NULL is written as the single byte 0.\<close>

definition putUtf8_len :: "u8 list \<Rightarrow> u32 \<Rightarrow> buffer_op" where
  "putUtf8_len v len =
     (let l = (if unat len < MAX_STRING_LENGTH then len else word_of_nat MAX_STRING_LENGTH)
      in run_ops [put8 3, putVar32 l, put v l])"

definition putUtf8 :: "u8 list option \<Rightarrow> buffer_op" where
  "putUtf8 v =
     (case v of None \<Rightarrow> put8 0 | Some s \<Rightarrow> putUtf8_len s (word_of_nat (length s)))"

text \<open>The overwriting forms: one byte, or five bytes that patch a skipped size field.\<close>

definition put8_at :: "nat \<Rightarrow> u8 \<Rightarrow> buffer_op" where
  "put8_at off v b =
     (if off < length (data b) then Inr (b\<lparr>data := (data b)[off := v]\<rparr>) else Inl OutOfBounds)"

definition var32_padded :: "u32 \<Rightarrow> u8 list" where
  "var32_padded v =
     [cont_byte v, cont_byte (drop_bit 7 v), cont_byte (drop_bit 14 v), cont_byte (drop_bit 21 v),
      ucast (drop_bit 28 v)]"

definition putVar32_at :: "nat \<Rightarrow> u32 \<Rightarrow> buffer_op" where
  "putVar32_at off v b =
     (if off + 5 \<le> length (data b)
      then Inr (b\<lparr>data := overwrite off (var32_padded v) (data b)\<rparr>) else Inl OutOfBounds)"

section \<open>Contracts of the write operations\<close>

definition wf_buffer :: "buffer \<Rightarrow> bool" where
  "wf_buffer b \<longleftrightarrow> limit b \<le> length (data b) \<and> offset b \<le> length (data b) \<and> length (data b) < 2 ^ 30"

text \<open>The bytes written since the last flush.\<close>

definition contents :: "buffer \<Rightarrow> u8 list" where
  "contents b = take (offset b) (data b)"

definition append_bytes :: "u8 list \<Rightarrow> buffer \<Rightarrow> buffer" where
  "append_bytes bs b = b\<lparr>offset := offset b + length bs, data := overwrite (offset b) bs (data b)\<rparr>"

definition appends :: "nat \<Rightarrow> u8 list \<Rightarrow> buffer_op \<Rightarrow> bool" where
  "appends n bs op \<longleftrightarrow> length bs \<le> n \<and>
     (\<forall>b. wf_buffer b \<longrightarrow> offset b + n < limit b \<longrightarrow> op b = Inr (append_bytes bs b))"

lemma wf_new_Buffer: "wf_buffer new_Buffer"
  by (simp add: wf_buffer_def new_Buffer_def buffer_consts)

lemma wf_new_RecordingBuffer: "wf_buffer (new_RecordingBuffer junk)"
  by (simp add: wf_buffer_def new_RecordingBuffer_def buffer_consts)

lemma append_bytes_simps [simp]:
  "offset (append_bytes bs b) = offset b + length bs"
  "limit (append_bytes bs b) = limit b"
  "append_bytes [] b = b"
  by (simp_all add: append_bytes_def)

lemma wf_append_bytes [simp]:
  "wf_buffer b \<Longrightarrow> offset b + length bs \<le> limit b \<Longrightarrow> wf_buffer (append_bytes bs b)"
  by (auto simp: wf_buffer_def append_bytes_def)

lemma contents_append_bytes:
  "wf_buffer b \<Longrightarrow> contents (append_bytes bs b) = contents b @ bs"
  by (simp add: contents_def append_bytes_def wf_buffer_def)

lemma append_bytes_append_bytes:
  "wf_buffer b \<Longrightarrow> offset b + length as + length bs \<le> limit b \<Longrightarrow>
   append_bytes bs (append_bytes as b) = append_bytes (as @ bs) b"
  by (simp add: append_bytes_def wf_buffer_def overwrite_append add.assoc)

lemma store_eq:
  "wf_buffer b \<Longrightarrow> offset b + length bs \<le> limit b \<Longrightarrow> store bs b = Inr (append_bytes bs b)"
  by (simp add: store_def append_bytes_def wf_buffer_def)

lemma appendsD:
  "appends n bs op \<Longrightarrow> wf_buffer b \<Longrightarrow> offset b + n < limit b \<Longrightarrow> op b = Inr (append_bytes bs b)"
  by (simp add: appends_def)

lemma appends_length: "appends n bs op \<Longrightarrow> length bs \<le> n"
  by (simp add: appends_def)

lemma appends_mono: "appends n bs op \<Longrightarrow> n \<le> m \<Longrightarrow> appends m bs op"
  by (auto simp: appends_def)

lemma appends_Nil: "appends 0 [] (run_ops [])"
  by (simp add: appends_def)

lemma appends_Cons:
  assumes "appends n as f" and "appends m bs (run_ops fs)"
  shows "appends (n + m) (as @ bs) (run_ops (f # fs))"
  unfolding appends_def
proof (intro conjI allI impI)
  show "length (as @ bs) \<le> n + m"
    using assms by (auto dest!: appends_length)
  fix b
  assume wf: "wf_buffer b" and room: "offset b + (n + m) < limit b"
  have la: "length as \<le> n" and lb: "length bs \<le> m"
    using assms by (auto dest: appends_length)
  have "f b = Inr (append_bytes as b)"
    using assms(1) wf room by (simp add: appendsD)
  moreover have "run_ops fs (append_bytes as b) = Inr (append_bytes bs (append_bytes as b))"
  proof (rule appendsD [OF assms(2)])
    show "wf_buffer (append_bytes as b)" using wf room la by simp
    show "offset (append_bytes as b) + m < limit (append_bytes as b)" using room la by simp
  qed
  ultimately show "run_ops (f # fs) b = Inr (append_bytes (as @ bs) b)"
    using wf room la lb by (simp add: append_bytes_append_bytes)
qed

lemma appends_append:
  assumes "appends n as (run_ops fs)" and "appends m bs (run_ops gs)"
  shows "appends (n + m) (as @ bs) (run_ops (fs @ gs))"
proof -
  have "appends (n + m) (as @ bs) (run_ops (run_ops fs # gs))"
    using assms by (rule appends_Cons)
  moreover have "run_ops (run_ops fs # gs) = run_ops (fs @ gs)"
    by (simp add: fun_eq_iff run_ops_append)
  ultimately show ?thesis by simp
qed

lemma appends_put8: "appends 1 [v] (put8 v)"
  by (auto simp: appends_def put8_def store_eq)

lemma appends_put16: "appends 2 (be16 v) (put16 v)"
  by (auto simp: appends_def put16_def be16_def store_eq)

lemma length_be32 [simp]: "length (be32 v) = 4"
  by (simp add: be32_def)

lemma length_be64 [simp]: "length (be64 v) = 8"
  by (simp add: be64_def)

lemma appends_put32: "appends 4 (be32 v) (put32 v)"
  by (auto simp: appends_def put32_def store_eq)

lemma appends_putFloat: "appends 4 (be32 v) (putFloat v)"
  by (simp add: putFloat_def appends_put32)

lemma appends_put64: "appends 8 (be64 v) (put64 v)"
  by (auto simp: appends_def put64_def store_eq)

lemma appends_put:
  assumes "unat len \<le> length v" and "unat len < 2 ^ 30"
  shows "appends (unat len) (take (unat len) v) (put v len)"
  unfolding appends_def
proof (intro conjI allI impI)
  show "length (take (unat len) v) \<le> unat len" by simp
  fix b
  assume wf: "wf_buffer b" and room: "offset b + unat len < limit b"
  have small: "offset b + unat len < 2 ^ 31"
    using wf assms(2) by (simp add: wf_buffer_def)
  then have "unat (word_of_nat (offset b) + len :: u32) = offset b + unat len"
    using wf by (simp add: unat_word_ariths unat_of_nat take_bit_eq_mod wf_buffer_def)
  then have "sint (word_of_nat (offset b) + len :: u32) = int (offset b + unat len)"
    using small by (simp add: sint_u32_small)
  then have "sint (word_of_nat (offset b) + len :: u32) < int (limit b)"
    using room by (simp only: of_nat_less_iff)
  then show "put v len b = Inr (append_bytes (take (unat len) v) b)"
    using assms(1) wf room by (simp add: put_def store_eq)
qed

section \<open>Variable-length integers\<close>

text \<open>
  The reader's side, as the JFR format defines it: seven bits per byte, least significant first, the
  top bit marking that more bytes follow; \<open>k\<close> more bytes may follow, and the last possible byte
  contributes all its eight bits. A 64-bit value takes at most nine bytes.
\<close>

fun read_varint :: "nat \<Rightarrow> u8 list \<Rightarrow> (nat \<times> u8 list) option" where
  "read_varint k [] = None"
| "read_varint 0 (b # bs) = Some (unat b, bs)"
| "read_varint (Suc k) (b # bs) =
     (if unat b < 128 then Some (unat b, bs)
      else map_option (\<lambda>(v, r). (unat b - 128 + 128 * v, r)) (read_varint k bs))"

definition jfr_read_long :: "u8 list \<Rightarrow> (nat \<times> u8 list) option" where
  "jfr_read_long bs = read_varint 8 bs"

lemma unat_cont_byte [simp]: "unat (cont_byte v) = unat v mod 128 + 128"
  by (simp add: cont_byte_def unat_ucast_or_128)

lemma unat_last_byte: "unat (v :: 'a::len word) \<le> 127 \<Longrightarrow> unat (ucast v :: u8) = unat v"
  by (simp add: unat_ucast_u8)

lemma read_var_loop:
  "unat v < 128 ^ Suc k \<Longrightarrow> read_varint k (var_loop v @ rest) = Some (unat v, rest)"
proof (induction v arbitrary: k rule: var_loop.induct)
  case (1 v)
  show ?case
  proof (cases "unat v > 0x7f")
    case True
    then obtain j where k: "k = Suc j"
      using "1.prems" by (cases k) auto
    have "unat v div 128 < 128 ^ Suc j"
      using "1.prems" by (simp add: k less_mult_imp_div_less mult.commute)
    then have "read_varint j (var_loop (drop_bit 7 v) @ rest) = Some (unat v div 128, rest)"
      using "1.IH" [OF True, of j] by simp
    with True show ?thesis by (simp add: var_loop.simps [of v] k)
  next
    case False
    then show ?thesis
      by (cases k) (simp_all add: var_loop.simps [of v] unat_last_byte)
  qed
qed

lemma length_var_loop: "unat v < 128 ^ Suc k \<Longrightarrow> length (var_loop v) \<le> Suc k"
proof (induction v arbitrary: k rule: var_loop.induct)
  case (1 v)
  show ?case
  proof (cases "unat v > 0x7f")
    case True
    then obtain j where k: "k = Suc j"
      using "1.prems" by (cases k) auto
    have "unat v div 128 < 128 ^ Suc j"
      using "1.prems" by (simp add: k less_mult_imp_div_less mult.commute)
    with "1.IH" [OF True, of j] True show ?thesis by (simp add: var_loop.simps [of v] k)
  qed (simp add: var_loop.simps [of v])
qed

lemma u32_less: "unat (v :: u32) < 2 ^ 32"
  using unsigned_less [of v] by simp

lemma u64_less: "unat (v :: u64) < 2 ^ 64"
  using unsigned_less [of v] by simp

text \<open>
  The unrolled loop: with \<open>iter\<close> rounds done, \<open>64 - 21 iter\<close> bits are left. A third round only
  happens when the top bit of the 64-bit value is set, which is why the bit that is or-ed into the
  ninth byte changes nothing.
\<close>

lemma base128_split:
  fixes n x :: nat
  shows "n mod 128 + 128 * (n div 2 ^ 7 mod 128 + 128 * (n div 2 ^ 14 mod 128 + 128 * x))
         = n mod 2 ^ 21 + 2 ^ 21 * x"
proof -
  have "n mod (128 * 16384) = 128 * (n div 128 mod 16384) + n mod 128"
    by (rule mod_mult2_eq)
  moreover have "n div 128 mod (128 * 128) = 128 * (n div 128 div 128 mod 128) + n div 128 mod 128"
    by (rule mod_mult2_eq)
  ultimately show ?thesis by (simp add: div_mult2_eq [symmetric])
qed

lemma read_three_bytes:
  "read_varint (Suc (Suc (Suc j)))
     ([cont_byte v, cont_byte (drop_bit 7 v), cont_byte (drop_bit 14 v)] @ r)
   = map_option (\<lambda>(x, r). (unat v mod 2 ^ 21 + 2 ^ 21 * x, r)) (read_varint j r)"
  using base128_split [of "unat v"] by (cases "read_varint j r") auto

lemma read_last_round:
  assumes "unat v < 2 ^ 22" and "unat v > 0x1fffff"
  shows "read_varint 2 ([cont_byte v, cont_byte (drop_bit 7 v), cont_byte (drop_bit 14 v)] @ r)
         = Some (unat v, r)"
proof -
  let ?n = "unat v"
  have "?n mod 2 ^ 21 = ?n - 2 ^ 21"
    using assms by (simp add: mod_if)
  then have "?n mod 128 + 128 * (?n div 2 ^ 7 mod 128 + 128 * (?n div 2 ^ 14 mod 128 + 128)) = ?n"
    using base128_split [of ?n 1] assms by simp
  then show ?thesis by (simp add: numeral_2_eq_2)
qed

lemma drop_round:
  fixes v :: u64
  assumes "iter + 1 < 3" and "unat v < 2 ^ (64 - 21 * iter)"
  shows "unat (drop_bit 21 v) < 2 ^ (64 - 21 * (iter + 1))"
proof -
  define m where "m = 64 - 21 * (iter + 1)"
  have "64 - 21 * iter = m + 21" using assms(1) by (simp add: m_def)
  then have "unat v < 2 ^ m * 2 ^ 21"
    using assms(2) by (simp only: power_add)
  then have "unat v div 2 ^ 21 < 2 ^ m" by (rule less_mult_imp_div_less)
  then show ?thesis by (simp only: unat_drop_bit_div m_def)
qed

lemma read_var64_loop:
  assumes "iter < 3" and "unat v < 2 ^ (64 - 21 * iter)"
  shows "read_varint (8 - 3 * iter) (var64_loop iter v @ rest) = Some (unat v, rest)"
  using assms
proof (induction iter v rule: var64_loop.induct)
  case (1 iter v)
  show ?case
  proof (cases "unat v > 0x1fffff")
    case False
    have "unat v < 128 ^ Suc (8 - 3 * iter)"
    proof (rule less_le_trans)
      show "unat v < 128 ^ Suc 2" using False by simp
      show "(128::nat) ^ Suc 2 \<le> 128 ^ Suc (8 - 3 * iter)"
        using "1.prems"(1) by (intro power_increasing) auto
    qed
    with False show ?thesis
      by (simp add: var64_loop.simps [of iter v] read_var_loop)
  next
    case True
    show ?thesis
    proof (cases "iter = 2")
      case True
      with \<open>unat v > 0x1fffff\<close> "1.prems" show ?thesis
        using read_last_round [of v rest] by (simp add: var64_loop.simps [of 2 v])
    next
      case False
      with "1.prems"(1) have iter: "iter + 1 < 3" "iter + 1 \<noteq> 3" by auto
      define j where "j = 8 - 3 * (iter + 1)"
      have k: "8 - 3 * iter = Suc (Suc (Suc j))" using iter by (simp add: j_def)
      have "unat (drop_bit 21 v) < 2 ^ (64 - 21 * (iter + 1))"
        using iter(1) "1.prems"(2) by (rule drop_round)
      then have "read_varint j (var64_loop (iter + 1) (drop_bit 21 v) @ rest)
                 = Some (unat v div 2 ^ 21, rest)"
        using "1.IH" [OF True iter(2,1)] by (simp add: j_def)
      with True iter(2) show ?thesis
        unfolding k var64_loop.simps [of iter v]
        using read_three_bytes [of j v "var64_loop (iter + 1) (drop_bit 21 v) @ rest"]
        by simp
    qed
  qed
qed

lemma length_var64_loop:
  "iter < 3 \<Longrightarrow> unat v < 2 ^ (64 - 21 * iter) \<Longrightarrow> length (var64_loop iter v) \<le> 9 - 3 * iter"
proof (induction iter v rule: var64_loop.induct)
  case (1 iter v)
  show ?case
  proof (cases "unat v > 0x1fffff")
    case False
    then have "length (var_loop v) \<le> 3" using length_var_loop [of v 2] by simp
    with False "1.prems"(1) show ?thesis by (simp add: var64_loop.simps [of iter v])
  next
    case True
    show ?thesis
    proof (cases "iter = 2")
      case False
      with "1.prems"(1) have iter: "iter + 1 \<noteq> 3" "iter + 1 < 3" by auto
      have "unat (drop_bit 21 v) < 2 ^ (64 - 21 * (iter + 1))"
        using iter(2) "1.prems"(2) by (rule drop_round)
      then have "length (var64_loop (iter + 1) (drop_bit 21 v)) \<le> 9 - 3 * (iter + 1)"
        by (rule "1.IH" [OF True iter])
      with True iter show ?thesis by (simp add: var64_loop.simps [of iter v])
    qed (simp add: True var64_loop.simps [of 2 v])
  qed
qed

lemma length_var64: "length (var64_loop 0 v) \<le> 9"
  using length_var64_loop [of 0 v] u64_less [of v] by simp

lemma length_var32: "length (var_loop (v :: u32)) \<le> 5"
  using length_var_loop [of v 4] u32_less [of v] by simp

lemma appends_putVar64: "appends 9 (var64_loop 0 v) (putVar64 v)"
  using length_var64 [of v] by (auto simp: appends_def putVar64_def store_eq)

lemma appends_putVar32: "appends 5 (var_loop v) (putVar32 v)"
  using length_var32 [of v] by (auto simp: appends_def putVar32_def store_eq)

section \<open>Strings and patched size fields\<close>

definition utf8_bytes :: "u8 list \<Rightarrow> u8 list" where
  "utf8_bytes s = (let n = min (length s) MAX_STRING_LENGTH
                   in 3 # var_loop (word_of_nat n :: u32) @ take n s)"

lemma appends_putUtf8_len:
  assumes "unat len = length v" and "length v < 2 ^ 32"
  shows "appends (6 + min (length v) MAX_STRING_LENGTH) (utf8_bytes v) (putUtf8_len v len)"
proof -
  define n where "n = min (length v) MAX_STRING_LENGTH"
  define l where "l = (if unat len < MAX_STRING_LENGTH then len else word_of_nat MAX_STRING_LENGTH)"
  have n: "n \<le> length v" "n < 2 ^ 30"
    by (auto simp: n_def MAX_STRING_LENGTH_def)
  have un: "unat l = n"
    using assms(1) by (auto simp: l_def n_def MAX_STRING_LENGTH_def unat_of_nat take_bit_eq_mod)
  then have l: "l = word_of_nat n"
    by (simp flip: un)
  have "appends (1 + (5 + (unat l + 0))) ([3] @ var_loop l @ take (unat l) v @ [])
          (run_ops [put8 3, putVar32 l, put v l])"
    using n un by (intro appends_Cons appends_put8 appends_putVar32 appends_put appends_Nil) simp_all
  then have "appends (6 + n) (3 # var_loop l @ take n v) (run_ops [put8 3, putVar32 l, put v l])"
    using un by (simp del: run_ops.simps)
  then show ?thesis
    by (simp add: putUtf8_len_def utf8_bytes_def Let_def n_def l del: run_ops.simps flip: l_def)
qed

lemma appends_putUtf8_Some:
  "length s < 2 ^ 32 \<Longrightarrow>
   appends (6 + min (length s) MAX_STRING_LENGTH) (utf8_bytes s) (putUtf8 (Some s))"
  using appends_putUtf8_len [of "word_of_nat (length s)" s]
  by (simp add: putUtf8_def unat_of_nat take_bit_eq_mod)

lemma appends_putUtf8_None: "appends 1 [0] (putUtf8 None)"
  using appends_put8 [of 0] by (simp add: putUtf8_def)

lemma length_utf8_bytes: "length (utf8_bytes s) \<le> 6 + length s"
  using length_var32 [of "word_of_nat (min (length s) MAX_STRING_LENGTH)"]
  by (simp add: utf8_bytes_def Let_def)

text \<open>Skipping bytes for a size field and patching them later is the same as having written the field
  first: whatever the skipped bytes held is overwritten.\<close>

lemma skip_eq:
  assumes "wf_buffer b" and "offset b + n < limit b"
  obtains stale where "length stale = n" and "skip n b = Inr (offset b, append_bytes stale b)"
proof
  let ?stale = "take n (drop (offset b) (data b))"
  show len: "length ?stale = n" using assms by (auto simp: wf_buffer_def)
  have "overwrite (offset b) ?stale (data b) = data b"
    using append_take_drop_id [of n "drop (offset b) (data b)"]
      append_take_drop_id [of "offset b" "data b"]
    unfolding overwrite_def len by (simp only: drop_drop add.commute)
  with len assms(2) show "skip n b = Inr (offset b, append_bytes ?stale b)"
    by (simp add: skip_def append_bytes_def)
qed

lemma put8_at_patch:
  "wf_buffer b \<Longrightarrow> offset b + length bs < limit b \<Longrightarrow>
   put8_at (offset b) v (append_bytes (x # bs) b) = Inr (append_bytes (v # bs) b)"
  by (auto simp: put8_at_def append_bytes_def wf_buffer_def overwrite_def list_update_append)

lemma length_var32_padded [simp]: "length (var32_padded v) = 5"
  by (simp add: var32_padded_def)

lemma putVar32_at_patch:
  assumes "wf_buffer b" and "length stale = 5" and "offset b + 5 + length bs \<le> limit b"
  shows "putVar32_at (offset b) v (append_bytes (stale @ bs) b)
         = Inr (append_bytes (var32_padded v @ bs) b)"
  using assms
  by (simp add: putVar32_at_def append_bytes_def wf_buffer_def overwrite_def)

lemma read_var32_padded:
  "read_varint 8 (var32_padded v @ rest) = Some (unat v, rest)"
proof -
  let ?n = "unat v"
  have "?n div 2 ^ 28 < 16"
    using u32_less [of v] by (simp add: less_mult_imp_div_less)
  then have last: "unat (ucast (drop_bit 28 v) :: u8) = ?n div 2 ^ 28"
    by (simp add: unat_ucast_u8)
  have "?n div 2 ^ 21 mod 128 + 128 * (?n div 2 ^ 28) = ?n div 2 ^ 21"
    using mod_mult_div_eq [of "?n div 2 ^ 21" 128] by (simp add: div_mult2_eq [symmetric])
  with last \<open>?n div 2 ^ 28 < 16\<close>
  have "read_varint (Suc (Suc k)) ([cont_byte (drop_bit 21 v), ucast (drop_bit 28 v)] @ rest)
        = Some (?n div 2 ^ 21, rest)" for k
    by simp
  then have "read_varint (Suc (Suc (Suc (Suc (Suc 3)))))
      ([cont_byte v, cont_byte (drop_bit 7 v), cont_byte (drop_bit 14 v)]
       @ [cont_byte (drop_bit 21 v), ucast (drop_bit 28 v)] @ rest) = Some (?n, rest)"
    unfolding read_three_bytes [of "Suc (Suc 3)"]
    by (simp only: read_three_bytes option.map case_prod_conv mod_mult_div_eq)
  then show ?thesis by (simp add: var32_padded_def del: read_varint.simps)
qed

lemma read_var64: "jfr_read_long (var64_loop 0 v @ rest) = Some (unat v, rest)"
  using read_var64_loop [of 0 v rest] u64_less [of v] by (simp add: jfr_read_long_def)

lemma read_var32: "jfr_read_long (var_loop (v :: u32) @ rest) = Some (unat v, rest)"
  using read_var_loop [of v 8 rest] u32_less [of v] by (simp add: jfr_read_long_def)

lemmas appends_intros =
  appends_Cons appends_Nil appends_put8 appends_put16 appends_put32 appends_put64 appends_putFloat
  appends_putVar32 appends_putVar64 appends_putUtf8_None

section \<open>Properties\<close>

text \<open>
  C16. \<^verbatim>\<open>putVar64\<close>: with nine bytes of room it succeeds for every 64-bit value, appends at most nine
  bytes, and a JFR reader decodes exactly the value from them, whatever follows.
\<close>

theorem putVar64_roundtrip:
  assumes "wf_buffer b" and "offset b + 9 < limit b"
  shows "\<exists>b' bs. putVar64 v b = Inr b' \<and> wf_buffer b' \<and> contents b' = contents b @ bs \<and> length bs \<le> 9
     \<and> jfr_read_long (bs @ rest) = Some (unat v, rest)"
  using appendsD [OF appends_putVar64 assms] assms length_var64 [of v]
  by (auto simp: contents_append_bytes read_var64)

theorem putVar64_roundtrip_witness:
  "\<exists>b' bs. putVar64 (2 ^ 63 + 5) new_Buffer = Inr b' \<and> wf_buffer b' \<and> contents b' = bs \<and> length bs \<le> 9
     \<and> jfr_read_long (bs @ []) = Some (unat (2 ^ 63 + 5 :: u64), [])"
  using putVar64_roundtrip [of new_Buffer "2 ^ 63 + 5" "[]"] wf_new_Buffer
  by (simp add: new_Buffer_def buffer_consts contents_def)

text \<open>
  \<^verbatim>\<open>putVar32\<close>: with five bytes of room it appends at most five bytes, which a JFR reader decodes to
  the value.
\<close>

theorem putVar32_roundtrip:
  assumes "wf_buffer b" and "offset b + 5 < limit b"
  shows "\<exists>b' bs. putVar32 v b = Inr b' \<and> wf_buffer b' \<and> contents b' = contents b @ bs \<and> length bs \<le> 5
     \<and> jfr_read_long (bs @ rest) = Some (unat v, rest)"
  using appendsD [OF appends_putVar32 assms] assms length_var32 [of v]
  by (auto simp: contents_append_bytes read_var32)

theorem putVar32_roundtrip_witness:
  "\<exists>b' bs. putVar32 300 new_Buffer = Inr b' \<and> wf_buffer b' \<and> contents b' = bs \<and> length bs \<le> 5
     \<and> jfr_read_long (bs @ [7]) = Some (300, [7])"
  using putVar32_roundtrip [of new_Buffer 300 "[7]"] wf_new_Buffer
  by (simp add: new_Buffer_def buffer_consts contents_def)

text \<open>
  C40. A string is written as its tag, its length and its bytes, cut at \<^verbatim>\<open>MAX_STRING_LENGTH\<close>: a reader
  finds the tag 3, decodes the length and is left with that many bytes of the string.
\<close>

theorem putUtf8_roundtrip:
  assumes "wf_buffer b" and "length s < 2 ^ 32" and "offset b + 6 + min (length s) 8191 < limit b"
  shows "\<exists>b' bs. putUtf8 (Some s) b = Inr b' \<and> wf_buffer b' \<and> contents b' = contents b @ 3 # bs
     \<and> jfr_read_long (bs @ rest) = Some (min (length s) 8191, take 8191 s @ rest)"
proof -
  let ?n = "min (length s) 8191"
  have room: "offset b + (6 + min (length s) MAX_STRING_LENGTH) < limit b"
    using assms(3) by (simp add: MAX_STRING_LENGTH_def)
  have len: "length (utf8_bytes s) \<le> 6 + min (length s) MAX_STRING_LENGTH"
    by (rule appends_length [OF appends_putUtf8_Some [OF assms(2)]])
  have "unat (word_of_nat ?n :: u32) = ?n"
    by (simp add: unat_of_nat take_bit_eq_mod min_def)
  moreover have "take ?n s = take 8191 s" by (simp add: min_def)
  ultimately have "jfr_read_long (var_loop (word_of_nat ?n :: u32) @ take ?n s @ rest)
      = Some (?n, take 8191 s @ rest)"
    by (simp only: read_var32)
  then show ?thesis
    using appendsD [OF appends_putUtf8_Some [OF assms(2)] assms(1) room] assms(1) room len
    by (auto simp: contents_append_bytes utf8_bytes_def Let_def MAX_STRING_LENGTH_def)
qed

theorem putUtf8_roundtrip_witness:
  "\<exists>b' bs. putUtf8 (Some [72, 105]) new_Buffer = Inr b' \<and> wf_buffer b' \<and> contents b' = 3 # bs
     \<and> jfr_read_long (bs @ [9]) = Some (Suc 1, [72, 105, 9])"
  using putUtf8_roundtrip [of new_Buffer "[72, 105]" "[9]"] wf_new_Buffer
  by (simp add: new_Buffer_def buffer_consts contents_def)

text \<open>
  A skipped five-byte size field that is patched later reads back as the patched value, and the
  bytes before and after it are untouched.
\<close>

theorem skip_patch_roundtrip:
  assumes "wf_buffer b" and "offset b + 5 + length bs < limit b" and "skip 5 b = Inr (here, b1)"
  shows "\<exists>b2 sz. putVar32_at here v (append_bytes bs b1) = Inr b2
     \<and> contents b2 = contents b @ sz @ bs \<and> length sz = 5
     \<and> jfr_read_long (sz @ rest) = Some (unat v, rest)"
proof -
  obtain stale where stale: "length stale = 5" "skip 5 b = Inr (offset b, append_bytes stale b)"
    using skip_eq [OF assms(1), of 5] assms(2) by auto
  then have here: "here = offset b" "append_bytes bs b1 = append_bytes (stale @ bs) b"
    using assms append_bytes_append_bytes [of b stale bs] by auto
  have "putVar32_at here v (append_bytes bs b1) = Inr (append_bytes (var32_padded v @ bs) b)"
    unfolding here using assms stale by (intro putVar32_at_patch) auto
  then show ?thesis
    using assms(1) by (auto simp: contents_append_bytes jfr_read_long_def read_var32_padded)
qed

theorem skip_patch_roundtrip_witness:
  "\<exists>b2 sz. putVar32_at 0 1000 (append_bytes [1, 2] (new_Buffer\<lparr>offset := 5\<rparr>)) = Inr b2
     \<and> contents b2 = sz @ [1, 2] \<and> length sz = 5 \<and> jfr_read_long (sz @ []) = Some (1000, [])"
  using skip_patch_roundtrip [of new_Buffer "[1, 2]" 0 "new_Buffer\<lparr>offset := 5\<rparr>" 1000 "[]"] wf_new_Buffer
  by (simp add: new_Buffer_def buffer_consts contents_def skip_def)

text \<open>
  The overflow area does its job: on a recording buffer, a field write that passes its assertion
  stays inside the buffer's memory, and one that does not is stopped by the assertion.
\<close>

theorem recording_buffer_in_bounds:
  assumes "wf_buffer b"
  shows "put8 v8 b \<noteq> Inl OutOfBounds \<and> put16 v16 b \<noteq> Inl OutOfBounds \<and> put32 v32 b \<noteq> Inl OutOfBounds
     \<and> put64 v64 b \<noteq> Inl OutOfBounds \<and> putVar32 v32 b \<noteq> Inl OutOfBounds \<and> putVar64 v64 b \<noteq> Inl OutOfBounds
     \<and> (b' = new_RecordingBuffer junk \<longrightarrow> limit b' + 8192 < length (data b'))"
  using assms length_var32 [of v32] length_var64 [of v64]
  by (auto simp: put8_def put16_def put32_def put64_def putVar32_def putVar64_def store_def wf_buffer_def
      be16_def new_RecordingBuffer_def buffer_consts)

theorem recording_buffer_in_bounds_witness:
  "put8 1 new_Buffer \<noteq> Inl OutOfBounds"
  using recording_buffer_in_bounds [OF wf_new_Buffer] by simp

end
