(* ===== verification/Locks.thy ===== *)
theory Locks
  imports Prelude
begin

text \<open>
  Model of \<^verbatim>\<open>spinLock.h\<close> (\<^verbatim>\<open>SpinLock\<close>), \<^verbatim>\<open>threadLocalData.h\<close> and \<^verbatim>\<open>asyncSampleMutex.h\<close>.

  The lock word is 0 when free, 1 when held exclusively and \<open>- n\<close> when \<open>n\<close> threads share it. The
  operations are given twice: as functions of the lock word, which is what a thread sees when no other
  thread intervenes and what the sequential models of the clients use, and as a step relation in which
  every atomic instruction (the relaxed load, the compare-and-swap, the fetch-and-add) is a step of its
  own and any number of threads interleave. The invariant of the step relation gives mutual exclusion.
  The locale \<open>rw_lock\<close> states what the clients rely on.
\<close>

section \<open>The operations on the lock word\<close>

definition tryLock :: "int \<Rightarrow> bool \<times> int" where
  "tryLock l = (if l = 0 then (True, 1) else (False, l))"

definition unlock :: "int \<Rightarrow> int" where
  "unlock l = l - 1"

text \<open>The loop repeats only when another thread changed the word between the load and the
  compare-and-swap.\<close>

definition tryLockShared :: "int \<Rightarrow> bool \<times> int" where
  "tryLockShared l = (if l \<le> 0 then (True, l - 1) else (False, l))"

definition unlockShared :: "int \<Rightarrow> int" where
  "unlockShared l = l + 1"

definition reset_lock :: "int \<Rightarrow> int" where
  "reset_lock l = 0"

section \<open>Interleaved execution\<close>

text \<open>
  Where a thread is with respect to the lock: outside, between the load of \<^verbatim>\<open>tryLockShared\<close> or
  \<^verbatim>\<open>lockShared\<close> and its compare-and-swap (with the loaded value), or in a section.
\<close>

datatype lock_pc = Outside | Loaded int | InShared | InExclusive

record spin_state =
  lock_word :: int
  pc :: "nat \<Rightarrow> lock_pc"

definition spin_init :: spin_state where
  "spin_init = \<lparr>lock_word = 0, pc = (\<lambda>_. Outside)\<rparr>"

inductive spin_step :: "spin_state \<Rightarrow> spin_state \<Rightarrow> bool" where
  cas_exclusive: "pc s t = Outside \<Longrightarrow> lock_word s = 0 \<Longrightarrow>
    spin_step s (s\<lparr>lock_word := 1, pc := (pc s)(t := InExclusive)\<rparr>)"
| cas_exclusive_fails: "pc s t = Outside \<Longrightarrow> lock_word s \<noteq> 0 \<Longrightarrow> spin_step s s"
| fetch_and_sub: "pc s t = InExclusive \<Longrightarrow>
    spin_step s (s\<lparr>lock_word := lock_word s - 1, pc := (pc s)(t := Outside)\<rparr>)"
| load_shared: "pc s t = Outside \<Longrightarrow> lock_word s \<le> 0 \<Longrightarrow>
    spin_step s (s\<lparr>pc := (pc s)(t := Loaded (lock_word s))\<rparr>)"
| load_shared_busy: "pc s t = Outside \<Longrightarrow> lock_word s > 0 \<Longrightarrow> spin_step s s"
| cas_shared: "pc s t = Loaded v \<Longrightarrow> lock_word s = v \<Longrightarrow>
    spin_step s (s\<lparr>lock_word := v - 1, pc := (pc s)(t := InShared)\<rparr>)"
| cas_shared_fails: "pc s t = Loaded v \<Longrightarrow> lock_word s \<noteq> v \<Longrightarrow>
    spin_step s (s\<lparr>pc := (pc s)(t := Outside)\<rparr>)"
| fetch_and_add: "pc s t = InShared \<Longrightarrow>
    spin_step s (s\<lparr>lock_word := lock_word s + 1, pc := (pc s)(t := Outside)\<rparr>)"

inductive spin_reachable :: "spin_state \<Rightarrow> bool" where
  start: "spin_reachable spin_init"
| step: "spin_reachable s \<Longrightarrow> spin_step s s' \<Longrightarrow> spin_reachable s'"

text \<open>The threads in a section.\<close>

definition sharers :: "spin_state \<Rightarrow> nat set" where
  "sharers s = {t. pc s t = InShared}"

definition owners :: "spin_state \<Rightarrow> nat set" where
  "owners s = {t. pc s t = InExclusive}"

text \<open>
  The invariant ties the lock word to the threads in their sections; a pending compare-and-swap of a
  reader has loaded a value that no exclusive owner can leave in the word.
\<close>

definition spin_inv :: "spin_state \<Rightarrow> bool" where
  "spin_inv s \<longleftrightarrow> finite (sharers s)
     \<and> ((owners s = {} \<and> lock_word s = - int (card (sharers s)))
        \<or> (\<exists>t. owners s = {t} \<and> sharers s = {} \<and> lock_word s = 1))
     \<and> (\<forall>t v. pc s t = Loaded v \<longrightarrow> v \<le> 0)"

lemma sharers_upd [simp]:
  "sharers (s\<lparr>pc := (pc s)(t := q)\<rparr>) = (if q = InShared then insert t (sharers s) else sharers s - {t})"
  "sharers (s\<lparr>lock_word := l, pc := (pc s)(t := q)\<rparr>)
   = (if q = InShared then insert t (sharers s) else sharers s - {t})"
  by (auto simp: sharers_def)

lemma owners_upd [simp]:
  "owners (s\<lparr>pc := (pc s)(t := q)\<rparr>) = (if q = InExclusive then insert t (owners s) else owners s - {t})"
  "owners (s\<lparr>lock_word := l, pc := (pc s)(t := q)\<rparr>)
   = (if q = InExclusive then insert t (owners s) else owners s - {t})"
  by (auto simp: owners_def)

lemma section_iff:
  "t \<in> sharers s \<longleftrightarrow> pc s t = InShared"
  "t \<in> owners s \<longleftrightarrow> pc s t = InExclusive"
  by (auto simp: sharers_def owners_def)

lemma spin_inv_init: "spin_inv spin_init"
  by (simp add: spin_inv_def spin_init_def sharers_def owners_def)

lemma spin_inv_step:
  assumes "spin_step s s'" and "spin_inv s"
  shows "spin_inv s'"
  using assms
proof (induction rule: spin_step.induct)
  case (cas_exclusive s t)
  then have "sharers s = {}" and "owners s = {}"
    by (auto simp: spin_inv_def)
  with cas_exclusive show ?case by (auto simp: spin_inv_def)
next
  case (fetch_and_sub s t)
  then have "owners s = {t}" and "sharers s = {}" and "lock_word s = 1"
    by (auto simp: spin_inv_def simp flip: section_iff)
  with fetch_and_sub show ?case by (auto simp: spin_inv_def)
next
  case (load_shared s t)
  then have "t \<notin> sharers s" and "t \<notin> owners s" by (simp_all add: section_iff)
  with load_shared show ?case by (auto simp: spin_inv_def)
next
  case (cas_shared s t v)
  then have "v \<le> 0" and "t \<notin> sharers s" by (auto simp: spin_inv_def section_iff)
  with cas_shared have "owners s = {}" by (auto simp: spin_inv_def)
  with cas_shared \<open>t \<notin> sharers s\<close> show ?case by (auto simp: spin_inv_def)
next
  case (cas_shared_fails s t v)
  then have "t \<notin> sharers s" and "t \<notin> owners s" by (simp_all add: section_iff)
  with cas_shared_fails show ?case by (auto simp: spin_inv_def)
next
  case (fetch_and_add s t)
  then have t: "t \<in> sharers s" by (simp add: section_iff)
  with fetch_and_add have "owners s = {}" and "finite (sharers s)"
    by (auto simp: spin_inv_def)
  moreover from this t have "card (sharers s) > 0" by (auto simp: card_gt_0_iff)
  ultimately show ?case using fetch_and_add t by (auto simp: spin_inv_def of_nat_diff)
qed auto

lemma spin_reachable_inv: "spin_reachable s \<Longrightarrow> spin_inv s"
  by (induction rule: spin_reachable.induct) (auto intro: spin_inv_init spin_inv_step)

text \<open>What the sequential functions do is what a step does when nothing intervenes.\<close>

lemma tryLock_is_step:
  assumes "pc s t = Outside"
  shows "spin_step s (s\<lparr>lock_word := snd (tryLock (lock_word s)),
                        pc := (pc s)(t := if fst (tryLock (lock_word s)) then InExclusive else Outside)\<rparr>)"
proof (cases "lock_word s = 0")
  case True
  then show ?thesis using spin_step.cas_exclusive [OF assms] by (simp add: tryLock_def)
next
  case False
  have "s\<lparr>pc := (pc s)(t := Outside)\<rparr> = s" using assms by (simp add: fun_upd_idem)
  with False show ?thesis
    using spin_step.cas_exclusive_fails [OF assms] by (simp add: tryLock_def)
qed

section \<open>The interface the clients use\<close>

locale rw_lock =
  fixes try_lock :: "'l \<Rightarrow> bool \<times> 'l"
    and unlock_excl :: "'l \<Rightarrow> 'l"
    and try_lock_shared :: "'l \<Rightarrow> bool \<times> 'l"
    and unlock_shared :: "'l \<Rightarrow> 'l"
    and valid :: "'l \<Rightarrow> bool"
    and writer :: "'l \<Rightarrow> bool"
    and readers :: "'l \<Rightarrow> nat"
  assumes try_lock_iff: "valid l \<Longrightarrow> fst (try_lock l) \<longleftrightarrow> \<not> writer l \<and> readers l = 0"
    and try_lock_held: "valid l \<Longrightarrow> fst (try_lock l) \<Longrightarrow>
          valid (snd (try_lock l)) \<and> writer (snd (try_lock l)) \<and> unlock_excl (snd (try_lock l)) = l"
    and try_lock_failed: "valid l \<Longrightarrow> \<not> fst (try_lock l) \<Longrightarrow> snd (try_lock l) = l"
    and try_shared_iff: "valid l \<Longrightarrow> fst (try_lock_shared l) \<longleftrightarrow> \<not> writer l"
    and try_shared_held: "valid l \<Longrightarrow> fst (try_lock_shared l) \<Longrightarrow>
          valid (snd (try_lock_shared l)) \<and> \<not> writer (snd (try_lock_shared l))
          \<and> readers (snd (try_lock_shared l)) = Suc (readers l)
          \<and> unlock_shared (snd (try_lock_shared l)) = l"
    and try_shared_failed: "valid l \<Longrightarrow> \<not> fst (try_lock_shared l) \<Longrightarrow> snd (try_lock_shared l) = l"
begin

text \<open>A shared section keeps every writer out until it is left, and a writer keeps readers out.\<close>

lemma shared_excludes_writer:
  "valid l \<Longrightarrow> fst (try_lock_shared l) \<Longrightarrow> \<not> fst (try_lock (snd (try_lock_shared l)))"
  by (simp add: try_lock_iff try_shared_held)

lemma writer_excludes_all:
  assumes "valid l" and "fst (try_lock l)"
  shows "\<not> fst (try_lock (snd (try_lock l))) \<and> \<not> fst (try_lock_shared (snd (try_lock l)))"
  using try_lock_held [OF assms] by (simp add: try_lock_iff try_shared_iff)

text \<open>A balanced section leaves the lock as it found it, whether or not it was entered.\<close>

lemma shared_section_restores:
  "valid l \<Longrightarrow>
   (if fst (try_lock_shared l) then unlock_shared (snd (try_lock_shared l))
    else snd (try_lock_shared l)) = l"
  by (simp add: try_shared_held try_shared_failed)

lemma exclusive_section_restores:
  "valid l \<Longrightarrow>
   (if fst (try_lock l) then unlock_excl (snd (try_lock l)) else snd (try_lock l)) = l"
  by (simp add: try_lock_held try_lock_failed)

end

definition valid_word :: "int \<Rightarrow> bool" where
  "valid_word l \<longleftrightarrow> l \<le> 1"

definition word_writer :: "int \<Rightarrow> bool" where
  "word_writer l \<longleftrightarrow> l > 0"

definition word_readers :: "int \<Rightarrow> nat" where
  "word_readers l = nat (- l)"

interpretation spin: rw_lock tryLock unlock tryLockShared unlockShared valid_word word_writer word_readers
  by unfold_locales
    (auto simp: tryLock_def unlock_def tryLockShared_def unlockShared_def valid_word_def
       word_writer_def word_readers_def split: if_splits)

section \<open>The per-thread mutex around AsyncGetCallTrace\<close>

text \<open>
  \<^verbatim>\<open>ThreadLocalData\<close> holds the flag \<^verbatim>\<open>_unwinding_Java\<close>; the mutex gets a pointer to it, NULL for a
  thread that has none. The model of the pointee is \<^typ>\<open>bool option\<close>. The constructor returns
  \<^verbatim>\<open>_acquired\<close>, which the destructor uses.
\<close>

definition AsyncSampleMutex_new :: "bool option \<Rightarrow> bool \<times> bool option" where
  "AsyncSampleMutex_new tld =
     (case tld of Some unwinding \<Rightarrow> if \<not> unwinding then (True, Some True) else (False, tld)
      | None \<Rightarrow> (False, None))"

definition AsyncSampleMutex_delete :: "bool \<Rightarrow> bool option \<Rightarrow> bool option" where
  "AsyncSampleMutex_delete acquired tld =
     (if acquired then map_option (\<lambda>_. False) tld else tld)"

text \<open>Signal handlers nest: each of \<open>n\<close> handlers on the stack opens the mutex, runs the next one and
  closes it. The result lists which of them acquired it, outermost first.\<close>

fun nested_handlers :: "nat \<Rightarrow> bool option \<Rightarrow> bool list \<times> bool option" where
  "nested_handlers 0 tld = ([], tld)"
| "nested_handlers (Suc n) tld =
     (let (a, tld1) = AsyncSampleMutex_new tld;
          (as, tld2) = nested_handlers n tld1
      in (a # as, AsyncSampleMutex_delete a tld2))"

lemma nested_busy: "nested_handlers n (Some True) = (replicate n False, Some True)"
  by (induction n) (simp_all add: AsyncSampleMutex_new_def AsyncSampleMutex_delete_def)

lemma nested_free:
  "nested_handlers (Suc n) (Some False) = (True # replicate n False, Some False)"
  by (simp add: nested_busy AsyncSampleMutex_new_def AsyncSampleMutex_delete_def)

section \<open>Properties\<close>

text \<open>
  C9. Mutual exclusion under every interleaving of the atomic instructions of any number of threads:
  while one thread is in an exclusive section, no other thread is in a section of either kind.
\<close>

theorem spin_mutual_exclusion:
  assumes "spin_reachable s" and "pc s t = InExclusive" and "pc s u = InExclusive \<or> pc s u = InShared"
  shows "u = t"
proof -
  have t: "t \<in> owners s" and u: "u \<in> owners s \<union> sharers s"
    using assms(2,3) by (auto simp: section_iff)
  then obtain t' where "owners s = {t'}" "sharers s = {}"
    using spin_reachable_inv [OF assms(1)] unfolding spin_inv_def by blast
  with t u have "t = t'" and "u = t'" by blast+
  then show ?thesis by (rule trans [OF _ sym, rotated])
qed

theorem spin_mutual_exclusion_witness:
  "pc (spin_init\<lparr>lock_word := 1, pc := (pc spin_init)(3 := InExclusive)\<rparr>) 5 \<noteq> InShared"
proof -
  let ?s = "spin_init\<lparr>lock_word := 1, pc := (pc spin_init)(3 := InExclusive)\<rparr>"
  have "spin_reachable ?s"
    by (rule spin_reachable.step [OF spin_reachable.start spin_step.cas_exclusive]) (simp_all add: spin_init_def)
  from spin_mutual_exclusion [OF this, of 3 5] show ?thesis by (simp add: spin_init_def)
qed

text \<open>
  The lock word counts: in every reachable state without an exclusive owner it is minus the number of
  threads in a shared section, so it is free again exactly when all of them have left.
\<close>

theorem spin_word_counts_readers:
  assumes "spin_reachable s" and "\<forall>t. pc s t \<noteq> InExclusive"
  shows "lock_word s = - int (card {t. pc s t = InShared}) \<and> (lock_word s = 0 \<longleftrightarrow> (\<forall>t. pc s t \<noteq> InShared))"
proof -
  have "owners s = {}" using assms(2) by (auto simp: owners_def)
  with spin_reachable_inv [OF assms(1)] have "finite (sharers s)" "lock_word s = - int (card (sharers s))"
    by (auto simp: spin_inv_def)
  then show ?thesis by (auto simp: sharers_def)
qed

theorem spin_word_counts_readers_witness:
  "lock_word spin_init = - int (card {t. pc spin_init t = InShared})"
  using spin_word_counts_readers [OF spin_reachable.start] by (simp add: spin_init_def)

text \<open>
  Nested sampling signals on one thread: only the outermost handler acquires the mutex, every handler
  nested in it is refused, and the flag is clear again when the outermost one returns.
\<close>

theorem sample_mutex_outermost_only:
  "nested_handlers (Suc n) (Some False) = (True # replicate n False, Some False)"
  by (rule nested_free)

end
