(* ===== verification/Counters.thy ===== *)
theory Counters
  imports Prelude
begin

text \<open>
  Model of \<^verbatim>\<open>counters.h\<close> and \<^verbatim>\<open>counters.cpp\<close>: the diagnostic counters, in a build with
  \<^verbatim>\<open>COUNTERS\<close> defined. Every counter has a cache line of its own, so the counter number \<open>i\<close> lives at
  index \<^verbatim>\<open>address(i)\<close> of the array; the dictionaries use the counters of their table with an offset.
\<close>

section \<open>The table of counters\<close>

datatype CounterId =
    DICTIONARY_BYTES
  | DICTIONARY_CLASSES_BYTES
  | DICTIONARY_ENDPOINTS_BYTES
  | DICTIONARY_CONTEXT_BYTES
  | DICTIONARY_PAGES
  | DICTIONARY_CLASSES_PAGES
  | DICTIONARY_ENDPOINTS_PAGES
  | DICTIONARY_CONTEXT_PAGES
  | DICTIONARY_KEYS
  | DICTIONARY_CLASSES_KEYS
  | DICTIONARY_ENDPOINTS_KEYS
  | DICTIONARY_CONTEXT_KEYS
  | DICTIONARY_KEYS_BYTES
  | DICTIONARY_CLASSES_KEYS_BYTES
  | DICTIONARY_ENDPOINTS_KEYS_BYTES
  | DICTIONARY_CONTEXT_KEYS_BYTES
  | CONTEXT_STORAGE_BYTES
  | CONTEXT_STORAGE_PAGES
  | CONTEXT_BOUNDS_MISS_INITS
  | CONTEXT_BOUNDS_MISS_GETS
  | CONTEXT_CHECKSUM_REJECT_GETS
  | CONTEXT_NULL_PAGE_GETS
  | CALLTRACE_STORAGE_BYTES
  | CALLTRACE_STORAGE_TRACES
  | LINEAR_ALLOCATOR_BYTES
  | LINEAR_ALLOCATOR_CHUNKS
  | THREAD_IDS_COUNT
  | THREAD_NAMES_COUNT
  | THREAD_FILTER_PAGES
  | THREAD_FILTER_BYTES
  | JMETHODID_SKIPPED
  | CODECACHE_NATIVE_SIZE_BYTES
  | CODECACHE_NATIVE_COUNT
  | CODECACHE_RUNTIME_STUBS_SIZE_BYTES
  | AGCT_NOT_REGISTERED_IN_TLS
  | AGCT_NOT_JAVA
  | AGCT_NATIVE_NO_JAVA_CONTEXT
  | AGCT_BLOCKED_IN_VM
  | SKIPPED_WALLCLOCK_UNWINDS
  | UNWINDING_TIME_ASYNC
  | UNWINDING_TIME_JVMTI

text \<open>\<^verbatim>\<open>DD_COUNTER_TABLE\<close>: the enumeration in order, with the names \<^verbatim>\<open>describeCounters\<close> returns.\<close>

definition DD_COUNTER_TABLE :: "(CounterId \<times> string) list" where
  "DD_COUNTER_TABLE =
     [(DICTIONARY_BYTES, ''dictionary_bytes''),
      (DICTIONARY_CLASSES_BYTES, ''dictionary_classes_bytes''),
      (DICTIONARY_ENDPOINTS_BYTES, ''dictionary_endpoints_bytes''),
      (DICTIONARY_CONTEXT_BYTES, ''dictionary_context_bytes''),
      (DICTIONARY_PAGES, ''dictionary_pages''),
      (DICTIONARY_CLASSES_PAGES, ''dictionary_classes_pages''),
      (DICTIONARY_ENDPOINTS_PAGES, ''dictionary_endpoints_pages''),
      (DICTIONARY_CONTEXT_PAGES, ''dictionary_context_pages''),
      (DICTIONARY_KEYS, ''dictionary_keys''),
      (DICTIONARY_CLASSES_KEYS, ''dictionary_classes_keys''),
      (DICTIONARY_ENDPOINTS_KEYS, ''dictionary_endpoints_keys''),
      (DICTIONARY_CONTEXT_KEYS, ''dictionary_context_keys''),
      (DICTIONARY_KEYS_BYTES, ''dictionary_keys_bytes''),
      (DICTIONARY_CLASSES_KEYS_BYTES, ''dictionary_classes_keys_bytes''),
      (DICTIONARY_ENDPOINTS_KEYS_BYTES, ''dictionary_endpoints_keys_bytes''),
      (DICTIONARY_CONTEXT_KEYS_BYTES, ''dictionary_context_keys_bytes''),
      (CONTEXT_STORAGE_BYTES, ''context_storage_bytes''),
      (CONTEXT_STORAGE_PAGES, ''context_storage_pages''),
      (CONTEXT_BOUNDS_MISS_INITS, ''context_bounds_miss_inits''),
      (CONTEXT_BOUNDS_MISS_GETS, ''context_bounds_miss_gets''),
      (CONTEXT_CHECKSUM_REJECT_GETS, ''context_checksum_reject_gets''),
      (CONTEXT_NULL_PAGE_GETS, ''context_null_page_gets''),
      (CALLTRACE_STORAGE_BYTES, ''calltrace_storage_bytes''),
      (CALLTRACE_STORAGE_TRACES, ''calltrace_storage_traces''),
      (LINEAR_ALLOCATOR_BYTES, ''linear_allocator_bytes''),
      (LINEAR_ALLOCATOR_CHUNKS, ''linear_allocator_chunks''),
      (THREAD_IDS_COUNT, ''thread_ids_count''),
      (THREAD_NAMES_COUNT, ''thread_names_count''),
      (THREAD_FILTER_PAGES, ''thread_filter_pages''),
      (THREAD_FILTER_BYTES, ''thread_filter_bytes''),
      (JMETHODID_SKIPPED, ''jmethodid_skipped_count''),
      (CODECACHE_NATIVE_SIZE_BYTES, ''codecache_native_size_bytes''),
      (CODECACHE_NATIVE_COUNT, ''native_codecache_count''),
      (CODECACHE_RUNTIME_STUBS_SIZE_BYTES, ''codecache_runtime_stubs_size_bytes''),
      (AGCT_NOT_REGISTERED_IN_TLS, ''agct_not_registered_in_tls''),
      (AGCT_NOT_JAVA, ''agct_not_java''),
      (AGCT_NATIVE_NO_JAVA_CONTEXT, ''agct_native_no_java_context''),
      (AGCT_BLOCKED_IN_VM, ''agct_blocked_in_vm''),
      (SKIPPED_WALLCLOCK_UNWINDS, ''skipped_wallclock_unwinds''),
      (UNWINDING_TIME_ASYNC, ''unwinding_ticks_async''),
      (UNWINDING_TIME_JVMTI, ''unwinding_ticks_jvmti'')]"

primrec counter_id :: "CounterId \<Rightarrow> nat" where
  "counter_id DICTIONARY_BYTES = 0"
| "counter_id DICTIONARY_CLASSES_BYTES = 1"
| "counter_id DICTIONARY_ENDPOINTS_BYTES = 2"
| "counter_id DICTIONARY_CONTEXT_BYTES = 3"
| "counter_id DICTIONARY_PAGES = 4"
| "counter_id DICTIONARY_CLASSES_PAGES = 5"
| "counter_id DICTIONARY_ENDPOINTS_PAGES = 6"
| "counter_id DICTIONARY_CONTEXT_PAGES = 7"
| "counter_id DICTIONARY_KEYS = 8"
| "counter_id DICTIONARY_CLASSES_KEYS = 9"
| "counter_id DICTIONARY_ENDPOINTS_KEYS = 10"
| "counter_id DICTIONARY_CONTEXT_KEYS = 11"
| "counter_id DICTIONARY_KEYS_BYTES = 12"
| "counter_id DICTIONARY_CLASSES_KEYS_BYTES = 13"
| "counter_id DICTIONARY_ENDPOINTS_KEYS_BYTES = 14"
| "counter_id DICTIONARY_CONTEXT_KEYS_BYTES = 15"
| "counter_id CONTEXT_STORAGE_BYTES = 16"
| "counter_id CONTEXT_STORAGE_PAGES = 17"
| "counter_id CONTEXT_BOUNDS_MISS_INITS = 18"
| "counter_id CONTEXT_BOUNDS_MISS_GETS = 19"
| "counter_id CONTEXT_CHECKSUM_REJECT_GETS = 20"
| "counter_id CONTEXT_NULL_PAGE_GETS = 21"
| "counter_id CALLTRACE_STORAGE_BYTES = 22"
| "counter_id CALLTRACE_STORAGE_TRACES = 23"
| "counter_id LINEAR_ALLOCATOR_BYTES = 24"
| "counter_id LINEAR_ALLOCATOR_CHUNKS = 25"
| "counter_id THREAD_IDS_COUNT = 26"
| "counter_id THREAD_NAMES_COUNT = 27"
| "counter_id THREAD_FILTER_PAGES = 28"
| "counter_id THREAD_FILTER_BYTES = 29"
| "counter_id JMETHODID_SKIPPED = 30"
| "counter_id CODECACHE_NATIVE_SIZE_BYTES = 31"
| "counter_id CODECACHE_NATIVE_COUNT = 32"
| "counter_id CODECACHE_RUNTIME_STUBS_SIZE_BYTES = 33"
| "counter_id AGCT_NOT_REGISTERED_IN_TLS = 34"
| "counter_id AGCT_NOT_JAVA = 35"
| "counter_id AGCT_NATIVE_NO_JAVA_CONTEXT = 36"
| "counter_id AGCT_BLOCKED_IN_VM = 37"
| "counter_id SKIPPED_WALLCLOCK_UNWINDS = 38"
| "counter_id UNWINDING_TIME_ASYNC = 39"
| "counter_id UNWINDING_TIME_JVMTI = 40"

definition DD_NUM_COUNTERS :: nat where
  "DD_NUM_COUNTERS = 41"

definition describeCounters :: "string list" where
  "describeCounters = map snd DD_COUNTER_TABLE"

section \<open>Operations\<close>

text \<open>The array of \<^verbatim>\<open>long long\<close>; an access outside it leaves the model's array unchanged.\<close>

type_synonym counters = "int list"

definition ALIGNMENT :: nat where "ALIGNMENT = 16"

definition address :: "nat \<Rightarrow> nat" where
  "address index = index * ALIGNMENT"

text \<open>\<^verbatim>\<open>size()\<close> is in bytes: \<^verbatim>\<open>address(DD_NUM_COUNTERS * sizeof(long long))\<close>.\<close>

definition counters_size :: nat where
  "counters_size = address (DD_NUM_COUNTERS * 8)"

text \<open>\<^verbatim>\<open>init\<close> allocates and clears \<^verbatim>\<open>DD_NUM_COUNTERS * alignment\<close> bytes, \<^verbatim>\<open>alignment\<close> being
  \<^verbatim>\<open>sizeof(long long) * ALIGNMENT\<close>.\<close>

definition counters_init :: counters where
  "counters_init = (let alignment = 8 * ALIGNMENT in replicate (DD_NUM_COUNTERS * alignment div 8) 0)"

definition getCounter :: "counters \<Rightarrow> CounterId \<Rightarrow> nat \<Rightarrow> int" where
  "getCounter cs c off = cs ! address (counter_id c + off)"

definition counter_set :: "CounterId \<Rightarrow> int \<Rightarrow> nat \<Rightarrow> counters \<Rightarrow> counters" where
  "counter_set c v off cs = cs[address (counter_id c + off) := v]"

definition increment :: "CounterId \<Rightarrow> int \<Rightarrow> nat \<Rightarrow> counters \<Rightarrow> counters" where
  "increment c delta off cs =
     cs[address (counter_id c + off) := s64 (cs ! address (counter_id c + off) + delta)]"

definition decrement :: "CounterId \<Rightarrow> int \<Rightarrow> nat \<Rightarrow> counters \<Rightarrow> counters" where
  "decrement c delta off = increment c (- delta) off"

text \<open>\<^verbatim>\<open>reset\<close> clears \<^verbatim>\<open>size()\<close> bytes.\<close>

definition counters_reset :: "counters \<Rightarrow> counters" where
  "counters_reset cs = replicate (counters_size div 8) 0 @ drop (counters_size div 8) cs"

section \<open>Properties\<close>

definition wf_counters :: "counters \<Rightarrow> bool" where
  "wf_counters cs \<longleftrightarrow> length cs = DD_NUM_COUNTERS * ALIGNMENT"

lemma counter_id_less: "counter_id c < DD_NUM_COUNTERS"
  by (cases c) (simp_all add: DD_NUM_COUNTERS_def)

lemma wf_counters_init: "wf_counters counters_init"
  by (simp add: wf_counters_def counters_init_def Let_def ALIGNMENT_def)

lemma address_less: "i < DD_NUM_COUNTERS \<Longrightarrow> address i < DD_NUM_COUNTERS * ALIGNMENT"
  by (simp add: address_def ALIGNMENT_def)

lemma address_eq_iff [simp]: "address i = address j \<longleftrightarrow> i = j"
  by (simp add: address_def ALIGNMENT_def)

lemma wf_increment [simp]: "wf_counters cs \<Longrightarrow> wf_counters (increment c d off cs)"
  by (simp add: wf_counters_def increment_def)

lemma wf_decrement [simp]: "wf_counters cs \<Longrightarrow> wf_counters (decrement c d off cs)"
  by (simp add: decrement_def)

lemma wf_counter_set [simp]: "wf_counters cs \<Longrightarrow> wf_counters (counter_set c v off cs)"
  by (simp add: wf_counters_def counter_set_def)

lemma counters_reset_eq: "wf_counters cs \<Longrightarrow> counters_reset cs = counters_init"
  by (simp add: wf_counters_def counters_reset_def counters_init_def counters_size_def address_def
      Let_def ALIGNMENT_def)

lemma getCounter_increment:
  assumes "wf_counters cs" and "counter_id c + off < DD_NUM_COUNTERS"
  shows "getCounter (increment c d off cs) c' off' =
    (if counter_id c' + off' = counter_id c + off then s64 (getCounter cs c' off' + d)
     else getCounter cs c' off')"
  using assms address_less [of "counter_id c + off"]
  by (auto simp: getCounter_def increment_def wf_counters_def nth_list_update)

lemma getCounter_set:
  assumes "wf_counters cs" and "counter_id c + off < DD_NUM_COUNTERS"
  shows "getCounter (counter_set c v off cs) c' off' =
    (if counter_id c' + off' = counter_id c + off then v else getCounter cs c' off')"
  using assms address_less [of "counter_id c + off"]
  by (auto simp: getCounter_def counter_set_def wf_counters_def nth_list_update)

text \<open>The enumeration numbers the table's entries in order, so a counter's name is found at its number.\<close>

lemma counter_table_index:
  "DD_COUNTER_TABLE ! counter_id c = (c, describeCounters ! counter_id c)"
  by (cases c) (simp_all add: DD_COUNTER_TABLE_def describeCounters_def)

lemma length_describeCounters: "length describeCounters = DD_NUM_COUNTERS"
  by (simp add: describeCounters_def DD_COUNTER_TABLE_def DD_NUM_COUNTERS_def)

end
