(* ===== verification/Dictionaries.thy ===== *)
theory Dictionaries
  imports Prelude Counters "HOL-Library.Multiset"
begin

text \<open>
  Model of \<^verbatim>\<open>dictionary.h\<close> and \<^verbatim>\<open>dictionary.cpp\<close>: the append-only table that gives every string a
  number, used for class names, endpoints, context values and the symbols of a recording. A table has
  128 rows of three cells; a full row continues in a table of its own, which is entered with the hash
  rotated by seven bits. A key's number is the position of its cell, counted from the base of its table.

  The model is the behaviour of one thread at a time: the compare-and-swaps succeed. Keys are strings
  without NUL, so \<^verbatim>\<open>keyEquals\<close> is equality.

  \<open>find_key\<close> is the abstract view, a partial map from keys to numbers. \<open>lookup\<close> refines it: a known key
  keeps its number, a new one gets a number no other key has, and all other keys keep theirs.
\<close>

section \<open>Data\<close>

definition ROW_BITS :: nat where "ROW_BITS = 7"
definition ROWS :: nat where "ROWS = 2 ^ ROW_BITS"
definition CELLS :: nat where "CELLS = 3"
definition TABLE_CAPACITY :: nat where "TABLE_CAPACITY = ROWS * CELLS"

lemmas dict_consts = ROW_BITS_def ROWS_def CELLS_def TABLE_CAPACITY_def

datatype dict_table = DictTable (rows: "dict_row list") (base_index: u32)
  and dict_row = DictRow (keys: "string option list") (nxt: "dict_table option")

record dictionary =
  table :: dict_table
  dict_id :: nat
  base_idx :: u32
  dict_size :: int

text \<open>\<^verbatim>\<open>calloc(1, sizeof(DictTable))\<close> with a base index; \<^verbatim>\<open>DictTable::index\<close>.\<close>

definition new_table :: "u32 \<Rightarrow> dict_table" where
  "new_table b = DictTable (replicate ROWS (DictRow (replicate CELLS None) None)) b"

definition index :: "u32 \<Rightarrow> nat \<Rightarrow> nat \<Rightarrow> u32" where
  "index b row col = b + push_bit ROW_BITS (word_of_nat col) + word_of_nat row"

definition sizeof_DictTable :: int where
  "sizeof_DictTable = int (ROWS * (CELLS * 8 + 8)) + 8"

section \<open>Operations\<close>

text \<open>FNV-1a; a character is sign-extended before it is xor-ed.\<close>

fun hash_from :: "u32 \<Rightarrow> string \<Rightarrow> u32" where
  "hash_from h [] = h"
| "hash_from h (c # cs) = hash_from ((h XOR schar32 c) * 16777619) cs"

definition hash :: "string \<Rightarrow> u32" where
  "hash key = hash_from 2166136261 key"

text \<open>\<^verbatim>\<open>(h >> ROW_BITS) | (h << (32 - ROW_BITS))\<close>.\<close>

definition next_hash :: "u32 \<Rightarrow> u32" where
  "next_hash h = drop_bit ROW_BITS h OR push_bit (32 - ROW_BITS) h"

text \<open>The loop over the cells of a row.\<close>

datatype cell_hit = NoHit | Inserted nat | Found nat

fun scan_cells :: "bool \<Rightarrow> string \<Rightarrow> nat \<Rightarrow> string option list \<Rightarrow> cell_hit \<times> string option list" where
  "scan_cells for_insert key c [] = (NoHit, [])"
| "scan_cells for_insert key c (k # ks) =
     (if for_insert \<and> k = None then (Inserted c, Some key # ks)
      else if k = Some key then (Found c, k # ks)
      else case scan_cells for_insert key (Suc c) ks of (h, ks') \<Rightarrow> (h, k # ks'))"

text \<open>
  The loop over the tables. \<open>base\<close> is \<^verbatim>\<open>_base_index\<close>. A result holds the returned number, the table,
  \<^verbatim>\<open>_base_index\<close>, whether a key was stored and whether a table was added. When a full row has no
  further table, one is created and the loop runs once more, on that table: its row is empty, so the
  key goes to the first cell.
\<close>

record walk_result =
  ret :: u32
  tab :: dict_table
  base' :: u32
  stored :: bool
  added :: bool

definition walk_new :: "bool \<Rightarrow> u32 \<Rightarrow> string \<Rightarrow> u32 \<Rightarrow> u32 \<Rightarrow> walk_result" where
  "walk_new for_insert sentinel key h b =
     (let t = new_table b; r = unat h mod ROWS in
      case scan_cells for_insert key 0 (keys (rows t ! r)) of
        (Inserted c, ks) \<Rightarrow>
          \<lparr>ret = index b r c, tab = DictTable ((rows t)[r := DictRow ks None]) b, base' = b,
           stored = True, added = True\<rparr>
      | _ \<Rightarrow> \<lparr>ret = sentinel, tab = t, base' = b, stored = False, added = True\<rparr>)"

lemma size_next:
  assumes "r < length rws" and "rws ! r = DictRow ks (Some t)"
  shows "size t < size (DictTable rws b)"
proof -
  have "size (rws ! r) \<le> size_list size rws"
    by (rule size_list_estimation' [OF nth_mem [OF assms(1)] order_refl])
  with assms(2) show ?thesis by simp
qed

function walk :: "bool \<Rightarrow> u32 \<Rightarrow> string \<Rightarrow> u32 \<Rightarrow> u32 \<Rightarrow> dict_table \<Rightarrow> walk_result" where
  "walk for_insert sentinel key base h (DictTable rws b) =
     (let r = unat h mod ROWS;
          done = (\<lambda>i t s. \<lparr>ret = i, tab = t, base' = base, stored = s, added = False\<rparr>)
      in if r < length rws then
           (case rws ! r of DictRow ks nx \<Rightarrow>
              (case scan_cells for_insert key 0 ks of
                 (Inserted c, ks') \<Rightarrow> done (index b r c) (DictTable (rws[r := DictRow ks' nx]) b) True
               | (Found c, ks') \<Rightarrow> done (index b r c) (DictTable rws b) False
               | (NoHit, ks') \<Rightarrow>
                   (case nx of
                      Some t \<Rightarrow>
                        (let w = walk for_insert sentinel key base (next_hash h) t
                         in w\<lparr>tab := DictTable (rws[r := DictRow ks (Some (tab w))]) b\<rparr>)
                    | None \<Rightarrow>
                        if for_insert then
                          (let w = walk_new for_insert sentinel key (next_hash h)
                                     (base + word_of_nat TABLE_CAPACITY)
                           in w\<lparr>tab := DictTable (rws[r := DictRow ks (Some (tab w))]) b\<rparr>)
                        else done sentinel (DictTable rws b) False)))
         else done sentinel (DictTable rws b) False)"
  by pat_completeness auto
termination
proof (relation "measure (\<lambda>(_, _, _, _, _, t). size t)", goal_cases)
  case (2 for_insert sentinel key base h rws b r dn ks nx hit ks' t)
  then have "size t < size (DictTable rws b)"
    by (intro size_next [of r rws ks]) simp_all
  then show ?case by (simp only: in_measure case_prod_conv)
qed simp

declare walk.simps [simp del]

text \<open>\<^verbatim>\<open>lookup(key, length, for_insert, sentinel)\<close> with its counters and the public forms.\<close>

definition lookup4 ::
    "string \<Rightarrow> bool \<Rightarrow> u32 \<Rightarrow> dictionary \<Rightarrow> counters \<Rightarrow> u32 \<times> dictionary \<times> counters" where
  "lookup4 key for_insert sentinel d cs =
     (let w = walk for_insert sentinel key (base_idx d) (hash key) (table d);
          cs1 = (if added w
                 then increment DICTIONARY_BYTES sizeof_DictTable (dict_id d)
                        (increment DICTIONARY_PAGES 1 (dict_id d) cs)
                 else cs);
          cs2 = (if stored w
                 then increment DICTIONARY_KEYS_BYTES (int (length key) + 1) (dict_id d)
                        (increment DICTIONARY_KEYS 1 (dict_id d) cs1)
                 else cs1)
      in (ret w,
          d\<lparr>table := tab w, base_idx := base' w,
            dict_size := (if stored w then s32 (dict_size d + 1) else dict_size d)\<rparr>,
          cs2))"

definition lookup :: "string \<Rightarrow> dictionary \<Rightarrow> counters \<Rightarrow> u32 \<times> dictionary \<times> counters" where
  "lookup key d cs = lookup4 key True 0 d cs"

definition check :: "string \<Rightarrow> dictionary \<Rightarrow> counters \<Rightarrow> bool" where
  "check key d cs = (fst (lookup4 key False 0 d cs) \<noteq> 0)"

definition bounded_lookup ::
    "string \<Rightarrow> int \<Rightarrow> dictionary \<Rightarrow> counters \<Rightarrow> u32 \<times> dictionary \<times> counters" where
  "bounded_lookup key size_limit d cs =
     lookup4 key (dict_size d < size_limit) (word_of_int INT_MAX) d cs"

text \<open>Constructor and \<^verbatim>\<open>clear()\<close>.\<close>

definition new_dictionary :: "nat \<Rightarrow> counters \<Rightarrow> dictionary \<times> counters" where
  "new_dictionary i cs =
     (\<lparr>table = new_table 1, dict_id = i, base_idx = 1, dict_size = 0\<rparr>,
      counter_set DICTIONARY_BYTES sizeof_DictTable i (counter_set DICTIONARY_PAGES 1 i cs))"

definition clear :: "dictionary \<Rightarrow> counters \<Rightarrow> dictionary \<times> counters" where
  "clear d cs =
     (d\<lparr>table := new_table 1, base_idx := 1, dict_size := 0\<rparr>,
      counter_set DICTIONARY_PAGES 1 (dict_id d)
        (counter_set DICTIONARY_BYTES sizeof_DictTable (dict_id d)
          (counter_set DICTIONARY_KEYS_BYTES 0 (dict_id d)
            (counter_set DICTIONARY_KEYS 0 (dict_id d) cs))))"

text \<open>\<^verbatim>\<open>collect\<close>: the entries in the order the nested loops insert them into the \<^verbatim>\<open>std::map\<close>.\<close>

definition cell_entries :: "u32 \<Rightarrow> nat \<Rightarrow> string option list \<Rightarrow> (u32 \<times> string) list" where
  "cell_entries b i ks = concat (map (\<lambda>(j, k). case k of None \<Rightarrow> [] | Some s \<Rightarrow> [(index b i j, s)])
                                    (enumerate 0 ks))"

primrec collect_table :: "dict_table \<Rightarrow> (u32 \<times> string) list"
  and collect_row :: "dict_row \<Rightarrow> u32 \<Rightarrow> nat \<Rightarrow> (u32 \<times> string) list" where
  "collect_table (DictTable rws b) =
     concat (map (\<lambda>(i, f). f b i) (enumerate 0 (map collect_row rws)))"
| "collect_row (DictRow ks nx) b i =
     cell_entries b i ks @ (case map_option collect_table nx of None \<Rightarrow> [] | Some es \<Rightarrow> es)"

definition collect :: "dictionary \<Rightarrow> u32 \<rightharpoonup> string" where
  "collect d = fold (\<lambda>(i, k) m. m(i \<mapsto> k)) (collect_table (table d)) Map.empty"

section \<open>The abstract map\<close>

fun cell_pos :: "string \<Rightarrow> nat \<Rightarrow> string option list \<Rightarrow> nat option" where
  "cell_pos key c [] = None"
| "cell_pos key c (k # ks) = (if k = Some key then Some c else cell_pos key (Suc c) ks)"

function find_key :: "string \<Rightarrow> u32 \<Rightarrow> dict_table \<Rightarrow> u32 option" where
  "find_key key h (DictTable rws b) =
     (let r = unat h mod ROWS in
      if r < length rws then
        (case rws ! r of DictRow ks nx \<Rightarrow>
           (case cell_pos key 0 ks of
              Some c \<Rightarrow> Some (index b r c)
            | None \<Rightarrow> (case nx of Some t \<Rightarrow> find_key key (next_hash h) t | None \<Rightarrow> None)))
      else None)"
  by pat_completeness auto
termination
proof (relation "measure (\<lambda>(_, _, t). size t)", goal_cases)
  case (2 key h rws b r ks nx t)
  then have "size t < size (DictTable rws b)"
    by (intro size_next [of r rws ks]) simp_all
  then show ?case by (simp only: in_measure case_prod_conv)
qed simp

declare find_key.simps [simp del]

text \<open>The number of a key, if it has one.\<close>

definition key_index :: "dictionary \<Rightarrow> string \<rightharpoonup> u32" where
  "key_index d key = find_key key (hash key) (table d)"

text \<open>
  Well-formed tables: arrays of the declared sizes, cells filled from the left, and a further table
  only behind a full row.
\<close>

definition filled :: "string option list \<Rightarrow> bool" where
  "filled ks \<longleftrightarrow> (\<forall>k \<in> set (dropWhile (\<lambda>k. k \<noteq> None) ks). k = None)"

primrec wf_table :: "dict_table \<Rightarrow> bool" and wf_row :: "dict_row \<Rightarrow> bool" where
  "wf_table (DictTable rws b) \<longleftrightarrow> length rws = ROWS \<and> (\<forall>w \<in> set (map wf_row rws). w)"
| "wf_row (DictRow ks nx) \<longleftrightarrow> length ks = CELLS \<and> filled ks
     \<and> (case map_option wf_table nx of None \<Rightarrow> True | Some w \<Rightarrow> w \<and> None \<notin> set ks)"

lemma wf_new_table: "wf_table (new_table b)"
  by (simp add: new_table_def filled_def)

lemma scan_False:
  "scan_cells False key c ks =
     (case cell_pos key c ks of Some j \<Rightarrow> (Found j, ks) | None \<Rightarrow> (NoHit, ks))"
  by (induction ks arbitrary: c) (auto split: option.splits)

lemma scan_True_found:
  "filled ks \<Longrightarrow> cell_pos key c ks = Some j \<Longrightarrow> scan_cells True key c ks = (Found j, ks)"
proof (induction ks arbitrary: c)
  case (Cons k ks)
  then have "k \<noteq> None"
  proof (cases "k = None")
    case True
    with Cons.prems have "\<forall>x \<in> set ks. x = None" by (simp add: filled_def)
    then have "cell_pos key (Suc c) ks = None" by (induction ks arbitrary: c) auto
    with True Cons.prems(2) show ?thesis by simp
  qed
  with Cons show ?case by (auto simp: filled_def split: if_splits)
qed simp

lemma scan_True_full:
  "None \<notin> set ks \<Longrightarrow> cell_pos key c ks = None \<Longrightarrow> scan_cells True key c ks = (NoHit, ks)"
proof (induction ks arbitrary: c)
  case (Cons k ks)
  then show ?case by (cases k) (auto split: if_splits)
qed simp

lemma scan_True_insert:
  assumes "None \<in> set ks" and "filled ks" and "cell_pos key c ks = None"
  shows "\<exists>j ks'. scan_cells True key c ks = (Inserted j, ks') \<and> c \<le> j \<and> j < c + length ks
     \<and> length ks' = length ks \<and> filled ks' \<and> cell_pos key c ks' = Some j
     \<and> (\<forall>key' i. key' \<noteq> key \<longrightarrow> cell_pos key' i ks' = cell_pos key' i ks)"
  using assms
proof (induction ks arbitrary: c)
  case (Cons k ks)
  show ?case
  proof (cases "k = None")
    case True
    then show ?thesis using Cons.prems by (auto simp: filled_def dropWhile_eq_self_iff)
  next
    case False
    with Cons.prems have "None \<in> set ks" "filled ks" "cell_pos key (Suc c) ks = None" "k \<noteq> Some key"
      by (auto simp: filled_def split: if_splits)
    from Cons.IH [OF this(1-3)] obtain j ks' where
      *: "scan_cells True key (Suc c) ks = (Inserted j, ks')" "Suc c \<le> j" "j < Suc c + length ks"
      "length ks' = length ks" "filled ks'" "cell_pos key (Suc c) ks' = Some j"
      "\<forall>key' i. key' \<noteq> key \<longrightarrow> cell_pos key' i ks' = cell_pos key' i ks"
      by blast
    then show ?thesis
      using False \<open>k \<noteq> Some key\<close> by (auto simp: filled_def)
  qed
qed simp

text \<open>The effect of storing a key on one row, seen through \<open>find_key\<close>.\<close>

lemma find_key_row_update:
  assumes "r < length rws" and "rws ! r = DictRow ks nx"
    and "\<And>i. cell_pos k i ks' = cell_pos k i ks"
    and "\<And>h'. (case nx' of Some t \<Rightarrow> find_key k h' t | None \<Rightarrow> None)
            = (case nx of Some t \<Rightarrow> find_key k h' t | None \<Rightarrow> None)"
  shows "find_key k h (DictTable (rws[r := DictRow ks' nx']) b) = find_key k h (DictTable rws b)"
  using assms(1-3) assms(4) [of "next_hash h"]
  by (cases "unat h mod ROWS = r")
     (auto simp: find_key.simps [of k h "rws[r := DictRow ks' nx']" b] find_key.simps [of k h rws b]
        Let_def split: option.split)

lemma find_key_new: "find_key k h (new_table b) = None"
  by (simp add: new_table_def find_key.simps CELLS_def eval_nat_numeral Let_def)

text \<open>What a walk in insertion mode does to the tables, by its outcome.\<close>

definition stores :: "string \<Rightarrow> u32 \<Rightarrow> u32 \<Rightarrow> dict_table \<Rightarrow> walk_result \<Rightarrow> bool" where
  "stores key base h t w \<longleftrightarrow> stored w \<and> wf_table (tab w)
     \<and> find_key key h (tab w) = Some (ret w)
     \<and> (\<forall>k h'. k \<noteq> key \<longrightarrow> find_key k h' (tab w) = find_key k h' t)
     \<and> base' w = (if added w then base + word_of_nat TABLE_CAPACITY else base)"

lemma ROWS_pos [simp]: "0 < ROWS"
  by (simp add: dict_consts)

lemma walk_new_stores:
  "stores key base h (new_table (base + word_of_nat TABLE_CAPACITY))
     (walk_new True s key h (base + word_of_nat TABLE_CAPACITY))"
proof -
  let ?b = "base + word_of_nat TABLE_CAPACITY" and ?r = "unat h mod ROWS"
  let ?rows = "replicate ROWS (DictRow (replicate CELLS None) None)"
  let ?ks = "Some key # replicate (CELLS - 1) None"
  have scan: "scan_cells True key 0 (replicate CELLS None) = (Inserted 0, ?ks)"
    by (simp add: CELLS_def eval_nat_numeral)
  then have w: "walk_new True s key h ?b =
      \<lparr>ret = index ?b ?r 0, tab = DictTable (?rows[?r := DictRow ?ks None]) ?b, base' = ?b,
       stored = True, added = True\<rparr>"
    by (simp add: walk_new_def new_table_def Let_def)
  have wf: "wf_table (DictTable (?rows[?r := DictRow ?ks None]) ?b)"
    by (auto simp: filled_def CELLS_def set_update_subset_insert dest!: set_update_subset_insert [THEN subsetD])
  have other: "find_key k h' (DictTable (?rows[?r := DictRow ?ks None]) ?b) = find_key k h' (new_table ?b)"
    if "k \<noteq> key" for k h'
    unfolding new_table_def
    by (rule find_key_row_update [where ks = "replicate CELLS None" and nx = None])
       (use that in \<open>simp_all add: CELLS_def eval_nat_numeral\<close>)
  have "find_key key h (DictTable (?rows[?r := DictRow ?ks None]) ?b) = Some (index ?b ?r 0)"
    by (simp add: find_key.simps Let_def)
  with wf other show ?thesis by (simp add: stores_def w)
qed

lemma wf_rows_update:
  "wf_table (DictTable rws b) \<Longrightarrow> wf_row x \<Longrightarrow> wf_table (DictTable (rws[r := x]) b)"
  by (auto dest!: set_update_subset_insert [THEN subsetD])

lemma wf_table_nth:
  "wf_table (DictTable rws b) \<Longrightarrow> unat h mod ROWS < length rws \<and> wf_row (rws ! (unat h mod ROWS))"
  by auto

lemma walk_found:
  "find_key key h t = Some i \<Longrightarrow> wf_table t \<Longrightarrow>
   walk True s key base h t = \<lparr>ret = i, tab = t, base' = base, stored = False, added = False\<rparr>"
proof (induction key h t rule: find_key.induct)
  case (1 key h rws b)
  define r where "r = unat h mod ROWS"
  obtain ks nx where row: "rws ! r = DictRow ks nx" by (cases "rws ! r") auto
  have wf: "r < length rws" "wf_row (DictRow ks nx)"
    using wf_table_nth [OF "1.prems"(2), of h] row by (simp_all add: r_def)
  show ?case
  proof (cases "cell_pos key 0 ks")
    case (Some c)
    with wf have "scan_cells True key 0 ks = (Found c, ks)" by (simp add: scan_True_found)
    with Some wf row "1.prems"(1) show ?thesis
      by (simp add: walk.simps find_key.simps Let_def flip: r_def)
  next
    case None
    with wf row "1.prems"(1) obtain t where nx: "nx = Some t"
      by (auto simp: find_key.simps Let_def split: option.splits simp flip: r_def)
    with wf None have scan: "scan_cells True key 0 ks = (NoHit, ks)" by (simp add: scan_True_full)
    have "find_key key (next_hash h) t = Some i"
      using "1.prems"(1) wf row nx None by (simp add: find_key.simps Let_def flip: r_def)
    moreover have "wf_table t" using wf nx by simp
    ultimately have IH: "walk True s key base (next_hash h) t =
        \<lparr>ret = i, tab = t, base' = base, stored = False, added = False\<rparr>"
      using "1.IH" [OF r_def wf(1) row None nx] by simp
    have "rws[r := DictRow ks (Some t)] = rws"
      using row nx by (metis list_update_id)
    with IH scan wf row nx show ?thesis by (simp add: walk.simps Let_def flip: r_def)
  qed
qed

lemma walk_stores:
  "find_key key h t = None \<Longrightarrow> wf_table t \<Longrightarrow> stores key base h t (walk True s key base h t)"
proof (induction key h t rule: find_key.induct)
  case (1 key h rws b)
  define r where "r = unat h mod ROWS"
  obtain ks nx where row: "rws ! r = DictRow ks nx" by (cases "rws ! r") auto
  have wf: "r < length rws" "wf_row (DictRow ks nx)"
    using wf_table_nth [OF "1.prems"(2), of h] row by (simp_all add: r_def)
  have pos: "cell_pos key 0 ks = None"
    using "1.prems"(1) wf row by (auto simp: find_key.simps Let_def split: option.splits simp flip: r_def)
  show ?case
  proof (cases "None \<in> set ks")
    case True
    then have nx: "nx = None" using wf by (auto split: option.splits)
    from scan_True_insert [OF True _ pos] wf obtain j ks' where
      scan: "scan_cells True key 0 ks = (Inserted j, ks')" and ks': "length ks' = length ks" "filled ks'"
        "cell_pos key 0 ks' = Some j" "\<forall>key' i. key' \<noteq> key \<longrightarrow> cell_pos key' i ks' = cell_pos key' i ks"
      by auto
    let ?t = "DictTable (rws[r := DictRow ks' nx]) b"
    have "walk True s key base h (DictTable rws b) =
        \<lparr>ret = index b r j, tab = ?t, base' = base, stored = True, added = False\<rparr>"
      using scan wf row by (simp add: walk.simps Let_def flip: r_def)
    moreover have "wf_table ?t"
      using "1.prems"(2) wf ks' nx by (intro wf_rows_update) simp_all
    moreover have "find_key key h ?t = Some (index b r j)"
      using wf ks' by (simp add: find_key.simps Let_def flip: r_def)
    moreover have "find_key k h' ?t = find_key k h' (DictTable rws b)" if "k \<noteq> key" for k h'
      by (rule find_key_row_update [OF wf(1) row]) (use ks' that in auto)
    ultimately show ?thesis by (simp add: stores_def)
  next
    case full: False
    then have scan: "scan_cells True key 0 ks = (NoHit, ks)" using pos by (rule scan_True_full)
    define w where "w = (case nx of Some t \<Rightarrow> walk True s key base (next_hash h) t
       | None \<Rightarrow> walk_new True s key (next_hash h) (base + word_of_nat TABLE_CAPACITY))"
    have "walk True s key base h (DictTable rws b) = w\<lparr>tab := DictTable (rws[r := DictRow ks (Some (tab w))]) b\<rparr>"
      using scan wf row by (simp add: walk.simps Let_def w_def split: option.split flip: r_def)
    moreover
    have sub: "stored w \<and> wf_table (tab w) \<and> find_key key (next_hash h) (tab w) = Some (ret w)
        \<and> (\<forall>k h'. k \<noteq> key \<longrightarrow> find_key k h' (tab w) = (case nx of Some t \<Rightarrow> find_key k h' t | None \<Rightarrow> None))
        \<and> base' w = (if added w then base + word_of_nat TABLE_CAPACITY else base)"
    proof (cases nx)
      case None
      then show ?thesis
        using walk_new_stores [of key base "next_hash h" s] by (simp add: w_def stores_def find_key_new)
    next
      case (Some t)
      have "find_key key (next_hash h) t = None"
        using "1.prems"(1) wf row Some pos by (simp add: find_key.simps Let_def flip: r_def)
      moreover have "wf_table t" using wf Some by simp
      ultimately have "stores key base (next_hash h) t w"
        using "1.IH" [OF r_def wf(1) row pos Some] by (simp add: w_def Some)
      then show ?thesis by (simp add: stores_def Some)
    qed
    let ?t = "DictTable (rws[r := DictRow ks (Some (tab w))]) b"
    have "wf_table ?t"
      using "1.prems"(2) wf sub full by (intro wf_rows_update) simp_all
    moreover have "find_key key h ?t = Some (ret w)"
      using wf pos sub by (simp add: find_key.simps Let_def flip: r_def)
    moreover have "find_key k h' ?t = find_key k h' (DictTable rws b)" if "k \<noteq> key" for k h'
      by (rule find_key_row_update [OF wf(1) row]) (use sub that in \<open>auto split: option.splits\<close>)
    ultimately show ?thesis using sub by (simp add: stores_def)
  qed
qed

lemma walk_False:
  "walk False s key base h t =
     \<lparr>ret = (case find_key key h t of Some i \<Rightarrow> i | None \<Rightarrow> s), tab = t, base' = base,
      stored = False, added = False\<rparr>"
proof (induction key h t rule: find_key.induct)
  case (1 key h rws b)
  define r where "r = unat h mod ROWS"
  obtain ks nx where row: "rws ! r = DictRow ks nx" by (cases "rws ! r") auto
  show ?case
  proof (cases "r < length rws \<and> cell_pos key 0 ks = None \<and> nx \<noteq> None")
    case True
    then obtain t where nx: "nx = Some t" by auto
    then have "rws[r := DictRow ks (Some t)] = rws" using row by (metis list_update_id)
    with True row nx "1.IH" [OF r_def _ row, of t] show ?thesis
      by (simp add: walk.simps find_key.simps Let_def scan_False flip: r_def)
  next
    case False
    with row show ?thesis
      by (auto simp: walk.simps find_key.simps Let_def scan_False split: option.split simp flip: r_def)
  qed
qed

section \<open>Numbers are unique\<close>

text \<open>All tables of a dictionary, and their bases.\<close>

primrec tabs_t :: "dict_table \<Rightarrow> dict_table list" and tabs_r :: "dict_row \<Rightarrow> dict_table list" where
  "tabs_t (DictTable rws b) = DictTable rws b # concat (map tabs_r rws)"
| "tabs_r (DictRow ks nx) = (case map_option tabs_t nx of None \<Rightarrow> [] | Some ts \<Rightarrow> ts)"

definition bases :: "dict_table \<Rightarrow> u32 list" where
  "bases t = map base_index (tabs_t t)"

text \<open>A cell of one of the tables: its table, row and column.\<close>

definition cell_of :: "dict_table \<Rightarrow> dict_table \<Rightarrow> nat \<Rightarrow> nat \<Rightarrow> string \<Rightarrow> bool" where
  "cell_of t T r c k \<longleftrightarrow> T \<in> set (tabs_t t) \<and> r < ROWS \<and> c < CELLS
     \<and> r < length (rows T) \<and> c < length (keys (rows T ! r)) \<and> keys (rows T ! r) ! c = Some k"

lemma cell_of_mono:
  "cell_of t T r c k \<Longrightarrow> set (tabs_t t) \<subseteq> set (tabs_t t') \<Longrightarrow> cell_of t' T r c k"
  by (auto simp: cell_of_def)

lemma cell_pos_nth:
  "cell_pos k c ks = Some j \<Longrightarrow> c \<le> j \<and> j < c + length ks \<and> ks ! (j - c) = Some k"
proof (induction ks arbitrary: c)
  case (Cons x ks)
  show ?case
  proof (cases "x = Some k")
    case False
    with Cons.prems have "cell_pos k (Suc c) ks = Some j" by simp
    then have "Suc c \<le> j \<and> j < Suc c + length ks \<and> ks ! (j - Suc c) = Some k" by (rule Cons.IH)
    then show ?thesis by (auto simp: nth_Cons' Suc_diff_le)
  qed (use Cons.prems in auto)
qed simp

lemma tabs_next:
  "r < length rws \<Longrightarrow> rws ! r = DictRow ks (Some t) \<Longrightarrow>
   set (tabs_t t) \<subseteq> set (tabs_t (DictTable rws b))"
  using nth_mem [of r rws] by force

lemma wf_tabs:
  "wf_table t \<Longrightarrow> T \<in> set (tabs_t t) \<Longrightarrow> wf_table T"
  "wf_row w \<Longrightarrow> T \<in> set (tabs_r w) \<Longrightarrow> wf_table T"
  by (induction t and w) (auto split: option.splits)

lemma find_key_cell:
  "find_key k h t = Some i \<Longrightarrow> wf_table t \<Longrightarrow>
   \<exists>T r c. cell_of t T r c k \<and> i = index (base_index T) r c"
proof (induction k h t rule: find_key.induct)
  case (1 k h rws b)
  define r where "r = unat h mod ROWS"
  obtain ks nx where row: "rws ! r = DictRow ks nx" by (cases "rws ! r") auto
  have wf: "r < length rws" "wf_row (DictRow ks nx)" "r < ROWS"
    using wf_table_nth [OF "1.prems"(2), of h] row by (simp_all add: r_def)
  show ?case
  proof (cases "cell_pos k 0 ks")
    case (Some c)
    then have "i = index b r c"
      using "1.prems"(1) wf row by (simp add: find_key.simps Let_def flip: r_def)
    moreover have "cell_of (DictTable rws b) (DictTable rws b) r c k"
      using cell_pos_nth [OF Some] wf row by (simp add: cell_of_def)
    ultimately show ?thesis by force
  next
    case None
    with "1.prems"(1) wf row obtain t where nx: "nx = Some t"
      and "find_key k (next_hash h) t = Some i"
      by (auto simp: find_key.simps Let_def split: option.splits simp flip: r_def)
    moreover have "wf_table t" using wf nx by simp
    ultimately obtain T r' c where "cell_of t T r' c k" "i = index (base_index T) r' c"
      using "1.IH" [OF r_def wf(1) row None nx] by blast
    moreover have "set (tabs_t t) \<subseteq> set (tabs_t (DictTable rws b))"
      using tabs_next [OF wf(1)] row nx by blast
    ultimately show ?thesis by (blast intro: cell_of_mono)
  qed
qed

text \<open>A number determines the base of its table and the cell in it.\<close>

lemma unat_index:
  assumes "unat b + TABLE_CAPACITY \<le> 2 ^ 32" and "r < ROWS" and "c < CELLS"
  shows "unat (index b r c) = unat b + (128 * c + r)"
proof -
  define n where "n = unat b + (128 * c + r)"
  have "index b r c = word_of_nat n"
    by (simp add: n_def index_def ROW_BITS_def push_bit_eq_mult)
  moreover have "n < 2 ^ 32"
    using assms by (simp add: n_def dict_consts)
  ultimately show ?thesis
    by (simp add: unat_of_nat take_bit_eq_mod flip: n_def)
qed

definition bases_ok :: "u32 \<Rightarrow> u32 list \<Rightarrow> bool" where
  "bases_ok base bs \<longleftrightarrow> distinct bs \<and> unat base mod TABLE_CAPACITY = 1 \<and> unat base + TABLE_CAPACITY \<le> 2 ^ 32
     \<and> (\<forall>b \<in> set bs. unat b \<le> unat base \<and> unat b mod TABLE_CAPACITY = 1)"

lemma index_inj:
  assumes "bases_ok base bs" and "b \<in> set bs" "b' \<in> set bs"
    and "r < ROWS" "c < CELLS" "r' < ROWS" "c' < CELLS"
    and eq: "index b r c = index b' r' c'"
  shows "b = b' \<and> r = r' \<and> c = c'"
proof -
  have le: "unat b + TABLE_CAPACITY \<le> 2 ^ 32" "unat b' + TABLE_CAPACITY \<le> 2 ^ 32"
    using assms(1-3) by (auto simp: bases_ok_def)
  have sum: "unat b + (128 * c + r) = unat b' + (128 * c' + r')"
    using arg_cong [OF eq, of unat] le assms(4-7) by (simp add: unat_index)
  obtain m m' where m: "unat b = 384 * m + 1" "unat b' = 384 * m' + 1"
  proof
    have "unat b mod 384 = 1" "unat b' mod 384 = 1"
      using assms(1-3) by (auto simp: bases_ok_def dict_consts)
    then show "unat b = 384 * (unat b div 384) + 1" "unat b' = 384 * (unat b' div 384) + 1"
      by (metis mult_div_mod_eq)+
  qed
  have small: "128 * c + r < 384" "128 * c' + r' < 384" "r < 128" "r' < 128"
    using assms(4-7) by (simp_all add: dict_consts)
  have "m = (384 * m + (128 * c + r)) div 384" "m' = (384 * m' + (128 * c' + r')) div 384"
    using small by simp_all
  moreover have "384 * m + (128 * c + r) = 384 * m' + (128 * c' + r')" using sum m by simp
  ultimately have "m = m'" by metis
  with m have "unat b = unat b'" by simp
  then have b: "b = b'" by (rule unsigned_word_eqI)
  with sum have eq': "128 * c + r = 128 * c' + r'" by simp
  have "c = (128 * c + r) div 128" "c' = (128 * c' + r') div 128" using small by simp_all
  with eq' have "c = c'" by metis
  with eq' b show ?thesis by simp
qed

lemma cell_index_inj:
  assumes "bases_ok base (bases t)"
    and "cell_of t T r c k" "cell_of t T' r' c' k'"
    and "index (base_index T) r c = index (base_index T') r' c'"
  shows "k = k'"
proof -
  have "base_index T \<in> set (bases t)" "base_index T' \<in> set (bases t)"
    using assms(2,3) by (auto simp: cell_of_def bases_def)
  then have "base_index T = base_index T' \<and> r = r' \<and> c = c'"
    using assms by (intro index_inj [of base "bases t"]) (auto simp: cell_of_def)
  moreover from this have "T = T'"
    using assms(1-3) by (auto simp: bases_ok_def bases_def cell_of_def distinct_map dest: inj_onD)
  ultimately show ?thesis using assms(2,3) by (simp add: cell_of_def)
qed

text \<open>A walk keeps the bases distinct: an added table gets the next free base.\<close>

lemma mset_concat_update:
  "r < length xs \<Longrightarrow>
   mset (concat (map f (xs[r := x]))) + mset (f (xs ! r)) = mset (concat (map f xs)) + mset (f x)"
proof (induction xs arbitrary: r)
  case (Cons y ys)
  then show ?case by (cases r) (auto simp: ac_simps)
qed simp

lemma bases_row_update:
  assumes "r < length rws" and "rws ! r = DictRow ks nx"
    and "mset (map base_index (tabs_r (DictRow ks' nx'))) = mset (map base_index (tabs_r (DictRow ks nx))) + M"
  shows "mset (bases (DictTable (rws[r := DictRow ks' nx']) b)) = mset (bases (DictTable rws b)) + M"
proof -
  let ?f = "\<lambda>w. map base_index (tabs_r w)"
  have split: "mset (bases (DictTable rs b)) = add_mset b (mset (concat (map ?f rs)))" for rs
    by (simp add: bases_def map_concat comp_def)
  show ?thesis
    using mset_concat_update [OF assms(1), of ?f "DictRow ks' nx'"] assms(2,3)
    unfolding split by simp
qed

lemma bases_new: "bases (new_table b) = [b]"
  by (simp add: bases_def new_table_def)

lemma bases_walk_new:
  "bases (tab (walk_new True s key h b)) = [b] \<and> added (walk_new True s key h b)"
proof -
  let ?r = "unat h mod ROWS"
  have "scan_cells True key 0 (replicate CELLS None) = (Inserted 0, Some key # replicate (CELLS - 1) None)"
    by (simp add: CELLS_def eval_nat_numeral)
  moreover have "concat (map tabs_r ((replicate ROWS (DictRow (replicate CELLS None) None))
       [?r := DictRow ks None])) = []" for ks
    by (auto simp: concat_eq_Nil_conv dest!: set_update_subset_insert [THEN subsetD])
  ultimately show ?thesis
    by (simp add: walk_new_def new_table_def Let_def bases_def)
qed

lemma bases_walk:
  "wf_table t \<Longrightarrow>
   mset (bases (tab (walk True s key base h t))) =
     mset (bases t) + (if added (walk True s key base h t) then {#base + word_of_nat TABLE_CAPACITY#} else {#})"
proof (induction key h t rule: find_key.induct)
  case (1 key h rws b)
  define r where "r = unat h mod ROWS"
  obtain ks nx where row: "rws ! r = DictRow ks nx" by (cases "rws ! r") auto
  have wf: "r < length rws" "wf_row (DictRow ks nx)"
    using wf_table_nth [OF "1.prems", of h] row by (simp_all add: r_def)
  obtain hit ks' where scan: "scan_cells True key 0 ks = (hit, ks')" by (cases "scan_cells True key 0 ks")
  show ?case
  proof (cases hit)
    case (Inserted c)
    have "mset (bases (DictTable (rws[r := DictRow ks' nx]) b)) = mset (bases (DictTable rws b)) + {#}"
      using wf(1) row by (rule bases_row_update) simp
    with wf row scan Inserted show ?thesis by (simp add: walk.simps Let_def flip: r_def)
  next
    case (Found c)
    with wf row scan show ?thesis by (simp add: walk.simps Let_def flip: r_def)
  next
    case NoHit
    define w where "w = (case nx of Some t \<Rightarrow> walk True s key base (next_hash h) t
       | None \<Rightarrow> walk_new True s key (next_hash h) (base + word_of_nat TABLE_CAPACITY))"
    have res: "walk True s key base h (DictTable rws b) = w\<lparr>tab := DictTable (rws[r := DictRow ks (Some (tab w))]) b\<rparr>"
      using scan NoHit wf row by (simp add: walk.simps Let_def w_def split: option.split flip: r_def)
    let ?M = "if added w then {#base + word_of_nat TABLE_CAPACITY#} else {#}"
    have "mset (map base_index (tabs_r (DictRow ks (Some (tab w)))))
          = mset (map base_index (tabs_r (DictRow ks nx))) + ?M"
    proof (cases nx)
      case None
      then show ?thesis
        using bases_walk_new [of s key "next_hash h" "base + word_of_nat TABLE_CAPACITY"]
        by (simp add: w_def bases_def)
    next
      case (Some t)
      have pos: "cell_pos key 0 ks = None"
        using scan NoHit wf scan_True_found [of ks key 0] by (cases "cell_pos key 0 ks") auto
      have "wf_table t" using wf Some by simp
      then show ?thesis
        using "1.IH" [OF r_def wf(1) row pos Some] by (simp add: w_def Some bases_def)
    qed
    with wf(1) row have "mset (bases (DictTable (rws[r := DictRow ks (Some (tab w))]) b))
       = mset (bases (DictTable rws b)) + ?M"
      by (rule bases_row_update)
    with res show ?thesis by simp
  qed
qed

section \<open>The dictionary as an interner\<close>

definition dict_inv :: "dictionary \<Rightarrow> bool" where
  "dict_inv d \<longleftrightarrow> wf_table (table d) \<and> bases_ok (base_idx d) (bases (table d))"

text \<open>How many more tables the 32-bit numbers leave room for.\<close>

definition slack :: "dictionary \<Rightarrow> nat" where
  "slack d = (2 ^ 32 - TABLE_CAPACITY - unat (base_idx d)) div TABLE_CAPACITY"

lemma dict_inv_new: "dict_inv (fst (new_dictionary i cs))"
  by (simp add: dict_inv_def new_dictionary_def wf_new_table bases_new bases_ok_def dict_consts)

lemma dict_inv_clear: "dict_inv (fst (clear d cs))"
  by (simp add: dict_inv_def clear_def wf_new_table bases_new bases_ok_def dict_consts)

lemma slack_next:
  assumes "0 < slack d"
  shows "unat (base_idx d + word_of_nat TABLE_CAPACITY) = unat (base_idx d) + TABLE_CAPACITY"
    and "unat (base_idx d) + TABLE_CAPACITY + TABLE_CAPACITY \<le> 2 ^ 32"
proof -
  have "TABLE_CAPACITY \<le> 2 ^ 32 - TABLE_CAPACITY - unat (base_idx d)"
    using assms by (simp add: slack_def div_greater_zero_iff)
  then show le: "unat (base_idx d) + TABLE_CAPACITY + TABLE_CAPACITY \<le> 2 ^ 32"
    by (simp add: dict_consts)
  then show "unat (base_idx d + word_of_nat TABLE_CAPACITY) = unat (base_idx d) + TABLE_CAPACITY"
    by (simp add: unat_word_ariths unat_of_nat take_bit_eq_mod dict_consts)
qed

lemma lookup_known:
  "dict_inv d \<Longrightarrow> key_index d k = Some i \<Longrightarrow> lookup k d cs = (i, d, cs)"
  by (simp add: lookup_def lookup4_def key_index_def dict_inv_def walk_found)

lemma lookup_new_key:
  assumes "dict_inv d" and "key_index d k = None"
  shows "key_index (fst (snd (lookup k d cs))) = (key_index d)(k \<mapsto> fst (lookup k d cs))"
    and "wf_table (table (fst (snd (lookup k d cs))))"
proof -
  have "stores k (base_idx d) (hash k) (table d) (walk True 0 k (base_idx d) (hash k) (table d))"
    using assms by (intro walk_stores) (simp_all add: key_index_def dict_inv_def)
  then show "key_index (fst (snd (lookup k d cs))) = (key_index d)(k \<mapsto> fst (lookup k d cs))"
    and "wf_table (table (fst (snd (lookup k d cs))))"
    by (auto simp: stores_def lookup_def lookup4_def Let_def key_index_def fun_eq_iff)
qed

lemma lookup_base:
  assumes "dict_inv d" and "key_index d k = None"
  shows "base_idx (fst (snd (lookup k d cs))) =
      (if added (walk True 0 k (base_idx d) (hash k) (table d))
       then base_idx d + word_of_nat TABLE_CAPACITY else base_idx d)"
proof -
  have "stores k (base_idx d) (hash k) (table d) (walk True 0 k (base_idx d) (hash k) (table d))"
    using assms by (intro walk_stores) (simp_all add: key_index_def dict_inv_def)
  then show ?thesis by (simp add: stores_def lookup_def lookup4_def Let_def)
qed

lemma dict_inv_lookup:
  assumes inv: "dict_inv d" and "0 < slack d"
  shows "dict_inv (fst (snd (lookup k d cs)))"
proof (cases "key_index d k")
  case (Some i)
  then show ?thesis using inv by (simp add: lookup_known)
next
  case None
  define w where "w = walk True 0 k (base_idx d) (hash k) (table d)"
  let ?nb = "base_idx d + word_of_nat TABLE_CAPACITY"
  have base: "base' w = (if added w then ?nb else base_idx d)"
    using lookup_base [OF inv None] by (simp add: lookup_def lookup4_def Let_def w_def)
  have ms: "mset (bases (tab w)) = mset (bases (table d)) + (if added w then {#?nb#} else {#})"
    using inv unfolding w_def by (intro bases_walk) (simp add: dict_inv_def)
  note ok = inv [unfolded dict_inv_def bases_ok_def]
  have fresh: "?nb \<notin> set (bases (table d))"
    using ok slack_next [OF assms(2)] by (auto simp: dict_consts dest!: bspec)
  have "mset (bases (tab w)) = mset (if added w then ?nb # bases (table d) else bases (table d))"
    using ms by simp
  then have "distinct (bases (tab w)) = distinct (if added w then ?nb # bases (table d) else bases (table d))"
    by (rule mset_eq_imp_distinct_iff)
  then have "distinct (bases (tab w))"
    using ok fresh by simp
  moreover have sets: "set (bases (tab w)) = set (bases (table d)) \<union> (if added w then {?nb} else {})"
    using arg_cong [OF ms, of set_mset] by simp
  ultimately have "bases_ok (base' w) (bases (tab w))"
    using ok slack_next [OF assms(2)] unfolding bases_ok_def base
    by (auto simp: mod_add_self2 intro: le_trans)
  with lookup_new_key(2) [OF inv None, of cs] show ?thesis
    by (simp add: dict_inv_def lookup_def lookup4_def Let_def w_def)
qed

lemma key_index_inj:
  assumes "dict_inv d" and "key_index d k = Some i" and "key_index d k' = Some i"
  shows "k = k'"
proof -
  obtain T r c where "cell_of (table d) T r c k" "i = index (base_index T) r c"
    using find_key_cell assms(1,2) by (metis dict_inv_def key_index_def)
  moreover obtain T' r' c' where "cell_of (table d) T' r' c' k'" "i = index (base_index T') r' c'"
    using find_key_cell assms(1,3) by (metis dict_inv_def key_index_def)
  ultimately show ?thesis using cell_index_inj assms(1) by (metis dict_inv_def)
qed

lemma slack_lookup: "dict_inv d \<Longrightarrow> slack d \<le> Suc (slack (fst (snd (lookup k d cs))))"
proof (cases "0 < slack d \<and> key_index d k = None")
  case True
  assume inv: "dict_inv d"
  have "slack d = Suc (slack (d\<lparr>base_idx := base_idx d + word_of_nat TABLE_CAPACITY\<rparr>))"
    using slack_next [of d] True by (simp add: slack_def dict_consts)
  then show ?thesis
    using lookup_base [OF inv, of k cs] True by (auto simp: slack_def)
next
  case False
  assume "dict_inv d"
  with False show ?thesis by (cases "key_index d k") (auto simp: lookup_known)
qed

section \<open>What a recording collects\<close>

text \<open>\<open>collect\<close> reads back exactly the pairs of a number and its key.\<close>

lemma set_enumerate: "set (enumerate 0 xs) = (\<lambda>i. (i, xs ! i)) ` {..<length xs}"
proof -
  have "(i, x) \<in> set (enumerate 0 xs) \<longleftrightarrow> i < length xs \<and> x = xs ! i" for i x
    by (auto simp: in_set_enumerate_eq)
  then show ?thesis by auto
qed

lemma set_collect_table:
  "set (collect_table (DictTable rws b)) = (\<Union>i<length rws. set (collect_row (rws ! i) b i))"
  by (simp add: set_enumerate)

lemma set_cell_entries:
  "set (cell_entries b i ks) = {(index b i j, s) | j s. j < length ks \<and> ks ! j = Some s}"
  by (auto simp: cell_entries_def set_enumerate split: option.splits)

lemma collect_row_update:
  assumes "r < length rws"
    and "set (collect_row x b r) = insert e (set (collect_row (rws ! r) b r))"
  shows "set (collect_table (DictTable (rws[r := x]) b)) = insert e (set (collect_table (DictTable rws b)))"
proof -
  have "(\<Union>i<length rws. set (collect_row (rws[r := x] ! i) b i))
      = insert e (\<Union>i<length rws. set (collect_row (rws ! i) b i))" (is "?L = ?R")
  proof (intro set_eqI iffI)
    fix y assume "y \<in> ?L"
    then obtain i where "i < length rws" "y \<in> set (collect_row (rws[r := x] ! i) b i)" by auto
    with assms show "y \<in> ?R" by (cases "i = r") auto
  next
    fix y assume "y \<in> ?R"
    then consider "y = e" | i where "i < length rws" "y \<in> set (collect_row (rws ! i) b i)" by auto
    then show "y \<in> ?L"
    proof cases
      case 1
      with assms show ?thesis by (intro UN_I [of r]) auto
    next
      case 2
      with assms show ?thesis by (intro UN_I [of i]) (cases "i = r"; auto)+
    qed
  qed
  then show ?thesis by (simp only: set_collect_table length_list_update)
qed

lemma scan_cells_collect:
  "scan_cells True key c ks = (Inserted j, ks') \<Longrightarrow>
   c \<le> j \<and> j < c + length ks \<and> ks ! (j - c) = None \<and> ks' = ks[j - c := Some key]"
proof (induction ks arbitrary: c ks')
  case (Cons k ks)
  show ?case
  proof (cases "k = None \<or> k = Some key")
    case True
    with Cons.prems show ?thesis by auto
  next
    case False
    then obtain ks1 where "scan_cells True key (Suc c) ks = (Inserted j, ks1)" "ks' = k # ks1"
      using Cons.prems by (auto split: prod.splits)
    moreover from Cons.IH [OF this(1)] obtain i where "j - Suc c = i" "j = Suc (c + i)" "i < length ks"
      "ks ! i = None" "ks1 = ks[i := Some key]" by (auto simp: le_iff_add)
    ultimately show ?thesis by simp
  qed
qed simp

lemma collect_inserted:
  "scan_cells True key 0 ks = (Inserted j, ks') \<Longrightarrow>
   set (collect_row (DictRow ks' nx) b r) = insert (index b r j, key) (set (collect_row (DictRow ks nx) b r))"
  by (drule scan_cells_collect) (auto simp: set_cell_entries nth_list_update split: option.splits if_splits)


lemma collect_new: "collect_table (new_table b) = []"
  by (auto simp: new_table_def cell_entries_def dict_consts enumerate_eq_zip concat_eq_Nil_conv
      dest!: set_zip_rightD)

lemma collect_walk_new:
  "set (collect_table (tab (walk_new True s key h b))) = {(ret (walk_new True s key h b), key)}"
proof -
  let ?r = "unat h mod ROWS" and ?rows = "replicate ROWS (DictRow (replicate CELLS None) None)"
  have scan: "scan_cells True key 0 (replicate CELLS None) = (Inserted 0, Some key # replicate (CELLS - 1) None)"
    by (simp add: CELLS_def eval_nat_numeral)
  have "set (collect_table (DictTable (?rows[?r := DictRow (Some key # replicate (CELLS - 1) None) None]) b))
      = insert (index b ?r 0, key) (set (collect_table (DictTable ?rows b)))"
    using collect_inserted [OF scan, of None b ?r] by (intro collect_row_update) simp_all
  then show ?thesis
    using collect_new [of b] scan
    by (simp add: walk_new_def new_table_def Let_def del: collect_table.simps)
qed

lemma collect_walk:
  "find_key key h t = None \<Longrightarrow> wf_table t \<Longrightarrow>
   set (collect_table (tab (walk True s key base h t))) =
     insert (ret (walk True s key base h t), key) (set (collect_table t))"
proof (induction key h t rule: find_key.induct)
  case (1 key h rws b)
  define r where "r = unat h mod ROWS"
  obtain ks nx where row: "rws ! r = DictRow ks nx" by (cases "rws ! r") auto
  have wf: "r < length rws" "wf_row (DictRow ks nx)"
    using wf_table_nth [OF "1.prems"(2), of h] row by (simp_all add: r_def)
  have pos: "cell_pos key 0 ks = None"
    using "1.prems"(1) wf row by (auto simp: find_key.simps Let_def split: option.splits simp flip: r_def)
  show ?case
  proof (cases "None \<in> set ks")
    case True
    from scan_True_insert [OF True _ pos] wf obtain j ks' where
      scan: "scan_cells True key 0 ks = (Inserted j, ks')" by auto
    have "set (collect_table (DictTable (rws[r := DictRow ks' nx]) b))
        = insert (index b r j, key) (set (collect_table (DictTable rws b)))"
      using collect_inserted [OF scan, of nx b r] wf(1) row by (intro collect_row_update) simp_all
    with scan wf row show ?thesis by (simp add: walk.simps Let_def flip: r_def)
  next
    case False
    then have scan: "scan_cells True key 0 ks = (NoHit, ks)" using pos by (rule scan_True_full)
    define w where "w = (case nx of Some t \<Rightarrow> walk True s key base (next_hash h) t
       | None \<Rightarrow> walk_new True s key (next_hash h) (base + word_of_nat TABLE_CAPACITY))"
    have res: "walk True s key base h (DictTable rws b) = w\<lparr>tab := DictTable (rws[r := DictRow ks (Some (tab w))]) b\<rparr>"
      using scan wf row by (simp add: walk.simps Let_def w_def split: option.split flip: r_def)
    have "set (collect_row (DictRow ks (Some (tab w))) b r)
        = insert (ret w, key) (set (collect_row (DictRow ks nx) b r))"
    proof (cases nx)
      case None
      then show ?thesis
        using collect_walk_new [of s key "next_hash h" "base + word_of_nat TABLE_CAPACITY"]
        by (auto simp: w_def)
    next
      case (Some t)
      have "find_key key (next_hash h) t = None"
        using "1.prems"(1) wf row Some pos by (simp add: find_key.simps Let_def flip: r_def)
      moreover have "wf_table t" using wf Some by simp
      ultimately show ?thesis
        using "1.IH" [OF r_def wf(1) row pos Some] by (auto simp: w_def Some)
    qed
    then have "set (collect_table (DictTable (rws[r := DictRow ks (Some (tab w))]) b))
        = insert (ret w, key) (set (collect_table (DictTable rws b)))"
      using wf(1) row by (intro collect_row_update) simp_all
    with res show ?thesis by (simp del: collect_table.simps)
  qed
qed

lemma find_key_collected:
  "find_key k h t = Some i \<Longrightarrow> (i, k) \<in> set (collect_table t)"
proof (induction k h t rule: find_key.induct)
  case (1 k h rws b)
  define r where "r = unat h mod ROWS"
  obtain ks nx where row: "rws ! r = DictRow ks nx" by (cases "rws ! r") auto
  have r: "r < length rws"
    using "1.prems" by (auto simp: find_key.simps Let_def r_def split: if_splits)
  have "(i, k) \<in> set (collect_row (rws ! r) b r)"
  proof (cases "cell_pos k 0 ks")
    case (Some c)
    then have "i = index b r c"
      using "1.prems" r row by (simp add: find_key.simps Let_def flip: r_def)
    with cell_pos_nth [OF Some] row show ?thesis by (auto simp: set_cell_entries)
  next
    case None
    with "1.prems" r row obtain t where nx: "nx = Some t" and "find_key k (next_hash h) t = Some i"
      by (auto simp: find_key.simps Let_def split: option.splits simp flip: r_def)
    with "1.IH" [OF r_def r row None nx] row show ?thesis by simp
  qed
  with r show ?case by (auto simp: set_collect_table simp del: collect_table.simps)
qed

text \<open>The full invariant: every stored key is where \<open>lookup\<close> looks for it.\<close>

definition dict_ok :: "dictionary \<Rightarrow> bool" where
  "dict_ok d \<longleftrightarrow> dict_inv d \<and> (\<forall>(i, k) \<in> set (collect_table (table d)). key_index d k = Some i)"

lemma dict_ok_new: "dict_ok (fst (new_dictionary i cs))"
  using dict_inv_new [of i cs] by (simp add: dict_ok_def new_dictionary_def collect_new del: collect_table.simps)

lemma dict_ok_clear: "dict_ok (fst (clear d cs))"
  using dict_inv_clear [of d cs] by (simp add: dict_ok_def clear_def collect_new del: collect_table.simps)

lemma dict_ok_lookup:
  assumes "dict_ok d" and "0 < slack d"
  shows "dict_ok (fst (snd (lookup k d cs)))"
proof (cases "key_index d k")
  case (Some i)
  then show ?thesis using assms(1) by (simp add: lookup_known dict_ok_def)
next
  case None
  have inv: "dict_inv d" using assms(1) by (simp add: dict_ok_def)
  have "set (collect_table (table (fst (snd (lookup k d cs)))))
      = insert (fst (lookup k d cs), k) (set (collect_table (table d)))"
    using collect_walk [of k "hash k" "table d" 0 "base_idx d"] None inv
    by (simp add: lookup_def lookup4_def Let_def key_index_def dict_inv_def del: collect_table.simps)
  moreover have "key_index (fst (snd (lookup k d cs))) k' = Some i"
    if "(i, k') \<in> set (collect_table (table d))" for i k'
  proof -
    have "key_index d k' = Some i" using assms(1) that by (auto simp: dict_ok_def)
    then show ?thesis using lookup_new_key(1) [OF inv None, of cs] None by auto
  qed
  moreover have "key_index (fst (snd (lookup k d cs))) k = Some (fst (lookup k d cs))"
    using lookup_new_key(1) [OF inv None, of cs] by simp
  ultimately show ?thesis
    unfolding dict_ok_def using dict_inv_lookup [OF inv assms(2), of k cs] by auto
qed

lemma fold_upd_map_of: "fold (\<lambda>(i, k) m. m(i \<mapsto> k)) es m = m ++ map_of (rev es)"
  by (induction es arbitrary: m) (auto simp: map_add_def fun_eq_iff split: option.splits)

lemma collect_iff:
  assumes "dict_ok d"
  shows "collect d i = Some k \<longleftrightarrow> key_index d k = Some i"
proof -
  let ?es = "collect_table (table d)"
  have es: "key_index d k' = Some j" if "(j, k') \<in> set ?es" for j k'
    using assms that by (auto simp: dict_ok_def)
  have "collect d i = map_of (rev ?es) i"
    by (simp add: collect_def fold_upd_map_of)
  moreover have "map_of (rev ?es) i = Some k" if "key_index d k = Some i"
  proof -
    have "(i, k) \<in> set (rev ?es)"
      using find_key_collected that by (simp add: key_index_def)
    then obtain k' where "map_of (rev ?es) i = Some k'"
      using weak_map_of_SomeI by metis
    moreover from this have "key_index d k' = Some i"
      using es by (auto dest!: map_of_SomeD)
    ultimately show ?thesis
      using key_index_inj that assms by (metis dict_ok_def)
  qed
  ultimately show ?thesis
    using es by (metis map_of_SomeD set_rev)
qed

section \<open>The interface of an interner\<close>

text \<open>
  What the users of a dictionary rely on: a known key keeps its number, a new key gets one and leaves
  the others alone, two keys never share one, as long as there is room.
\<close>

locale interner =
  fixes intern :: "'k \<Rightarrow> 's \<Rightarrow> 'i \<times> 's"
    and idx :: "'s \<Rightarrow> 'k \<rightharpoonup> 'i"
    and inv :: "'s \<Rightarrow> bool"
    and room :: "'s \<Rightarrow> nat"
  assumes known: "inv s \<Longrightarrow> idx s k = Some i \<Longrightarrow> intern k s = (i, s)"
    and fresh: "inv s \<Longrightarrow> idx s k = None \<Longrightarrow> idx (snd (intern k s)) = (idx s)(k \<mapsto> fst (intern k s))"
    and inv_intern: "inv s \<Longrightarrow> 0 < room s \<Longrightarrow> inv (snd (intern k s))"
    and room_intern: "inv s \<Longrightarrow> room s \<le> Suc (room (snd (intern k s)))"
    and unique: "inv s \<Longrightarrow> idx s k = Some i \<Longrightarrow> idx s k' = Some i \<Longrightarrow> k = k'"
begin

primrec intern_all :: "'k list \<Rightarrow> 's \<Rightarrow> 'i list \<times> 's" where
  "intern_all [] s = ([], s)"
| "intern_all (k # ks) s =
     (case intern k s of (i, s1) \<Rightarrow> case intern_all ks s1 of (is, s2) \<Rightarrow> (i # is, s2))"

lemma idx_intern: "inv s \<Longrightarrow> idx (snd (intern k s)) = (idx s)(k \<mapsto> fst (intern k s))"
  by (cases "idx s k") (auto simp: known fresh)

lemma idx_intern_keeps:
  assumes "inv s" and "idx s k = Some i"
  shows "idx (snd (intern k' s)) k = Some i"
  using assms by (cases "k' = k") (auto simp: idx_intern known)

lemma intern_all_inv:
  "inv s \<Longrightarrow> length ks \<le> room s \<Longrightarrow> inv (snd (intern_all ks s))"
proof (induction ks arbitrary: s)
  case (Cons k ks)
  then have "inv (snd (intern k s))" by (simp add: inv_intern)
  moreover have "length ks \<le> room (snd (intern k s))"
    using room_intern [of s k] Cons.prems by simp
  ultimately show ?case using Cons.IH by (simp add: case_prod_beta)
qed simp

lemma intern_all_keeps:
  "inv s \<Longrightarrow> length ks \<le> room s \<Longrightarrow> idx s k = Some i \<Longrightarrow> idx (snd (intern_all ks s)) k = Some i"
proof (induction ks arbitrary: s)
  case (Cons k' ks)
  then have "inv (snd (intern k' s))" by (simp add: inv_intern)
  moreover have "length ks \<le> room (snd (intern k' s))"
    using room_intern [of s k'] Cons.prems by simp
  ultimately show ?case using Cons idx_intern_keeps by (simp add: case_prod_beta)
qed simp

lemma intern_all_idx:
  "inv s \<Longrightarrow> length ks \<le> room s \<Longrightarrow>
   map Some (fst (intern_all ks s)) = map (idx (snd (intern_all ks s))) ks"
proof (induction ks arbitrary: s)
  case (Cons k ks)
  then have inv: "inv (snd (intern k s))" by (simp add: inv_intern)
  have room: "length ks \<le> room (snd (intern k s))"
    using room_intern [of s k] Cons.prems by simp
  have "idx (snd (intern k s)) k = Some (fst (intern k s))"
    using Cons.prems by (simp add: idx_intern)
  then have "idx (snd (intern_all ks (snd (intern k s)))) k = Some (fst (intern k s))"
    by (rule intern_all_keeps [OF inv room])
  with Cons.IH [OF inv room] show ?case by (simp add: case_prod_beta)
qed simp

lemma intern_all_dom:
  "inv s \<Longrightarrow> length ks \<le> room s \<Longrightarrow> dom (idx (snd (intern_all ks s))) = dom (idx s) \<union> set ks"
proof (induction ks arbitrary: s)
  case (Cons k ks)
  then have "inv (snd (intern k s))" by (simp add: inv_intern)
  moreover have "length ks \<le> room (snd (intern k s))"
    using room_intern [of s k] Cons.prems by simp
  ultimately have "dom (idx (snd (intern_all (k # ks) s))) = dom (idx (snd (intern k s))) \<union> set ks"
    using Cons.IH by (simp add: case_prod_beta)
  then show ?case using Cons.prems by (auto simp: idx_intern split: if_splits)
qed simp

lemma intern_all_eq_iff:
  assumes "inv s" and "length ks \<le> room s" and "a < length ks" and "b < length ks"
  shows "fst (intern_all ks s) ! a = fst (intern_all ks s) ! b \<longleftrightarrow> ks ! a = ks ! b"
proof -
  let ?is = "fst (intern_all ks s)" and ?s = "snd (intern_all ks s)"
  have eq: "map Some ?is = map (idx ?s) ks" by (rule intern_all_idx [OF assms(1,2)])
  then have len: "length ?is = length ks" by (metis length_map)
  have "Some (?is ! j) = idx ?s (ks ! j)" if "j < length ks" for j
    using arg_cong [OF eq, of "\<lambda>xs. xs ! j"] that len by simp
  then show ?thesis
    using assms unique [OF intern_all_inv [OF assms(1,2)]] by (metis option.inject)
qed

end

interpretation dict: interner "\<lambda>k (d, cs). lookup k d cs" "\<lambda>(d, cs). key_index d"
    "\<lambda>(d, cs). dict_ok d" "\<lambda>(d, cs). slack d"
proof (unfold_locales, goal_cases)
  case (1 s k i)
  then show ?case by (auto simp: lookup_known dict_ok_def)
next
  case (2 s k)
  then show ?case by (auto simp: dict_ok_def case_prod_beta lookup_new_key(1))
next
  case (3 s k)
  then show ?case using dict_ok_lookup by (auto simp: case_prod_beta)
next
  case (4 s k)
  then show ?case using slack_lookup by (auto simp: case_prod_beta dict_ok_def)
next
  case (5 s k i k')
  then show ?case using key_index_inj by (auto simp: dict_ok_def)
qed

section \<open>Properties\<close>

text \<open>A sequence of lookups, as the recorder issues them.\<close>

primrec lookup_all :: "string list \<Rightarrow> dictionary \<times> counters \<Rightarrow> u32 list \<times> (dictionary \<times> counters)" where
  "lookup_all [] s = ([], s)"
| "lookup_all (k # ks) s =
     (case s of (d, cs) \<Rightarrow> case lookup k d cs of (i, s1) \<Rightarrow>
        case lookup_all ks s1 of (is, s2) \<Rightarrow> (i # is, s2))"

lemma lookup_all_eq: "lookup_all ks s = dict.intern_all ks s"
  by (induction ks arbitrary: s) (auto simp: case_prod_beta)

lemma room_new: "slack (fst (new_dictionary i cs)) = 11184809"
  by (simp add: slack_def new_dictionary_def dict_consts)

lemma new_dict_room:
  assumes "length ks \<le> 11184809"
  shows "case new_dictionary n cs of (d, _) \<Rightarrow> dict_ok d"
    and "length ks \<le> (case new_dictionary n cs of (d, _) \<Rightarrow> slack d)"
  using assms room_new [of n cs] dict_ok_new [of n cs] by (auto simp: case_prod_beta)

lemma key_index_new: "key_index (fst (new_dictionary n cs)) = Map.empty"
  by (simp add: fun_eq_iff key_index_def new_dictionary_def find_key_new)

text \<open>
  C7. Numbers identify strings: in any sequence of at most 11184809 lookups on a new dictionary, two
  lookups return the same number exactly when they were given the same string.
\<close>

theorem lookup_numbers_identify:
  assumes "length ks \<le> 11184809" and "a < length ks" and "b < length ks"
  shows "fst (lookup_all ks (new_dictionary n cs)) ! a = fst (lookup_all ks (new_dictionary n cs)) ! b
     \<longleftrightarrow> ks ! a = ks ! b"
  unfolding lookup_all_eq
  using new_dict_room [OF assms(1), of n cs] assms(2,3) by (intro dict.intern_all_eq_iff) auto

theorem lookup_numbers_identify_witness:
  "fst (lookup_all [''a'', ''b'', ''a''] (new_dictionary 0 counters_init)) ! 0 =
     fst (lookup_all [''a'', ''b'', ''a''] (new_dictionary 0 counters_init)) ! 2
   \<and> fst (lookup_all [''a'', ''b'', ''a''] (new_dictionary 0 counters_init)) ! 0 \<noteq>
     fst (lookup_all [''a'', ''b'', ''a''] (new_dictionary 0 counters_init)) ! 1"
  using lookup_numbers_identify [of "[''a'', ''b'', ''a'']" 0 2 0 counters_init]
    lookup_numbers_identify [of "[''a'', ''b'', ''a'']" 0 1 0 counters_init]
  by simp

text \<open>
  C22. The constant pool is complete and exact: after any sequence of at most 11184809 lookups,
  \<^verbatim>\<open>collect\<close> maps a number to a string exactly when one of the lookups of that string returned it.
\<close>

theorem collect_inverts_lookups:
  assumes "length ks \<le> 11184809" and "lookup_all ks (new_dictionary n cs) = (is, d, cs')"
  shows "collect d i = Some k \<longleftrightarrow> (\<exists>a < length ks. ks ! a = k \<and> is ! a = i)"
proof -
  note room = new_dict_room [OF assms(1), of n cs]
  have run: "dict.intern_all ks (new_dictionary n cs) = (is, d, cs')"
    using assms(2) by (simp add: lookup_all_eq)
  have ok: "dict_ok d" using dict.intern_all_inv [OF room] run by simp
  have eq: "map Some is = map (key_index d) ks" using dict.intern_all_idx [OF room] run by simp
  then have len: "length is = length ks" by (metis length_map)
  have idx: "key_index d (ks ! a) = Some (is ! a)" if "a < length ks" for a
    using arg_cong [OF eq, of "\<lambda>xs. xs ! a"] that len by simp
  have "dom (key_index d) = set ks"
    using dict.intern_all_dom [OF room] run key_index_new [of n cs] by (simp add: case_prod_beta)
  then have "key_index d k = Some i \<longleftrightarrow> (\<exists>a < length ks. ks ! a = k \<and> is ! a = i)"
    using idx by (metis domI in_set_conv_nth option.inject)
  then show ?thesis by (simp add: collect_iff [OF ok])
qed

theorem collect_inverts_lookups_witness:
  "collect (fst (snd (lookup_all [''a''] (new_dictionary 0 counters_init))))
     (fst (lookup_all [''a''] (new_dictionary 0 counters_init)) ! 0) = Some ''a''"
proof -
  obtain "is" d cs' where "lookup_all [''a''] (new_dictionary 0 counters_init) = (is, d, cs')"
    by (metis prod.collapse)
  with collect_inverts_lookups [OF _ this, of "is ! 0" "''a''"] show ?thesis by simp
qed

text \<open>
  A full bounded dictionary never grows: once the size reaches the limit, \<^verbatim>\<open>bounded_lookup\<close>
  returns the number of a known key and the sentinel \<^verbatim>\<open>INT_MAX\<close> for every other key, and changes neither
  the tables nor the counters.
\<close>

theorem bounded_lookup_full:
  assumes "limit \<le> dict_size d"
  shows "bounded_lookup k limit d cs =
     ((case key_index d k of Some i \<Rightarrow> i | None \<Rightarrow> 2147483647), d, cs)"
  using assms by (simp add: bounded_lookup_def lookup4_def walk_False key_index_def INT_MAX_def)

theorem bounded_lookup_full_witness:
  "bounded_lookup ''x'' 0 (fst (new_dictionary 0 counters_init)) counters_init
     = (2147483647, fst (new_dictionary 0 counters_init), counters_init)"
  using bounded_lookup_full [of 0 "fst (new_dictionary 0 counters_init)" "''x''" counters_init]
  by (simp add: new_dictionary_def key_index_def find_key_new)

text \<open>
  \<^verbatim>\<open>check\<close> answers whether a key has a number; it relies on no key ever getting the number 0,
  which the base index 1 ensures.
\<close>

theorem check_iff_known:
  assumes "dict_ok d"
  shows "check k d cs \<longleftrightarrow> (\<exists>i. collect d i = Some k)"
proof -
  have "i \<noteq> 0" if idx: "key_index d k = Some i" for i
  proof -
    obtain T r c where cell: "cell_of (table d) T r c k" "i = index (base_index T) r c"
      using find_key_cell assms idx by (metis dict_inv_def dict_ok_def key_index_def)
    then have "base_index T \<in> set (bases (table d))" by (auto simp: cell_of_def bases_def)
    with assms have b: "unat (base_index T) + TABLE_CAPACITY \<le> 2 ^ 32" "unat (base_index T) mod TABLE_CAPACITY = 1"
      by (auto simp: dict_ok_def dict_inv_def bases_ok_def)
    then have "unat i = unat (base_index T) + (128 * c + r)"
      using unat_index cell by (simp add: cell_of_def)
    with b(2) show ?thesis by auto
  qed
  then show ?thesis
    by (auto simp: check_def lookup4_def walk_False collect_iff [OF assms] key_index_def split: option.splits)
qed

theorem check_iff_known_witness:
  "\<not> check ''x'' (fst (new_dictionary 0 counters_init)) counters_init"
  using check_iff_known [OF dict_ok_new [of 0 counters_init], of "''x''" counters_init]
  by (simp add: collect_iff [OF dict_ok_new] key_index_new)

end
