(* ===== verification/Linear_Allocator.thy ===== *)
theory Linear_Allocator
  imports Prelude Counters
begin

text \<open>
  Model of \<^verbatim>\<open>linearAllocator.h\<close> and \<^verbatim>\<open>linearAllocator.cpp\<close>: the bump allocator that holds the call
  traces. Chunks live in a heap, a partial map from chunk numbers to headers; a chunk is freed by
  removing it, and touching a removed chunk is the error \<open>BadChunk\<close>. \<^verbatim>\<open>OS::safeAlloc\<close> is the parameter
  \<open>os\<close>: whether the system grants the \<open>n\<close>-th request; a granted chunk gets the number of its request.

  Invariant: the tail starts a chain of distinct live chunks, the reserve is the tail or one fresh
  chunk in front of it, nothing else is live, and the counters agree with what is live. From it follow
  that the blocks handed out are inside their chunks and never overlap, that the loop of \<^verbatim>\<open>alloc\<close> ends
  after at most one change of chunk, and that \<^verbatim>\<open>clear\<close> frees all chunks but the first.
\<close>

section \<open>State\<close>

record chunk =
  prev :: "nat option"
  offs :: u64

definition sizeof_Chunk :: u64 where "sizeof_Chunk = 72"

record allocator =
  chunk_size :: u64
  tail :: nat
  reserve :: nat
  chunks :: "nat \<rightharpoonup> chunk"
  requests :: nat

datatype alloc_error = BadChunk | NoFuel

type_synonym alloc_st = "allocator \<times> counters"

section \<open>Operations\<close>

definition count_chunk :: "int \<Rightarrow> u64 \<Rightarrow> counters \<Rightarrow> counters" where
  "count_chunk sign sz cs =
     increment LINEAR_ALLOCATOR_CHUNKS sign 0 (increment LINEAR_ALLOCATOR_BYTES (sign * uint sz) 0 cs)"

definition allocateChunk :: "(nat \<Rightarrow> bool) \<Rightarrow> nat option \<Rightarrow> alloc_st \<Rightarrow> nat option \<times> alloc_st" where
  "allocateChunk os current = (\<lambda>(a, cs).
     let n = requests a; a' = a\<lparr>requests := Suc n\<rparr> in
     if os n then
       (Some n, a'\<lparr>chunks := (chunks a)(n \<mapsto> \<lparr>prev = current, offs = sizeof_Chunk\<rparr>)\<rparr>,
        count_chunk 1 (chunk_size a) cs)
     else (None, a', cs))"

definition freeChunk :: "nat \<Rightarrow> alloc_st \<Rightarrow> alloc_st" where
  "freeChunk current = (\<lambda>(a, cs).
     (a\<lparr>chunks := (chunks a)(current := None)\<rparr>, count_chunk (- 1) (chunk_size a) cs))"

definition reserveChunk :: "(nat \<Rightarrow> bool) \<Rightarrow> nat \<Rightarrow> alloc_st \<Rightarrow> alloc_st" where
  "reserveChunk os current st =
     (case allocateChunk os (Some current) st of
        (None, st1) \<Rightarrow> st1
      | (Some r, a, cs) \<Rightarrow>
          if reserve a = current then (a\<lparr>reserve := r\<rparr>, cs) else freeChunk r (a, cs))"

text \<open>The end of \<^verbatim>\<open>getNextChunk\<close>: the compare-and-swap of the tail.\<close>

definition swap_tail :: "nat \<Rightarrow> nat \<Rightarrow> alloc_st \<Rightarrow> nat option \<times> alloc_st" where
  "swap_tail current r = (\<lambda>(a, cs).
     if tail a = current then (Some r, a\<lparr>tail := r\<rparr>, cs) else (Some (tail a), a, cs))"

definition getNextChunk :: "(nat \<Rightarrow> bool) \<Rightarrow> nat \<Rightarrow> alloc_st \<Rightarrow> nat option \<times> alloc_st" where
  "getNextChunk os current st =
     (if reserve (fst st) = current then
        (case allocateChunk os (Some current) st of
           (None, st1) \<Rightarrow> (None, st1)
         | (Some r, a, cs) \<Rightarrow>
             if reserve a = current then swap_tail current r (a\<lparr>reserve := r\<rparr>, cs)
             else swap_tail current (reserve a) (freeChunk r (a, cs)))
      else swap_tail current (reserve (fst st)) st)"

text \<open>
  \<^verbatim>\<open>alloc\<close> from a given chunk: the offset is bumped when the block fits, otherwise the next chunk is
  tried. The sum and the difference are those of \<^verbatim>\<open>size_t\<close>. A block is a chunk and an offset.
\<close>

fun alloc_from ::
    "nat \<Rightarrow> (nat \<Rightarrow> bool) \<Rightarrow> u64 \<Rightarrow> nat \<Rightarrow> alloc_st \<Rightarrow> alloc_error + (nat \<times> u64) option \<times> alloc_st" where
  "alloc_from 0 os sz c st = Inl NoFuel"
| "alloc_from (Suc fuel) os sz c (a, cs) =
     (case chunks a c of
        None \<Rightarrow> Inl BadChunk
      | Some k \<Rightarrow>
          (let off = offs k in
           if off + sz \<le> chunk_size a then
             (let st = (a\<lparr>chunks := (chunks a)(c \<mapsto> k\<lparr>offs := off + sz\<rparr>)\<rparr>, cs)
              in Inr (Some (c, off),
                      if chunk_size a div 2 - off < sz then reserveChunk os c st else st))
           else
             (case getNextChunk os c (a, cs) of
                (None, st) \<Rightarrow> Inr (None, st)
              | (Some c', st) \<Rightarrow> alloc_from fuel os sz c' st)))"

text \<open>\<open>fuel\<close> bounds the rounds; two are enough for every block that fits into an empty chunk.\<close>

definition alloc ::
    "nat \<Rightarrow> (nat \<Rightarrow> bool) \<Rightarrow> u64 \<Rightarrow> alloc_st \<Rightarrow> alloc_error + (nat \<times> u64) option \<times> alloc_st" where
  "alloc fuel os sz st = alloc_from fuel os sz (tail (fst st)) st"

text \<open>\<^verbatim>\<open>clear\<close>: as many rounds as chunks were ever requested are enough for the chain of the tail.\<close>

fun clear_loop :: "nat \<Rightarrow> alloc_st \<Rightarrow> alloc_error + alloc_st" where
  "clear_loop 0 st = Inl NoFuel"
| "clear_loop (Suc fuel) (a, cs) =
     (case chunks a (tail a) of
        None \<Rightarrow> Inl BadChunk
      | Some k \<Rightarrow>
          (case prev k of
             None \<Rightarrow> Inr (a\<lparr>reserve := tail a, chunks := (chunks a)(tail a \<mapsto> k\<lparr>offs := sizeof_Chunk\<rparr>)\<rparr>, cs)
           | Some p \<Rightarrow> clear_loop fuel (freeChunk (tail a) (a\<lparr>tail := p\<rparr>, cs))))"

definition clear_chunks :: "alloc_st \<Rightarrow> alloc_error + alloc_st" where
  "clear_chunks = (\<lambda>(a, cs).
     case chunks a (reserve a) of
       None \<Rightarrow> Inl BadChunk
     | Some k \<Rightarrow>
         clear_loop (requests a)
           (if prev k = Some (tail a) then freeChunk (reserve a) (a, cs) else (a, cs)))"

text \<open>The constructor; when the first request fails the object has no chunk at all.\<close>

definition new_LinearAllocator :: "(nat \<Rightarrow> bool) \<Rightarrow> u64 \<Rightarrow> counters \<Rightarrow> alloc_st option" where
  "new_LinearAllocator os sz cs =
     (case allocateChunk os None
             (\<lparr>chunk_size = sz, tail = 0, reserve = 0, chunks = Map.empty, requests = 0\<rparr>, cs) of
        (None, _) \<Rightarrow> None
      | (Some c, a, cs1) \<Rightarrow> Some (a\<lparr>tail := c, reserve := c\<rparr>, cs1))"

section \<open>Invariant\<close>

text \<open>A chain of chunks from the newest to the first one.\<close>

fun chain :: "(nat \<rightharpoonup> chunk) \<Rightarrow> nat list \<Rightarrow> bool" where
  "chain h [] \<longleftrightarrow> False"
| "chain h [c] \<longleftrightarrow> (\<exists>k. h c = Some k \<and> prev k = None)"
| "chain h (c # d # cs) \<longleftrightarrow> (\<exists>k. h c = Some k \<and> prev k = Some d) \<and> chain h (d # cs)"

definition reserve_ok :: "allocator \<Rightarrow> nat list \<Rightarrow> bool" where
  "reserve_ok a path \<longleftrightarrow> reserve a = tail a
     \<or> (reserve a \<notin> set path \<and> chunks a (reserve a) = Some \<lparr>prev = Some (tail a), offs = sizeof_Chunk\<rparr>)"

definition offs_ok :: "allocator \<Rightarrow> bool" where
  "offs_ok a \<longleftrightarrow> (\<forall>c k. chunks a c = Some k \<longrightarrow> c < requests a \<and> 72 \<le> unat (offs k) \<and> unat (offs k) \<le> unat (chunk_size a))"

definition counted :: "int \<Rightarrow> int \<Rightarrow> allocator \<Rightarrow> counters \<Rightarrow> bool" where
  "counted n0 b0 a cs \<longleftrightarrow> wf_counters cs
     \<and> getCounter cs LINEAR_ALLOCATOR_CHUNKS 0 = s64 (n0 + int (card (dom (chunks a))))
     \<and> getCounter cs LINEAR_ALLOCATOR_BYTES 0 = s64 (b0 + int (card (dom (chunks a))) * uint (chunk_size a))"

definition alloc_inv :: "int \<Rightarrow> int \<Rightarrow> nat list \<Rightarrow> alloc_st \<Rightarrow> bool" where
  "alloc_inv n0 b0 path = (\<lambda>(a, cs). chain (chunks a) path \<and> hd path = tail a \<and> distinct path \<and> reserve_ok a path
     \<and> dom (chunks a) = insert (reserve a) (set path) \<and> offs_ok a \<and> counted n0 b0 a cs
     \<and> 72 \<le> unat (chunk_size a) \<and> unat (chunk_size a) < 2 ^ 63)"

lemma s64_add: "s64 (s64 x + y) = s64 (x + y)"
  unfolding s64_def by (metis signed_take_bit_add signed_take_bit_signed_take_bit min.idem)

lemma s64_add': "s64 (y + s64 x) = s64 (y + x)"
  using s64_add [of x y] by (simp only: add.commute)

lemma s64_diff: "s64 (s64 x - y) = s64 (x - y)"
  using s64_add [of x "- y"] by simp

lemma chain_cong: "chain h path \<Longrightarrow> \<forall>c \<in> set path. map_option prev (h' c) = map_option prev (h c) \<Longrightarrow> chain h' path"
  by (induction h path rule: chain.induct) (auto simp: map_option_eq_Some)

lemma chain_dom: "chain h path \<Longrightarrow> set path \<subseteq> dom h"
  by (induction h path rule: chain.induct) auto

lemma chain_upd_other: "chain h path \<Longrightarrow> c \<notin> set path \<Longrightarrow> chain (h(c := x)) path"
  by (rule chain_cong) auto

lemma chain_Cons:
  "chain h path \<Longrightarrow> h r = Some k \<Longrightarrow> prev k = Some (hd path) \<Longrightarrow> chain h (r # path)"
  by (cases path) auto

lemma counter_count_chunk:
  assumes "wf_counters cs"
  shows "wf_counters (count_chunk sg sz cs)"
    and "getCounter (count_chunk sg sz cs) LINEAR_ALLOCATOR_CHUNKS 0 = s64 (getCounter cs LINEAR_ALLOCATOR_CHUNKS 0 + sg)"
    and "getCounter (count_chunk sg sz cs) LINEAR_ALLOCATOR_BYTES 0 = s64 (getCounter cs LINEAR_ALLOCATOR_BYTES 0 + sg * uint sz)"
  using assms by (simp_all add: count_chunk_def getCounter_increment DD_NUM_COUNTERS_def)

lemma counted_add:
  assumes "counted n0 b0 a cs" and "n \<notin> dom (chunks a)" and "finite (dom (chunks a))"
    and "chunks a' = (chunks a)(n \<mapsto> k)" and "chunk_size a' = chunk_size a"
  shows "counted n0 b0 a' (count_chunk 1 (chunk_size a) cs)"
proof -
  have "card (dom (chunks a')) = Suc (card (dom (chunks a)))" using assms(2-4) by simp
  with assms(1,5) show ?thesis
    by (simp add: counted_def counter_count_chunk s64_add s64_add' s64_diff algebra_simps)
qed

lemma counted_del:
  assumes "counted n0 b0 a cs" and "n \<in> dom (chunks a)" and "finite (dom (chunks a))"
    and "chunks a' = (chunks a)(n := None)" and "chunk_size a' = chunk_size a"
  shows "counted n0 b0 a' (count_chunk (- 1) (chunk_size a) cs)"
proof -
  have "card (dom (chunks a)) = Suc (card (dom (chunks a')))"
    using assms(4) card_Suc_Diff1 [OF assms(3,2)] by simp
  with assms(1,5) show ?thesis
    by (simp add: counted_def counter_count_chunk s64_add s64_add' s64_diff algebra_simps)
qed

lemma alloc_inv_finite: "alloc_inv n0 b0 path (a, cs) \<Longrightarrow> finite (dom (chunks a))"
  by (simp add: alloc_inv_def)

lemma fresh_request: "alloc_inv n0 b0 path (a, cs) \<Longrightarrow> requests a \<notin> dom (chunks a)"
  by (auto simp: alloc_inv_def offs_ok_def)

lemma tail_in_path: "alloc_inv n0 b0 path (a, cs) \<Longrightarrow> tail a \<in> set path"
  by (cases path) (auto simp: alloc_inv_def)

lemma inv_request:
  "alloc_inv n0 b0 path (a, cs) \<Longrightarrow> alloc_inv n0 b0 path (a\<lparr>requests := Suc (requests a)\<rparr>, cs)"
  by (simp add: alloc_inv_def reserve_ok_def counted_def offs_ok_def less_Suc_eq)

text \<open>A request that is granted and at once dropped, or not granted, changes nothing that matters.\<close>

lemma inv_dropped:
  assumes "alloc_inv n0 b0 path (a, cs)" and "allocateChunk os cur (a, cs) = (Some r, st)"
  shows "alloc_inv n0 b0 path (freeChunk r st)" and "fst (freeChunk r st) = a\<lparr>requests := Suc (requests a)\<rparr>"
proof -
  have r: "r = requests a" and new: "r \<notin> dom (chunks a)"
    using assms fresh_request [OF assms(1)] by (auto simp: allocateChunk_def Let_def split: if_splits)
  have "(chunks a)(r := None) = chunks a" using new by auto
  then show eq: "fst (freeChunk r st) = a\<lparr>requests := Suc (requests a)\<rparr>"
    using assms(2) r by (auto simp: allocateChunk_def freeChunk_def Let_def split: if_splits)
  have "counted n0 b0 (fst (freeChunk r st)) (snd (freeChunk r st))"
    using assms counted_del [of n0 b0 "fst st" "snd st" r "fst (freeChunk r st)"]
      counted_add [of n0 b0 a cs r "fst st"] alloc_inv_finite [OF assms(1)] new
    by (auto simp: allocateChunk_def freeChunk_def Let_def alloc_inv_def split: if_splits)
  moreover obtain cs' where "freeChunk r st = (a\<lparr>requests := Suc (requests a)\<rparr>, cs')"
    using eq by (metis prod.collapse)
  ultimately show "alloc_inv n0 b0 path (freeChunk r st)"
    using inv_request [OF assms(1)] by (simp add: alloc_inv_def)
qed

lemma inv_refused:
  assumes "alloc_inv n0 b0 path (a, cs)" and "allocateChunk os cur (a, cs) = (None, st)"
  shows "alloc_inv n0 b0 path st" and "fst st = a\<lparr>requests := Suc (requests a)\<rparr>"
  using assms inv_request [OF assms(1)] by (auto simp: allocateChunk_def Let_def split: if_splits)

text \<open>A granted request that becomes the reserve of the tail.\<close>

lemma inv_reserved:
  assumes inv: "alloc_inv n0 b0 path (a, cs)" and al: "allocateChunk os (Some (tail a)) (a, cs) = (Some r, a', cs')"
    and res: "reserve a = tail a"
  shows "alloc_inv n0 b0 path (a'\<lparr>reserve := r\<rparr>, cs')"
    and "r \<notin> set path" and "chunks a' r = Some \<lparr>prev = Some (tail a), offs = sizeof_Chunk\<rparr>"
    and "tail a' = tail a" and "chunk_size a' = chunk_size a" and "reserve a' = reserve a"
    and "c \<in> dom (chunks a) \<Longrightarrow> chunks a' c = chunks a c"
proof -
  let ?k = "\<lparr>prev = Some (tail a), offs = sizeof_Chunk\<rparr>"
  have r: "r = requests a" and new: "r \<notin> dom (chunks a)"
    and a': "a' = a\<lparr>requests := Suc (requests a), chunks := (chunks a)(r \<mapsto> ?k)\<rparr>"
    and cs': "cs' = count_chunk 1 (chunk_size a) cs"
    using inv al fresh_request [OF inv] by (auto simp: allocateChunk_def Let_def split: if_splits)
  show notin: "r \<notin> set path" using new inv chain_dom by (auto simp: alloc_inv_def)
  show ch: "chunks a' r = Some ?k" and "tail a' = tail a" and "chunk_size a' = chunk_size a" "reserve a' = reserve a"
    and "c \<in> dom (chunks a) \<Longrightarrow> chunks a' c = chunks a c"
    using a' new by auto
  have "counted n0 b0 (a'\<lparr>reserve := r\<rparr>) cs'"
    unfolding cs' using inv new alloc_inv_finite [OF inv] a' by (intro counted_add [of _ _ a _ r]) (auto simp: alloc_inv_def)
  moreover have "tail a \<in> set path" by (rule tail_in_path [OF inv])
  ultimately show "alloc_inv n0 b0 path (a'\<lparr>reserve := r\<rparr>, cs')"
    using inv notin res r
    by (auto simp: alloc_inv_def a' offs_ok_def reserve_ok_def less_SucI sizeof_Chunk_def insert_commute
        insert_absorb intro!: chain_upd_other)
qed

lemma inv_bump:
  assumes inv: "alloc_inv n0 b0 path (a, cs)" and k: "chunks a (tail a) = Some k"
    and le: "unat (offs k) + unat sz \<le> unat (chunk_size a)"
  shows "alloc_inv n0 b0 path (a\<lparr>chunks := (chunks a)(tail a \<mapsto> k\<lparr>offs := offs k + sz\<rparr>)\<rparr>, cs)"
    and "unat (offs k + sz) = unat (offs k) + unat sz"
proof -
  have "unat (offs k) + unat sz < 2 ^ 64" using le inv by (simp add: alloc_inv_def)
  then show un: "unat (offs k + sz) = unat (offs k) + unat sz" by (simp add: unat_word_ariths)
  let ?h = "(chunks a)(tail a \<mapsto> k\<lparr>offs := offs k + sz\<rparr>)"
  have "chain (chunks a) path" using inv by (simp add: alloc_inv_def)
  then have "chain ?h path" using k by (elim chain_cong) auto
  moreover have dom: "dom ?h = dom (chunks a)" using k by auto
  moreover have "tail a \<in> set path" by (rule tail_in_path [OF inv])
  moreover have "reserve_ok (a\<lparr>chunks := ?h\<rparr>) path"
    using inv by (auto simp: alloc_inv_def reserve_ok_def)
  moreover have "offs_ok (a\<lparr>chunks := ?h\<rparr>)"
    unfolding offs_ok_def
  proof (intro allI impI)
    fix c k' assume "chunks (a\<lparr>chunks := ?h\<rparr>) c = Some k'"
    moreover have "\<forall>c k. chunks a c = Some k \<longrightarrow> c < requests a \<and> 72 \<le> unat (offs k) \<and> unat (offs k) \<le> unat (chunk_size a)"
      using inv by (simp add: alloc_inv_def offs_ok_def)
    ultimately show "c < requests (a\<lparr>chunks := ?h\<rparr>) \<and> 72 \<le> unat (offs k')
        \<and> unat (offs k') \<le> unat (chunk_size (a\<lparr>chunks := ?h\<rparr>))"
      using k le un by (cases "c = tail a") (auto dest!: spec [of _ "tail a"])
  qed
  ultimately show "alloc_inv n0 b0 path (a\<lparr>chunks := ?h\<rparr>, cs)"
    using inv unfolding alloc_inv_def by (simp add: counted_def del: dom_fun_upd)
qed

lemma reserveChunk_ok:
  assumes inv: "alloc_inv n0 b0 path (a, cs)"
  obtains a' cs' where "reserveChunk os (tail a) (a, cs) = (a', cs')" and "alloc_inv n0 b0 path (a', cs')"
    and "tail a' = tail a" and "chunk_size a' = chunk_size a"
    and "\<forall>c \<in> dom (chunks a). chunks a' c = chunks a c"
proof -
  obtain r st where Pair: "allocateChunk os (Some (tail a)) (a, cs) = (r, st)"
    by (cases "allocateChunk os (Some (tail a)) (a, cs)")
  obtain a1 cs1 where st: "st = (a1, cs1)" by (cases st)
  show ?thesis
  proof (cases r)
    case None
    then show ?thesis
      using that [of a1 cs1] inv_refused [OF inv, of os "Some (tail a)" st] Pair st by (simp add: reserveChunk_def)
  next
    case (Some r')
    note al = Pair [unfolded Some st]
    have same: "reserve a1 = reserve a" using al by (auto simp: allocateChunk_def Let_def split: if_splits)
    show ?thesis
    proof (cases "reserve a = tail a")
      case True
      show ?thesis
        by (rule that [of "a1\<lparr>reserve := r'\<rparr>" cs1])
           (use inv_reserved [OF inv al True] al True same in \<open>simp_all add: reserveChunk_def\<close>)
    next
      case False
      obtain a2 cs2 where fr: "freeChunk r' (a1, cs1) = (a2, cs2)" by (cases "freeChunk r' (a1, cs1)")
      show ?thesis
        by (rule that [of a2 cs2])
           (use inv_dropped [OF inv al] fr al False same in \<open>simp_all add: reserveChunk_def\<close>)
    qed
  qed
qed

lemma inv_new_tail:
  assumes "alloc_inv n0 b0 path (a, cs)" and "reserve a \<noteq> tail a"
  shows "alloc_inv n0 b0 (reserve a # path) (a\<lparr>tail := reserve a\<rparr>, cs)"
    and "chunks a (reserve a) = Some \<lparr>prev = Some (tail a), offs = sizeof_Chunk\<rparr>"
proof -
  show k: "chunks a (reserve a) = Some \<lparr>prev = Some (tail a), offs = sizeof_Chunk\<rparr>"
    using assms by (auto simp: alloc_inv_def reserve_ok_def)
  then have "chain (chunks a) (reserve a # path)"
    using assms by (intro chain_Cons) (auto simp: alloc_inv_def)
  with assms show "alloc_inv n0 b0 (reserve a # path) (a\<lparr>tail := reserve a\<rparr>, cs)"
    by (simp add: alloc_inv_def reserve_ok_def counted_def offs_ok_def)
qed

lemma getNextChunk_ok:
  assumes inv: "alloc_inv n0 b0 path (a, cs)"
  shows "case getNextChunk os (tail a) (a, cs) of
      (None, a', cs') \<Rightarrow> alloc_inv n0 b0 path (a', cs') \<and> a' = a\<lparr>requests := Suc (requests a)\<rparr> \<and> \<not> os (requests a)
    | (Some c, a', cs') \<Rightarrow> alloc_inv n0 b0 (c # path) (a', cs') \<and> tail a' = c \<and> chunk_size a' = chunk_size a
        \<and> chunks a' c = Some \<lparr>prev = Some (tail a), offs = sizeof_Chunk\<rparr>
        \<and> (\<forall>c \<in> dom (chunks a). chunks a' c = chunks a c)"
proof (cases "reserve a = tail a")
  case False
  with inv_new_tail [OF inv False] show ?thesis by (simp add: getNextChunk_def swap_tail_def)
next
  case True
  obtain r a1 cs1 where al: "allocateChunk os (Some (tail a)) (a, cs) = (r, a1, cs1)"
    by (metis prod.collapse)
  show ?thesis
  proof (cases r)
    case None
    then show ?thesis
      using inv_refused [OF inv, of os "Some (tail a)" "(a1, cs1)"] al True
      by (auto simp: getNextChunk_def allocateChunk_def Let_def split: if_splits)
  next
    case (Some r')
    note res = inv_reserved [OF inv al [unfolded Some] True]
    have "r' \<noteq> tail a" using res(2) tail_in_path [OF inv] by auto
    then have "reserve (a1\<lparr>reserve := r'\<rparr>) \<noteq> tail (a1\<lparr>reserve := r'\<rparr>)" using res by simp
    from inv_new_tail [OF res(1) this] show ?thesis
      using al Some True res by (simp add: getNextChunk_def swap_tail_def)
  qed
qed

text \<open>What \<^verbatim>\<open>alloc\<close> does to the chunks: none is freed, no offset moves back, and a returned block lies
  between the old and the new offset of its chunk.\<close>

definition grows :: "allocator \<Rightarrow> allocator \<Rightarrow> bool" where
  "grows a a' \<longleftrightarrow> chunk_size a' = chunk_size a
     \<and> (\<forall>c k. chunks a c = Some k \<longrightarrow> (\<exists>k'. chunks a' c = Some k' \<and> unat (offs k) \<le> unat (offs k')))"

definition handed :: "allocator \<Rightarrow> allocator \<Rightarrow> u64 \<Rightarrow> nat \<times> u64 \<Rightarrow> bool" where
  "handed a a' sz = (\<lambda>(c, off). 72 \<le> unat off
     \<and> (\<exists>k'. chunks a' c = Some k' \<and> unat (offs k') = unat off + unat sz)
     \<and> (\<forall>k. chunks a c = Some k \<longrightarrow> unat (offs k) \<le> unat off))"

lemma growsD:
  assumes "grows a b" and "chunks a x = Some k"
  obtains k1 where "chunks b x = Some k1" and "unat (offs k) \<le> unat (offs k1)"
  using assms unfolding grows_def by blast

lemma grows_trans: "grows a b \<Longrightarrow> grows b c \<Longrightarrow> grows a c"
  unfolding grows_def by (fastforce intro: order_trans)

lemma handed_grows:
  assumes "grows a b" and "handed b c sz blk"
  shows "handed a c sz blk"
proof -
  obtain x y where blk: "blk = (x, y)" by (cases blk)
  have "unat (offs k) \<le> unat y" if k: "chunks a x = Some k" for k
  proof -
    obtain k1 where "chunks b x = Some k1" "unat (offs k) \<le> unat (offs k1)"
      by (rule growsD [OF assms(1) k])
    with assms(2) show ?thesis by (auto simp: handed_def blk)
  qed
  with assms(2) show ?thesis by (simp add: handed_def blk)
qed

lemma grows_same: "chunk_size a' = chunk_size a \<Longrightarrow> \<forall>c \<in> dom (chunks a). chunks a' c = chunks a c \<Longrightarrow> grows a a'"
  by (force simp: grows_def)

lemma alloc_fits:
  assumes inv: "alloc_inv n0 b0 path (a, cs)" and k: "chunks a (tail a) = Some k"
    and le: "unat (offs k) + unat sz \<le> unat (chunk_size a)"
  obtains a' cs' where "alloc_from (Suc fuel) os sz (tail a) (a, cs) = Inr (Some (tail a, offs k), a', cs')"
    and "alloc_inv n0 b0 path (a', cs')" and "grows a a'" and "handed a a' sz (tail a, offs k)"
proof -
  note bump = inv_bump [OF inv k le]
  let ?a = "a\<lparr>chunks := (chunks a)(tail a \<mapsto> k\<lparr>offs := offs k + sz\<rparr>)\<rparr>"
  have fit: "offs k + sz \<le> chunk_size a" using bump(2) le by (simp add: word_le_nat_alt)
  have grow: "grows a ?a" using k bump(2) by (auto simp: grows_def)
  have hand: "handed a a' sz (tail a, offs k)" if "chunks a' (tail a) = Some (k\<lparr>offs := offs k + sz\<rparr>)" for a'
    using that k bump(2) inv by (auto simp: handed_def alloc_inv_def offs_ok_def)
  show ?thesis
  proof (cases "chunk_size a div 2 - offs k < sz")
    case False
    show ?thesis by (rule that [OF _ bump(1) grow hand]) (use k fit False in \<open>simp_all add: Let_def\<close>)
  next
    case True
    obtain a' cs' where r: "reserveChunk os (tail ?a) (?a, cs) = (a', cs')" "alloc_inv n0 b0 path (a', cs')"
      "chunk_size a' = chunk_size ?a" "\<forall>c \<in> dom (chunks ?a). chunks a' c = chunks ?a c"
      by (rule reserveChunk_ok [OF bump(1)])
    have "grows a a'" using grow grows_same [OF r(3,4)] by (rule grows_trans)
    moreover have "chunks a' (tail a) = Some (k\<lparr>offs := offs k + sz\<rparr>)" using r(4) by simp
    ultimately show ?thesis
      by (intro that [OF _ r(2) _ hand]) (use k fit True r(1) in \<open>simp_all add: Let_def\<close>)
  qed
qed

lemma tail_chunk:
  assumes "alloc_inv n0 b0 path (a, cs)"
  obtains k where "chunks a (tail a) = Some k"
  using assms tail_in_path [OF assms] by (auto simp: alloc_inv_def dest: chain_dom)

lemma alloc_spec:
  assumes inv: "alloc_inv n0 b0 path (a, cs)" and fits: "unat sz + 72 \<le> unat (chunk_size a)"
  obtains res a' cs' path' where "alloc (Suc (Suc fuel)) os sz (a, cs) = Inr (res, a', cs')"
    and "alloc_inv n0 b0 path' (a', cs')" and "grows a a'"
    and "case res of None \<Rightarrow> \<not> os (requests a) | Some blk \<Rightarrow> handed a a' sz blk"
proof -
  obtain k where k: "chunks a (tail a) = Some k" by (rule tail_chunk [OF inv])
  show ?thesis
  proof (cases "unat (offs k) + unat sz \<le> unat (chunk_size a)")
    case True
    obtain a' cs' where "alloc_from (Suc (Suc fuel)) os sz (tail a) (a, cs) = Inr (Some (tail a, offs k), a', cs')"
      "alloc_inv n0 b0 path (a', cs')" "grows a a'" "handed a a' sz (tail a, offs k)"
      by (rule alloc_fits [OF inv k True])
    then show ?thesis by (intro that [of "Some (tail a, offs k)"]) (simp_all add: alloc_def)
  next
    case False
    have "unat (offs k) + unat sz < 2 ^ 64"
      using inv k fits by (auto simp: alloc_inv_def offs_ok_def dest!: spec [of _ "tail a"])
    then have "\<not> offs k + sz \<le> chunk_size a"
      using False by (simp add: word_le_nat_alt unat_word_ariths)
    then have run: "alloc (Suc (Suc fuel)) os sz (a, cs) =
        (case getNextChunk os (tail a) (a, cs) of (None, st) \<Rightarrow> Inr (None, st)
         | (Some c', st) \<Rightarrow> alloc_from (Suc fuel) os sz c' st)"
      using k by (simp add: alloc_def Let_def)
    obtain r a1 cs1 where nx: "getNextChunk os (tail a) (a, cs) = (r, a1, cs1)" by (metis prod.collapse)
    note next_ok = getNextChunk_ok [OF inv, of os, unfolded nx]
    show ?thesis
    proof (cases r)
      case None
      with next_ok run nx show ?thesis
        by (intro that [of None a1 cs1 path]) (auto simp: grows_def)
    next
      case (Some c)
      with next_ok have inv1: "alloc_inv n0 b0 (c # path) (a1, cs1)" and c: "tail a1 = c" "chunk_size a1 = chunk_size a"
        "chunks a1 c = Some \<lparr>prev = Some (tail a), offs = sizeof_Chunk\<rparr>" "\<forall>c \<in> dom (chunks a). chunks a1 c = chunks a c"
        by auto
      have k1: "chunks a1 (tail a1) = Some \<lparr>prev = Some (tail a), offs = sizeof_Chunk\<rparr>" using c by simp
      have le: "unat (offs \<lparr>prev = Some (tail a), offs = sizeof_Chunk\<rparr>) + unat sz \<le> unat (chunk_size a1)"
        using fits c(2) by (simp add: sizeof_Chunk_def)
      obtain a' cs' where fit: "alloc_from (Suc fuel) os sz (tail a1) (a1, cs1)
          = Inr (Some (tail a1, offs \<lparr>prev = Some (tail a), offs = sizeof_Chunk\<rparr>), a', cs')"
        "alloc_inv n0 b0 (c # path) (a', cs')" "grows a1 a'"
        "handed a1 a' sz (tail a1, offs \<lparr>prev = Some (tail a), offs = sizeof_Chunk\<rparr>)"
        by (rule alloc_fits [OF inv1 k1 le])
      have "grows a a1" using c by (intro grows_same)
      with fit show ?thesis
        using run nx Some c(1)
        by (intro that [OF _ fit(2), of "Some (c, sizeof_Chunk)"]) (auto intro: grows_trans handed_grows)
    qed
  qed
qed

section \<open>Sequences of allocations\<close>

text \<open>A sequence of requests; the blocks that were granted, as chunk, offset and size.\<close>

primrec alloc_all :: "nat \<Rightarrow> (nat \<Rightarrow> bool) \<Rightarrow> u64 list \<Rightarrow> alloc_st
    \<Rightarrow> alloc_error + (nat \<times> nat \<times> nat) list \<times> alloc_st" where
  "alloc_all fuel os [] st = Inr ([], st)"
| "alloc_all fuel os (sz # szs) st =
     (case alloc fuel os sz st of
        Inl e \<Rightarrow> Inl e
      | Inr (r, st1) \<Rightarrow>
          (case alloc_all fuel os szs st1 of
             Inl e \<Rightarrow> Inl e
           | Inr (bs, st2) \<Rightarrow>
               Inr ((case r of None \<Rightarrow> [] | Some (c, off) \<Rightarrow> [(c, unat off, unat sz)]) @ bs, st2)))"

definition block_ok :: "allocator \<Rightarrow> allocator \<Rightarrow> nat \<times> nat \<times> nat \<Rightarrow> bool" where
  "block_ok a a' = (\<lambda>(c, off, sz). 72 \<le> off \<and> (\<exists>k. chunks a' c = Some k \<and> off + sz \<le> unat (offs k))
     \<and> (\<forall>k. chunks a c = Some k \<longrightarrow> unat (offs k) \<le> off))"

definition before :: "nat \<times> nat \<times> nat \<Rightarrow> nat \<times> nat \<times> nat \<Rightarrow> bool" where
  "before = (\<lambda>(c, off, sz) (c', off', sz'). c = c' \<longrightarrow> off + sz \<le> off')"

lemma block_ok_mono:
  assumes "grows a b" and "block_ok b c blk"
  shows "block_ok a c blk"
proof -
  obtain x y z where blk: "blk = (x, y, z)" by (cases blk) auto
  have "unat (offs k) \<le> y" if k: "chunks a x = Some k" for k
  proof -
    obtain k1 where "chunks b x = Some k1" "unat (offs k) \<le> unat (offs k1)"
      by (rule growsD [OF assms(1) k])
    with assms(2) show ?thesis by (auto simp: block_ok_def blk)
  qed
  with assms(2) show ?thesis by (simp add: block_ok_def blk)
qed

lemma handed_block:
  assumes "handed a b sz (c, off)" and "grows b a'"
  shows "block_ok a a' (c, unat off, unat sz)"
proof -
  obtain k where k: "chunks b c = Some k" "unat (offs k) = unat off + unat sz"
    using assms(1) by (auto simp: handed_def)
  moreover obtain k' where "chunks a' c = Some k'" "unat (offs k) \<le> unat (offs k')"
    by (rule growsD [OF assms(2) k(1)])
  ultimately show ?thesis using assms(1) by (auto simp: block_ok_def handed_def)
qed

lemma handed_before:
  assumes "handed a b sz (c, off)" and "block_ok b a' blk"
  shows "before (c, unat off, unat sz) blk"
  using assms by (auto simp: before_def handed_def block_ok_def)

lemma alloc_all_spec:
  assumes "alloc_inv n0 b0 path (a, cs)" and "\<forall>sz \<in> set szs. unat sz + 72 \<le> unat (chunk_size a)"
  shows "\<exists>bs a' cs' path'. alloc_all (Suc (Suc fuel)) os szs (a, cs) = Inr (bs, a', cs')
    \<and> alloc_inv n0 b0 path' (a', cs') \<and> grows a a' \<and> (\<forall>blk \<in> set bs. block_ok a a' blk) \<and> sorted_wrt before bs"
  using assms
proof (induction szs arbitrary: a cs path)
  case Nil
  then show ?case by (auto simp: grows_def)
next
  case (Cons sz szs)
  from Cons.prems obtain res b cs1 path1 where al: "alloc (Suc (Suc fuel)) os sz (a, cs) = Inr (res, b, cs1)"
    and inv1: "alloc_inv n0 b0 path1 (b, cs1)" and gr: "grows a b"
    and hd: "case res of None \<Rightarrow> \<not> os (requests a) | Some blk \<Rightarrow> handed a b sz blk"
    by (auto elim: alloc_spec [of n0 b0 path a cs sz fuel os])
  have "\<forall>sz \<in> set szs. unat sz + 72 \<le> unat (chunk_size b)"
    using Cons.prems(2) gr by (simp add: grows_def)
  then obtain bs a' cs' path' where rest: "alloc_all (Suc (Suc fuel)) os szs (b, cs1) = Inr (bs, a', cs')"
    and fin: "alloc_inv n0 b0 path' (a', cs')" "grows b a'" "\<forall>blk \<in> set bs. block_ok b a' blk" "sorted_wrt before bs"
    using Cons.IH [OF inv1] by blast
  have "grows a a'" using gr fin(2) by (rule grows_trans)
  moreover have "\<forall>blk \<in> set bs. block_ok a a' blk" using fin(3) block_ok_mono [OF gr] by blast
  ultimately show ?case
    using al rest fin hd handed_block [OF _ fin(2)] handed_before
    by (cases res) (auto split: prod.splits)
qed

section \<open>Clearing\<close>

lemma chain_last:
  "chain h path \<Longrightarrow> path \<noteq> [] \<and> (\<exists>k. h (last path) = Some k \<and> prev k = None)"
  by (induction h path rule: chain.induct) auto

definition cleared :: "allocator \<Rightarrow> nat \<Rightarrow> allocator" where
  "cleared a c = a\<lparr>tail := c, reserve := c, chunks := [c \<mapsto> \<lparr>prev = None, offs = sizeof_Chunk\<rparr>]\<rparr>"

lemma counted_cleared:
  "counted n0 b0 (cleared a c) cs \<longleftrightarrow> wf_counters cs \<and> getCounter cs LINEAR_ALLOCATOR_CHUNKS 0 = s64 (n0 + 1)
     \<and> getCounter cs LINEAR_ALLOCATOR_BYTES 0 = s64 (b0 + uint (chunk_size a))"
  by (simp add: counted_def cleared_def)

lemma clear_loop_ok:
  assumes "chain (chunks a) path" and "hd path = tail a" and "distinct path" and "dom (chunks a) = set path"
    and "counted n0 b0 a cs" and "length path \<le> fuel"
  shows "\<exists>cs'. clear_loop fuel (a, cs) = Inr (cleared a (last path), cs') \<and> counted n0 b0 (cleared a (last path)) cs'"
  using assms
proof (induction path arbitrary: a cs fuel)
  case (Cons c path)
  then obtain f where f: "fuel = Suc f" by (cases fuel) auto
  have c: "tail a = c" using Cons.prems(2) by simp
  show ?case
  proof (cases path)
    case Nil
    with Cons.prems(1) obtain k where k: "chunks a c = Some k" "prev k = None" by auto
    have "chunks a = [c \<mapsto> k]"
    proof
      fix x show "chunks a x = [c \<mapsto> k] x"
        using k Cons.prems(4) Nil by (cases "x = c") (auto simp: domIff)
    qed
    moreover from this have "counted n0 b0 (cleared a c) cs"
      using Cons.prems(5) by (simp add: counted_cleared) (simp add: counted_def)
    moreover have "k\<lparr>offs := sizeof_Chunk\<rparr> = \<lparr>prev = None, offs = sizeof_Chunk\<rparr>" using k by (cases k) simp
    ultimately show ?thesis using f c k Nil by (cases a, cases k) (simp add: cleared_def)
  next
    case path: (Cons d ds)
    with Cons.prems(1) obtain k where k: "chunks a c = Some k" "prev k = Some d"
      and ch: "chain (chunks a) path" by auto
    define a1 where "a1 = a\<lparr>tail := d, chunks := (chunks a)(c := None)\<rparr>"
    define cs1 where "cs1 = count_chunk (- 1) (chunk_size a) cs"
    have fr: "freeChunk c (a\<lparr>tail := d\<rparr>, cs) = (a1, cs1)" by (simp add: freeChunk_def a1_def cs1_def)
    have "\<exists>cs'. clear_loop f (a1, cs1) = Inr (cleared a1 (last path), cs') \<and> counted n0 b0 (cleared a1 (last path)) cs'"
    proof (rule Cons.IH)
      show "chain (chunks a1) path" using ch Cons.prems(3) by (simp add: a1_def chain_upd_other)
      show "dom (chunks a1) = set path" using Cons.prems(3,4) by (auto simp: a1_def)
      show "counted n0 b0 a1 cs1"
        unfolding cs1_def by (rule counted_del [OF Cons.prems(5), of c]) (use Cons.prems(4) in \<open>auto simp: a1_def\<close>)
    qed (use path Cons.prems f in \<open>auto simp: a1_def\<close>)
    moreover have "cleared a1 x = cleared a x" for x by (simp add: a1_def cleared_def)
    ultimately show ?thesis using f c k fr path by simp
  qed
qed simp

lemma chain_no_self: "chain h path \<Longrightarrow> distinct path \<Longrightarrow> h (hd path) = Some k \<Longrightarrow> prev k \<noteq> Some (hd path)"
  by (cases "(h, path)" rule: chain.cases) auto

lemma clear_first:
  assumes inv: "alloc_inv n0 b0 path (a, cs)"
  obtains kr a1 cs1 where "chunks a (reserve a) = Some kr"
    and "(if prev kr = Some (tail a) then freeChunk (reserve a) (a, cs) else (a, cs)) = (a1, cs1)"
    and "tail a1 = tail a" and "\<And>x. cleared a1 x = cleared a x" and "chain (chunks a1) path"
    and "dom (chunks a1) = set path" and "counted n0 b0 a1 cs1"
proof -
  have ch: "chain (chunks a) path" "hd path = tail a" "distinct path" "reserve_ok a path"
    "dom (chunks a) = insert (reserve a) (set path)" "counted n0 b0 a cs"
    using inv unfolding alloc_inv_def by auto
  obtain kr where kr: "chunks a (reserve a) = Some kr" using ch(5) by blast
  show ?thesis
  proof (cases "reserve a = tail a")
    case True
    then have "prev kr \<noteq> Some (tail a)" using chain_no_self [OF ch(1,3)] ch(2) kr by simp
    then show ?thesis
      by (intro that [OF kr, of a cs]) (use ch True tail_in_path [OF inv] in auto)
  next
    case False
    then have r: "reserve a \<notin> set path" "prev kr = Some (tail a)" using ch(4) kr by (auto simp: reserve_ok_def)
    have "counted n0 b0 (a\<lparr>chunks := (chunks a)(reserve a := None)\<rparr>) (count_chunk (- 1) (chunk_size a) cs)"
      by (rule counted_del [OF ch(6), of "reserve a"]) (use ch(5) in auto)
    then show ?thesis
      by (intro that [OF kr]) (use ch r in \<open>auto simp: chain_upd_other freeChunk_def cleared_def\<close>)
  qed
qed

lemma clear_chunks_ok:
  assumes inv: "alloc_inv n0 b0 path (a, cs)"
  obtains cs' where "clear_chunks (a, cs) = Inr (cleared a (last path), cs')"
    and "alloc_inv n0 b0 [last path] (cleared a (last path), cs')"
proof -
  obtain kr a1 cs1 where kr: "chunks a (reserve a) = Some kr"
    and st: "(if prev kr = Some (tail a) then freeChunk (reserve a) (a, cs) else (a, cs)) = (a1, cs1)"
    and a1: "tail a1 = tail a" "\<And>x. cleared a1 x = cleared a x" "chain (chunks a1) path"
      "dom (chunks a1) = set path" "counted n0 b0 a1 cs1"
    by (rule clear_first [OF inv]) blast
  have ok: "distinct path" "hd path = tail a" "set path \<subseteq> {..<requests a}"
    using inv by (auto simp: alloc_inv_def offs_ok_def)
  then have len: "length path \<le> requests a"
    using card_mono [of "{..<requests a}" "set path"] by (simp add: distinct_card)
  obtain cs' where run: "clear_loop (requests a) (a1, cs1) = Inr (cleared a (last path), cs')"
    and cnt: "counted n0 b0 (cleared a (last path)) cs'"
    using clear_loop_ok [of a1 path n0 b0 cs1 "requests a"] a1 ok len by auto
  have "last path \<in> set path" using chain_last [OF a1(3)] by simp
  then have "last path < requests a" using ok(3) by blast
  then have "alloc_inv n0 b0 [last path] (cleared a (last path), cs')"
    using cnt inv by (auto simp: alloc_inv_def cleared_def reserve_ok_def offs_ok_def sizeof_Chunk_def split: if_splits)
  then show ?thesis
    using that run kr st by (simp add: clear_chunks_def)
qed

lemma new_LinearAllocator_ok:
  assumes "wf_counters cs" and "72 \<le> unat sz" and "unat sz < 2 ^ 63"
    and new: "new_LinearAllocator os sz cs = Some (a, cs')"
  shows "alloc_inv (getCounter cs LINEAR_ALLOCATOR_CHUNKS 0) (getCounter cs LINEAR_ALLOCATOR_BYTES 0) [0] (a, cs')"
    and "chunk_size a = sz"
proof -
  let ?a = "\<lparr>chunk_size = sz, tail = 0, reserve = 0, chunks = [0 \<mapsto> \<lparr>prev = None, offs = sizeof_Chunk\<rparr>], requests = 1\<rparr>"
  let ?cs = "count_chunk 1 sz cs"
  have "counted (getCounter cs LINEAR_ALLOCATOR_CHUNKS 0) (getCounter cs LINEAR_ALLOCATOR_BYTES 0) ?a ?cs"
    using assms by (simp add: counted_def counter_count_chunk)
  then have "alloc_inv (getCounter cs LINEAR_ALLOCATOR_CHUNKS 0) (getCounter cs LINEAR_ALLOCATOR_BYTES 0) [0] (?a, ?cs)"
    using assms by (simp add: alloc_inv_def reserve_ok_def offs_ok_def sizeof_Chunk_def)
  moreover have "a = ?a" "cs' = ?cs"
    using new by (auto simp: new_LinearAllocator_def allocateChunk_def Let_def split: if_splits)
  ultimately show "alloc_inv (getCounter cs LINEAR_ALLOCATOR_CHUNKS 0) (getCounter cs LINEAR_ALLOCATOR_BYTES 0) [0] (a, cs')"
    and "chunk_size a = sz" by simp_all
qed

lemma new_then_allocs:
  assumes "wf_counters cs" and "72 \<le> unat sz" and "unat sz < 2 ^ 63"
    and new: "new_LinearAllocator os sz cs = Some st" and fit: "\<forall>s \<in> set szs. unat s + 72 \<le> unat sz"
  obtains a bs a' cs' path where "alloc_all (Suc (Suc fuel)) os szs st = Inr (bs, a', cs')"
    and "alloc_inv (getCounter cs LINEAR_ALLOCATOR_CHUNKS 0) (getCounter cs LINEAR_ALLOCATOR_BYTES 0) path (a', cs')"
    and "chunk_size a' = sz" and "\<forall>blk \<in> set bs. block_ok a a' blk" and "sorted_wrt before bs"
proof -
  obtain a cs1 where st: "st = (a, cs1)" by (cases st)
  note inv = new_LinearAllocator_ok [OF assms(1-3) new [unfolded st]]
  from alloc_all_spec [OF inv(1), of szs fuel os] fit inv(2) obtain bs a' cs' path where
    "alloc_all (Suc (Suc fuel)) os szs (a, cs1) = Inr (bs, a', cs')"
    "alloc_inv (getCounter cs LINEAR_ALLOCATOR_CHUNKS 0) (getCounter cs LINEAR_ALLOCATOR_BYTES 0) path (a', cs')"
    "grows a a'" "\<forall>blk \<in> set bs. block_ok a a' blk" "sorted_wrt before bs"
    by auto
  with st inv(2) show ?thesis by (intro that) (simp_all add: grows_def)
qed

section \<open>Properties\<close>

text \<open>
  C12. Memory safety of \<^verbatim>\<open>alloc\<close>: for any sequence of requests that each fit an empty chunk, on a newly
  built allocator and whatever the system grants, every call returns within two rounds of its loop, every
  returned block lies in a live chunk behind the header and before the chunk's end, and no two blocks of a
  chunk overlap.
\<close>

theorem alloc_blocks_disjoint:
  assumes "wf_counters cs" and "72 \<le> unat sz" and "unat sz < 2 ^ 63"
    and "new_LinearAllocator os sz cs = Some st" and "\<forall>s \<in> set szs. unat s + 72 \<le> unat sz"
  shows "\<exists>bs a' cs'. alloc_all (Suc (Suc fuel)) os szs st = Inr (bs, a', cs')
     \<and> (\<forall>(c, off, s) \<in> set bs. c \<in> dom (chunks a') \<and> 72 \<le> off \<and> off + s \<le> unat sz)
     \<and> sorted_wrt (\<lambda>(c, off, s) (c', off', s'). c = c' \<longrightarrow> off + s \<le> off') bs"
proof -
  obtain a bs a' cs' path where run: "alloc_all (Suc (Suc fuel)) os szs st = Inr (bs, a', cs')"
    and inv: "alloc_inv (getCounter cs LINEAR_ALLOCATOR_CHUNKS 0) (getCounter cs LINEAR_ALLOCATOR_BYTES 0) path (a', cs')"
    and ok: "chunk_size a' = sz" "\<forall>blk \<in> set bs. block_ok a a' blk" "sorted_wrt before bs"
    by (rule new_then_allocs [OF assms])
  have "c \<in> dom (chunks a') \<and> 72 \<le> off \<and> off + s \<le> unat sz" if "(c, off, s) \<in> set bs" for c off s
  proof -
    have "block_ok a a' (c, off, s)" using ok(2) that by blast
    then obtain k where k: "chunks a' c = Some k" "72 \<le> off" "off + s \<le> unat (offs k)"
      by (auto simp: block_ok_def)
    moreover have "unat (offs k) \<le> unat sz" using inv k(1) ok(1) by (auto simp: alloc_inv_def offs_ok_def)
    ultimately show ?thesis by auto
  qed
  with run ok(3) show ?thesis by (auto simp: before_def)
qed

theorem alloc_blocks_disjoint_witness:
  "\<exists>bs a' cs'. alloc_all (Suc 1) (\<lambda>_. True) [100, 50, 40] (the (new_LinearAllocator (\<lambda>_. True) 256 counters_init)) = Inr (bs, a', cs')
     \<and> (\<forall>(c, off, s) \<in> set bs. c \<in> dom (chunks a') \<and> 72 \<le> off \<and> off + s \<le> 256)
     \<and> sorted_wrt (\<lambda>(c, off, s) (c', off', s'). c = c' \<longrightarrow> off + s \<le> off') bs"
proof -
  obtain st where st: "new_LinearAllocator (\<lambda>_. True) 256 counters_init = Some st"
    by (auto simp: new_LinearAllocator_def allocateChunk_def Let_def)
  with alloc_blocks_disjoint [OF wf_counters_init _ _ st, of "[100, 50, 40]" 0] show ?thesis
    by (simp del: alloc_all.simps)
qed

text \<open>
  \<^verbatim>\<open>clear\<close> gives everything back: after any such sequence of requests it ends, exactly one chunk is
  live, its whole space is free again, and the two counters are one chunk above where they were before
  the allocator was built, as they were after its construction.
\<close>

theorem clear_frees_all_but_one:
  assumes "wf_counters cs" and "72 \<le> unat sz" and "unat sz < 2 ^ 63"
    and "new_LinearAllocator os sz cs = Some st" and "\<forall>s \<in> set szs. unat s + 72 \<le> unat sz"
    and "alloc_all (Suc (Suc fuel)) os szs st = Inr (bs, st')"
  shows "\<exists>a cs' c. clear_chunks st' = Inr (a, cs') \<and> tail a = c \<and> reserve a = c
     \<and> chunks a = [c \<mapsto> \<lparr>prev = None, offs = 72\<rparr>]
     \<and> getCounter cs' LINEAR_ALLOCATOR_CHUNKS 0 = s64 (getCounter cs LINEAR_ALLOCATOR_CHUNKS 0 + 1)
     \<and> getCounter cs' LINEAR_ALLOCATOR_BYTES 0 = s64 (getCounter cs LINEAR_ALLOCATOR_BYTES 0 + uint sz)"
proof -
  obtain a bs2 a' cs' path where run: "alloc_all (Suc (Suc fuel)) os szs st = Inr (bs2, a', cs')"
    and inv: "alloc_inv (getCounter cs LINEAR_ALLOCATOR_CHUNKS 0) (getCounter cs LINEAR_ALLOCATOR_BYTES 0) path (a', cs')"
    and sz: "chunk_size a' = sz"
    by (rule new_then_allocs [OF assms(1-5)])
  with assms(6) have st': "st' = (a', cs')" by simp
  obtain cs2 where "clear_chunks (a', cs') = Inr (cleared a' (last path), cs2)"
    and "alloc_inv (getCounter cs LINEAR_ALLOCATOR_CHUNKS 0) (getCounter cs LINEAR_ALLOCATOR_BYTES 0) [last path]
           (cleared a' (last path), cs2)"
    by (rule clear_chunks_ok [OF inv])
  moreover from this(2) have "counted (getCounter cs LINEAR_ALLOCATOR_CHUNKS 0)
      (getCounter cs LINEAR_ALLOCATOR_BYTES 0) (cleared a' (last path)) cs2" by (simp add: alloc_inv_def)
  ultimately show ?thesis
    unfolding st' counted_cleared sz by (auto simp: cleared_def sizeof_Chunk_def)
qed

theorem clear_frees_all_but_one_witness:
  "\<exists>a cs' c. clear_chunks (the (new_LinearAllocator (\<lambda>_. True) 256 counters_init)) = Inr (a, cs')
     \<and> chunks a = [c \<mapsto> \<lparr>prev = None, offs = 72\<rparr>]"
proof -
  obtain st where st: "new_LinearAllocator (\<lambda>_. True) 256 counters_init = Some st"
    by (auto simp: new_LinearAllocator_def allocateChunk_def Let_def)
  with clear_frees_all_but_one [OF wf_counters_init _ _ st, of "[]" 0 "[]" st] show ?thesis
    by auto
qed

text \<open>
  A block larger than a chunk's payload is never granted: however many rounds the loop runs and
  however much memory the system has, \<^verbatim>\<open>alloc\<close> does not return a block, so its loop takes chunk after
  chunk until the system refuses one.
\<close>

theorem alloc_oversize_never_granted:
  assumes "alloc_inv n0 b0 path (a, cs)" and "unat (chunk_size a) < unat sz + 72" and "unat sz < 2 ^ 63"
  shows "case alloc fuel os sz (a, cs) of Inr (Some blk, _) \<Rightarrow> False | _ \<Rightarrow> True"
proof -
  have "case alloc_from fuel os sz (tail a) (a, cs) of Inr (Some blk, _) \<Rightarrow> False | _ \<Rightarrow> True"
    using assms(1,2)
  proof (induction fuel arbitrary: a cs path)
    case (Suc fuel)
    obtain k where k: "chunks a (tail a) = Some k" by (rule tail_chunk [OF Suc.prems(1)])
    then have "72 \<le> unat (offs k)" "unat (offs k) \<le> unat (chunk_size a)" "unat (chunk_size a) < 2 ^ 63"
      using Suc.prems(1) by (auto simp: alloc_inv_def offs_ok_def)
    moreover from this have "unat (offs k + sz) = unat (offs k) + unat sz"
      using assms(3) by (simp add: unat_word_ariths)
    ultimately have nofit: "\<not> offs k + sz \<le> chunk_size a"
      using Suc.prems(2) by (simp add: word_le_nat_alt)
    obtain r a1 cs1 where nx: "getNextChunk os (tail a) (a, cs) = (r, a1, cs1)" by (metis prod.collapse)
    show ?case
      using getNextChunk_ok [OF Suc.prems(1), of os] Suc.IH [of _ a1 cs1] Suc.prems(2) k nofit nx
      by (cases r) auto
  qed simp
  then show ?thesis by (simp add: alloc_def)
qed

theorem alloc_oversize_never_granted_witness:
  "case alloc 5 (\<lambda>_. True) 1000 (the (new_LinearAllocator (\<lambda>_. True) 256 counters_init)) of
     Inr (Some blk, _) \<Rightarrow> False | _ \<Rightarrow> True"
proof -
  obtain a cs where st: "new_LinearAllocator (\<lambda>_. True) 256 counters_init = Some (a, cs)"
    by (auto simp: new_LinearAllocator_def allocateChunk_def Let_def)
  note inv = new_LinearAllocator_ok [OF wf_counters_init _ _ st]
  show ?thesis
    using alloc_oversize_never_granted [OF inv(1), of 1000 5 "\<lambda>_. True"] inv(2) st by simp
qed

end
