(* ===== verification/Call_Trace_Storage.thy ===== *)
theory Call_Trace_Storage
  imports Linear_Allocator Locks
begin

text \<open>
  Model of \<^verbatim>\<open>callTraceStorage.h\<close> and \<^verbatim>\<open>callTraceStorage.cpp\<close>: the hash tables that give every call
  trace the number under which samples refer to it. A table is the block of 64-bit words the code
  addresses: \<open>capacity\<close> keys followed by three words per value (trace, samples, counter), as a function
  from word indices. A pointer to a stored trace is the trace's serial number, 0 is NULL. The tables
  are listed from the current one back to the first.

  One thread at a time: compare-and-swaps succeed. \<open>os\<close> says which requests of the linear allocator
  the system grants, \<open>grant\<close> whether it grants a new table.

  The theorems: the probing sequence visits every slot of a table; the number that \<^verbatim>\<open>put\<close> returns
  identifies the hash of the trace, across tables; a trace that was put is in the constant pool
  collected next. One theorem shows that claiming a slot erases a key of the previous table that has
  nothing to do with the trace.
\<close>

section \<open>State\<close>

definition INITIAL_CAPACITY :: nat where "INITIAL_CAPACITY = 65536"
definition CALL_TRACE_CHUNK :: u64 where "CALL_TRACE_CHUNK = 8 * 1024 * 1024"
definition OVERFLOW_TRACE_ID :: u32 where "OVERFLOW_TRACE_ID = 0x7fffffff"

record frame =
  bci :: u32
  padding :: u32
  method_id :: u64

record call_trace =
  truncated :: bool
  frames :: "frame list"

record ltable =
  capacity :: nat
  lsize :: u32
  mem :: "nat \<Rightarrow> u64"

record storage =
  allocator :: allocator
  tables :: "ltable list"
  overflow :: u64
  lock :: int
  traces :: "call_trace list"

datatype storage_error = AllocError alloc_error | NullTable | Blocked

type_synonym storage_st = "storage \<times> counters"

section \<open>LongHashTable\<close>

definition key_at :: "ltable \<Rightarrow> nat \<Rightarrow> u64" where
  "key_at t slot = mem t slot"

definition trace_at :: "ltable \<Rightarrow> nat \<Rightarrow> u64" where
  "trace_at t slot = mem t (capacity t + 3 * slot)"

definition samples_at :: "ltable \<Rightarrow> nat \<Rightarrow> u64" where
  "samples_at t slot = mem t (capacity t + 3 * slot + 1)"

definition counter_at :: "ltable \<Rightarrow> nat \<Rightarrow> u64" where
  "counter_at t slot = mem t (capacity t + 3 * slot + 2)"

definition write_word :: "nat \<Rightarrow> u64 \<Rightarrow> ltable \<Rightarrow> ltable" where
  "write_word i v t = t\<lparr>mem := (mem t)(i := v)\<rparr>"

definition allocate_table :: "nat \<Rightarrow> ltable" where
  "allocate_table cap = \<lparr>capacity = cap, lsize = 0, mem = (\<lambda>_. 0)\<rparr>"

definition clear_table :: "ltable \<Rightarrow> ltable" where
  "clear_table t = t\<lparr>lsize := 0, mem := (\<lambda>i. if i < 4 * capacity t then 0 else mem t i)\<rparr>"

section \<open>CallTraceStorage\<close>

text \<open>\<^verbatim>\<open>calcHash\<close>: a frame is two 64-bit words, so the length is a multiple of 8 and the branch for a
  remaining half word is never taken.\<close>

definition murmur_M :: u64 where "murmur_M = 0xc6a4a7935bd1e995"
definition murmur_R :: nat where "murmur_R = 47"

definition frame_words :: "frame \<Rightarrow> u64 list" where
  "frame_words f = [ucast (bci f) OR push_bit 32 (ucast (padding f)), method_id f]"

fun hash_words :: "u64 \<Rightarrow> u64 list \<Rightarrow> u64" where
  "hash_words h [] = h"
| "hash_words h (w # ws) =
     (let k = w * murmur_M; k = k XOR drop_bit murmur_R k; k = k * murmur_M
      in hash_words ((h XOR k) * murmur_M) ws)"

definition calcHash :: "frame list \<Rightarrow> bool \<Rightarrow> u64" where
  "calcHash fs trunc =
     (let len = word_of_nat (length fs * 16) :: u64;
          h = hash_words (len * murmur_M * (if trunc then 1 else 2)) (concat (map frame_words fs));
          h = h XOR drop_bit murmur_R h;
          h = h * murmur_M
      in h XOR drop_bit murmur_R h)"

text \<open>\<^verbatim>\<open>storeCallTrace\<close>.\<close>

definition total_size :: "frame list \<Rightarrow> u64" where
  "total_size fs = 8 + word_of_nat (length fs) * 16"

definition storeCallTrace ::
    "nat \<Rightarrow> (nat \<Rightarrow> bool) \<Rightarrow> frame list \<Rightarrow> bool \<Rightarrow> storage_st \<Rightarrow> storage_error + u64 \<times> storage_st" where
  "storeCallTrace fuel os fs trunc = (\<lambda>(s, cs).
     case alloc fuel os (total_size fs) (allocator s, cs) of
       Inl e \<Rightarrow> Inl (AllocError e)
     | Inr (None, a, cs1) \<Rightarrow> Inr (0, s\<lparr>allocator := a\<rparr>, cs1)
     | Inr (Some blk, a, cs1) \<Rightarrow>
         Inr (word_of_nat (Suc (length (traces s))),
              s\<lparr>allocator := a, traces := traces s @ [\<lparr>truncated = trunc, frames = fs\<rparr>]\<rparr>,
              increment CALLTRACE_STORAGE_TRACES 1 0
                (increment CALLTRACE_STORAGE_BYTES (uint (total_size fs)) 0 cs1)))"

text \<open>The probing loop shared by \<^verbatim>\<open>put\<close> and \<^verbatim>\<open>findCallTrace\<close>: the step grows by one each time.\<close>

datatype probe_result = Hit nat | Empty nat | Full

function probe :: "(nat \<Rightarrow> u64) \<Rightarrow> nat \<Rightarrow> u64 \<Rightarrow> nat \<Rightarrow> nat \<Rightarrow> probe_result" where
  "probe ks cap hash slot step =
     (if ks slot = hash then Hit slot
      else if ks slot = 0 then Empty slot
      else if Suc step \<ge> cap then Full
      else probe ks cap hash (take_bit 32 (slot + Suc step) AND (cap - 1)) (Suc step))"
  by pat_completeness auto
termination by (relation "measure (\<lambda>(_, cap, _, _, step). cap - step)") auto

declare probe.simps [simp del]

definition first_slot :: "nat \<Rightarrow> u64 \<Rightarrow> nat" where
  "first_slot cap hash = unat hash AND (cap - 1)"

definition findCallTrace :: "ltable \<Rightarrow> u64 \<Rightarrow> u64" where
  "findCallTrace t hash =
     (case probe (mem t) (capacity t) hash (first_slot (capacity t) hash) 0 of
        Hit slot \<Rightarrow> trace_at t slot | _ \<Rightarrow> 0)"

text \<open>The number of a slot, a 32-bit value.\<close>

definition trace_id :: "nat \<Rightarrow> nat \<Rightarrow> u32" where
  "trace_id cap slot = word_of_nat cap - (word_of_nat INITIAL_CAPACITY - 1) + word_of_nat slot"

text \<open>The end of \<^verbatim>\<open>put\<close>: counting the sample in its slot of the table at position \<open>pos\<close>.\<close>

definition count_sample :: "nat \<Rightarrow> u64 \<Rightarrow> ltable \<Rightarrow> ltable" where
  "count_sample slot weight t =
     (let t1 = write_word (capacity t + 3 * slot + 1) (samples_at t slot + 1) t
      in write_word (capacity t + 3 * slot + 2) (counter_at t1 slot + weight) t1)"

text \<open>
  Claiming an empty slot of the current table \<open>t\<close> with the previous tables \<open>ps\<close>: the key is stored, a
  new table may become the current one, the trace is taken over from the previous table or stored, and
  the key at the same slot of the previous table is erased.
\<close>

definition claim ::
    "nat \<Rightarrow> (nat \<Rightarrow> bool) \<Rightarrow> bool \<Rightarrow> frame list \<Rightarrow> bool \<Rightarrow> u64 \<Rightarrow> u64 \<Rightarrow> nat \<Rightarrow> ltable \<Rightarrow> ltable list
     \<Rightarrow> storage_st \<Rightarrow> storage_error + storage_st" where
  "claim fuel os grant fs trunc weight hash slot t ps = (\<lambda>(s, cs).
     let t1 = (write_word slot hash t)\<lparr>lsize := lsize t + 1\<rparr>;
         news = (if unat (lsize t1) = capacity t * 3 mod 2 ^ 32 div 4 \<and> grant
                 then [allocate_table (capacity t * 2 mod 2 ^ 32)] else []);
         found = (case ps of [] \<Rightarrow> 0 | p # _ \<Rightarrow> findCallTrace p hash)
     in case (if found = 0 then storeCallTrace fuel os fs trunc (s, cs) else Inr (found, s, cs)) of
          Inl e \<Rightarrow> Inl e
        | Inr (trace, s1, cs1) \<Rightarrow>
            (let t2 = write_word (capacity t + 3 * slot) trace t1;
                 ps' = (case ps of [] \<Rightarrow> [] | p # r \<Rightarrow> write_word slot 0 p # r)
             in Inr (s1\<lparr>tables := news @ count_sample slot weight t2 # ps'\<rparr>, cs1)))"

definition put ::
    "nat \<Rightarrow> (nat \<Rightarrow> bool) \<Rightarrow> bool \<Rightarrow> frame list \<Rightarrow> bool \<Rightarrow> u64 \<Rightarrow> storage_st
     \<Rightarrow> storage_error + u32 \<times> storage_st" where
  "put fuel os grant fs trunc weight = (\<lambda>(s, cs).
     case tryLockShared (lock s) of
       (False, _) \<Rightarrow> Inr (0, s, cs)
     | (True, l) \<Rightarrow>
         (let s = s\<lparr>lock := l\<rparr>; hash = calcHash fs trunc;
              release = (\<lambda>s. s\<lparr>lock := unlockShared (lock s)\<rparr>)
          in case tables s of
               [] \<Rightarrow> Inl NullTable
             | t # ps \<Rightarrow>
                 (case probe (mem t) (capacity t) hash (first_slot (capacity t) hash) 0 of
                    Full \<Rightarrow> Inr (OVERFLOW_TRACE_ID, release (s\<lparr>overflow := overflow s + 1\<rparr>), cs)
                  | Hit slot \<Rightarrow>
                      Inr (trace_id (capacity t) slot,
                           release (s\<lparr>tables := count_sample slot weight t # ps\<rparr>), cs)
                  | Empty slot \<Rightarrow>
                      (case claim fuel os grant fs trunc weight hash slot t ps (s, cs) of
                         Inl e \<Rightarrow> Inl e
                       | Inr (s1, cs1) \<Rightarrow> Inr (trace_id (capacity t) slot, release s1, cs1)))))"

text \<open>\<^verbatim>\<open>collectTraces\<close>: the map from numbers to traces; the samples it reports are reset.\<close>

datatype collected = Stored u64 | OverflowTrace

definition collect_slot :: "nat \<Rightarrow> (u32 \<rightharpoonup> collected) \<times> ltable \<Rightarrow> (u32 \<rightharpoonup> collected) \<times> ltable" where
  "collect_slot slot = (\<lambda>(m, t).
     if key_at t slot \<noteq> 0 \<and> samples_at t slot \<noteq> 0
     then (if trace_at t slot \<noteq> 0 then m(trace_id (capacity t) slot \<mapsto> Stored (trace_at t slot)) else m,
           write_word (capacity t + 3 * slot + 1) 0 t)
     else (m, t))"

definition collect_ltable :: "(u32 \<rightharpoonup> collected) \<Rightarrow> ltable \<Rightarrow> (u32 \<rightharpoonup> collected) \<times> ltable" where
  "collect_ltable m t = fold collect_slot [0..<capacity t] (m, t)"

fun collect_tables :: "(u32 \<rightharpoonup> collected) \<Rightarrow> ltable list \<Rightarrow> (u32 \<rightharpoonup> collected) \<times> ltable list" where
  "collect_tables m [] = (m, [])"
| "collect_tables m (t # ts) =
     (case collect_ltable m t of (m1, t1) \<Rightarrow>
        case collect_tables m1 ts of (m2, ts2) \<Rightarrow> (m2, t1 # ts2))"

definition collectTraces :: "storage \<Rightarrow> (u32 \<rightharpoonup> collected) \<times> storage" where
  "collectTraces s =
     (case collect_tables Map.empty (tables s) of (m, ts) \<Rightarrow>
        (if overflow s > 0 then m(OVERFLOW_TRACE_ID \<mapsto> OverflowTrace) else m, s\<lparr>tables := ts\<rparr>))"

text \<open>\<^verbatim>\<open>clear\<close> waits for the lock; all tables but the first are destroyed.\<close>

definition clear_storage :: "storage_st \<Rightarrow> storage_error + storage_st" where
  "clear_storage = (\<lambda>(s, cs).
     if \<not> fst (tryLock (lock s)) then Inl Blocked
     else if tables s = [] then Inl NullTable
     else case clear_chunks (allocator s, cs) of
       Inl e \<Rightarrow> Inl (AllocError e)
     | Inr (a, cs1) \<Rightarrow>
         Inr (s\<lparr>tables := [clear_table (last (tables s))], allocator := a, overflow := 0,
                traces := [], lock := unlock (snd (tryLock (lock s)))\<rparr>,
              counter_set CALLTRACE_STORAGE_TRACES 0 0 (counter_set CALLTRACE_STORAGE_BYTES 0 0 cs1)))"

definition new_CallTraceStorage :: "(nat \<Rightarrow> bool) \<Rightarrow> bool \<Rightarrow> counters \<Rightarrow> storage_st option" where
  "new_CallTraceStorage os grant cs =
     (case new_LinearAllocator os CALL_TRACE_CHUNK cs of
        None \<Rightarrow> None
      | Some (a, cs1) \<Rightarrow>
          Some (\<lparr>allocator = a, tables = (if grant then [allocate_table INITIAL_CAPACITY] else []),
                 overflow = 0, lock = 0, traces = []\<rparr>, cs1))"

section \<open>Probing\<close>

text \<open>
  The \<open>n\<close>-th slot of the sequence is the first one plus the \<open>n\<close>-th triangular number, modulo the
  capacity. For a power of two these are all different.
\<close>

definition triangle :: "nat \<Rightarrow> nat" where
  "triangle n = n * Suc n div 2"

lemma triangle_Suc: "triangle (Suc n) = triangle n + Suc n"
proof -
  have "Suc n * Suc (Suc n) = n * Suc n + 2 * Suc n" by (simp add: algebra_simps)
  then show ?thesis by (simp add: triangle_def)
qed

lemma triangle_0 [simp]: "triangle 0 = 0"
  by (simp add: triangle_def)

lemma double_triangle: "2 * triangle n = n * Suc n"
  unfolding triangle_def by (rule dvd_mult_div_cancel) simp

lemma dvd_odd_product:
  assumes "(2::nat) ^ k dvd a * b" and "odd b"
  shows "2 ^ k dvd a"
  using assms by (metis coprime_dvd_mult_left_iff coprime_power_left_iff coprime_left_2_iff_odd)

lemma triangle_inj_less:
  assumes "i < j" and "j < 2 ^ k"
  shows "triangle i mod 2 ^ k \<noteq> triangle j mod 2 ^ k"
proof
  assume eq: "triangle i mod 2 ^ k = triangle j mod 2 ^ k"
  obtain d where d: "j = i + d" "0 < d" using assms(1) less_imp_add_positive by blast
  have "triangle i \<le> triangle j"
    unfolding triangle_def using assms(1) by (intro div_le_mono mult_le_mono) auto
  then have "2 ^ k dvd triangle j - triangle i" using eq by (metis mod_eq_dvd_iff_nat)
  then have "2 * 2 ^ k dvd 2 * (triangle j - triangle i)" by (rule mult_dvd_mono [OF dvd_refl])
  moreover have "2 * (triangle j - triangle i) = d * (2 * i + d + 1)"
    unfolding diff_mult_distrib2 double_triangle d by (simp add: algebra_simps)
  ultimately have dvd: "2 ^ Suc k dvd d * (2 * i + d + 1)" by simp
  show False
  proof (cases "odd d")
    case True
    then have "2 ^ Suc k dvd 2 * i + d + 1" using dvd dvd_odd_product [of "Suc k" "2 * i + d + 1" d]
      by (simp add: mult.commute)
    then have "2 ^ Suc k \<le> 2 * i + d + 1" by (rule dvd_imp_le) simp
    with assms(2) d show False by simp
  next
    case False
    then have "2 ^ Suc k dvd d" using dvd by (intro dvd_odd_product [of "Suc k" d "2 * i + d + 1"]) auto
    then have "2 ^ Suc k \<le> d" using d(2) by (rule dvd_imp_le)
    with assms(2) d show False by simp
  qed
qed

definition probe_slot :: "nat \<Rightarrow> nat \<Rightarrow> nat \<Rightarrow> nat" where
  "probe_slot cap s n = (s + triangle n) mod cap"

lemma probe_slots_all:
  assumes "x < 2 ^ k"
  shows "\<exists>n < 2 ^ k. probe_slot (2 ^ k) s n = x"
proof -
  have "inj_on (probe_slot (2 ^ k) s) {..<2 ^ k}"
  proof (rule inj_onI)
    fix i j assume ij: "i \<in> {..<2 ^ k}" "j \<in> {..<2 ^ k}" "probe_slot (2 ^ k) s i = probe_slot (2 ^ k) s j"
    have "triangle i mod 2 ^ k = triangle j mod 2 ^ k"
      using ij(3) by (auto simp: probe_slot_def nat_mod_eq_iff add.assoc)
    with ij(1,2) show "i = j" using triangle_inj_less by (metis lessThan_iff linorder_neqE_nat)
  qed
  moreover have "probe_slot (2 ^ k) s ` {..<2 ^ k} \<subseteq> {..<2 ^ k}" by (auto simp: probe_slot_def)
  ultimately have "probe_slot (2 ^ k) s ` {..<2 ^ k} = {..<2 ^ k}"
    by (intro endo_inj_surj) auto
  with assms show ?thesis by (metis imageE lessThan_iff)
qed

lemma next_slot:
  assumes "k \<le> 32"
  shows "take_bit 32 (probe_slot (2 ^ k) s n + Suc n) AND (2 ^ k - 1) = probe_slot (2 ^ k) s (Suc n)"
proof -
  have "take_bit 32 (probe_slot (2 ^ k) s n + Suc n) AND (2 ^ k - 1)
      = take_bit k (take_bit 32 (probe_slot (2 ^ k) s n + Suc n))"
    by (simp only: take_bit_eq_mask mask_eq_exp_minus_1)
  also have "\<dots> = (probe_slot (2 ^ k) s n + Suc n) mod 2 ^ k"
    by (simp only: take_bit_take_bit min_absorb1 [OF assms]) (simp only: take_bit_eq_mod)
  also have "\<dots> = probe_slot (2 ^ k) s (Suc n)"
    by (simp only: probe_slot_def triangle_Suc mod_add_left_eq add.assoc)
  finally show ?thesis .
qed

lemma first_slot_probe: "first_slot (2 ^ k) hash = probe_slot (2 ^ k) (unat hash) 0"
  by (simp only: first_slot_def probe_slot_def triangle_0 add_0_right flip: mask_eq_exp_minus_1 take_bit_eq_mask take_bit_eq_mod)

lemma probe_at:
  assumes "k \<le> 32"
  shows "case probe ks (2 ^ k) hash (probe_slot (2 ^ k) s n) n of
      Hit slot \<Rightarrow> slot < 2 ^ k \<and> ks slot = hash
    | Empty slot \<Rightarrow> slot < 2 ^ k \<and> ks slot = 0 \<and> hash \<noteq> 0
    | Full \<Rightarrow> \<forall>m. n \<le> m \<longrightarrow> m < 2 ^ k \<longrightarrow> ks (probe_slot (2 ^ k) s m) \<noteq> 0 \<and> ks (probe_slot (2 ^ k) s m) \<noteq> hash"
proof (induction "2 ^ k - n" arbitrary: n)
  case 0
  then have "2 ^ k \<le> n" by simp
  then show ?case by (subst probe.simps) (auto simp: probe_slot_def)
next
  case (Suc d)
  let ?x = "ks (probe_slot (2 ^ k) s n)"
  show ?case
  proof (cases "?x = hash \<or> ?x = 0 \<or> Suc n \<ge> 2 ^ k")
    case True
    show ?thesis
    proof (cases "?x = hash \<or> ?x = 0")
      case True
      then show ?thesis by (subst probe.simps) (auto simp: probe_slot_def)
    next
      case False
      then have "m = n" if "n \<le> m" "m < 2 ^ k" for m using True that by simp
      moreover have "probe ks (2 ^ k) hash (probe_slot (2 ^ k) s n) n = Full"
        using False True by (subst probe.simps) auto
      ultimately show ?thesis using False by auto
    qed
  next
    case False
    then have "probe ks (2 ^ k) hash (probe_slot (2 ^ k) s n) n
        = probe ks (2 ^ k) hash (probe_slot (2 ^ k) s (Suc n)) (Suc n)"
      by (subst probe.simps) (simp add: next_slot [OF assms, simplified])
    moreover have "d = 2 ^ k - Suc n" using Suc.hyps(2) by simp
    note IH = Suc.hyps(1) [OF this]
    moreover have "n = m \<or> Suc n \<le> m" if "n \<le> m" for m using that by auto
    ultimately show ?thesis using False
      by (auto split: probe_result.splits)
  qed
qed

text \<open>A full table has neither a free slot nor the hash.\<close>

lemma probe_first:
  assumes "k \<le> 32"
  shows "case probe ks (2 ^ k) hash (first_slot (2 ^ k) hash) 0 of
      Hit slot \<Rightarrow> slot < 2 ^ k \<and> ks slot = hash
    | Empty slot \<Rightarrow> slot < 2 ^ k \<and> ks slot = 0 \<and> hash \<noteq> 0
    | Full \<Rightarrow> \<forall>x < 2 ^ k. ks x \<noteq> 0 \<and> ks x \<noteq> hash"
proof (cases "probe ks (2 ^ k) hash (first_slot (2 ^ k) hash) 0")
  case Full
  have "ks x \<noteq> 0 \<and> ks x \<noteq> hash" if x: "x < 2 ^ k" for x
  proof -
    obtain n where "n < 2 ^ k" "probe_slot (2 ^ k) (unat hash) n = x" using probe_slots_all [OF x] by blast
    then show ?thesis
      using probe_at [OF assms, where ks = ks and hash = hash and s = "unat hash" and n = 0] Full by (auto simp: first_slot_probe)
  qed
  with Full show ?thesis by simp
qed (use probe_at [OF assms, where ks = ks and hash = hash and s = "unat hash" and n = 0] in \<open>auto simp: first_slot_probe\<close>)

text \<open>Once claimed, a slot is what the same hash finds.\<close>

lemma probe_claimed:
  "probe ks cap hash slot step = Empty x \<Longrightarrow> probe (ks(x := hash)) cap hash slot step = Hit x"
proof (induction ks cap hash slot step rule: probe.induct)
  case (1 ks cap hash slot step)
  then show ?case
    by (subst probe.simps) (subst (asm) (2) probe.simps, auto simp: fun_upd_def split: if_splits)
qed

lemma probe_cong_keys:
  assumes "k \<le> 32" and "\<forall>x < 2 ^ k. ks x = ks' x"
  shows "probe ks (2 ^ k) hash (probe_slot (2 ^ k) s n) n = probe ks' (2 ^ k) hash (probe_slot (2 ^ k) s n) n"
proof (induction "2 ^ k - n" arbitrary: n)
  case 0
  then have "2 ^ k \<le> n" by simp
  then show ?case using assms(2) by (subst (1 2) probe.simps) (auto simp: probe_slot_def)
next
  case (Suc d)
  moreover have "d = 2 ^ k - Suc n" using Suc.hyps(2) by simp
  ultimately show ?case
    using assms(2) by (subst (1 2) probe.simps) (auto simp: probe_slot_def next_slot [OF assms(1), simplified, unfolded probe_slot_def])
qed

section \<open>Invariant\<close>

text \<open>The capacities double from the first table on.\<close>

fun caps_ok :: "ltable list \<Rightarrow> bool" where
  "caps_ok [] \<longleftrightarrow> False"
| "caps_ok [t] \<longleftrightarrow> capacity t = 2 ^ 16"
| "caps_ok (t # u # us) \<longleftrightarrow> capacity t = 2 * capacity u \<and> caps_ok (u # us)"

lemma caps_ok_power: "caps_ok ts \<Longrightarrow> \<exists>k \<ge> 16. capacity (hd ts) = 2 ^ k"
proof (induction ts rule: caps_ok.induct)
  case (3 t u us)
  then obtain k where "k \<ge> 16" "capacity t = 2 ^ Suc k" by auto
  then show ?case by (metis le_SucI list.sel(1))
qed auto

lemma caps_ok_less: "caps_ok (t # ts) \<Longrightarrow> u \<in> set ts \<Longrightarrow> 2 * capacity u \<le> capacity t \<and> 2 ^ 16 \<le> capacity u"
proof (induction ts arbitrary: t)
  case (Cons v vs)
  then show ?case
  proof (cases "u = v")
    case True
    obtain k where "k \<ge> 16" "capacity v = 2 ^ k" using caps_ok_power [of "v # vs"] Cons.prems(1) by auto
    with True Cons.prems(1) power_increasing [of 16 k "2::nat"] show ?thesis by simp
  next
    case False
    with Cons.IH [of v] Cons.prems show ?thesis by auto
  qed
qed simp

lemma power_le_30: "2 ^ k \<le> (2::nat) ^ 30 \<Longrightarrow> k \<le> 30"
  by (metis power_le_imp_le_exp one_less_numeral_iff semiring_norm(76))

text \<open>A pointer is NULL or leads to a trace with the key's hash.\<close>

definition trace_ok :: "call_trace list \<Rightarrow> u64 \<Rightarrow> u64 \<Rightarrow> bool" where
  "trace_ok trs key p \<longleftrightarrow> p = 0 \<or> (unat p \<le> length trs
     \<and> calcHash (frames (trs ! (unat p - 1))) (truncated (trs ! (unat p - 1))) = key)"

definition ltable_ok :: "call_trace list \<Rightarrow> ltable \<Rightarrow> bool" where
  "ltable_ok trs t \<longleftrightarrow> (\<forall>x < capacity t. key_at t x \<noteq> 0 \<longrightarrow> trace_ok trs (key_at t x) (trace_at t x))"

definition complete :: "ltable \<Rightarrow> bool" where
  "complete t \<longleftrightarrow> (\<forall>x < capacity t. key_at t x \<noteq> 0 \<longrightarrow> trace_at t x \<noteq> 0)"

definition alloc_ok :: "storage_st \<Rightarrow> bool" where
  "alloc_ok = (\<lambda>(s, cs). (\<exists>n0 b0 path. alloc_inv n0 b0 path (allocator s, cs))
     \<and> chunk_size (allocator s) = CALL_TRACE_CHUNK)"

definition storage_inv :: "storage_st \<Rightarrow> bool" where
  "storage_inv = (\<lambda>(s, cs). caps_ok (tables s) \<and> capacity (hd (tables s)) \<le> 2 ^ 30
     \<and> (\<forall>t \<in> set (tables s). ltable_ok (traces s) t) \<and> complete (hd (tables s)) \<and> alloc_ok (s, cs))"

lemma trace_ok_append: "trace_ok trs key p \<Longrightarrow> trace_ok (trs @ [x]) key p"
proof -
  assume ok: "trace_ok trs key p"
  show ?thesis
  proof (cases "p = 0")
    case False
    then have "0 < unat p" by (simp add: unat_gt_0)
    with ok False have "unat p - 1 < length trs" by (auto simp: trace_ok_def)
    with ok False show ?thesis by (auto simp: trace_ok_def nth_append)
  qed (simp add: trace_ok_def)
qed

lemma ltable_ok_append: "ltable_ok trs t \<Longrightarrow> ltable_ok (trs @ [x]) t"
  by (auto simp: ltable_ok_def intro: trace_ok_append)

lemma trace_ok_new:
  "Suc (length trs) < 2 ^ 64 \<Longrightarrow>
   trace_ok (trs @ [\<lparr>truncated = trunc, frames = fs\<rparr>]) (calcHash fs trunc) (word_of_nat (Suc (length trs)))
   \<and> (word_of_nat (Suc (length trs)) :: u64) \<noteq> 0"
proof -
  assume "Suc (length trs) < 2 ^ 64"
  then have "unat (word_of_nat (Suc (length trs)) :: u64) = Suc (length trs)"
    by (simp add: unat_of_nat take_bit_eq_mod del: of_nat_Suc)
  then show ?thesis by (auto simp: trace_ok_def simp del: of_nat_Suc)
qed

subsection \<open>Writes to a table\<close>

lemma ltable_ok_write_key:
  assumes "ltable_ok trs t"
  shows "ltable_ok trs (write_word slot 0 t)"
  unfolding ltable_ok_def
proof (intro allI impI)
  fix x assume x: "x < capacity (write_word slot 0 t)" "key_at (write_word slot 0 t) x \<noteq> 0"
  then have "x \<noteq> slot" "trace_ok trs (key_at t x) (trace_at t x)"
    using assms by (auto simp: write_word_def key_at_def ltable_ok_def split: if_splits)
  then show "trace_ok trs (key_at (write_word slot 0 t) x) (trace_at (write_word slot 0 t) x)"
    by (auto simp: write_word_def key_at_def trace_at_def trace_ok_def)
qed

lemma slot_words:
  fixes x y :: nat
  shows "3 * x \<noteq> Suc (3 * y)" "Suc (3 * y) \<noteq> 3 * x" "3 * x \<noteq> Suc (Suc (3 * y))" "Suc (Suc (3 * y)) \<noteq> 3 * x"
  by presburger+

lemma count_sample_simps [simp]:
  "capacity (count_sample slot w t) = capacity t"
  "lsize (count_sample slot w t) = lsize t"
  "x < capacity t \<Longrightarrow> key_at (count_sample slot w t) x = key_at t x"
  "trace_at (count_sample slot w t) x = trace_at t x"
  "samples_at (count_sample slot w t) x = (if x = slot then samples_at t x + 1 else samples_at t x)"
  by (simp_all add: count_sample_def write_word_def key_at_def trace_at_def samples_at_def Let_def slot_words)

lemma ltable_ok_count: "ltable_ok trs t \<Longrightarrow> ltable_ok trs (count_sample slot w t)"
  by (simp add: ltable_ok_def)

lemma complete_count: "complete t \<Longrightarrow> complete (count_sample slot w t)"
  by (simp add: complete_def)

text \<open>The table after its slot was claimed.\<close>

definition claimed :: "nat \<Rightarrow> u64 \<Rightarrow> u64 \<Rightarrow> ltable \<Rightarrow> ltable" where
  "claimed slot hash trace t =
     write_word (capacity t + 3 * slot) trace ((write_word slot hash t)\<lparr>lsize := lsize t + 1\<rparr>)"

lemma claimed_simps [simp]:
  assumes "slot < capacity t"
  shows "capacity (claimed slot hash trace t) = capacity t"
    and "x < capacity t \<Longrightarrow> key_at (claimed slot hash trace t) x = (if x = slot then hash else key_at t x)"
    and "trace_at (claimed slot hash trace t) x = (if x = slot then trace else trace_at t x)"
    and "samples_at (claimed slot hash trace t) x = samples_at t x"
  using assms
  by (simp_all add: claimed_def write_word_def key_at_def trace_at_def samples_at_def slot_words)

lemma ltable_ok_claimed:
  "ltable_ok trs t \<Longrightarrow> slot < capacity t \<Longrightarrow> trace_ok trs hash trace \<Longrightarrow> ltable_ok trs (claimed slot hash trace t)"
  by (simp add: ltable_ok_def)

lemma complete_claimed:
  "complete t \<Longrightarrow> slot < capacity t \<Longrightarrow> trace \<noteq> 0 \<Longrightarrow> complete (claimed slot hash trace t)"
  by (simp add: complete_def)

lemma findCallTrace_ok:
  assumes "ltable_ok trs t" and "capacity t = 2 ^ k" and "k \<le> 32" and "hash \<noteq> 0"
  shows "trace_ok trs hash (findCallTrace t hash)"
  using probe_first [OF assms(3), of "mem t" hash] assms
  by (cases "probe (mem t) (2 ^ k) hash (first_slot (2 ^ k) hash) 0")
     (auto simp: findCallTrace_def ltable_ok_def key_at_def trace_ok_def)

subsection \<open>Storing a trace\<close>

lemma counted_other_counters:
  assumes "alloc_inv n0 b0 path (a, cs)"
  shows "alloc_inv n0 b0 path (a, increment CALLTRACE_STORAGE_TRACES d 0 (increment CALLTRACE_STORAGE_BYTES e 0 cs))"
  using assms by (simp add: alloc_inv_def counted_def getCounter_increment DD_NUM_COUNTERS_def)

lemma total_size_fits:
  assumes "length fs \<le> 524283"
  shows "unat (total_size fs) + 72 \<le> unat CALL_TRACE_CHUNK"
proof -
  have "total_size fs = word_of_nat (8 + length fs * 16)" by (simp add: total_size_def)
  moreover have "8 + length fs * 16 < 2 ^ 64" using assms by simp
  ultimately have "unat (total_size fs) = 8 + length fs * 16"
    by (simp only: unat_of_nat take_bit_eq_mod) simp
  with assms show ?thesis by (simp add: CALL_TRACE_CHUNK_def)
qed

lemma storeCallTrace_ok:
  assumes "alloc_ok (s, cs)" and "\<forall>n. os n" and "length fs \<le> 524283"
  obtains a cs' where "storeCallTrace (Suc (Suc fuel)) os fs trunc (s, cs) =
      Inr (word_of_nat (Suc (length (traces s))),
           s\<lparr>allocator := a, traces := traces s @ [\<lparr>truncated = trunc, frames = fs\<rparr>]\<rparr>, cs')"
    and "\<And>s'. allocator s' = a \<Longrightarrow> alloc_ok (s', cs')"
proof -
  obtain n0 b0 path where inv: "alloc_inv n0 b0 path (allocator s, cs)"
    and sz: "chunk_size (allocator s) = CALL_TRACE_CHUNK" using assms(1) by (auto simp: alloc_ok_def)
  have fits: "unat (total_size fs) + 72 \<le> unat (chunk_size (allocator s))"
    using total_size_fits [OF assms(3)] sz by simp
  obtain res a cs1 path' where al: "alloc (Suc (Suc fuel)) os (total_size fs) (allocator s, cs) = Inr (res, a, cs1)"
    and inv': "alloc_inv n0 b0 path' (a, cs1)" and gr: "grows (allocator s) a"
    and res: "case res of None \<Rightarrow> \<not> os (requests (allocator s)) | Some blk \<Rightarrow> handed (allocator s) a (total_size fs) blk"
    by (rule alloc_spec [OF inv fits])
  obtain blk where "res = Some blk" using res assms(2) by (cases res) auto
  moreover have "chunk_size a = CALL_TRACE_CHUNK" using gr sz by (simp add: grows_def)
  moreover define cs' where "cs' = increment CALLTRACE_STORAGE_TRACES 1 0
      (increment CALLTRACE_STORAGE_BYTES (uint (total_size fs)) 0 cs1)"
  moreover have "alloc_inv n0 b0 path' (a, cs')" unfolding cs'_def by (rule counted_other_counters [OF inv'])
  ultimately show ?thesis
    by (intro that [of a cs']) (use al in \<open>auto simp: storeCallTrace_def alloc_ok_def\<close>)
qed

subsection \<open>Claiming a slot\<close>

lemma caps_ok_replace:
  "caps_ok (t # ps) \<Longrightarrow> capacity t' = capacity t \<Longrightarrow> caps_ok (t' # ps)"
  by (cases ps) auto

lemma caps_ok_prev:
  "caps_ok (t # p # r) \<Longrightarrow> capacity p' = capacity p \<Longrightarrow> caps_ok (t # p' # r)"
  by (cases r) auto

definition erase_prev :: "nat \<Rightarrow> ltable list \<Rightarrow> ltable list" where
  "erase_prev slot ps = (case ps of [] \<Rightarrow> [] | p # r \<Rightarrow> write_word slot 0 p # r)"

lemma caps_ok_erase: "caps_ok (t # ps) \<Longrightarrow> caps_ok (t # erase_prev slot ps)"
proof (cases ps)
  case (Cons p r)
  assume "caps_ok (t # ps)"
  then have "caps_ok (t # write_word slot 0 p # r)"
    unfolding Cons by (rule caps_ok_prev) (simp add: write_word_def)
  with Cons show ?thesis by (simp add: erase_prev_def)
qed (simp add: erase_prev_def)

lemma ltable_ok_erase: "\<forall>p \<in> set ps. ltable_ok trs p \<Longrightarrow> \<forall>p \<in> set (erase_prev slot ps). ltable_ok trs p"
  by (cases ps) (auto simp: erase_prev_def ltable_ok_write_key)

lemma ltable_ok_new: "ltable_ok trs (allocate_table cap)" and complete_new: "complete (allocate_table cap)"
  by (simp_all add: ltable_ok_def complete_def allocate_table_def key_at_def)

text \<open>The trace that a claimed slot gets: the one of the previous table or a new one.\<close>

lemma claim_trace:
  assumes inv: "storage_inv (s, cs)" and ts: "tables s = t # ps" and os: "\<forall>n. os n" and len: "length fs \<le> 524283"
    and room: "Suc (length (traces s)) < 2 ^ 64" and nz: "calcHash fs trunc \<noteq> 0"
  obtains trace s1 cs1 where
    "(if (case ps of [] \<Rightarrow> 0 | p # _ \<Rightarrow> findCallTrace p (calcHash fs trunc)) = 0
      then storeCallTrace (Suc (Suc fuel)) os fs trunc (s, cs)
      else Inr (case ps of [] \<Rightarrow> 0 | p # _ \<Rightarrow> findCallTrace p (calcHash fs trunc), s, cs)) = Inr (trace, s1, cs1)"
    and "trace \<noteq> 0" and "trace_ok (traces s1) (calcHash fs trunc) trace"
    and "\<And>u. ltable_ok (traces s) u \<Longrightarrow> ltable_ok (traces s1) u"
    and "\<And>s'. allocator s' = allocator s1 \<Longrightarrow> alloc_ok (s', cs1)"
    and "lock s1 = lock s" and "overflow s1 = overflow s" and "length (traces s1) \<le> Suc (length (traces s))"
proof (cases "(case ps of [] \<Rightarrow> 0 | p # _ \<Rightarrow> findCallTrace p (calcHash fs trunc)) = 0")
  case True
  have "alloc_ok (s, cs)" using inv by (simp add: storage_inv_def)
  from storeCallTrace_ok [OF this os len] obtain a cs1 where
    st: "storeCallTrace (Suc (Suc fuel)) os fs trunc (s, cs) = Inr (word_of_nat (Suc (length (traces s))),
       s\<lparr>allocator := a, traces := traces s @ [\<lparr>truncated = trunc, frames = fs\<rparr>]\<rparr>, cs1)"
    "\<And>s'. allocator s' = a \<Longrightarrow> alloc_ok (s', cs1)" by blast
  note new = trace_ok_new [OF room, of trunc fs]
  let ?s1 = "s\<lparr>allocator := a, traces := traces s @ [\<lparr>truncated = trunc, frames = fs\<rparr>]\<rparr>"
  show ?thesis
  proof (rule that [of "word_of_nat (Suc (length (traces s)))" ?s1 cs1])
    show "ltable_ok (traces ?s1) u" if "ltable_ok (traces s) u" for u
      using that by (simp add: ltable_ok_append)
  qed (use True st new in \<open>simp_all del: of_nat_Suc\<close>)
next
  case False
  then obtain p r where ps: "ps = p # r" by (cases ps) auto
  have caps: "caps_ok (p # r)" "capacity p \<le> 2 ^ 30" and ok: "ltable_ok (traces s) p" "alloc_ok (s, cs)"
    using inv ts ps caps_ok_less [of t ps p] by (auto simp: storage_inv_def)
  obtain k where k: "capacity p = 2 ^ k" using caps_ok_power [OF caps(1)] by auto
  then have "k \<le> 32" using caps(2) power_le_30 by fastforce
  with ok k nz have "trace_ok (traces s) (calcHash fs trunc) (findCallTrace p (calcHash fs trunc))"
    by (intro findCallTrace_ok)
  moreover have "alloc_ok (s', cs)" if "allocator s' = allocator s" for s' using ok that by (simp add: alloc_ok_def)
  ultimately show ?thesis
    by (intro that [of "findCallTrace p (calcHash fs trunc)" s cs]) (use False ps in auto)
qed

lemma claim_ok:
  assumes inv: "storage_inv (s, cs)" and ts: "tables s = t # ps" and slot: "slot < capacity t"
    and os: "\<forall>n. os n" and len: "length fs \<le> 524283"
    and room: "Suc (length (traces s)) < 2 ^ 64" and nz: "calcHash fs trunc \<noteq> 0"
    and grow: "grant \<Longrightarrow> capacity t \<le> 2 ^ 29"
  obtains news trace s' cs' where
    "claim (Suc (Suc fuel)) os grant fs trunc w (calcHash fs trunc) slot t ps (s, cs) = Inr (s', cs')"
    and "tables s' = news @ count_sample slot w (claimed slot (calcHash fs trunc) trace t) # erase_prev slot ps"
    and "news = [] \<or> news = [allocate_table (2 * capacity t)]"
    and "trace \<noteq> 0" and "storage_inv (s', cs')" and "lock s' = lock s" and "overflow s' = overflow s"
    and "length (traces s') \<le> Suc (length (traces s))" and "\<not> grant \<longrightarrow> news = []"
proof -
  let ?h = "calcHash fs trunc"
  obtain trace s1 cs1 where tr:
    "(if (case ps of [] \<Rightarrow> 0 | p # _ \<Rightarrow> findCallTrace p ?h) = 0 then storeCallTrace (Suc (Suc fuel)) os fs trunc (s, cs)
      else Inr (case ps of [] \<Rightarrow> 0 | p # _ \<Rightarrow> findCallTrace p ?h, s, cs)) = Inr (trace, s1, cs1)"
    "trace \<noteq> 0" "trace_ok (traces s1) ?h trace" "\<And>u. ltable_ok (traces s) u \<Longrightarrow> ltable_ok (traces s1) u"
    "\<And>s'. allocator s' = allocator s1 \<Longrightarrow> alloc_ok (s', cs1)" "lock s1 = lock s" "overflow s1 = overflow s"
    "length (traces s1) \<le> Suc (length (traces s))"
    by (rule claim_trace [OF inv ts os len room nz, where fuel = fuel]) blast
  define t2 where "t2 = count_sample slot w (claimed slot ?h trace t)"
  define news where "news = (if unat (lsize t + 1) = capacity t * 3 mod 2 ^ 32 div 4 \<and> grant
                 then [allocate_table (2 * capacity t)] else [])"
  have cap: "capacity t \<le> 2 ^ 30" using inv ts by (simp add: storage_inv_def)
  have inv': "caps_ok (t # ps)" "\<forall>u \<in> set (t # ps). ltable_ok (traces s1) u" "complete t"
    using inv ts tr(4) by (auto simp: storage_inv_def)
  have t2: "capacity t2 = capacity t" "ltable_ok (traces s1) t2" "complete t2"
    using inv' slot tr(2,3) by (simp_all add: t2_def ltable_ok_count ltable_ok_claimed complete_count complete_claimed)
  let ?s' = "s1\<lparr>tables := news @ t2 # erase_prev slot ps\<rparr>"
  have "capacity t * 2 mod 2 ^ 32 = 2 * capacity t" using cap by simp
  then have "claim (Suc (Suc fuel)) os grant fs trunc w ?h slot t ps (s, cs) = Inr (?s', cs1)"
    using tr(1) by (simp add: claim_def Let_def news_def t2_def claimed_def write_word_def erase_prev_def)
  moreover have "caps_ok (t2 # erase_prev slot ps)"
    using caps_ok_erase [OF caps_ok_replace [OF inv'(1) t2(1)]] .
  then have "storage_inv (?s', cs1)"
    using t2 inv' tr(5) cap grow ltable_ok_erase [of ps "traces s1" slot]
    by (auto simp: storage_inv_def news_def allocate_table_def ltable_ok_new [unfolded allocate_table_def]
        complete_new [unfolded allocate_table_def])
  ultimately show ?thesis
    by (intro that [of ?s' cs1 news trace]) (use tr in \<open>auto simp: news_def t2_def\<close>)
qed

subsection \<open>Putting a trace\<close>

text \<open>
  What \<^verbatim>\<open>put\<close> does to a storage that satisfies the invariant: it counts the sample in the slot whose
  number it returns, in the table that was current, or it reports an overflow of a full table.
\<close>

definition put_effect :: "u64 \<Rightarrow> storage \<Rightarrow> u32 \<Rightarrow> storage \<Rightarrow> nat \<Rightarrow> ltable \<Rightarrow> ltable list \<Rightarrow> ltable list \<Rightarrow> bool" where
  "put_effect hash s i s' slot t' news rest \<longleftrightarrow>
     tables s' = news @ t' # rest \<and> (news = [] \<or> news = [allocate_table (2 * capacity (hd (tables s)))])
     \<and> slot < capacity (hd (tables s)) \<and> i = trace_id (capacity (hd (tables s))) slot
     \<and> capacity t' = capacity (hd (tables s)) \<and> key_at t' slot = hash \<and> trace_at t' slot \<noteq> 0
     \<and> samples_at t' slot = samples_at (hd (tables s)) slot + 1
     \<and> (\<forall>x < capacity t'. key_at (hd (tables s)) x \<noteq> 0 \<longrightarrow> key_at t' x = key_at (hd (tables s)) x)
     \<and> overflow s' = overflow s \<and> map capacity rest = map capacity (tl (tables s))
     \<and> probe (mem t') (capacity t') hash (first_slot (capacity t') hash) 0 = Hit slot"

lemma map_capacity_erase [simp]: "map capacity (erase_prev slot ps) = map capacity ps"
  by (cases ps) (simp_all add: erase_prev_def write_word_def)

lemma probe_same_keys:
  assumes "capacity t = 2 ^ k" and "k \<le> 32" and "\<forall>x < 2 ^ k. ks x = key_at t x"
    and "probe ks (2 ^ k) hash (first_slot (2 ^ k) hash) 0 = r"
  shows "probe (mem t) (capacity t) hash (first_slot (capacity t) hash) 0 = r"
  using probe_cong_keys [OF assms(2), of ks "mem t" hash "unat hash" 0] assms
  by (simp add: first_slot_probe key_at_def)

lemma put_ok:
  assumes inv: "storage_inv (s, cs)" and lock: "lock s \<le> 0" and os: "\<forall>n. os n" and len: "length fs \<le> 524283"
    and room: "Suc (length (traces s)) < 2 ^ 64" and nz: "calcHash fs trunc \<noteq> 0"
    and grow: "grant \<Longrightarrow> capacity (hd (tables s)) \<le> 2 ^ 29"
  obtains i s' cs' where "put (Suc (Suc fuel)) os grant fs trunc w (s, cs) = Inr (i, s', cs')"
    and "storage_inv (s', cs')" and "lock s' = lock s"
    and "i = OVERFLOW_TRACE_ID \<and> tables s' = tables s
         \<or> (\<exists>slot t' news rest. put_effect (calcHash fs trunc) s i s' slot t' news rest)"
    and "length (traces s') \<le> Suc (length (traces s))"
    and "capacity (hd (tables s')) \<le> (if grant then 2 else 1) * capacity (hd (tables s))"
proof -
  let ?h = "calcHash fs trunc" and ?s = "s\<lparr>lock := lock s - 1\<rparr>"
  obtain t ps where ts: "tables s = t # ps" using inv by (cases "tables s") (auto simp: storage_inv_def)
  obtain k where k: "capacity t = 2 ^ k" using inv ts caps_ok_power [of "t # ps"] by (auto simp: storage_inv_def)
  have "2 ^ k \<le> (2::nat) ^ 30" using inv ts k by (simp add: storage_inv_def)
  then have "k \<le> 32" using power_le_30 by fastforce
  note pr = probe_first [OF \<open>k \<le> 32\<close>, of "mem t" ?h]
  have inv1: "storage_inv (?s, cs)" using inv by (simp add: storage_inv_def alloc_ok_def)
  have lk: "tryLockShared (lock s) = (True, lock s - 1)" using lock by (simp add: tryLockShared_def)
  show ?thesis
  proof (cases "probe (mem t) (2 ^ k) ?h (first_slot (2 ^ k) ?h) 0")
    case (Hit slot)
    let ?s' = "s\<lparr>tables := count_sample slot w t # ps\<rparr>"
    have slot: "slot < capacity t" "key_at t slot = ?h" using pr Hit k by (auto simp: key_at_def)
    then have "trace_at t slot \<noteq> 0" using inv ts nz by (auto simp: storage_inv_def complete_def)
    moreover have "probe (mem (count_sample slot w t)) (capacity (count_sample slot w t)) ?h
        (first_slot (capacity (count_sample slot w t)) ?h) 0 = Hit slot"
      by (rule probe_same_keys [OF _ \<open>k \<le> 32\<close> _ Hit]) (use k in \<open>auto simp: key_at_def [of t, symmetric]\<close>)
    ultimately have "put_effect ?h s (trace_id (capacity t) slot) ?s' slot (count_sample slot w t) [] ps"
      using slot ts by (simp add: put_effect_def)
    moreover have "storage_inv (?s', cs)"
      using inv ts by (auto simp: storage_inv_def alloc_ok_def ltable_ok_count complete_count
          intro: caps_ok_replace simp del: caps_ok.simps)
    ultimately show ?thesis
      by (intro that [of "trace_id (capacity t) slot" ?s' cs])
         (use Hit k ts lk in \<open>auto simp: put_def Let_def unlockShared_def\<close>)
  next
    case (Empty slot)
    have slot: "slot < capacity t" "key_at t slot = 0" using pr Empty k by (auto simp: key_at_def)
    have ts1: "tables ?s = t # ps" and room1: "Suc (length (traces ?s)) < 2 ^ 64"
      and grow1: "grant \<Longrightarrow> capacity t \<le> 2 ^ 29" using ts room grow by auto
    obtain news trace s1 cs1 where cl: "claim (Suc (Suc fuel)) os grant fs trunc w ?h slot t ps (?s, cs) = Inr (s1, cs1)"
      and tabs: "tables s1 = news @ count_sample slot w (claimed slot ?h trace t) # erase_prev slot ps"
      and news: "news = [] \<or> news = [allocate_table (2 * capacity t)]" and tr: "trace \<noteq> 0"
      and inv': "storage_inv (s1, cs1)" and same: "lock s1 = lock ?s" "overflow s1 = overflow ?s"
        "length (traces s1) \<le> Suc (length (traces ?s))" "\<not> grant \<longrightarrow> news = []"
      by (rule claim_ok [OF inv1 ts1 slot(1) os len room1 nz grow1, where fuel = fuel and w = w]) blast
    let ?s' = "s1\<lparr>lock := lock s1 + 1\<rparr>"
    have "probe (mem (count_sample slot w (claimed slot ?h trace t))) (capacity (count_sample slot w (claimed slot ?h trace t))) ?h
        (first_slot (capacity (count_sample slot w (claimed slot ?h trace t))) ?h) 0 = Hit slot"
      by (rule probe_same_keys [OF _ \<open>k \<le> 32\<close> _ probe_claimed [OF Empty]])
         (use k slot in \<open>auto simp: key_at_def [of t, symmetric]\<close>)
    then have "put_effect ?h s (trace_id (capacity t) slot) ?s' slot
        (count_sample slot w (claimed slot ?h trace t)) news (erase_prev slot ps)"
      using tabs news tr slot ts same by (auto simp: put_effect_def)
    moreover have "capacity (hd (tables ?s')) \<le> (if grant then 2 else 1) * capacity (hd (tables s))"
      using tabs news same(4) ts slot(1) by (auto simp: allocate_table_def)
    moreover have "storage_inv (?s', cs1)" using inv' by (simp add: storage_inv_def alloc_ok_def)
    ultimately show ?thesis
      by (intro that [of "trace_id (capacity t) slot" ?s' cs1])
         (use Empty k ts lk cl same in \<open>auto simp: put_def Let_def unlockShared_def\<close>)
  next
    case Full
    let ?s' = "s\<lparr>overflow := overflow s + 1\<rparr>"
    have "storage_inv (?s', cs)" using inv by (simp add: storage_inv_def alloc_ok_def)
    then show ?thesis
      by (intro that [of OVERFLOW_TRACE_ID ?s' cs])
         (use Full k ts lk in \<open>auto simp: put_def Let_def unlockShared_def\<close>)
  qed
qed

section \<open>Numbers of traces\<close>

lemma unat_trace_id:
  assumes "2 ^ 16 \<le> cap" and "cap \<le> 2 ^ 30" and "slot < cap"
  shows "unat (trace_id cap slot) = cap - 65535 + slot"
proof -
  have "(word_of_nat cap :: u32) - 65535 = word_of_nat (cap - 65535)"
    using assms(1) by (simp add: of_nat_diff)
  then have "trace_id cap slot = word_of_nat (cap - 65535 + slot)"
    by (simp add: trace_id_def INITIAL_CAPACITY_def)
  moreover have "cap - 65535 + slot < 2 ^ 32" using assms by simp
  ultimately show ?thesis
    using unat_word_of_nat [where 'a = 32, of "cap - 65535 + slot"] by (simp del: of_nat_add)
qed

lemma trace_id_not_overflow:
  assumes "2 ^ 16 \<le> cap" and "cap \<le> 2 ^ 30" and "slot < cap"
  shows "trace_id cap slot \<noteq> OVERFLOW_TRACE_ID"
  using unat_trace_id [OF assms] assms by (auto simp: OVERFLOW_TRACE_ID_def)

lemma trace_id_eq:
  assumes "2 ^ 16 \<le> cap" "cap \<le> 2 ^ 30" "slot < cap" and "2 ^ 16 \<le> cap'" "cap' \<le> 2 ^ 30" "slot' < cap'"
    and "cap = cap' \<or> 2 * cap \<le> cap' \<or> 2 * cap' \<le> cap"
    and "trace_id cap slot = trace_id cap' slot'"
  shows "cap = cap' \<and> slot = slot'"
  using unat_trace_id [OF assms(1-3)] unat_trace_id [OF assms(4-6)] assms by auto

subsection \<open>Collecting\<close>

definition reported :: "ltable \<Rightarrow> nat \<Rightarrow> bool" where
  "reported t x \<longleftrightarrow> key_at t x \<noteq> 0 \<and> samples_at t x \<noteq> 0 \<and> trace_at t x \<noteq> 0"

lemma collect_slot_other:
  assumes "slot < capacity t" and "y < capacity t" and "y \<noteq> slot"
  shows "capacity (snd (collect_slot slot (m, t))) = capacity t"
    and "reported (snd (collect_slot slot (m, t))) y = reported t y"
    and "trace_at (snd (collect_slot slot (m, t))) y = trace_at t y"
  using assms
  by (auto simp: collect_slot_def reported_def key_at_def samples_at_def trace_at_def write_word_def slot_words)

lemma capacity_collect_slot [simp]: "capacity (snd (collect_slot slot (m, t))) = capacity t"
  by (simp add: collect_slot_def write_word_def)

lemma collect_fold:
  assumes "\<forall>x \<in> set xs. x < capacity t" and "distinct xs" and "2 ^ 16 \<le> capacity t" "capacity t \<le> 2 ^ 30"
  shows "(\<forall>x < capacity t. fst (fold collect_slot xs (m, t)) (trace_id (capacity t) x) =
      (if x \<in> set xs \<and> reported t x then Some (Stored (trace_at t x)) else m (trace_id (capacity t) x)))
    \<and> (\<forall>i. (\<forall>x < capacity t. i \<noteq> trace_id (capacity t) x) \<longrightarrow> fst (fold collect_slot xs (m, t)) i = m i)"
  using assms
proof (induction xs arbitrary: m t)
  case (Cons y ys)
  obtain m1 t1 where st: "collect_slot y (m, t) = (m1, t1)" by (cases "collect_slot y (m, t)")
  have y: "y < capacity t" "y \<notin> set ys" using Cons.prems by auto
  have t1: "capacity t1 = capacity t"
    "\<And>x. x < capacity t \<Longrightarrow> x \<noteq> y \<Longrightarrow> reported t1 x = reported t x \<and> trace_at t1 x = trace_at t x"
    using collect_slot_other [OF y(1), of _ m] capacity_collect_slot [of y m t] st by auto
  have m1: "m1 = (if reported t y then m(trace_id (capacity t) y \<mapsto> Stored (trace_at t y)) else m)"
    using st by (auto simp: collect_slot_def reported_def split: if_splits)
  have inj: "trace_id (capacity t) x = trace_id (capacity t) y \<longleftrightarrow> x = y" if "x < capacity t" for x
    using trace_id_eq [of "capacity t" x "capacity t" y] that y Cons.prems by auto
  note IH = Cons.IH [of t1 m1, unfolded t1(1)]
  show ?case
  proof (intro conjI allI impI)
    fix x assume x: "x < capacity t"
    have "fst (fold collect_slot ys (m1, t1)) (trace_id (capacity t) x) =
        (if x \<in> set ys \<and> reported t1 x then Some (Stored (trace_at t1 x)) else m1 (trace_id (capacity t) x))"
      using IH Cons.prems x by auto
    then show "fst (fold collect_slot (y # ys) (m, t)) (trace_id (capacity t) x) =
        (if x \<in> set (y # ys) \<and> reported t x then Some (Stored (trace_at t x)) else m (trace_id (capacity t) x))"
      using st t1(2) [OF x] m1 inj [OF x] y by auto
  next
    fix i assume i: "\<forall>x < capacity t. i \<noteq> trace_id (capacity t) x"
    then have "fst (fold collect_slot ys (m1, t1)) i = m1 i" using IH Cons.prems by auto
    then show "fst (fold collect_slot (y # ys) (m, t)) i = m i" using st m1 i y by auto
  qed
qed simp

lemma collect_ltable_at:
  assumes "2 ^ 16 \<le> capacity t" "capacity t \<le> 2 ^ 30"
  shows "x < capacity t \<Longrightarrow> reported t x \<Longrightarrow>
      fst (collect_ltable m t) (trace_id (capacity t) x) = Some (Stored (trace_at t x))"
    and "\<forall>x < capacity t. i \<noteq> trace_id (capacity t) x \<Longrightarrow> fst (collect_ltable m t) i = m i"
  using collect_fold [of "[0..<capacity t]" t] assms by (auto simp: collect_ltable_def)

lemma caps_ok_tl: "caps_ok (t # ts) \<Longrightarrow> ts \<noteq> [] \<Longrightarrow> caps_ok ts"
  by (cases ts) auto

lemma collect_tables_skip:
  "\<forall>t \<in> set ts. 2 * capacity t \<le> cap \<and> 2 ^ 16 \<le> capacity t \<Longrightarrow> 2 ^ 16 \<le> cap \<Longrightarrow> cap \<le> 2 ^ 30 \<Longrightarrow> x < cap \<Longrightarrow>
   fst (collect_tables m ts) (trace_id cap x) = m (trace_id cap x)"
proof (induction ts arbitrary: m)
  case (Cons t ts)
  then have cap: "2 * capacity t \<le> cap" "2 ^ 16 \<le> capacity t" "capacity t \<le> 2 ^ 30" by auto
  obtain m1 t1 where st: "collect_ltable m t = (m1, t1)" by (cases "collect_ltable m t")
  have "\<forall>y < capacity t. trace_id cap x \<noteq> trace_id (capacity t) y"
    using trace_id_eq [of cap x "capacity t"] cap Cons.prems by force
  then have "m1 (trace_id cap x) = m (trace_id cap x)"
    using collect_ltable_at(2) [OF cap(2,3), of "trace_id cap x" m] st by simp
  with Cons.IH [of m1] Cons.prems st show ?case by (simp add: case_prod_beta)
qed simp

lemma collectTraces_at:
  assumes "caps_ok (news @ t # rest)" and "capacity t \<le> 2 ^ 30" and "x < capacity t" and "reported t x"
    and "tables s = news @ t # rest" and "length news \<le> 1"
  shows "fst (collectTraces s) (trace_id (capacity t) x) = Some (Stored (trace_at t x))"
proof -
  have caps: "caps_ok (t # rest)"
    using assms(1,6) by (cases news) (auto dest: caps_ok_tl)
  then obtain k where "k \<ge> 16" "capacity t = 2 ^ k" using caps_ok_power by fastforce
  then have cap: "2 ^ 16 \<le> capacity t" using power_increasing [of 16 k "2::nat"] by simp
  have rest: "fst (collect_tables m (t # rest)) (trace_id (capacity t) x) = Some (Stored (trace_at t x))" for m
    using collect_ltable_at(1) [OF cap assms(2-4), of m] cap assms(2,3)
      collect_tables_skip [of rest "capacity t" x] caps_ok_less [OF caps]
    by (simp add: case_prod_beta)
  then have "fst (collect_tables Map.empty (news @ t # rest)) (trace_id (capacity t) x) = Some (Stored (trace_at t x))"
    using assms(6) by (cases news) (auto simp: case_prod_beta)
  then show ?thesis
    using assms(5) trace_id_not_overflow [OF cap assms(2,3)] by (auto simp: collectTraces_def case_prod_beta)
qed

section \<open>Sequences of samples\<close>

text \<open>A sample is whether the system would grant a table, the frames, whether they are truncated, and
  the weight.\<close>

type_synonym sample = "bool \<times> frame list \<times> bool \<times> u64"

fun put_all :: "nat \<Rightarrow> (nat \<Rightarrow> bool) \<Rightarrow> sample list \<Rightarrow> storage_st \<Rightarrow> storage_error + u32 list \<times> storage_st" where
  "put_all fuel os [] st = Inr ([], st)"
| "put_all fuel os ((grant, fs, trunc, w) # xs) st =
     (case put fuel os grant fs trunc w st of
        Inl e \<Rightarrow> Inl e
      | Inr (i, st1) \<Rightarrow>
          (case put_all fuel os xs st1 of Inl e \<Rightarrow> Inl e | Inr (is, st2) \<Rightarrow> Inr (i # is, st2)))"

definition sample_hash :: "sample \<Rightarrow> u64" where
  "sample_hash = (\<lambda>(grant, fs, trunc, w). calcHash fs trunc)"

definition sample_ok :: "sample \<Rightarrow> bool" where
  "sample_ok = (\<lambda>(grant, fs, trunc, w). length fs \<le> 524283 \<and> calcHash fs trunc \<noteq> 0)"

definition grants :: "sample list \<Rightarrow> nat" where
  "grants xs = length (filter fst xs)"

text \<open>The numbers given out so far, with the hashes they stand for.\<close>

definition given :: "storage \<Rightarrow> u32 \<Rightarrow> u64 \<Rightarrow> bool" where
  "given s i h \<longleftrightarrow> (\<exists>cap x. cap \<in> set (map capacity (tables s)) \<and> x < cap \<and> i = trace_id cap x
     \<and> (cap = capacity (hd (tables s)) \<longrightarrow> key_at (hd (tables s)) x = h))"

lemma caps_distinct:
  assumes "caps_ok ts" and "t \<in> set ts" and "t' \<in> set ts"
  shows "capacity t = capacity t' \<or> 2 * capacity t \<le> capacity t' \<or> 2 * capacity t' \<le> capacity t"
  using assms
proof (induction ts rule: caps_ok.induct)
  case (3 a u us)
  then show ?case using caps_ok_less [of a "u # us"] by auto
qed auto

lemma caps_bounds:
  assumes "caps_ok ts" and "t \<in> set ts"
  shows "2 ^ 16 \<le> capacity t \<and> capacity t \<le> capacity (hd ts)"
proof (cases ts)
  case (Cons a as)
  obtain k where "k \<ge> 16" "capacity a = 2 ^ k" using caps_ok_power assms(1) Cons by fastforce
  then have "2 ^ 16 \<le> capacity a" using power_increasing [of 16 k "2::nat"] by simp
  then show ?thesis using assms Cons caps_ok_less [of a as t] by auto
qed (use assms in auto)

lemma given_step:
  assumes inv: "storage_inv (s, cs)" and eff: "put_effect h s i s' slot t' news rest"
    and giv: "given s j h'" and nz: "h' \<noteq> 0"
  shows "given s' j h'" and "j = i \<Longrightarrow> h' = h"
proof -
  let ?t = "hd (tables s)"
  have ne: "tables s \<noteq> []" and caps: "caps_ok (tables s)" "capacity ?t \<le> 2 ^ 30"
    using inv by (auto simp: storage_inv_def)
  have caps_s': "map capacity (tables s') = map capacity news @ map capacity (tables s)"
    using eff ne by (cases "tables s") (auto simp: put_effect_def)
  obtain cap x where j: "cap \<in> set (map capacity (tables s))" "x < cap" "j = trace_id cap x"
    "cap = capacity ?t \<longrightarrow> key_at ?t x = h'" using giv by (auto simp: given_def)
  have t': "capacity t' = capacity ?t" "slot < capacity ?t" "i = trace_id (capacity ?t) slot" "key_at t' slot = h"
    using eff by (auto simp: put_effect_def)
  have keep: "key_at t' x = h'" if "cap = capacity ?t"
    using j that nz eff by (auto simp: put_effect_def)
  have hd: "hd (tables s') = t' \<or> capacity (hd (tables s')) = 2 * capacity ?t"
    using eff by (auto simp: put_effect_def allocate_table_def)
  have le: "cap \<le> capacity ?t" "2 ^ 16 \<le> cap" "2 ^ 16 \<le> capacity ?t"
    using j(1) caps_bounds [OF caps(1)] ne by auto
  have "cap = capacity (hd (tables s')) \<longrightarrow> key_at (hd (tables s')) x = h'"
    using hd keep le t'(1) by auto
  moreover have "cap \<in> set (map capacity (tables s'))" using j(1) caps_s' by simp
  ultimately show "given s' j h'" unfolding given_def using j(2,3) by blast
  show "h' = h" if "j = i"
  proof -
    have "cap = capacity ?t \<or> 2 * cap \<le> capacity ?t \<or> 2 * capacity ?t \<le> cap"
      using j(1) caps_distinct [OF caps(1) _ hd_in_set [OF ne]] by auto
    then have "cap = capacity ?t \<and> x = slot"
      using that j t' le caps(2) by (intro trace_id_eq) auto
    then show ?thesis using keep t'(4) by simp
  qed
qed

lemma given_new:
  assumes inv: "storage_inv (s, cs)" and eff: "put_effect h s i s' slot t' news rest"
  shows "given s' i h"
proof -
  let ?t = "hd (tables s)"
  have ne: "tables s \<noteq> []" and caps: "caps_ok (tables s)" using inv by (auto simp: storage_inv_def)
  have caps_s': "map capacity (tables s') = map capacity news @ map capacity (tables s)"
    using eff ne by (cases "tables s") (auto simp: put_effect_def)
  have t': "capacity t' = capacity ?t" "slot < capacity ?t" "i = trace_id (capacity ?t) slot" "key_at t' slot = h"
    using eff by (auto simp: put_effect_def)
  have hd: "hd (tables s') = t' \<or> capacity (hd (tables s')) = 2 * capacity ?t"
    using eff by (auto simp: put_effect_def allocate_table_def)
  have le: "2 ^ 16 \<le> capacity ?t" using caps_bounds [OF caps hd_in_set [OF ne]] by simp
  have "capacity ?t = capacity (hd (tables s')) \<longrightarrow> key_at (hd (tables s')) slot = h"
    using hd
  proof
    assume "hd (tables s') = t'"
    with t'(4) show ?thesis by simp
  qed (use le in simp)
  moreover have "capacity ?t \<in> set (map capacity (tables s'))" using caps_s' ne by simp
  ultimately show "given s' i h" unfolding given_def using t'(2,3) by blast
qed

text \<open>What holds of a run: all numbers given before stay given, and no number is given twice for
  different hashes.\<close>

definition consistent :: "storage \<Rightarrow> sample list \<Rightarrow> u32 list \<Rightarrow> bool" where
  "consistent s xs is \<longleftrightarrow> length is = length xs
     \<and> (\<forall>a < length xs. is ! a \<noteq> OVERFLOW_TRACE_ID \<longrightarrow>
          (\<forall>h. given s (is ! a) h \<longrightarrow> h \<noteq> 0 \<longrightarrow> h = sample_hash (xs ! a))
          \<and> (\<forall>b < length xs. is ! b = is ! a \<longrightarrow> sample_hash (xs ! b) = sample_hash (xs ! a)))"

lemma consistent_Cons:
  assumes rest: "consistent s1 xs is" and keep: "\<And>j h. given s j h \<Longrightarrow> h \<noteq> 0 \<Longrightarrow> given s1 j h"
    and nz: "sample_hash x \<noteq> 0"
    and new: "i \<noteq> OVERFLOW_TRACE_ID \<Longrightarrow> given s1 i (sample_hash x)"
    and uniq: "\<And>h. i \<noteq> OVERFLOW_TRACE_ID \<Longrightarrow> given s i h \<Longrightarrow> h \<noteq> 0 \<Longrightarrow> h = sample_hash x"
  shows "consistent s (x # xs) (i # is)"
  unfolding consistent_def
proof (intro conjI allI impI)
  show "length (i # is) = length (x # xs)" using rest by (simp add: consistent_def)
next
  fix a h assume a: "a < length (x # xs)" "(i # is) ! a \<noteq> OVERFLOW_TRACE_ID" "given s ((i # is) ! a) h" "h \<noteq> 0"
  show "h = sample_hash ((x # xs) ! a)"
  proof (cases a)
    case 0
    with a show ?thesis using uniq by simp
  next
    case (Suc a')
    with a have "given s1 (is ! a') h" by (intro keep) simp_all
    with a Suc rest show ?thesis unfolding consistent_def by simp
  qed
next
  fix a b assume ab: "a < length (x # xs)" "(i # is) ! a \<noteq> OVERFLOW_TRACE_ID" "b < length (x # xs)"
    "(i # is) ! b = (i # is) ! a"
  have later: "sample_hash x = sample_hash (xs ! c)" if "c < length xs" "is ! c = i" "i \<noteq> OVERFLOW_TRACE_ID" for c
    using rest that new nz unfolding consistent_def by blast
  show "sample_hash ((x # xs) ! b) = sample_hash ((x # xs) ! a)"
  proof (cases "a = 0 \<or> b = 0")
    case True
    then show ?thesis using ab later [of "a - 1"] later [of "b - 1"] by (cases a; cases b) simp_all
  next
    case False
    then obtain a' b' where suc: "a = Suc a'" "b = Suc b'" by (metis not0_implies_Suc)
    with ab have "a' < length xs" "is ! a' \<noteq> OVERFLOW_TRACE_ID" "b' < length xs" "is ! b' = is ! a'"
      by simp_all
    with rest have "sample_hash (xs ! b') = sample_hash (xs ! a')" unfolding consistent_def by blast
    with suc show ?thesis by simp
  qed
qed

lemma put_all_ok:
  assumes "storage_inv (s, cs)" and "lock s \<le> 0" and "\<forall>n. os n" and "\<forall>x \<in> set xs. sample_ok x"
    and "length (traces s) + length xs < 2 ^ 64" and "capacity (hd (tables s)) * 2 ^ grants xs \<le> 2 ^ 30"
  shows "\<exists>is s' cs'. put_all (Suc (Suc fuel)) os xs (s, cs) = Inr (is, s', cs') \<and> storage_inv (s', cs')
     \<and> consistent s xs is"
  using assms
proof (induction xs arbitrary: s cs)
  case Nil
  then show ?case by (simp add: consistent_def)
next
  case (Cons x xs)
  obtain grant fs trunc w where x: "x = (grant, fs, trunc, w)" by (cases x) auto
  have ok: "length fs \<le> 524283" "calcHash fs trunc \<noteq> 0" using Cons.prems(4) x by (auto simp: sample_ok_def)
  have room: "Suc (length (traces s)) < 2 ^ 64" using Cons.prems(5) by simp
  have pow: "1 \<le> (2::nat) ^ grants xs" by simp
  have grow: "capacity (hd (tables s)) \<le> 2 ^ 29" if grant
  proof -
    have "capacity (hd (tables s)) * 2 * 1 \<le> capacity (hd (tables s)) * 2 * 2 ^ grants xs"
      by (rule mult_le_mono2 [OF pow])
    also have "\<dots> \<le> 2 ^ 30" using Cons.prems(6) x that by (simp add: grants_def ac_simps)
    finally show ?thesis by simp
  qed
  obtain i s1 cs1 where put: "put (Suc (Suc fuel)) os grant fs trunc w (s, cs) = Inr (i, s1, cs1)"
    and inv1: "storage_inv (s1, cs1)" and lock: "lock s1 = lock s"
    and eff: "i = OVERFLOW_TRACE_ID \<and> tables s1 = tables s
       \<or> (\<exists>slot t' news rest. put_effect (calcHash fs trunc) s i s1 slot t' news rest)"
    and grown: "length (traces s1) \<le> Suc (length (traces s))"
      "capacity (hd (tables s1)) \<le> (if grant then 2 else 1) * capacity (hd (tables s))"
    by (rule put_ok [OF Cons.prems(1-3) ok(1) room ok(2) grow, where fuel = fuel and w = w]) blast
  have "capacity (hd (tables s1)) * 2 ^ grants xs \<le> (if grant then 2 else 1) * capacity (hd (tables s)) * 2 ^ grants xs"
    using grown(2) by (rule mult_le_mono1)
  also have "\<dots> \<le> 2 ^ 30" using Cons.prems(6) x by (simp add: grants_def ac_simps split: if_splits)
  finally have caps: "capacity (hd (tables s1)) * 2 ^ grants xs \<le> 2 ^ 30" .
  have "length (traces s1) + length xs < 2 ^ 64" using grown(1) Cons.prems(5) by simp
  then have "\<exists>is s' cs'. put_all (Suc (Suc fuel)) os xs (s1, cs1) = Inr (is, s', cs') \<and> storage_inv (s', cs')
     \<and> consistent s1 xs is"
    using Cons.prems(2-4) lock by (intro Cons.IH [OF inv1 _ _ _ _ caps]) simp_all
  then obtain "is" s' cs' where rest: "put_all (Suc (Suc fuel)) os xs (s1, cs1) = Inr (is, s', cs')"
    "storage_inv (s', cs')" "consistent s1 xs is"
    by blast
  have h: "sample_hash x = calcHash fs trunc" by (simp add: x sample_hash_def)
  have "consistent s (x # xs) (i # is)"
  proof (cases "i = OVERFLOW_TRACE_ID \<and> tables s1 = tables s")
    case True
    then show ?thesis
      using rest(3) ok(2) h by (intro consistent_Cons [of s1]) (simp_all add: given_def)
  next
    case False
    then obtain slot t' news rst where "put_effect (calcHash fs trunc) s i s1 slot t' news rst" using eff by blast
    note step = given_step [OF Cons.prems(1) this] given_new [OF Cons.prems(1) this]
    show ?thesis
      by (rule consistent_Cons [OF rest(3)]) (use step ok(2) h in auto)
  qed
  with rest put x show ?case by auto
qed

section \<open>Properties\<close>

lemma new_storage_ok:
  assumes "wf_counters cs" and "new_CallTraceStorage os True cs = Some (s, cs')"
  shows "storage_inv (s, cs')" and "lock s = 0" and "traces s = []" and "tables s = [allocate_table 65536]"
proof -
  obtain a where a: "new_LinearAllocator os CALL_TRACE_CHUNK cs = Some (a, cs')" "s = \<lparr>allocator = a,
      tables = [allocate_table 65536], overflow = 0, lock = 0, traces = []\<rparr>"
    using assms(2) by (auto simp: new_CallTraceStorage_def INITIAL_CAPACITY_def split: option.splits)
  have sz: "72 \<le> unat CALL_TRACE_CHUNK" "unat CALL_TRACE_CHUNK < 2 ^ 63" by (simp_all add: CALL_TRACE_CHUNK_def)
  note inv = new_LinearAllocator_ok [OF assms(1) sz a(1)]
  show "storage_inv (s, cs')"
    unfolding storage_inv_def alloc_ok_def using inv a(2)
    by (auto simp: ltable_ok_new complete_new) (auto simp: allocate_table_def)
  show "lock s = 0" "traces s = []" "tables s = [allocate_table 65536]" using a(2) by simp_all
qed

text \<open>
  C8. The number of a call trace identifies it: in any run of samples on a new storage, across all
  growing of the table (at most 14 times, a table of $2^{30}$ slots), every \<^verbatim>\<open>put\<close> returns, and two
  samples that get the same number other than the overflow number have the same 64-bit trace hash.
\<close>

theorem trace_numbers_identify:
  assumes "wf_counters cs" and "\<forall>n. os n" and "new_CallTraceStorage os True cs = Some st"
    and "\<forall>x \<in> set xs. sample_ok x" and "length xs < 2 ^ 64" and "grants xs \<le> 14"
  shows "\<exists>is st'. put_all (Suc (Suc fuel)) os xs st = Inr (is, st') \<and> length is = length xs
     \<and> (\<forall>a < length xs. \<forall>b < length xs. is ! b = is ! a \<longrightarrow> is ! a \<noteq> OVERFLOW_TRACE_ID \<longrightarrow>
          sample_hash (xs ! b) = sample_hash (xs ! a))"
proof -
  obtain s cs' where st: "st = (s, cs')" by (cases st)
  note new = new_storage_ok [OF assms(1) assms(3) [unfolded st]]
  have "2 ^ 16 * 2 ^ grants xs \<le> (2::nat) ^ 16 * 2 ^ 14"
    using assms(6) by (intro mult_le_mono2 power_increasing) simp_all
  then have "capacity (hd (tables s)) * 2 ^ grants xs \<le> 2 ^ 30"
    using new(4) by (simp add: allocate_table_def)
  then obtain "is" s' cs2 where run: "put_all (Suc (Suc fuel)) os xs (s, cs') = Inr (is, s', cs2)"
    "consistent s xs is"
    using put_all_ok [OF new(1) _ assms(2,4), of fuel] new(2,3) assms(5) by auto
  then show ?thesis unfolding st consistent_def by blast
qed

text \<open>A sample whose hash the simplifier can compute.\<close>

definition frame_a :: frame where "frame_a = \<lparr>bci = 1, padding = 0, method_id = 7\<rparr>"
definition frame_b :: frame where "frame_b = \<lparr>bci = 3040, padding = 0, method_id = 7\<rparr>"

lemma hash_frame_a: "calcHash [frame_a] False = 14595941516749571483"
  by (simp add: calcHash_def frame_words_def murmur_M_def murmur_R_def Let_def frame_a_def)

lemma hash_frame_b: "calcHash [frame_b] False = 11940965158701958555"
  by (simp add: calcHash_def frame_words_def murmur_M_def murmur_R_def Let_def frame_b_def)

lemma new_storage_exists: "\<exists>s cs'. new_CallTraceStorage (\<lambda>_. True) True counters_init = Some (s, cs')"
  by (auto simp: new_CallTraceStorage_def new_LinearAllocator_def allocateChunk_def Let_def)

theorem trace_numbers_identify_witness:
  "\<exists>is st'. put_all (Suc (Suc 0)) (\<lambda>_. True) [(True, [frame_a], False, 1), (True, [frame_b], False, 1)]
       (the (new_CallTraceStorage (\<lambda>_. True) True counters_init)) = Inr (is, st')
     \<and> length is = 2 \<and> (is ! 0 = is ! 1 \<longrightarrow> is ! 0 = OVERFLOW_TRACE_ID)"
proof -
  let ?xs = "[(True, [frame_a], False, 1), (True, [frame_b], False, 1)] :: sample list"
  obtain s cs' where st: "new_CallTraceStorage (\<lambda>_. True) True counters_init = Some (s, cs')"
    using new_storage_exists by blast
  have "\<forall>x \<in> set ?xs. sample_ok x" by (simp add: sample_ok_def hash_frame_a hash_frame_b)
  from trace_numbers_identify [OF wf_counters_init _ st this, of 0] obtain "is" st' where
    run: "put_all (Suc (Suc 0)) (\<lambda>_. True) ?xs (s, cs') = Inr (is, st')" "length is = length ?xs"
    "\<forall>a < length ?xs. \<forall>b < length ?xs. is ! b = is ! a \<longrightarrow> is ! a \<noteq> OVERFLOW_TRACE_ID \<longrightarrow>
          sample_hash (?xs ! b) = sample_hash (?xs ! a)"
    by (auto simp: grants_def)
  have "is ! 0 = is ! 1 \<longrightarrow> is ! 0 = OVERFLOW_TRACE_ID"
    using run(3) [rule_format, of 0 1]
    by (cases "is ! 0 = OVERFLOW_TRACE_ID") (auto simp: sample_hash_def hash_frame_a hash_frame_b)
  with run(1,2) st show ?thesis by auto
qed

text \<open>
  C13. A sampled trace reaches the recording: when \<^verbatim>\<open>put\<close> returns a number other than the overflow
  number, the next \<^verbatim>\<open>collectTraces\<close> maps that number to a stored trace with the same hash. (The 64-bit
  sample counts of the current table are assumed not to be about to wrap around.)
\<close>

theorem put_then_collect:
  assumes "storage_inv (s, cs)" and "lock s \<le> 0" and "\<forall>n. os n" and "length fs \<le> 524283"
    and "Suc (length (traces s)) < 2 ^ 64" and "calcHash fs trunc \<noteq> 0"
    and "grant \<longrightarrow> capacity (hd (tables s)) \<le> 2 ^ 29"
    and "\<forall>x. samples_at (hd (tables s)) x \<noteq> - 1"
  shows "\<exists>i s' cs'. put (Suc (Suc fuel)) os grant fs trunc w (s, cs) = Inr (i, s', cs') \<and> storage_inv (s', cs')
     \<and> (i \<noteq> OVERFLOW_TRACE_ID \<longrightarrow>
          (\<exists>p. fst (collectTraces s') i = Some (Stored p) \<and> p \<noteq> 0 \<and> unat p \<le> length (traces s')
             \<and> calcHash (frames (traces s' ! (unat p - 1))) (truncated (traces s' ! (unat p - 1))) = calcHash fs trunc))"
proof -
  obtain i s' cs' where put: "put (Suc (Suc fuel)) os grant fs trunc w (s, cs) = Inr (i, s', cs')"
    and inv: "storage_inv (s', cs')" and eff: "i = OVERFLOW_TRACE_ID \<and> tables s' = tables s
       \<or> (\<exists>slot t' news rest. put_effect (calcHash fs trunc) s i s' slot t' news rest)"
    by (rule put_ok [OF assms(1-6), of grant fuel w]) (use assms(7) in blast)+
  show ?thesis
  proof (cases "i = OVERFLOW_TRACE_ID")
    case False
    then obtain slot t' news rest where e: "put_effect (calcHash fs trunc) s i s' slot t' news rest" using eff by blast
    then have t': "tables s' = news @ t' # rest" "slot < capacity t'" "i = trace_id (capacity t') slot"
      "key_at t' slot = calcHash fs trunc" "trace_at t' slot \<noteq> 0" "length news \<le> 1"
      "samples_at t' slot = samples_at (hd (tables s)) slot + 1" "capacity t' = capacity (hd (tables s))"
      by (auto simp: put_effect_def)
    have "samples_at t' slot \<noteq> 0"
      using t'(7) assms(8) by (metis eq_neg_iff_add_eq_0)
    then have "reported t' slot" using t' assms(6) by (simp add: reported_def)
    moreover have "caps_ok (news @ t' # rest)" "capacity t' \<le> 2 ^ 30"
      using inv assms(1) t'(1,8) by (auto simp: storage_inv_def)
    ultimately have col: "fst (collectTraces s') i = Some (Stored (trace_at t' slot))"
      unfolding t'(3) using t' by (intro collectTraces_at) simp_all
    have "ltable_ok (traces s') t'" using inv t'(1) by (auto simp: storage_inv_def)
    then have "trace_ok (traces s') (calcHash fs trunc) (trace_at t' slot)"
      using t' assms(6) by (auto simp: ltable_ok_def)
    with put inv col t'(5) show ?thesis by (auto simp: trace_ok_def)
  qed (use put inv in auto)
qed

theorem put_then_collect_witness:
  "\<exists>i s' cs'. put (Suc (Suc 0)) (\<lambda>_. True) True [frame_a] False 1
       (the (new_CallTraceStorage (\<lambda>_. True) True counters_init)) = Inr (i, s', cs') \<and> storage_inv (s', cs')
     \<and> (i \<noteq> OVERFLOW_TRACE_ID \<longrightarrow> (\<exists>p. fst (collectTraces s') i = Some (Stored p)))"
proof -
  obtain s cs' where st: "new_CallTraceStorage (\<lambda>_. True) True counters_init = Some (s, cs')"
    using new_storage_exists by blast
  note new = new_storage_ok [OF wf_counters_init st]
  have "\<forall>x. samples_at (hd (tables s)) x \<noteq> - 1" using new(4) by (simp add: allocate_table_def samples_at_def)
  from put_then_collect [OF new(1), of "\<lambda>_. True" "[frame_a]" False True 0 1, OF _ _ _ _ _ _ this] new
  show ?thesis
    using st by (auto simp: hash_frame_a allocate_table_def)
qed

text \<open>
  C31. \<^verbatim>\<open>put\<close> gives up only on a full table: when it returns the overflow number, every slot of the current
  table holds a key and none of them is the hash of the trace. This rests on the probing sequence, whose
  step grows by one each time, visiting every slot.
\<close>

theorem put_overflow_only_when_full:
  assumes "storage_inv (s, cs)" and "lock s \<le> 0"
    and "put fuel os grant fs trunc w (s, cs) = Inr (OVERFLOW_TRACE_ID, st')"
  shows "\<forall>x < capacity (hd (tables s)). key_at (hd (tables s)) x \<noteq> 0 \<and> key_at (hd (tables s)) x \<noteq> calcHash fs trunc"
proof -
  obtain t ps where ts: "tables s = t # ps" using assms(1) by (cases "tables s") (auto simp: storage_inv_def)
  have caps: "caps_ok (t # ps)" "capacity t \<le> 2 ^ 30" using assms(1) ts by (auto simp: storage_inv_def)
  obtain k where k: "k \<ge> 16" "capacity t = 2 ^ k" using caps_ok_power [OF caps(1)] by auto
  then have k32: "k \<le> 32" using caps(2) power_le_30 by fastforce
  have cap: "2 ^ 16 \<le> capacity t" using caps_bounds [OF caps(1), of t] by simp
  note pr = probe_first [OF k32, of "mem t" "calcHash fs trunc"]
  have "tryLockShared (lock s) = (True, lock s - 1)" using assms(2) by (simp add: tryLockShared_def)
  then have "probe (mem t) (2 ^ k) (calcHash fs trunc) (first_slot (2 ^ k) (calcHash fs trunc)) 0 = Full"
    using assms(3) ts k pr trace_id_not_overflow [OF cap caps(2)]
    by (cases "probe (mem t) (2 ^ k) (calcHash fs trunc) (first_slot (2 ^ k) (calcHash fs trunc)) 0")
       (auto simp: put_def Let_def split: sum.splits)
  with pr k ts show ?thesis by (auto simp: key_at_def)
qed

text \<open>A table in which every slot holds the hash of one trace.\<close>

definition full_table :: ltable where
  "full_table = \<lparr>capacity = 65536, lsize = 0, mem = (\<lambda>i. if i < 65536 then 11940965158701958555 else 1)\<rparr>"

lemma full_storage:
  assumes "storage_inv (s, cs)"
  shows "storage_inv (s\<lparr>tables := [full_table], traces := [\<lparr>truncated = False, frames = [frame_b]\<rparr>]\<rparr>, cs)"
  using assms by (simp add: storage_inv_def full_table_def ltable_ok_def complete_def trace_ok_def key_at_def trace_at_def
      alloc_ok_def hash_frame_b)

theorem put_overflow_only_when_full_witness:
  "\<exists>s cs. (\<exists>st'. put (Suc (Suc 0)) (\<lambda>_. True) False [frame_a] False 1 (s, cs) = Inr (OVERFLOW_TRACE_ID, st'))
     \<and> (\<forall>x < capacity (hd (tables s)). key_at (hd (tables s)) x \<noteq> 0
          \<and> key_at (hd (tables s)) x \<noteq> calcHash [frame_a] False)"
proof -
  obtain s0 cs where "new_CallTraceStorage (\<lambda>_. True) True counters_init = Some (s0, cs)"
    using new_storage_exists by blast
  note new = new_storage_ok [OF wf_counters_init this]
  define s where "s = s0\<lparr>tables := [full_table], traces := [\<lparr>truncated = False, frames = [frame_b]\<rparr>]\<rparr>"
  have inv: "storage_inv (s, cs)" unfolding s_def by (rule full_storage [OF new(1)])
  have lock: "lock s \<le> 0" using new(2) by (simp add: s_def)
  obtain i s' cs' where put: "put (Suc (Suc 0)) (\<lambda>_. True) False [frame_a] False 1 (s, cs) = Inr (i, s', cs')"
    and eff: "i = OVERFLOW_TRACE_ID \<and> tables s' = tables s
       \<or> (\<exists>slot t' news rest. put_effect (calcHash [frame_a] False) s i s' slot t' news rest)"
    by (rule put_ok [OF inv lock, of "\<lambda>_. True" "[frame_a]" False False 0 1])
       (simp_all add: hash_frame_a s_def)
  have "\<not> put_effect (calcHash [frame_a] False) s i s' slot t' news rest" for slot t' news rest
  proof
    assume e: "put_effect (calcHash [frame_a] False) s i s' slot t' news rest"
    have t: "hd (tables s) = full_table" by (simp add: s_def)
    have "key_at full_table slot = 11940965158701958555" if "slot < capacity full_table"
      using that by (simp add: full_table_def key_at_def)
    moreover have "slot < capacity full_table" "capacity t' = capacity full_table"
      "\<forall>x < capacity t'. key_at full_table x \<noteq> 0 \<longrightarrow> key_at t' x = key_at full_table x"
      "key_at t' slot = calcHash [frame_a] False"
      using e unfolding put_effect_def t by blast+
    ultimately show False by (simp add: hash_frame_a)
  qed
  with eff put have "put (Suc (Suc 0)) (\<lambda>_. True) False [frame_a] False 1 (s, cs) = Inr (OVERFLOW_TRACE_ID, s', cs')"
    by simp
  with put_overflow_only_when_full [OF inv lock this] show ?thesis by blast
qed

text \<open>
  The same trace keeps its number while its table is the current one: a second \<^verbatim>\<open>put\<close> of the frames,
  with any weight, returns the number of the first.
\<close>

theorem put_same_trace_same_number:
  assumes "storage_inv (s, cs)" and "lock s \<le> 0" and "\<forall>n. os n" and "length fs \<le> 524283"
    and "Suc (length (traces s)) < 2 ^ 64" and "calcHash fs trunc \<noteq> 0"
    and "put (Suc (Suc fuel)) os False fs trunc w (s, cs) = Inr (i, st1)" and "i \<noteq> OVERFLOW_TRACE_ID"
  shows "\<exists>st2. put (Suc (Suc fuel)) os grant fs trunc w' st1 = Inr (i, st2)"
proof -
  obtain i' s1 cs1 where put: "put (Suc (Suc fuel)) os False fs trunc w (s, cs) = Inr (i', s1, cs1)"
    and inv: "storage_inv (s1, cs1)" and lock: "lock s1 = lock s"
    and eff: "i' = OVERFLOW_TRACE_ID \<and> tables s1 = tables s
       \<or> (\<exists>slot t' news rest. put_effect (calcHash fs trunc) s i' s1 slot t' news rest)"
    and cap: "capacity (hd (tables s1)) \<le> (if False then 2 else 1) * capacity (hd (tables s))"
    by (rule put_ok [OF assms(1-6), of False fuel w]) simp_all
  with assms(7,8) obtain slot t' news rest where st1: "st1 = (s1, cs1)"
    and e: "put_effect (calcHash fs trunc) s i s1 slot t' news rest" by auto
  have "0 < capacity (hd (tables s))"
    using assms(1) caps_bounds [of "tables s" "hd (tables s)"] by (cases "tables s") (auto simp: storage_inv_def)
  then have "news = []" using e cap by (auto simp: put_effect_def allocate_table_def)
  then have "tables s1 = t' # rest" "i = trace_id (capacity t') slot"
    "probe (mem t') (capacity t') (calcHash fs trunc) (first_slot (capacity t') (calcHash fs trunc)) 0 = Hit slot"
    using e by (auto simp: put_effect_def)
  moreover have "tryLockShared (lock s1) = (True, lock s1 - 1)"
    using assms(2) lock by (simp add: tryLockShared_def)
  ultimately show ?thesis by (simp add: st1 put_def Let_def)
qed

theorem put_same_trace_same_number_witness:
  "\<exists>i st1 st2. put (Suc (Suc 0)) (\<lambda>_. True) False [frame_a] False 1
       (the (new_CallTraceStorage (\<lambda>_. True) True counters_init)) = Inr (i, st1)
     \<and> (i \<noteq> OVERFLOW_TRACE_ID \<longrightarrow> put (Suc (Suc 0)) (\<lambda>_. True) True [frame_a] False 2 st1 = Inr (i, st2))"
proof -
  obtain s cs where st: "new_CallTraceStorage (\<lambda>_. True) True counters_init = Some (s, cs)"
    using new_storage_exists by blast
  note new = new_storage_ok [OF wf_counters_init st]
  have lock: "lock s \<le> 0" and room: "Suc (length (traces s)) < 2 ^ 64" using new(2,3) by simp_all
  obtain i s' cs' where "put (Suc (Suc 0)) (\<lambda>_. True) False [frame_a] False 1 (s, cs) = Inr (i, s', cs')"
    by (rule put_ok [OF new(1) lock, of "\<lambda>_. True" "[frame_a]" False False 0 1])
       (use room in \<open>simp_all add: hash_frame_a\<close>)
  with put_same_trace_same_number [OF new(1) lock _ _ room _ this, of True 2] st show ?thesis
    by (auto simp: hash_frame_a)
qed

lemma collect_ltable_unreported:
  assumes "2 ^ 16 \<le> capacity t" "capacity t \<le> 2 ^ 30" and "x < capacity t" and "\<not> reported t x"
  shows "fst (collect_ltable m t) (trace_id (capacity t) x) = m (trace_id (capacity t) x)"
  using collect_fold [of "[0..<capacity t]" t m] assms by (auto simp: collect_ltable_def)

lemma collect_second_table:
  assumes caps: "caps_ok (t # p # r)" and le: "capacity t \<le> 2 ^ 30" and x: "x < capacity p"
    and ts: "tables s = t # p # r"
  shows "fst (collectTraces s) (trace_id (capacity p) x) =
     (if reported p x then Some (Stored (trace_at p x)) else None)"
proof -
  have cap: "capacity t = 2 * capacity p" "2 ^ 16 \<le> capacity p" "2 ^ 16 \<le> capacity t" "capacity p \<le> 2 ^ 30"
    using caps le caps_bounds [OF caps, of p] by auto
  obtain m1 t1 where c1: "collect_ltable Map.empty t = (m1, t1)" by (cases "collect_ltable Map.empty t")
  have "\<forall>y < capacity t. trace_id (capacity p) x \<noteq> trace_id (capacity t) y"
    using trace_id_eq [of "capacity p" x "capacity t"] cap le x by force
  then have m1: "m1 (trace_id (capacity p) x) = None"
    using collect_ltable_at(2) [OF cap(3) le, of _ Map.empty] c1 by fastforce
  have "fst (collect_ltable m1 p) (trace_id (capacity p) x) = (if reported p x then Some (Stored (trace_at p x)) else None)"
    using collect_ltable_at(1) [OF cap(2,4) x] collect_ltable_unreported [OF cap(2,4) x, of m1] m1 by simp
  moreover have "\<forall>u \<in> set r. 2 * capacity u \<le> capacity p \<and> 2 ^ 16 \<le> capacity u"
    using caps caps_ok_less [of p r] by auto
  ultimately have "fst (collect_tables Map.empty (t # p # r)) (trace_id (capacity p) x)
      = (if reported p x then Some (Stored (trace_at p x)) else None)"
    using collect_tables_skip [of r "capacity p" x] cap x c1 by (simp add: case_prod_beta)
  with ts trace_id_not_overflow [OF cap(2,4) x] show ?thesis
    by (simp add: collectTraces_def case_prod_beta del: collect_tables.simps)
qed

text \<open>
  Claiming a slot of a grown table removes the wrong key from the previous table: the code clears the
  previous table's key at the slot number of the new table, so a trace that happens to live there, and has
  nothing to do with the sample, is in the recording before the \<^verbatim>\<open>put\<close> and missing after it.
\<close>

theorem put_erases_unrelated_trace:
  assumes "storage_inv (s, cs)" and "lock s \<le> 0" and "\<forall>n. os n" and "length fs \<le> 524283"
    and "Suc (length (traces s)) < 2 ^ 64" and "calcHash fs trunc \<noteq> 0" and "tables s = t # p # r"
    and "probe (mem t) (capacity t) (calcHash fs trunc) (first_slot (capacity t) (calcHash fs trunc)) 0 = Empty slot"
    and "slot < capacity p" and "reported p slot" and "key_at p slot \<noteq> calcHash fs trunc"
  shows "\<exists>i s' cs'. put (Suc (Suc fuel)) os False fs trunc w (s, cs) = Inr (i, s', cs')
     \<and> fst (collectTraces s) (trace_id (capacity p) slot) = Some (Stored (trace_at p slot))
     \<and> fst (collectTraces s') (trace_id (capacity p) slot) = None"
proof -
  let ?h = "calcHash fs trunc" and ?s = "s\<lparr>lock := lock s - 1\<rparr>"
  have caps: "caps_ok (t # p # r)" "capacity t \<le> 2 ^ 30" using assms(1,7) by (auto simp: storage_inv_def)
  have inv1: "storage_inv (?s, cs)" using assms(1) by (simp add: storage_inv_def alloc_ok_def)
  have ts: "tables ?s = t # p # r" and slot: "slot < capacity t" and room: "Suc (length (traces ?s)) < 2 ^ 64"
    using assms(5,7,9) caps(1) by auto
  obtain trace s1 cs1 where cl: "claim (Suc (Suc fuel)) os False fs trunc w ?h slot t (p # r) (?s, cs) = Inr (s1, cs1)"
    and tabs: "tables s1 = count_sample slot w (claimed slot ?h trace t) # write_word slot 0 p # r"
    by (rule claim_ok [OF inv1 ts slot assms(3,4) room assms(6), of False fuel w]) (auto simp: erase_prev_def)
  let ?s' = "s1\<lparr>lock := unlockShared (lock s1)\<rparr>"
  have "put (Suc (Suc fuel)) os False fs trunc w (s, cs) = Inr (trace_id (capacity t) slot, ?s', cs1)"
    using assms(2,7,8) cl by (simp add: put_def Let_def tryLockShared_def)
  moreover have "fst (collectTraces s) (trace_id (capacity p) slot) = Some (Stored (trace_at p slot))"
    using collect_second_table [OF caps assms(9,7)] assms(10) by simp
  moreover have "caps_ok (t # write_word slot 0 p # r)"
    by (rule caps_ok_prev [OF caps(1)]) (simp add: write_word_def)
  then have "caps_ok (count_sample slot w (claimed slot ?h trace t) # write_word slot 0 p # r)"
    by (rule caps_ok_replace) (simp add: slot)
  then have "fst (collectTraces ?s') (trace_id (capacity (write_word slot 0 p)) slot) =
      (if reported (write_word slot 0 p) slot then Some (Stored (trace_at (write_word slot 0 p) slot)) else None)"
    by (rule collect_second_table) (use caps(2) slot tabs assms(9) in \<open>simp_all add: write_word_def\<close>)
  then have "fst (collectTraces ?s') (trace_id (capacity p) slot) = None"
    by (simp add: reported_def key_at_def write_word_def)
  ultimately show ?thesis by blast
qed

definition first_table :: ltable where
  "first_table = \<lparr>capacity = 65536, lsize = 49152,
     mem = (\<lambda>_. 0)(1435 := 11940965158701958555, 65536 + 3 * 1435 := 1, 65536 + 3 * 1435 + 1 := 1)\<rparr>"

lemma grown_storage:
  assumes "storage_inv (s, cs)"
  shows "storage_inv (s\<lparr>tables := [allocate_table 131072, first_table],
     traces := [\<lparr>truncated = False, frames = [frame_b]\<rparr>]\<rparr>, cs)"
proof -
  have "ltable_ok [\<lparr>truncated = False, frames = [frame_b]\<rparr>] first_table"
    by (auto simp: first_table_def ltable_ok_def trace_ok_def key_at_def trace_at_def hash_frame_b)
  then show ?thesis
    using assms by (auto simp: storage_inv_def alloc_ok_def ltable_ok_new complete_new)
      (auto simp: allocate_table_def first_table_def)
qed

theorem put_erases_unrelated_trace_witness:
  "\<exists>s cs i s' cs'. put (Suc (Suc 0)) (\<lambda>_. True) False [frame_a] False 1 (s, cs) = Inr (i, s', cs')
     \<and> fst (collectTraces s) (trace_id 65536 1435) = Some (Stored 1)
     \<and> fst (collectTraces s') (trace_id 65536 1435) = None"
proof -
  obtain s0 cs where "new_CallTraceStorage (\<lambda>_. True) True counters_init = Some (s0, cs)"
    using new_storage_exists by blast
  note new = new_storage_ok [OF wf_counters_init this]
  define s where "s = s0\<lparr>tables := [allocate_table 131072, first_table],
     traces := [\<lparr>truncated = False, frames = [frame_b]\<rparr>]\<rparr>"
  have inv: "storage_inv (s, cs)" unfolding s_def by (rule grown_storage [OF new(1)])
  have lock: "lock s \<le> 0" and room: "Suc (length (traces s)) < 2 ^ 64" using new(2) by (simp_all add: s_def)
  have ts: "tables s = [allocate_table 131072, first_table]" by (simp add: s_def)
  have slot: "first_slot 131072 14595941516749571483 = 1435" by (simp add: first_slot_def)
  have pr: "probe (mem (allocate_table 131072)) (capacity (allocate_table 131072)) (calcHash [frame_a] False)
      (first_slot (capacity (allocate_table 131072)) (calcHash [frame_a] False)) 0 = Empty 1435"
    by (subst probe.simps) (simp add: allocate_table_def hash_frame_a slot)
  have p: "1435 < capacity first_table" "reported first_table 1435" "key_at first_table 1435 \<noteq> calcHash [frame_a] False"
    "capacity first_table = 65536" "trace_at first_table 1435 = 1"
    by (simp_all add: first_table_def reported_def key_at_def trace_at_def samples_at_def hash_frame_a)
  have "\<exists>i s' cs'. put (Suc (Suc 0)) (\<lambda>_. True) False [frame_a] False 1 (s, cs) = Inr (i, s', cs')
     \<and> fst (collectTraces s) (trace_id 65536 1435) = Some (Stored 1)
     \<and> fst (collectTraces s') (trace_id 65536 1435) = None"
    using put_erases_unrelated_trace [OF inv lock _ _ room _ ts pr p(1-3), of "\<lambda>_. True" 0 1] p(4,5)
    by (simp add: hash_frame_a)
  then show ?thesis by blast
qed

end
