(* ===== verification/Thread_Filter.thy ===== *)
theory Thread_Filter
  imports Prelude Counters
begin

text \<open>
  Model of \<^verbatim>\<open>threadFilter.h\<close> and \<^verbatim>\<open>threadFilter.cpp\<close>: the set of thread ids the wall-clock sampler
  looks at, as bitmaps of 64-bit words that are allocated on demand. A page is a function from word
  indices to words; a thread id is the 32-bit value the code computes with, so that a negative id is a
  large one. Touching a bitmap pointer outside the array is the error \<open>BitmapIndex\<close>, writing through
  a page that could not be allocated is \<open>NullPage\<close>. \<open>grant\<close> says whether the system grants a page.

  \<open>ids\<close> is the abstract set. The locale \<open>id_set\<close> is the contract the profiler relies on; the
  interpretation shows that the bitmaps implement it for ids below the maximum. \<^verbatim>\<open>collect\<close> returns the
  elements in increasing order.
\<close>

section \<open>State\<close>

definition BITMAP_SIZE :: nat where "BITMAP_SIZE = 65536"
definition BITMAP_CAPACITY :: nat where "BITMAP_CAPACITY = BITMAP_SIZE * 8"

lemmas bitmap_consts = BITMAP_SIZE_def BITMAP_CAPACITY_def

type_synonym page = "nat \<Rightarrow> u64"

record thread_filter =
  max_thread_id :: u32
  max_bitmaps :: nat
  bitmaps :: "page option list"
  enabled :: bool
  fsize :: int

datatype filter_error = BitmapIndex | NullPage

type_synonym filter_st = "thread_filter \<times> counters"

section \<open>Operations\<close>

definition trackPage :: "counters \<Rightarrow> counters" where
  "trackPage cs = increment THREAD_FILTER_BYTES (int BITMAP_SIZE) 0 (increment THREAD_FILTER_PAGES 1 0 cs)"

text \<open>The constructor; \<open>max_id\<close> is what \<^verbatim>\<open>OS::getMaxThreadId\<close> returns. The sum is one of \<^verbatim>\<open>u32\<close>.\<close>

definition new_ThreadFilter :: "u32 \<Rightarrow> counters \<Rightarrow> filter_st" where
  "new_ThreadFilter max_id cs =
     (let n = unat (max_id + word_of_nat BITMAP_SIZE - 1) div BITMAP_SIZE
      in (\<lparr>max_thread_id = max_id, max_bitmaps = n, bitmaps = (replicate n None)[0 := Some (\<lambda>_. 0)],
          enabled = False, fsize = 0\<rparr>, trackPage cs))"

definition page_index :: "u32 \<Rightarrow> nat" where
  "page_index tid = unat tid div BITMAP_CAPACITY"

definition word_index :: "u32 \<Rightarrow> nat" where
  "word_index tid = (unat tid mod BITMAP_CAPACITY) div 2 ^ 6"

definition bit_mask :: "u32 \<Rightarrow> u64" where
  "bit_mask tid = push_bit (unat (tid AND 0x3f)) 1"

definition bitmap :: "thread_filter \<Rightarrow> u32 \<Rightarrow> filter_error + page option" where
  "bitmap f tid =
     (if tid \<ge> max_thread_id f then Inr None
      else if page_index tid < length (bitmaps f) then Inr (bitmaps f ! page_index tid)
      else Inl BitmapIndex)"

definition accept :: "thread_filter \<Rightarrow> u32 \<Rightarrow> filter_error + bool" where
  "accept f tid =
     (case bitmap f tid of
        Inl e \<Rightarrow> Inl e
      | Inr None \<Rightarrow> Inr False
      | Inr (Some b) \<Rightarrow> Inr (b (word_index tid) AND bit_mask tid \<noteq> 0))"

text \<open>Setting a bit of page number \<open>i\<close>; the size grows when it was clear.\<close>

definition set_bit_at :: "u32 \<Rightarrow> nat \<Rightarrow> page \<Rightarrow> thread_filter \<Rightarrow> thread_filter" where
  "set_bit_at tid i b f =
     (let w = b (word_index tid)
      in f\<lparr>bitmaps := (bitmaps f)[i := Some (b(word_index tid := w OR bit_mask tid))],
           fsize := (if w AND bit_mask tid = 0 then s32 (fsize f + 1) else fsize f)\<rparr>)"

definition filter_add :: "bool \<Rightarrow> u32 \<Rightarrow> filter_st \<Rightarrow> filter_error + filter_st" where
  "filter_add grant tid = (\<lambda>(f, cs).
     case bitmap f tid of
       Inl e \<Rightarrow> Inl e
     | Inr (Some b) \<Rightarrow> Inr (set_bit_at tid (page_index tid) b f, cs)
     | Inr None \<Rightarrow>
         if page_index tid < length (bitmaps f) then
           (case bitmaps f ! page_index tid of
              Some b \<Rightarrow> Inr (set_bit_at tid (page_index tid) b f, cs)
            | None \<Rightarrow>
                if grant then Inr (set_bit_at tid (page_index tid) (\<lambda>_. 0) f, trackPage cs)
                else Inl NullPage)
         else Inl BitmapIndex)"

definition filter_remove :: "u32 \<Rightarrow> filter_st \<Rightarrow> filter_error + filter_st" where
  "filter_remove tid = (\<lambda>(f, cs).
     case bitmap f tid of
       Inl e \<Rightarrow> Inl e
     | Inr None \<Rightarrow> Inr (f, cs)
     | Inr (Some b) \<Rightarrow>
         (let w = b (word_index tid)
          in Inr (f\<lparr>bitmaps := (bitmaps f)[page_index tid := Some (b(word_index tid := w AND NOT (bit_mask tid)))],
                    fsize := (if w AND bit_mask tid \<noteq> 0 then s32 (fsize f - 1) else fsize f)\<rparr>, cs)))"

definition filter_clear :: "thread_filter \<Rightarrow> thread_filter" where
  "filter_clear f = f\<lparr>bitmaps := map (map_option (\<lambda>b j. if j < BITMAP_SIZE div 8 then 0 else b j)) (bitmaps f), fsize := 0\<rparr>"

text \<open>\<^verbatim>\<open>init\<close>: a list of ids and ranges, read with \<^verbatim>\<open>strtol(filter, &end, 0)\<close> and cut to \<^verbatim>\<open>int\<close>.\<close>

function add_range :: "bool \<Rightarrow> int \<Rightarrow> int \<Rightarrow> filter_st \<Rightarrow> filter_error + filter_st" where
  "add_range grant i to st =
     (if i \<le> to then
        (case filter_add grant (word_of_int i) st of
           Inl e \<Rightarrow> Inl e
         | Inr st1 \<Rightarrow> add_range grant (i + 1) to st1)
      else Inr st)"
  by pat_completeness auto
termination by (relation "measure (\<lambda>(_, i, to, _). nat (to + 1 - i))") auto

declare add_range.simps [simp del]

function init_loop :: "bool \<Rightarrow> string \<Rightarrow> filter_st \<Rightarrow> filter_error + filter_st" where
  "init_loop grant flt st =
     (case strtol flt 0 of (v, rest) \<Rightarrow>
        let i = s32 v in
        if i \<le> 0 then Inr st
        else if rest \<noteq> [] \<and> hd rest = CHR ''-'' then
          (case strtol (tl rest) 0 of (v2, rest2) \<Rightarrow>
             case add_range grant i (s32 v2) st of
               Inl e \<Rightarrow> Inl e
             | Inr st1 \<Rightarrow> if rest2 \<noteq> [] then init_loop grant (tl rest2) st1 else Inr st1)
        else
          (case filter_add grant (word_of_int i) st of
             Inl e \<Rightarrow> Inl e
           | Inr st1 \<Rightarrow> if rest \<noteq> [] then init_loop grant (tl rest) st1 else Inr st1))"
  by pat_completeness auto
termination
proof (relation "measure (\<lambda>(_, flt, _). length flt)", goal_cases)
  case (2 grant flt st v rest i v2 rest2 st1)
  have "length (tl rest2) < length rest2" using 2 by (cases rest2) auto
  also have "\<dots> \<le> length (tl rest)" using strtol_rest [of "tl rest" 0] 2 by (metis snd_conv)
  also have "\<dots> \<le> length rest" by simp
  also have "\<dots> \<le> length flt" using strtol_rest [of flt 0] 2 by (metis snd_conv)
  finally show ?case by simp
next
  case (3 grant flt st v rest i st1)
  have "length (tl rest) < length rest" using 3 by (cases rest) auto
  also have "\<dots> \<le> length flt" using strtol_rest [of flt 0] 3 by (metis snd_conv)
  finally show ?case by simp
qed simp

declare init_loop.simps [simp del]

definition filter_init :: "bool \<Rightarrow> string option \<Rightarrow> filter_st \<Rightarrow> filter_error + filter_st" where
  "filter_init grant flt = (\<lambda>(f, cs).
     case flt of
       None \<Rightarrow> Inr (f\<lparr>enabled := False\<rparr>, cs)
     | Some s \<Rightarrow>
         (case init_loop grant s (f, cs) of
            Inl e \<Rightarrow> Inl e
          | Inr (f1, cs1) \<Rightarrow> Inr (f1\<lparr>enabled := True\<rparr>, cs1)))"

text \<open>\<^verbatim>\<open>collect\<close>: the lowest set bit is reported and removed until the word is 0.\<close>

function ctz :: "u64 \<Rightarrow> nat" where
  "ctz w = (if w = 0 \<or> bit w 0 then 0 else Suc (ctz (drop_bit 1 w)))"
  by pat_completeness auto
termination by (relation "measure unat") (use drop_bit_decreases [of 1] in \<open>auto simp: unat_gt_0\<close>)

declare ctz.simps [simp del]

lemma and_pred_less: "w \<noteq> 0 \<Longrightarrow> unat (w AND (w - 1)) < unat (w :: u64)"
proof -
  assume "w \<noteq> 0"
  then have "unat (w - 1) < unat w" by (simp add: unat_minus_one unat_gt_0)
  moreover have "unat (w AND (w - 1)) \<le> unat (w - 1)"
    using word_and_le1 [of w "w - 1"] by (simp add: word_le_nat_alt)
  ultimately show ?thesis by simp
qed

function low_bits :: "u64 \<Rightarrow> nat list" where
  "low_bits w = (if w = 0 then [] else ctz w # low_bits (w AND (w - 1)))"
  by pat_completeness auto
termination by (relation "measure unat") (use and_pred_less in auto)

declare low_bits.simps [simp del]

definition collect_page :: "nat \<Rightarrow> page option \<Rightarrow> int list" where
  "collect_page i b =
     (case b of
        None \<Rightarrow> []
      | Some b \<Rightarrow>
          (let start_id = s32 (int (i * BITMAP_CAPACITY)) in
           concat (map (\<lambda>j. map (\<lambda>n. start_id + int (j * 64) + int n) (low_bits (b j)))
                       [0..<BITMAP_SIZE div 8])))"

definition filter_collect :: "thread_filter \<Rightarrow> int list" where
  "filter_collect f = concat (map (\<lambda>i. collect_page i (bitmaps f ! i)) [0..<length (bitmaps f)])"

section \<open>The bits of a word\<close>

lemma ctz_bit: "w \<noteq> 0 \<Longrightarrow> bit w (ctz w) \<and> (\<forall>i < ctz w. \<not> bit w i)"
proof (induction w rule: ctz.induct)
  case (1 w)
  show ?case
  proof (cases "bit w 0")
    case True
    then show ?thesis by (simp add: ctz.simps)
  next
    case False
    have "drop_bit 1 w \<noteq> 0"
    proof
      assume "drop_bit 1 w = 0"
      then have "unat w div 2 = 0" using unat_drop_bit_div [of 1 w] by simp
      moreover have "unat w mod 2 = 0"
        using False by (metis bit_0 bit_unsigned_iff even_iff_mod_2_eq_zero)
      ultimately show False using "1.prems" by (metis mod_div_trivial mult_0_right plus_nat.add_0 mult_div_mod_eq unat_0 unsigned_word_eqI)
    qed
    with "1.IH" "1.prems" False have IH: "bit (drop_bit 1 w) (ctz (drop_bit 1 w))"
      "\<forall>i < ctz (drop_bit 1 w). \<not> bit (drop_bit 1 w) i" by auto
    have ctz: "ctz w = Suc (ctz (drop_bit 1 w))" using False "1.prems" by (subst ctz.simps) simp
    have "\<not> bit w i" if "i < ctz w" for i
      using that IH(2) False ctz by (cases i) (auto simp: bit_drop_bit_eq)
    with IH(1) ctz show ?thesis by (simp add: bit_drop_bit_eq)
  qed
qed

text \<open>\<^verbatim>\<open>word & (word - 1)\<close> clears the lowest set bit.\<close>

lemma nat_and_pred:
  fixes n :: nat
  assumes "bit n c" and "\<forall>i < c. \<not> bit n i"
  shows "bit (n AND (n - 1)) i \<longleftrightarrow> bit n i \<and> i \<noteq> c"
proof -
  have "take_bit c n = 0" by (rule bit_eqI) (use assms(2) in \<open>auto simp: bit_take_bit_iff\<close>)
  then have dvd: "2 ^ c dvd n" by (simp add: take_bit_eq_0_iff)
  then obtain m where n: "n = 2 ^ c * m" by blast
  with assms(1) have "odd m" by (simp add: bit_iff_odd)
  then obtain q where m: "m = 2 * q + 1" by (metis oddE)
  obtain r where r: "2 ^ c = Suc r" by (metis not0_implies_Suc power_not_zero zero_neq_numeral)
  have "n = 2 ^ c * (2 * q) + Suc r" unfolding r [symmetric] n m by (simp only: distrib_left mult_1_right)
  then have "n - 1 = 2 ^ c * (2 * q) + r" by simp
  moreover have "r < 2 ^ c" using r by simp
  ultimately have div: "(n - 1) div 2 ^ c = 2 * q" by (simp only: div_mult_self4 div_less)
  consider "i < c" | "i = c" | d where "i = c + Suc d"
    by (metis less_iff_Suc_add linorder_neqE_nat add_Suc_right)
  then show ?thesis
  proof cases
    case 3
    have "(n - 1) div 2 ^ i = n div 2 ^ i"
      unfolding 3 power_add div_mult2_eq div using n m by (simp add: div_mult2_eq)
    then have "bit (n - 1) i \<longleftrightarrow> bit n i" by (simp only: bit_iff_odd)
    then show ?thesis using 3 by (simp add: bit_and_iff)
  next
    case 2
    have "\<not> bit (n - 1) c" unfolding bit_iff_odd div by simp
    then show ?thesis using 2 by (simp add: bit_and_iff)
  qed (use assms in \<open>simp add: bit_and_iff\<close>)
qed

lemma and_pred_bit:
  assumes "w \<noteq> 0"
  shows "bit (w AND (w - 1)) i \<longleftrightarrow> bit w i \<and> i \<noteq> ctz (w :: u64)"
proof -
  have nat: "bit (unat v) j \<longleftrightarrow> bit v j" for v :: u64 and j by (simp add: bit_unsigned_iff)
  have "bit (unat w AND (unat w - 1)) i \<longleftrightarrow> bit (unat w) i \<and> i \<noteq> ctz w"
    using ctz_bit [OF assms] by (intro nat_and_pred) (simp_all add: nat)
  moreover have "unat (w AND (w - 1)) = unat w AND (unat w - 1)"
    using assms by (simp add: unsigned_and_eq unat_minus_one)
  ultimately show ?thesis by (metis nat)
qed

lemma low_bits_eq: "low_bits w = filter (bit w) [0..<64]"
proof (induction w rule: low_bits.induct)
  case (1 w)
  show ?case
  proof (cases "w = 0")
    case False
    note c = ctz_bit [OF False]
    have less: "ctz w < 64" using c bit_imp_le_length [of w "ctz w"] by simp
    then have split: "[0..<64] = [0..<ctz w] @ ctz w # [Suc (ctz w)..<64]"
      by (metis append_Cons append_Nil less_imp_le_nat upt_conv_Cons upt_add_eq_append le0 le_add_diff_inverse)
    have "filter (bit w) [0..<64] = ctz w # filter (bit w) [Suc (ctz w)..<64]"
      unfolding split using c by (simp add: filter_empty_conv)
    also have "filter (bit w) [Suc (ctz w)..<64] = filter (bit (w AND (w - 1))) [Suc (ctz w)..<64]"
      by (rule filter_cong) (auto simp: and_pred_bit [OF False])
    also have "\<dots> = filter (bit (w AND (w - 1))) [0..<64]"
      unfolding split using c by (simp add: filter_empty_conv and_pred_bit [OF False])
    finally show ?thesis using "1.IH" [OF False] False by (subst low_bits.simps) simp
  qed (simp add: low_bits.simps)
qed

section \<open>The set of ids\<close>

definition page_word :: "thread_filter \<Rightarrow> nat \<Rightarrow> nat \<Rightarrow> u64" where
  "page_word f i j = (if i < length (bitmaps f) then (case bitmaps f ! i of None \<Rightarrow> 0 | Some b \<Rightarrow> b j) else 0)"

definition testbit :: "thread_filter \<Rightarrow> u32 \<Rightarrow> bool" where
  "testbit f t = bit (page_word f (page_index t) (word_index t)) (unat t mod 64)"

definition ids :: "thread_filter \<Rightarrow> u32 set" where
  "ids f = {t. testbit f t}"

definition wf_filter :: "thread_filter \<Rightarrow> bool" where
  "wf_filter f \<longleftrightarrow> unat (max_thread_id f) \<le> length (bitmaps f) * BITMAP_CAPACITY \<and> unat (max_thread_id f) < 2 ^ 31
     \<and> (\<forall>t. testbit f t \<longrightarrow> t < max_thread_id f) \<and> fsize f = int (card (ids f))"

lemma bit_mask_eq: "bit_mask t = push_bit (unat t mod 64) 1"
proof -
  have "unat (t AND 0x3f) = unat t AND 63" by (simp add: unsigned_and_eq)
  also have "\<dots> = unat t AND mask 6" by (simp add: mask_eq_exp_minus_1)
  also have "\<dots> = unat t mod 64" by (simp add: take_bit_eq_mod flip: take_bit_eq_mask)
  finally show ?thesis by (simp add: bit_mask_def)
qed

lemma bit_mask_iff: "bit (bit_mask t) n \<longleftrightarrow> n = unat t mod 64"
proof -
  have "unat t mod 64 < LENGTH(64)" by simp
  then show ?thesis
    unfolding bit_mask_eq push_bit_of_1 by (auto simp: bit_exp_iff)
qed

lemma and_bit_mask: "w AND bit_mask t = 0 \<longleftrightarrow> \<not> bit w (unat t mod 64)"
proof
  assume "w AND bit_mask t = 0"
  then have "\<not> bit (w AND bit_mask t) (unat t mod 64)" by simp
  then show "\<not> bit w (unat t mod 64)" by (simp add: bit_and_iff bit_mask_iff)
next
  assume "\<not> bit w (unat t mod 64)"
  then show "w AND bit_mask t = 0" by (intro bit_eqI) (auto simp: bit_and_iff bit_mask_iff)
qed

text \<open>An id is its page, word and bit.\<close>

lemma id_parts: "unat t = page_index t * BITMAP_CAPACITY + word_index t * 64 + unat t mod 64"
proof -
  have "unat t mod BITMAP_CAPACITY mod 64 = unat t mod 64"
    by (rule mod_mod_cancel) (simp add: bitmap_consts)
  then have "unat t mod BITMAP_CAPACITY = word_index t * 64 + unat t mod 64"
    using div_mult_mod_eq [of "unat t mod BITMAP_CAPACITY" 64] by (simp add: word_index_def)
  then show ?thesis
    using div_mult_mod_eq [of "unat t" BITMAP_CAPACITY] by (simp add: page_index_def)
qed

lemma id_eqI:
  "page_index t = page_index u \<Longrightarrow> word_index t = word_index u \<Longrightarrow> unat t mod 64 = unat u mod 64 \<Longrightarrow> t = u"
  using id_parts [of t] id_parts [of u] by (metis unsigned_word_eqI)

lemma page_index_less:
  assumes "wf_filter f" and "t < max_thread_id f"
  shows "page_index t < length (bitmaps f)"
proof -
  have "unat t < length (bitmaps f) * BITMAP_CAPACITY"
    using assms by (simp add: wf_filter_def word_less_nat_alt)
  then show ?thesis unfolding page_index_def by (rule less_mult_imp_div_less)
qed

lemma bitmap_eq:
  assumes "wf_filter f" and "t < max_thread_id f"
  shows "bitmap f t = Inr (bitmaps f ! page_index t)"
  using page_index_less [OF assms] assms(2) by (simp add: bitmap_def not_le [symmetric])

lemma accept_iff:
  assumes "wf_filter f"
  shows "accept f t = Inr (t \<in> ids f)"
proof (cases "t < max_thread_id f")
  case True
  then show ?thesis
    using page_index_less [OF assms True] bitmap_eq [OF assms True]
    by (auto simp: accept_def ids_def testbit_def page_word_def and_bit_mask split: option.splits)
next
  case False
  then have "t \<notin> ids f" using assms by (auto simp: wf_filter_def ids_def)
  moreover have "max_thread_id f \<le> t" using False by simp
  ultimately show ?thesis by (simp add: accept_def bitmap_def)
qed

text \<open>A page update replaces one word.\<close>

lemma page_word_upd:
  assumes "i < length (bitmaps f)" and "\<And>j. b j = page_word f i j"
    and "bitmaps f' = (bitmaps f)[i := Some (b(k := w))]"
  shows "page_word f' i' j = (if i' = i \<and> j = k then w else page_word f i' j)"
  using assms by (auto simp: page_word_def nth_list_update)

lemma testbit_upd:
  assumes "page_index t < length (bitmaps f)" and "\<And>j. b j = page_word f (page_index t) j"
    and "bitmaps f' = (bitmaps f)[page_index t := Some (b(word_index t := w))]"
    and w: "\<And>n. n < 64 \<Longrightarrow> bit w n = (if n = unat t mod 64 then v else bit (b (word_index t)) n)"
  shows "testbit f' u = (if u = t then v else testbit f u)"
proof (cases "page_index u = page_index t \<and> word_index u = word_index t")
  case True
  have "unat u mod 64 = unat t mod 64 \<longleftrightarrow> u = t" using True id_eqI by auto
  with True w [of "unat u mod 64"] assms(2) show ?thesis
    by (simp add: testbit_def page_word_upd [OF assms(1-3)])
next
  case False
  then show ?thesis by (auto simp: testbit_def page_word_upd [OF assms(1-3)])
qed

lemma ids_finite [simp]: "finite (ids f)"
  by simp

lemma card_ids_less:
  assumes "\<forall>t. testbit f t \<longrightarrow> t < m" and "unat m < 2 ^ 31"
  shows "int (card (ids f)) < 2 ^ 31"
proof -
  have "unat ` ids f \<subseteq> {..<unat m}" using assms(1) by (auto simp: ids_def word_less_nat_alt)
  then have "card (unat ` ids f) \<le> unat m" using card_mono [of "{..<unat m}" "unat ` ids f"] by simp
  moreover have "card (unat ` ids f) = card (ids f)" by (rule card_image) (auto intro: inj_onI unsigned_word_eqI)
  ultimately have "card (ids f) < 2 ^ 31" using assms(2) by simp
  then show ?thesis by (metis of_nat_less_iff of_nat_numeral of_nat_power)
qed

lemma set_bit_ok:
  assumes wf: "wf_filter f" and t: "t < max_thread_id f"
    and b: "\<And>j. b j = page_word f (page_index t) j"
  shows "wf_filter (set_bit_at t (page_index t) b f)" and "ids (set_bit_at t (page_index t) b f) = insert t (ids f)"
    and "max_thread_id (set_bit_at t (page_index t) b f) = max_thread_id f"
proof -
  let ?f = "set_bit_at t (page_index t) b f"
  have bits: "bitmaps ?f = (bitmaps f)[page_index t := Some (b(word_index t := b (word_index t) OR bit_mask t))]"
    by (simp add: set_bit_at_def Let_def)
  have tb: "testbit ?f u = (if u = t then True else testbit f u)" for u
    by (rule testbit_upd [OF page_index_less [OF wf t] b bits]) (auto simp: bit_or_iff bit_mask_iff)
  show ids: "ids ?f = insert t (ids f)" by (auto simp: ids_def tb)
  show max: "max_thread_id ?f = max_thread_id f" by (simp add: set_bit_at_def Let_def)
  have old: "b (word_index t) AND bit_mask t = 0 \<longleftrightarrow> t \<notin> ids f"
    by (simp add: and_bit_mask b ids_def testbit_def)
  have bound: "\<forall>u. testbit ?f u \<longrightarrow> u < max_thread_id ?f" using wf t by (simp add: tb max wf_filter_def)
  have "fsize ?f = int (card (ids ?f))"
  proof (cases "t \<in> ids f")
    case False
    have "int (card (ids ?f)) = int (card (ids f)) + 1" using False ids by simp
    moreover have "int (card (ids ?f)) < 2 ^ 31"
      using wf by (intro card_ids_less [OF bound]) (simp add: max wf_filter_def)
    ultimately have "s32 (int (card (ids f)) + 1) = int (card (ids f)) + 1" by (intro s32_id) simp_all
    then show ?thesis using False ids wf old by (simp add: set_bit_at_def Let_def wf_filter_def)
  qed (use wf ids old in \<open>simp add: set_bit_at_def Let_def wf_filter_def insert_absorb\<close>)
  then show "wf_filter ?f" using wf bound max bits by (simp add: wf_filter_def)
qed

lemma filter_add_ok:
  assumes wf: "wf_filter f" and t: "t < max_thread_id f"
  shows "\<exists>f' cs'. filter_add True t (f, cs) = Inr (f', cs') \<and> wf_filter f' \<and> ids f' = insert t (ids f)
     \<and> max_thread_id f' = max_thread_id f"
proof (cases "bitmaps f ! page_index t")
  case None
  have "0 = page_word f (page_index t) j" for j using None by (simp add: page_word_def)
  then show ?thesis
    using set_bit_ok [OF wf t, of "\<lambda>_. 0"] None bitmap_eq [OF wf t] page_index_less [OF wf t]
    by (simp add: filter_add_def)
next
  case (Some b)
  have "b j = page_word f (page_index t) j" for j
    using Some page_index_less [OF wf t] by (simp add: page_word_def)
  then show ?thesis
    using set_bit_ok [OF wf t, of b] Some bitmap_eq [OF wf t] by (simp add: filter_add_def)
qed

lemma filter_remove_ok:
  assumes wf: "wf_filter f" and t: "t < max_thread_id f"
  shows "\<exists>f' cs'. filter_remove t (f, cs) = Inr (f', cs') \<and> wf_filter f' \<and> ids f' = ids f - {t}
     \<and> max_thread_id f' = max_thread_id f"
proof (cases "bitmaps f ! page_index t")
  case None
  then have "t \<notin> ids f" by (simp add: ids_def testbit_def page_word_def)
  with None bitmap_eq [OF wf t] wf show ?thesis by (simp add: filter_remove_def)
next
  case (Some b)
  have b: "b j = page_word f (page_index t) j" for j
    using Some page_index_less [OF wf t] by (simp add: page_word_def)
  define f' where "f' = f\<lparr>bitmaps := (bitmaps f)[page_index t := Some (b(word_index t := b (word_index t) AND NOT (bit_mask t)))],
       fsize := (if b (word_index t) AND bit_mask t \<noteq> 0 then s32 (fsize f - 1) else fsize f)\<rparr>"
  have run: "filter_remove t (f, cs) = Inr (f', cs)"
    using Some bitmap_eq [OF wf t] by (simp add: filter_remove_def f'_def Let_def)
  have bits: "bitmaps f' = (bitmaps f)[page_index t := Some (b(word_index t := b (word_index t) AND NOT (bit_mask t)))]"
    by (simp add: f'_def)
  have tb: "testbit f' u = (if u = t then False else testbit f u)" for u
    by (rule testbit_upd [OF page_index_less [OF wf t] b bits]) (auto simp: bit_and_iff bit_not_iff bit_mask_iff)
  have ids: "ids f' = ids f - {t}" by (auto simp: ids_def tb)
  have old: "b (word_index t) AND bit_mask t \<noteq> 0 \<longleftrightarrow> t \<in> ids f"
    by (simp add: and_bit_mask b ids_def testbit_def)
  have "fsize f' = int (card (ids f'))"
  proof (cases "t \<in> ids f")
    case True
    then have pos: "0 < card (ids f)" by (auto simp: card_gt_0_iff)
    have "int (card (ids f)) < 2 ^ 31" using wf by (intro card_ids_less [of f "max_thread_id f"]) (auto simp: wf_filter_def)
    with pos have "s32 (int (card (ids f)) - 1) = int (card (ids f)) - 1" by (intro s32_id) simp_all
    then show ?thesis using True ids wf old pos by (simp add: f'_def wf_filter_def of_nat_diff)
  qed (use wf ids old in \<open>simp add: f'_def wf_filter_def\<close>)
  then have "wf_filter f'" using wf tb by (simp add: wf_filter_def f'_def)
  with run ids show ?thesis by (simp add: f'_def)
qed

lemma wf_new_filter:
  assumes "unat m < 2 ^ 31"
  shows "wf_filter (fst (new_ThreadFilter m cs))" and "ids (fst (new_ThreadFilter m cs)) = {}"
proof -
  let ?f = "fst (new_ThreadFilter m cs)"
  have pw: "page_word ?f i j = 0" for i j
    by (auto simp: new_ThreadFilter_def Let_def page_word_def nth_list_update split: option.splits)
  then show ids: "ids ?f = {}" by (simp add: ids_def testbit_def)
  have "m + word_of_nat BITMAP_SIZE - 1 = word_of_nat (unat m + 65535)" by (simp add: bitmap_consts)
  moreover have "unat m + 65535 < 2 ^ LENGTH(32)" using assms by simp
  ultimately have n: "unat (m + word_of_nat BITMAP_SIZE - 1) = unat m + 65535" by (simp only: unat_word_of_nat)
  have "unat m + 65535 = (unat m + 65535) div 65536 * 65536 + (unat m + 65535) mod 65536" by simp
  moreover have "(unat m + 65535) mod 65536 \<le> 65535" using mod_less_divisor [of 65536 "unat m + 65535"] by linarith
  ultimately have "unat m \<le> (unat m + 65535) div 65536 * 65536" by linarith
  moreover have "length (bitmaps ?f) = (unat m + 65535) div 65536"
    unfolding new_ThreadFilter_def Let_def n by (simp add: BITMAP_SIZE_def)
  moreover have "max_thread_id ?f = m" "fsize ?f = 0" by (simp_all add: new_ThreadFilter_def Let_def)
  ultimately show "wf_filter ?f"
    using assms ids pw by (simp add: wf_filter_def bitmap_consts testbit_def)
qed

lemma filter_clear_ok:
  assumes "wf_filter f" and "\<And>b. Some b \<in> set (bitmaps f) \<Longrightarrow> \<forall>j \<ge> 8192. b j = 0"
  shows "wf_filter (filter_clear f)" and "ids (filter_clear f) = {}"
proof -
  have w: "word_index t < 8192" for t
    by (simp add: word_index_def bitmap_consts less_mult_imp_div_less)
  have "page_word (filter_clear f) i (word_index t) = 0" for i t
    using w [of t] by (auto simp: page_word_def filter_clear_def bitmap_consts split: option.splits)
  then show ids: "ids (filter_clear f) = {}" by (simp add: ids_def testbit_def)
  then show "wf_filter (filter_clear f)"
    using assms(1) by (auto simp: wf_filter_def filter_clear_def ids_def)
qed

section \<open>The contract of an id set\<close>

locale id_set =
  fixes add :: "'i \<Rightarrow> 's \<Rightarrow> 'e + 's"
    and remove :: "'i \<Rightarrow> 's \<Rightarrow> 'e + 's"
    and member :: "'s \<Rightarrow> 'i \<Rightarrow> bool"
    and count :: "'s \<Rightarrow> int"
    and valid :: "'s \<Rightarrow> 'i \<Rightarrow> bool"
    and inv :: "'s \<Rightarrow> bool"
    and elems :: "'s \<Rightarrow> 'i set"
  assumes add_ok: "inv s \<Longrightarrow> valid s i \<Longrightarrow>
        \<exists>s'. add i s = Inr s' \<and> inv s' \<and> elems s' = insert i (elems s) \<and> valid s' = valid s"
    and remove_ok: "inv s \<Longrightarrow> valid s i \<Longrightarrow>
        \<exists>s'. remove i s = Inr s' \<and> inv s' \<and> elems s' = elems s - {i} \<and> valid s' = valid s"
    and member_iff: "inv s \<Longrightarrow> member s i \<longleftrightarrow> i \<in> elems s"
    and count_card: "inv s \<Longrightarrow> count s = int (card (elems s))"
begin

text \<open>A sequence of additions (\<open>True\<close>) and removals, as threads register and leave.\<close>

fun run :: "(bool \<times> 'i) list \<Rightarrow> 's \<Rightarrow> 'e + 's" where
  "run [] s = Inr s"
| "run ((a, i) # ops) s = (case (if a then add i s else remove i s) of Inl e \<Rightarrow> Inl e | Inr s' \<Rightarrow> run ops s')"

fun result :: "(bool \<times> 'i) list \<Rightarrow> 'i set \<Rightarrow> 'i set" where
  "result [] A = A"
| "result ((a, i) # ops) A = result ops (if a then insert i A else A - {i})"

lemma run_ok:
  "inv s \<Longrightarrow> \<forall>(a, i) \<in> set ops. valid s i \<Longrightarrow>
   \<exists>s'. run ops s = Inr s' \<and> inv s' \<and> elems s' = result ops (elems s) \<and> valid s' = valid s"
proof (induction ops arbitrary: s)
  case (Cons x ops)
  obtain a i where x: "x = (a, i)" by (cases x)
  have "valid s i" using Cons.prems(2) x by auto
  then obtain s1 where s1: "(if a then add i s else remove i s) = Inr s1" "inv s1" "valid s1 = valid s"
    "elems s1 = (if a then insert i (elems s) else elems s - {i})"
    using add_ok [OF Cons.prems(1), of i] remove_ok [OF Cons.prems(1), of i] by (cases a) fastforce+
  then show ?case using Cons.IH [of s1] Cons.prems(2) x by auto
qed simp

lemma run_observed:
  assumes "inv s" and "\<forall>(a, i) \<in> set ops. valid s i"
  shows "\<exists>s'. run ops s = Inr s' \<and> (\<forall>i. member s' i \<longleftrightarrow> i \<in> result ops (elems s))
     \<and> count s' = int (card (result ops (elems s)))"
proof -
  obtain s' where "run ops s = Inr s'" "inv s'" "elems s' = result ops (elems s)"
    using run_ok [OF assms] by blast
  then show ?thesis using member_iff [of s'] count_card [of s'] by auto
qed

end

interpretation tf: id_set "filter_add True" filter_remove "\<lambda>(f, cs) t. accept f t = Inr True" "\<lambda>(f, cs). fsize f"
    "\<lambda>(f, cs) t. t < max_thread_id f" "\<lambda>(f, cs). wf_filter f" "\<lambda>(f, cs). ids f"
proof (unfold_locales, goal_cases)
  case (1 s t)
  then show ?case using filter_add_ok [of "fst s" t "snd s"] by (cases s) fastforce
next
  case (2 s t)
  then show ?case using filter_remove_ok [of "fst s" t "snd s"] by (cases s) fastforce
next
  case (3 s t)
  then show ?case by (cases s) (auto simp: accept_iff)
next
  case (4 s)
  then show ?case by (cases s) (auto simp: wf_filter_def)
qed

section \<open>Collecting\<close>

lemma concat_blocks:
  "concat (map (\<lambda>j. map (\<lambda>n. h (j * k + n)) (filter (P j) [0..<k])) [0..<m]) =
   map h (filter (\<lambda>x. P (x div k) (x mod k)) [0..<m * k])"
proof (induction m)
  case (Suc m)
  have "[0..<Suc m * k] = [0..<m * k] @ map (\<lambda>n. m * k + n) [0..<k]"
    using upt_add_eq_append [of 0 "m * k" k] map_add_upt [of "m * k" k] by (simp add: add.commute)
  moreover have "filter (\<lambda>x. P (x div k) (x mod k)) (map (\<lambda>n. m * k + n) [0..<k])
      = map (\<lambda>n. m * k + n) (filter (P m) [0..<k])"
    unfolding filter_map comp_def by (intro arg_cong [of _ _ "map _"] filter_cong) auto
  ultimately show ?case using Suc by (simp add: comp_def)
qed simp

lemma concat_map_blocks:
  "concat (map (\<lambda>i. map (h i) (filter (P i) [0..<k])) [0..<m]) =
   map (\<lambda>x. h (x div k) (x mod k)) (filter (\<lambda>x. P (x div k) (x mod k)) [0..<m * k])"
proof -
  have "map (h i) (filter (P i) [0..<k]) = map (\<lambda>n. h ((i * k + n) div k) ((i * k + n) mod k)) (filter (P i) [0..<k])" for i
    by (rule map_cong) auto
  then show ?thesis
    by (simp only: concat_blocks [of "\<lambda>x. h (x div k) (x mod k)" k P m])
qed

lemma collect_page_eq:
  assumes "i * BITMAP_CAPACITY < 2 ^ 31"
  shows "collect_page i b = map (\<lambda>n. int (i * BITMAP_CAPACITY + n))
     (filter (\<lambda>n. bit (case b of None \<Rightarrow> 0 | Some b \<Rightarrow> b (n div 64)) (n mod 64)) [0..<BITMAP_CAPACITY])"
proof (cases b)
  case (Some p)
  have st: "s32 (int (i * BITMAP_CAPACITY)) = int (i * BITMAP_CAPACITY)"
    using assms by (intro s32_id) (simp_all del: of_nat_mult)
  have "collect_page i b = concat (map (\<lambda>j. map (\<lambda>n. int (i * BITMAP_CAPACITY + (j * 64 + n))) (filter (bit (p j)) [0..<64])) [0..<8192])"
    unfolding collect_page_def Some st Let_def low_bits_eq by (simp add: bitmap_consts algebra_simps)
  also have "\<dots> = map (\<lambda>x. int (i * BITMAP_CAPACITY + x)) (filter (\<lambda>x. bit (p (x div 64)) (x mod 64)) [0..<8192 * 64])"
    by (rule concat_blocks)
  finally show ?thesis using Some by (simp add: bitmap_consts)
qed (simp add: collect_page_def)

lemma filter_collect_eq:
  assumes "length (bitmaps f) * BITMAP_CAPACITY \<le> 2 ^ 31"
  shows "filter_collect f = map int (filter (\<lambda>x. word_of_nat x \<in> ids f) [0..<length (bitmaps f) * BITMAP_CAPACITY])"
proof -
  let ?P = "\<lambda>i n. bit (case bitmaps f ! i of None \<Rightarrow> 0 | Some b \<Rightarrow> b (n div 64)) (n mod 64)"
  have "filter_collect f = concat (map (\<lambda>i. map (\<lambda>n. int (i * BITMAP_CAPACITY + n)) (filter (?P i) [0..<BITMAP_CAPACITY]))
      [0..<length (bitmaps f)])"
    unfolding filter_collect_def
  proof (intro arg_cong [of _ _ concat] map_cong refl collect_page_eq)
    fix i assume "i \<in> set [0..<length (bitmaps f)]"
    then have "Suc i * BITMAP_CAPACITY \<le> length (bitmaps f) * BITMAP_CAPACITY" by (intro mult_le_mono1) simp
    with assms show "i * BITMAP_CAPACITY < 2 ^ 31" by (simp add: bitmap_consts)
  qed
  also have "\<dots> = map int (filter (\<lambda>x. ?P (x div BITMAP_CAPACITY) (x mod BITMAP_CAPACITY)) [0..<length (bitmaps f) * BITMAP_CAPACITY])"
    unfolding concat_map_blocks by simp
  also have "filter (\<lambda>x. ?P (x div BITMAP_CAPACITY) (x mod BITMAP_CAPACITY)) [0..<length (bitmaps f) * BITMAP_CAPACITY]
      = filter (\<lambda>x. word_of_nat x \<in> ids f) [0..<length (bitmaps f) * BITMAP_CAPACITY]"
  proof (rule filter_cong [OF refl])
    fix x assume "x \<in> set [0..<length (bitmaps f) * BITMAP_CAPACITY]"
    then have x: "x < length (bitmaps f) * BITMAP_CAPACITY" by simp
    then have un: "unat (word_of_nat x :: u32) = x" using assms by (intro unat_word_of_nat) simp
    have "x div BITMAP_CAPACITY < length (bitmaps f)" using x by (rule less_mult_imp_div_less)
    moreover have "x mod BITMAP_CAPACITY mod 64 = x mod 64"
      by (rule mod_mod_cancel) (simp add: bitmap_consts)
    ultimately show "?P (x div BITMAP_CAPACITY) (x mod BITMAP_CAPACITY) = (word_of_nat x \<in> ids f)"
      by (simp add: ids_def testbit_def page_word_def page_index_def word_index_def un split: option.split)
  qed
  finally show ?thesis .
qed

lemma set_filter_collect:
  assumes "wf_filter f" and "length (bitmaps f) * BITMAP_CAPACITY \<le> 2 ^ 31"
  shows "set (filter_collect f) = (\<lambda>t. int (unat t)) ` ids f"
proof (intro set_eqI iffI)
  note eq = filter_collect_eq [OF assms(2)]
  fix y assume "y \<in> set (filter_collect f)"
  then obtain x where x: "y = int x" "x < length (bitmaps f) * BITMAP_CAPACITY" "word_of_nat x \<in> ids f" unfolding eq by auto
  moreover have "unat (word_of_nat x :: u32) = x" using x(2) assms(2) by (intro unat_word_of_nat) simp
  ultimately show "y \<in> (\<lambda>t. int (unat t)) ` ids f" by (metis imageI)
next
  note eq = filter_collect_eq [OF assms(2)]
  fix y assume "y \<in> (\<lambda>t. int (unat t)) ` ids f"
  then obtain t where t: "y = int (unat t)" "t \<in> ids f" by auto
  then have "t < max_thread_id f" using assms(1) by (simp add: wf_filter_def ids_def)
  then have "unat t < length (bitmaps f) * BITMAP_CAPACITY" using assms(1) by (simp add: wf_filter_def word_less_nat_alt)
  with t(2) have "unat t \<in> set (filter (\<lambda>x. word_of_nat x \<in> ids f) [0..<length (bitmaps f) * BITMAP_CAPACITY])" by simp
  then show "y \<in> set (filter_collect f)" unfolding eq set_map t(1) by (rule imageI)
qed

lemma filter_add_length: "filter_add g t (f, cs) = Inr (f', cs') \<Longrightarrow> length (bitmaps f') = length (bitmaps f)"
  by (auto simp: filter_add_def set_bit_at_def Let_def split: sum.splits option.splits if_splits)

section \<open>Properties\<close>

text \<open>The top-level form of the runs of the contract.\<close>

fun filter_run :: "(bool \<times> u32) list \<Rightarrow> filter_st \<Rightarrow> filter_error + filter_st" where
  "filter_run [] s = Inr s"
| "filter_run ((a, t) # ops) s =
     (case (if a then filter_add True t s else filter_remove t s) of Inl e \<Rightarrow> Inl e | Inr s' \<Rightarrow> filter_run ops s')"

fun run_result :: "(bool \<times> u32) list \<Rightarrow> u32 set \<Rightarrow> u32 set" where
  "run_result [] A = A"
| "run_result ((a, t) # ops) A = run_result ops (if a then insert t A else A - {t})"

lemma filter_run_eq: "filter_run ops s = tf.run ops s"
  by (induction ops s rule: filter_run.induct) (auto split: sum.split)

lemma run_result_eq: "run_result ops A = tf.result ops A"
  by (induction ops A rule: run_result.induct) auto

text \<open>
  C14. The filter is a set: after any sequence of \<^verbatim>\<open>add\<close> and \<^verbatim>\<open>remove\<close> calls with ids below the maximum,
  no bitmap is accessed out of bounds, \<^verbatim>\<open>accept\<close> answers membership in the resulting set for every 32-bit
  id, and \<^verbatim>\<open>size\<close> is the number of its elements.
\<close>

theorem filter_is_set:
  assumes "unat m < 2 ^ 31" and "\<forall>(a, t) \<in> set ops. t < m"
  shows "\<exists>f cs'. filter_run ops (new_ThreadFilter m cs) = Inr (f, cs')
     \<and> (\<forall>t. accept f t = Inr (t \<in> run_result ops {})) \<and> fsize f = int (card (run_result ops {}))"
proof -
  obtain f0 cs0 where new: "new_ThreadFilter m cs = (f0, cs0)" by (cases "new_ThreadFilter m cs")
  have wf: "wf_filter f0" "ids f0 = {}" "max_thread_id f0 = m"
    using wf_new_filter [OF assms(1), of cs] new by (auto simp: new_ThreadFilter_def Let_def)
  then have "\<exists>s'. tf.run ops (f0, cs0) = Inr s' \<and> (case s' of (f, cs) \<Rightarrow> wf_filter f)
      \<and> (case s' of (f, cs) \<Rightarrow> ids f) = tf.result ops {} \<and> (case s' of (f, cs) \<Rightarrow> \<lambda>t. t < max_thread_id f) = (\<lambda>t. t < m)"
    using tf.run_ok [of "(f0, cs0)" ops] assms(2) by auto
  then obtain f cs' where run: "tf.run ops (f0, cs0) = Inr (f, cs')" "wf_filter f" "ids f = tf.result ops {}"
    by auto
  then show ?thesis
    using new accept_iff [OF run(2)] by (auto simp: filter_run_eq run_result_eq wf_filter_def)
qed

theorem filter_is_set_witness:
  "\<exists>f cs'. filter_run [(True, 5), (True, 7), (False, 5)] (new_ThreadFilter 131072 counters_init) = Inr (f, cs')
     \<and> accept f 7 = Inr True \<and> accept f 5 = Inr False \<and> fsize f = 1"
  using filter_is_set [of 131072 "[(True, 5), (True, 7), (False, 5)]" counters_init]
  by (auto simp: insert_Diff_if)

text \<open>
  \<^verbatim>\<open>collect\<close> lists the ids of the set in increasing order, each once.
\<close>

theorem filter_collect_sorted:
  assumes "wf_filter f" and "length (bitmaps f) * 524288 \<le> 2 ^ 31"
  shows "sorted (filter_collect f) \<and> distinct (filter_collect f) \<and> set (filter_collect f) = (\<lambda>t. int (unat t)) ` {t. accept f t = Inr True}"
proof -
  have eq: "filter_collect f = map int (filter (\<lambda>x. word_of_nat x \<in> ids f) [0..<length (bitmaps f) * 524288])"
    using filter_collect_eq [of f] assms(2) by (simp add: bitmap_consts)
  have "sorted (map int xs) \<longleftrightarrow> sorted xs" for xs by (simp add: sorted_map)
  then have "sorted (filter_collect f)" unfolding eq by (simp add: sorted_wrt_filter)
  moreover have "distinct (filter_collect f)" unfolding eq by (simp add: distinct_map)
  moreover have "set (filter_collect f) = (\<lambda>t. int (unat t)) ` ids f"
    using set_filter_collect [OF assms(1)] assms(2) by (simp add: bitmap_consts)
  ultimately show ?thesis using accept_iff [OF assms(1)] by simp
qed

theorem filter_collect_sorted_witness:
  "filter_collect (fst (new_ThreadFilter 131072 counters_init)) = []"
proof -
  note wf = wf_new_filter [of 131072 counters_init]
  have "length (bitmaps (fst (new_ThreadFilter 131072 counters_init))) * 524288 \<le> 2 ^ 31"
    by (simp add: new_ThreadFilter_def bitmap_consts)
  from filter_collect_sorted [OF wf(1) this] show ?thesis
    using wf accept_iff [OF wf(1)] by simp
qed

text \<open>
  An id at or above the maximum is not guarded in \<^verbatim>\<open>add\<close>: it counts in the size although \<^verbatim>\<open>accept\<close>
  never reports it, or, when its page lies behind the array, the array is accessed out of bounds.
\<close>

theorem filter_add_beyond_max:
  assumes "wf_filter f" and "max_thread_id f \<le> t" and "fsize f < 2 ^ 31 - 1"
  shows "if page_index t < length (bitmaps f)
     then \<exists>f' cs'. filter_add True t (f, cs) = Inr (f', cs') \<and> fsize f' = fsize f + 1 \<and> accept f' t = Inr False
     else filter_add True t (f, cs) = Inl BitmapIndex"
proof (cases "page_index t < length (bitmaps f)")
  case True
  have nt: "\<not> testbit f t" using assms(1,2) by (auto simp: wf_filter_def)
  define b where "b = (case bitmaps f ! page_index t of None \<Rightarrow> (\<lambda>_. 0) | Some b \<Rightarrow> b)"
  have b: "b j = page_word f (page_index t) j" for j
    using True by (simp add: b_def page_word_def split: option.split)
  have "fsize f \<ge> 0" using assms(1) by (simp add: wf_filter_def)
  then have "s32 (fsize f + 1) = fsize f + 1" using assms(3) by (intro s32_id) simp_all
  then have "fsize (set_bit_at t (page_index t) b f) = fsize f + 1"
    using nt b by (simp add: set_bit_at_def Let_def and_bit_mask testbit_def)
  moreover have "accept (set_bit_at t (page_index t) b f) t = Inr False"
    using assms(2) by (simp add: accept_def bitmap_def set_bit_at_def Let_def)
  moreover have "\<exists>cs'. filter_add True t (f, cs) = Inr (set_bit_at t (page_index t) b f, cs')"
    using assms(2) True by (auto simp: filter_add_def bitmap_def b_def split: option.split)
  ultimately show ?thesis using True by auto
next
  case False
  then show ?thesis using assms(2) by (simp add: filter_add_def bitmap_def)
qed

theorem filter_add_beyond_max_witness:
  "filter_add True 0xffffffff (new_ThreadFilter 131072 counters_init) = Inl BitmapIndex"
proof -
  obtain f cs where new: "new_ThreadFilter 131072 counters_init = (f, cs)" by (cases "new_ThreadFilter 131072 counters_init")
  have wf: "wf_filter f" using wf_new_filter(1) [of 131072 counters_init] new by simp
  have "max_thread_id f \<le> 0xffffffff" "fsize f < 2 ^ 31 - 1" "\<not> page_index 0xffffffff < length (bitmaps f)"
    using new by (auto simp: new_ThreadFilter_def Let_def bitmap_consts page_index_def)
  with filter_add_beyond_max [OF wf, of "0xffffffff" cs] new show ?thesis by simp
qed

end
