(* ===== verification/Unwind_Stats.thy ===== *)
theory Unwind_Stats
  imports Prelude Locks
begin

text \<open>
  Model of \<^verbatim>\<open>unwindStats.h\<close>: the table that counts, per stub or method name, how often a stack could
  not be unwound. The name slots and counter rows are lists of 1024 entries; \<open>nameCount\<close> may grow beyond
  them, as in the code. Reading a name slot outside the array is the error \<open>NamesIndex\<close>. Names are C
  strings, stored cut to 255 characters.

  \<open>tally\<close> is the abstract view, the count of a name and kind. Recording and merging are shown to add to
  it as long as the table has room; two theorems show what happens with a full table and with names that
  are cut.
\<close>

section \<open>State\<close>

datatype UnwindFailureKind = UNWIND_FAILURE_STUB | UNWIND_FAILURE_COMPILED | UNWIND_FAILURE_ANY

fun kind_index :: "UnwindFailureKind \<Rightarrow> nat" where
  "kind_index UNWIND_FAILURE_STUB = 0"
| "kind_index UNWIND_FAILURE_COMPILED = 1"
| "kind_index UNWIND_FAILURE_ANY = 2"

definition MAX_UNWIND_FAILURE_NAMES :: nat where "MAX_UNWIND_FAILURE_NAMES = 1024"
definition MAX_NAME_LENGTH :: nat where "MAX_NAME_LENGTH = 256"

record unwind_failures =
  names :: "string list"
  nameCount :: nat
  rows :: "u64 list list"

datatype names_error = NamesIndex

definition new_UnwindFailures :: unwind_failures where
  "new_UnwindFailures =
     \<lparr>names = replicate MAX_UNWIND_FAILURE_NAMES [], nameCount = 0,
      rows = replicate MAX_UNWIND_FAILURE_NAMES (replicate 4 0)\<rparr>"

section \<open>Operations\<close>

fun find_in :: "string \<Rightarrow> nat \<Rightarrow> string list \<Rightarrow> nat option" where
  "find_in name i [] = None"
| "find_in name i (n # ns) = (if n = name then Some i else find_in name (Suc i) ns)"

text \<open>\<^verbatim>\<open>findName\<close> compares the slots below \<^verbatim>\<open>_nameCount\<close>; a larger count runs off the array.\<close>

definition findName :: "string \<Rightarrow> unwind_failures \<Rightarrow> names_error + nat option" where
  "findName name s =
     (case find_in name 0 (take (nameCount s) (names s)) of
        Some i \<Rightarrow> Inr (Some i)
      | None \<Rightarrow> if nameCount s \<le> length (names s) then Inr None else Inl NamesIndex)"

definition findOrCreateName :: "string \<Rightarrow> unwind_failures \<Rightarrow> names_error + nat option \<times> unwind_failures" where
  "findOrCreateName name s =
     (case findName name s of
        Inl e \<Rightarrow> Inl e
      | Inr (Some i) \<Rightarrow> Inr (Some i, s)
      | Inr None \<Rightarrow>
          (let newIndex = nameCount s; s1 = s\<lparr>nameCount := Suc newIndex\<rparr>
           in if newIndex < MAX_UNWIND_FAILURE_NAMES
              then Inr (Some newIndex, s1\<lparr>names := (names s)[newIndex := take (MAX_NAME_LENGTH - 1) name]\<rparr>)
              else Inr (None, s1)))"

definition add_count :: "nat \<Rightarrow> nat \<Rightarrow> u64 \<Rightarrow> unwind_failures \<Rightarrow> unwind_failures" where
  "add_count i j v s = s\<lparr>rows := (rows s)[i := (rows s ! i)[j := rows s ! i ! j + v]]\<rparr>"

definition record_failure :: "UnwindFailureKind \<Rightarrow> string option \<Rightarrow> unwind_failures \<Rightarrow> names_error + unwind_failures" where
  "record_failure kind name s =
     (case name of
        None \<Rightarrow> Inr s
      | Some name \<Rightarrow>
          (case findName name s of
             Inl e \<Rightarrow> Inl e
           | Inr (Some i) \<Rightarrow> Inr (add_count i (kind_index kind) 1 s)
           | Inr None \<Rightarrow>
               (case findOrCreateName name s of
                  Inl e \<Rightarrow> Inl e
                | Inr (Some i, s1) \<Rightarrow> Inr (add_count i (kind_index kind) 1 s1)
                | Inr (None, s1) \<Rightarrow> Inr s1)))"

definition count_failures :: "string \<Rightarrow> UnwindFailureKind \<Rightarrow> unwind_failures \<Rightarrow> names_error + u64" where
  "count_failures name kind s =
     (case findName name s of
        Inl e \<Rightarrow> Inl e
      | Inr None \<Rightarrow> Inr 0
      | Inr (Some i) \<Rightarrow>
          Inr (if kind = UNWIND_FAILURE_ANY
               then rows s ! i ! kind_index UNWIND_FAILURE_STUB + rows s ! i ! kind_index UNWIND_FAILURE_COMPILED
               else rows s ! i ! kind_index kind))"

definition clear_failures :: "unwind_failures \<Rightarrow> unwind_failures" where
  "clear_failures s = new_UnwindFailures"

definition failures_empty :: "unwind_failures \<Rightarrow> bool" where
  "failures_empty s \<longleftrightarrow> nameCount s = 0"

text \<open>\<^verbatim>\<open>merge\<close>: entry by entry of the other table.\<close>

definition merge_entry :: "string \<times> u64 list \<Rightarrow> unwind_failures \<Rightarrow> names_error + unwind_failures" where
  "merge_entry = (\<lambda>(name, row) s.
     case findOrCreateName name s of
       Inl e \<Rightarrow> Inl e
     | Inr (None, s1) \<Rightarrow> Inr s1
     | Inr (Some i, s1) \<Rightarrow>
         Inr (add_count i 2 (row ! 2) (add_count i 1 (row ! 1) (add_count i 0 (row ! 0) s1))))"

definition entries :: "unwind_failures \<Rightarrow> (string \<times> u64 list) list" where
  "entries s = take (nameCount s) (zip (names s) (rows s))"

definition merge :: "unwind_failures \<Rightarrow> unwind_failures \<Rightarrow> names_error + unwind_failures" where
  "merge s other =
     (if nameCount other \<le> length (names other)
      then run_ops (map merge_entry (entries other)) s
      else Inl NamesIndex)"

definition swap :: "unwind_failures \<Rightarrow> unwind_failures \<Rightarrow> unwind_failures \<times> unwind_failures" where
  "swap a b = (b, a)"

text \<open>\<^verbatim>\<open>forEach\<close>: what the callback is given, in order.\<close>

definition forEach :: "unwind_failures \<Rightarrow> names_error + (UnwindFailureKind \<times> string \<times> u64) list" where
  "forEach s =
     (if nameCount s \<le> length (names s)
      then Inr (concat (map (\<lambda>(name, row).
             (if row ! 0 > 0 then [(UNWIND_FAILURE_STUB, name, row ! 0)] else [])
             @ (if row ! 1 > 0 then [(UNWIND_FAILURE_COMPILED, name, row ! 1)] else [])) (entries s)))
      else Inl NamesIndex)"

text \<open>\<^verbatim>\<open>UnwindStats\<close>: the shared table behind a spin lock; \<open>None\<close> is waiting for the lock.\<close>

definition recordFailures :: "unwind_failures option \<Rightarrow> int \<times> unwind_failures \<Rightarrow> names_error + int \<times> unwind_failures" where
  "recordFailures failures = (\<lambda>(l, s).
     case failures of
       None \<Rightarrow> Inr (l, s)
     | Some f \<Rightarrow>
         (case tryLock l of
            (False, _) \<Rightarrow> Inr (l, s)
          | (True, l1) \<Rightarrow> (case merge s f of Inl e \<Rightarrow> Inl e | Inr s1 \<Rightarrow> Inr (unlock l1, s1))))"

definition countFailures :: "string \<Rightarrow> UnwindFailureKind \<Rightarrow> int \<times> unwind_failures \<Rightarrow> (names_error + u64) option" where
  "countFailures name kind = (\<lambda>(l, s).
     case tryLockShared l of (False, _) \<Rightarrow> None | (True, l1) \<Rightarrow> Some (count_failures name kind s))"

definition collectAndReset :: "unwind_failures \<Rightarrow> int \<times> unwind_failures \<Rightarrow> (unwind_failures \<times> int \<times> unwind_failures) option" where
  "collectAndReset result = (\<lambda>(l, s).
     case tryLock l of
       (False, _) \<Rightarrow> None
     | (True, l1) \<Rightarrow> (case swap result s of (r, s1) \<Rightarrow> Some (r, unlock l1, s1)))"

definition reset_stats :: "int \<times> unwind_failures \<Rightarrow> (int \<times> unwind_failures) option" where
  "reset_stats = (\<lambda>(l, s).
     case tryLock l of (False, _) \<Rightarrow> None | (True, l1) \<Rightarrow> Some (unlock l1, clear_failures s))"

section \<open>Invariant\<close>

definition wf_failures :: "unwind_failures \<Rightarrow> bool" where
  "wf_failures s \<longleftrightarrow> length (names s) = 1024 \<and> length (rows s) = 1024 \<and> nameCount s \<le> 1024
     \<and> distinct (take (nameCount s) (names s)) \<and> (\<forall>n \<in> set (names s). length n < 256) \<and> (\<forall>r \<in> set (rows s). length r = 4)
     \<and> (\<forall>i. nameCount s \<le> i \<longrightarrow> i < 1024 \<longrightarrow> rows s ! i = replicate 4 0)"

definition tally :: "unwind_failures \<Rightarrow> string \<Rightarrow> nat \<Rightarrow> u64" where
  "tally s name j = (case find_in name 0 (take (nameCount s) (names s)) of None \<Rightarrow> 0 | Some i \<Rightarrow> rows s ! i ! j)"

definition known :: "unwind_failures \<Rightarrow> string set" where
  "known s = set (take (nameCount s) (names s))"

lemma find_in_None: "find_in name i ns = None \<longleftrightarrow> name \<notin> set ns"
  by (induction ns arbitrary: i) auto

lemma find_in_Some: "find_in name i ns = Some k \<Longrightarrow> i \<le> k \<and> k < i + length ns \<and> ns ! (k - i) = name"
proof (induction ns arbitrary: i)
  case (Cons n ns)
  show ?case
  proof (cases "n = name")
    case False
    with Cons.prems have "find_in name (Suc i) ns = Some k" by simp
    from Cons.IH [OF this] show ?thesis by (auto simp: nth_Cons' Suc_diff_le)
  qed (use Cons.prems in auto)
qed simp

lemma find_in_nth: "distinct ns \<Longrightarrow> k < length ns \<Longrightarrow> find_in (ns ! k) i ns = Some (i + k)"
proof (induction ns arbitrary: i k)
  case (Cons n ns)
  show ?case
  proof (cases k)
    case (Suc k')
    with Cons have "find_in (ns ! k') (Suc i) ns = Some (Suc i + k')" by simp
    moreover have "n \<noteq> ns ! k'" using Cons.prems Suc by auto
    ultimately show ?thesis using Suc by simp
  qed simp
qed simp

lemma find_in_snoc:
  "find_in name i (ns @ [n]) = (case find_in name i ns of Some k \<Rightarrow> Some k | None \<Rightarrow> if n = name then Some (i + length ns) else None)"
  by (induction ns arbitrary: i) (simp_all split: option.split)

lemma wf_new_failures: "wf_failures new_UnwindFailures"
  by (simp add: wf_failures_def new_UnwindFailures_def MAX_UNWIND_FAILURE_NAMES_def)

lemma tally_new: "tally new_UnwindFailures name j = 0"
  by (simp add: tally_def new_UnwindFailures_def)

lemma findName_wf:
  "wf_failures s \<Longrightarrow> findName name s = Inr (find_in name 0 (take (nameCount s) (names s)))"
  by (auto simp: findName_def wf_failures_def split: option.split)

lemma find_below: "wf_failures s \<Longrightarrow> find_in name 0 (take (nameCount s) (names s)) = Some i \<Longrightarrow> i < nameCount s \<and> i < 1024"
  using find_in_Some [of name 0 "take (nameCount s) (names s)" i] by (auto simp: wf_failures_def)

text \<open>Adding to a counter of a known name.\<close>

lemma wf_add_count:
  assumes "wf_failures s" and "i < nameCount s"
  shows "wf_failures (add_count i j v s)"
proof -
  have i: "i < 1024" using assms by (simp add: wf_failures_def)
  then have "length (rows s ! i) = 4" using assms(1) by (simp add: wf_failures_def)
  then have rows: "\<forall>r \<in> set ((rows s)[i := (rows s ! i)[j := rows s ! i ! j + v]]). length r = 4"
    using assms(1) by (auto simp: wf_failures_def dest!: set_update_subset_insert [THEN subsetD])
  have zero: "(rows s)[i := x] ! k = replicate 4 0" if "nameCount s \<le> k" "k < 1024" for x k
    using assms that by (simp add: wf_failures_def)
  show ?thesis
    using assms rows zero unfolding wf_failures_def add_count_def by simp
qed

lemma tally_add_count:
  assumes "wf_failures s" and "find_in name 0 (take (nameCount s) (names s)) = Some i" and "j < 4"
  shows "tally (add_count i j v s) name' j' = (if name' = name \<and> j' = j then tally s name' j' + v else tally s name' j')"
proof (cases "find_in name' 0 (take (nameCount s) (names s))")
  case None
  then show ?thesis using assms(2) by (auto simp: tally_def add_count_def)
next
  case (Some i')
  have i: "i < 1024" using find_below [OF assms(1,2)] by simp
  have len: "length (rows s ! i) = 4" "length (rows s) = 1024" using assms(1) i by (auto simp: wf_failures_def)
  have "i' = i \<longleftrightarrow> name' = name"
    using find_in_Some [OF assms(2)] find_in_Some [OF Some] assms(2) Some by (metis option.inject)
  then show ?thesis
    using Some assms(2,3) i len by (cases "i' = i") (simp_all add: tally_def add_count_def nth_list_update)
qed

lemma add_count_names [simp]:
  "names (add_count i j v s) = names s" "nameCount (add_count i j v s) = nameCount s"
  by (simp_all add: add_count_def)

lemma known_add_count [simp]: "known (add_count i j v s) = known s"
  by (simp add: known_def)

text \<open>Making sure a name has a slot.\<close>

lemma findOrCreate_ok:
  assumes wf: "wf_failures s" and short: "length name < 256" and room: "nameCount s < 1024 \<or> name \<in> known s"
  obtains i s1 where "findOrCreateName name s = Inr (Some i, s1)" and "wf_failures s1"
    and "find_in name 0 (take (nameCount s1) (names s1)) = Some i" and "\<forall>x. \<forall>j < 4. tally s1 x j = tally s x j"
    and "known s1 = insert name (known s)" and "nameCount s1 = (if name \<in> known s then nameCount s else Suc (nameCount s))"
proof (cases "find_in name 0 (take (nameCount s) (names s))")
  case (Some i)
  then have "name \<in> known s" using find_in_None [of name 0 "take (nameCount s) (names s)"] by (auto simp: known_def)
  then show ?thesis
    using that [of i s] Some wf by (simp add: findOrCreateName_def findName_wf insert_absorb)
next
  case None
  then have new: "name \<notin> set (take (nameCount s) (names s))" by (simp add: find_in_None)
  let ?n = "nameCount s" and ?names = "(names s)[nameCount s := name]"
  let ?s = "s\<lparr>nameCount := Suc ?n, names := ?names\<rparr>"
  have n: "?n < 1024" "length (names s) = 1024" using room new wf by (auto simp: known_def wf_failures_def)
  have tk: "take (Suc ?n) ?names = take ?n (names s) @ [name]" using n by (simp add: take_Suc_conv_app_nth)
  have run: "findOrCreateName name s = Inr (Some ?n, ?s)"
    using None short n wf by (simp add: findOrCreateName_def findName_wf Let_def MAX_UNWIND_FAILURE_NAMES_def MAX_NAME_LENGTH_def)
  have find: "find_in name 0 (take (nameCount ?s) (names ?s)) = Some ?n"
    using None n by (simp add: tk find_in_snoc)
  have "\<forall>x \<in> set ?names. length x < 256"
    using wf short by (auto simp: wf_failures_def dest!: set_update_subset_insert [THEN subsetD])
  then have wf': "wf_failures ?s" using wf new n by (simp add: wf_failures_def tk)
  have tally: "\<forall>x. \<forall>j < 4. tally ?s x j = tally s x j"
  proof (intro allI impI)
    fix x j assume j: "j < (4 :: nat)"
    have zero: "rows s ! ?n ! j = 0" using wf n j by (simp add: wf_failures_def)
    show "tally ?s x j = tally s x j"
      using n None zero by (cases "x = name") (simp_all add: tally_def tk find_in_snoc split: option.split)
  qed
  have "known ?s = insert name (known s)" using n by (simp add: known_def tk)
  then show ?thesis using that [OF run wf' find tally] new by (simp add: known_def)
qed

lemma kind_index_less [simp]: "kind_index k < 4"
  by (cases k) auto

lemma kind_index_inj [simp]: "kind_index k = kind_index k' \<longleftrightarrow> k = k'"
  by (cases k; cases k') auto

lemma record_failure_findOrCreate:
  "wf_failures s \<Longrightarrow> record_failure kind (Some name) s =
     (case findOrCreateName name s of
        Inl e \<Rightarrow> Inl e | Inr (Some i, s1) \<Rightarrow> Inr (add_count i (kind_index kind) 1 s1) | Inr (None, s1) \<Rightarrow> Inr s1)"
  by (cases "find_in name 0 (take (nameCount s) (names s))")
     (simp_all add: record_failure_def findName_wf findOrCreateName_def)

lemma count_failures_tally:
  "wf_failures s \<Longrightarrow> count_failures name kind s =
     Inr (if kind = UNWIND_FAILURE_ANY then tally s name 0 + tally s name 1 else tally s name (kind_index kind))"
  by (simp add: count_failures_def findName_wf tally_def split: option.split)

text \<open>The step that both recording and merging make: find or create the slot, then add to its counters.\<close>

lemma card_known: "wf_failures s \<Longrightarrow> card (known s) = nameCount s"
  by (simp add: wf_failures_def known_def distinct_card)

lemma room_iff:
  assumes "wf_failures s" and "card (insert name (known s)) \<le> 1024"
  shows "nameCount s < 1024 \<or> name \<in> known s"
  using assms card_known [OF assms(1)] by (cases "name \<in> known s") (simp_all add: known_def)

lemma merge_entry_ok:
  assumes wf: "wf_failures s" and short: "length name < 256" and room: "nameCount s < 1024 \<or> name \<in> known s"
  obtains s1 where "merge_entry (name, row) s = Inr s1" and "wf_failures s1" and "known s1 = insert name (known s)"
    and "\<forall>x. \<forall>j < 3. tally s1 x j = tally s x j + (if x = name then row ! j else 0)"
proof -
  obtain i s1 where s1: "findOrCreateName name s = Inr (Some i, s1)" "wf_failures s1"
    "find_in name 0 (take (nameCount s1) (names s1)) = Some i" "\<forall>x. \<forall>j < 4. tally s1 x j = tally s x j"
    "known s1 = insert name (known s)" by (rule findOrCreate_ok [OF assms])
  have i: "i < nameCount s1" using find_below [OF s1(2,3)] by simp
  let ?a = "add_count i 0 (row ! 0) s1"
  let ?b = "add_count i (Suc 0) (row ! Suc 0) ?a"
  let ?c = "add_count i 2 (row ! 2) ?b"
  have a: "wf_failures ?a" using wf_add_count [OF s1(2) i] .
  have b: "wf_failures ?b" using wf_add_count [OF a] i by simp
  have c: "wf_failures ?c" using wf_add_count [OF b] i by simp
  have ta: "tally ?a x j = (if x = name \<and> j = 0 then tally s1 x j + row ! 0 else tally s1 x j)" for x j
    using s1(3) by (intro tally_add_count [OF s1(2)]) simp_all
  have tb: "tally ?b x j = (if x = name \<and> j = Suc 0 then tally ?a x j + row ! Suc 0 else tally ?a x j)" for x j
    using s1(3) by (intro tally_add_count [OF a]) simp_all
  have tc: "tally ?c x j = (if x = name \<and> j = 2 then tally ?b x j + row ! 2 else tally ?b x j)" for x j
    using s1(3) by (intro tally_add_count [OF b]) simp_all
  have "\<forall>x. \<forall>j < 3. tally ?c x j = tally s x j + (if x = name then row ! j else 0)"
  proof (intro allI impI)
    fix x j assume "j < (3 :: nat)"
    then consider "j = 0" | "j = Suc 0" | "j = 2" by linarith
    then show "tally ?c x j = tally s x j + (if x = name then row ! j else 0)"
      using s1(4) by cases (simp_all add: tc tb ta)
  qed
  then show ?thesis using that [of ?c] c s1(1,5) by (simp add: merge_entry_def)
qed

lemma merge_entries_ok:
  assumes "wf_failures s" and "\<forall>e \<in> set es. length (fst e) < 256" and "distinct (map fst es)"
    and "card (known s \<union> fst ` set es) \<le> 1024"
  shows "\<exists>s'. run_ops (map merge_entry es) s = Inr s' \<and> wf_failures s' \<and> known s' = known s \<union> fst ` set es
    \<and> (\<forall>x. \<forall>j < 3. tally s' x j = tally s x j + (case map_of es x of None \<Rightarrow> 0 | Some r \<Rightarrow> r ! j))"
  using assms
proof (induction es arbitrary: s)
  case (Cons e es)
  obtain name row where e: "e = (name, row)" by (cases e)
  have "card (insert name (known s)) \<le> card (known s \<union> fst ` set (e # es))"
    by (rule card_mono) (auto simp: e known_def)
  then have room: "nameCount s < 1024 \<or> name \<in> known s" using room_iff [OF Cons.prems(1)] Cons.prems(4) by simp
  have short: "length name < 256" using Cons.prems(2) e by simp
  obtain s1 where s1: "merge_entry (name, row) s = Inr s1" "wf_failures s1" "known s1 = insert name (known s)"
    "\<forall>x. \<forall>j < 3. tally s1 x j = tally s x j + (if x = name then row ! j else 0)"
    by (rule merge_entry_ok [OF Cons.prems(1) short room])
  have "\<exists>s'. run_ops (map merge_entry es) s1 = Inr s' \<and> wf_failures s' \<and> known s' = known s1 \<union> fst ` set es
    \<and> (\<forall>x. \<forall>j < 3. tally s' x j = tally s1 x j + (case map_of es x of None \<Rightarrow> 0 | Some r \<Rightarrow> r ! j))"
    using Cons.prems s1(3) by (intro Cons.IH s1(2)) (simp_all add: e insert_commute Un_insert_left)
  then obtain s' where s': "run_ops (map merge_entry es) s1 = Inr s'" "wf_failures s'" "known s' = known s1 \<union> fst ` set es"
    "\<forall>x. \<forall>j < 3. tally s' x j = tally s1 x j + (case map_of es x of None \<Rightarrow> 0 | Some r \<Rightarrow> r ! j)" by blast
  have "name \<notin> fst ` set es" using Cons.prems(3) e by simp
  then have "map_of es name = None" by (simp add: map_of_eq_None_iff)
  then have "\<forall>x. \<forall>j < 3. tally s' x j = tally s x j + (case map_of (e # es) x of None \<Rightarrow> 0 | Some r \<Rightarrow> r ! j)"
    using s'(4) s1(4) e by (simp add: add.assoc)
  moreover have "known s' = known s \<union> fst ` set (e # es)" using s'(3) s1(3) e by simp
  ultimately show ?case using s1(1) s'(1,2) e by simp
qed simp

lemma entries_zip: "entries s = zip (take (nameCount s) (names s)) (take (nameCount s) (rows s))"
  by (simp add: entries_def take_zip)

lemma find_in_map_of:
  "length ns = length rs \<Longrightarrow>
     map_of (zip ns rs) x = (case find_in x i ns of None \<Rightarrow> None | Some k \<Rightarrow> Some (rs ! (k - i)))"
proof (induction ns rs arbitrary: i rule: list_induct2)
  case (Cons n ns r rs)
  show ?case
  proof (cases "find_in x (Suc i) ns")
    case (Some k)
    with find_in_Some [OF Some] Cons.IH [of "Suc i"] show ?thesis by (auto simp: nth_Cons' Suc_diff_le)
  qed (use Cons.IH [of "Suc i"] in auto)
qed simp

lemma tally_entries:
  assumes "wf_failures s"
  shows "tally s x j = (case map_of (entries s) x of None \<Rightarrow> 0 | Some r \<Rightarrow> r ! j)"
proof -
  have len: "length (take (nameCount s) (names s)) = length (take (nameCount s) (rows s))"
    using assms by (simp add: wf_failures_def)
  show ?thesis
    unfolding entries_zip find_in_map_of [OF len, of x 0]
    using find_below [OF assms, of x] by (auto simp: tally_def split: option.split)
qed

text \<open>
  C34. Merging (\<^verbatim>\<open>UnwindFailures::merge\<close>, run by \<^verbatim>\<open>UnwindStats::recordFailures\<close>): if the names of both
  tables together fit, the merge succeeds, the result knows exactly the names of either, and every counter
  is the sum of the two counters of that name and kind.
\<close>

theorem merge_adds_counts:
  assumes "wf_failures s" and "wf_failures other" and "card (known s \<union> known other) \<le> 1024"
  shows "\<exists>s'. merge s other = Inr s' \<and> wf_failures s' \<and> known s' = known s \<union> known other
     \<and> (\<forall>name. \<forall>j < 3. tally s' name j = tally s name j + tally other name j)"
proof -
  have len: "nameCount other \<le> length (names other)" "length (names other) = length (rows other)"
    using assms(2) by (auto simp: wf_failures_def)
  have fst: "map fst (entries other) = take (nameCount other) (names other)"
    using len by (simp add: entries_zip)
  have known: "fst ` set (entries other) = known other"
    using fst by (metis known_def list.set_map)
  have short: "\<forall>e \<in> set (entries other). length (fst e) < 256"
  proof
    fix e assume "e \<in> set (entries other)"
    then have "fst e \<in> set (names other)" using fst by (metis in_set_takeD image_eqI list.set_map)
    then show "length (fst e) < 256" using assms(2) by (simp add: wf_failures_def)
  qed
  have dist: "distinct (map fst (entries other))" using assms(2) fst by (simp add: wf_failures_def)
  have card: "card (known s \<union> fst ` set (entries other)) \<le> 1024" using assms(3) known by simp
  show ?thesis
    using merge_entries_ok [OF assms(1) short dist card] len(1)
    by (simp add: merge_def known tally_entries [OF assms(2)])
qed

text \<open>
  Recording (\<^verbatim>\<open>UnwindFailures::record\<close>): while the table has room, recording a failure of a name shorter
  than the slot adds one to the counter of exactly that name and kind and changes no other counter, and
  \<^verbatim>\<open>count\<close> then reports the counter.
\<close>

theorem record_counts_one:
  assumes "wf_failures s" and "length name < 256" and "nameCount s < 1024 \<or> name \<in> known s"
  shows "\<exists>s'. record_failure kind (Some name) s = Inr s' \<and> wf_failures s' \<and> known s' = insert name (known s)
     \<and> (\<forall>x. \<forall>j < 4. tally s' x j = tally s x j + (if x = name \<and> j = kind_index kind then 1 else 0))
     \<and> (kind \<noteq> UNWIND_FAILURE_ANY \<longrightarrow> count_failures name kind s' = Inr (tally s name (kind_index kind) + 1))"
proof -
  obtain i s1 where s1: "findOrCreateName name s = Inr (Some i, s1)" "wf_failures s1"
    "find_in name 0 (take (nameCount s1) (names s1)) = Some i" "\<forall>x. \<forall>j < 4. tally s1 x j = tally s x j"
    "known s1 = insert name (known s)" by (rule findOrCreate_ok [OF assms])
  let ?s = "add_count i (kind_index kind) 1 s1"
  have wf: "wf_failures ?s" using wf_add_count [OF s1(2)] find_below [OF s1(2,3)] by simp
  have t: "\<forall>x. \<forall>j < 4. tally ?s x j = tally s x j + (if x = name \<and> j = kind_index kind then 1 else 0)"
    using s1(4) by (simp add: tally_add_count [OF s1(2,3)])
  then have "kind \<noteq> UNWIND_FAILURE_ANY \<longrightarrow> count_failures name kind ?s = Inr (tally s name (kind_index kind) + 1)"
    using wf by (simp add: count_failures_tally)
  then show ?thesis
    using s1(1,5) wf t by (simp add: record_failure_findOrCreate [OF assms(1)])
qed

theorem merge_adds_counts_witness:
  "\<exists>s'. merge new_UnwindFailures new_UnwindFailures = Inr s' \<and> tally s' ''stub'' 0 = 0"
proof -
  have "card (known new_UnwindFailures \<union> known new_UnwindFailures) \<le> 1024"
    by (simp add: known_def new_UnwindFailures_def)
  from merge_adds_counts [OF wf_new_failures wf_new_failures this] show ?thesis
    by (auto simp: tally_new)
qed

theorem record_counts_one_witness:
  "\<exists>s'. record_failure UNWIND_FAILURE_STUB (Some ''stub'') new_UnwindFailures = Inr s' \<and> tally s' ''stub'' 0 = 1
     \<and> count_failures ''stub'' UNWIND_FAILURE_STUB s' = Inr 1"
proof -
  have "nameCount new_UnwindFailures < 1024 \<or> ''stub'' \<in> known new_UnwindFailures"
    by (simp add: new_UnwindFailures_def)
  from record_counts_one [OF wf_new_failures _ this, of UNWIND_FAILURE_STUB] show ?thesis
    by (auto simp: tally_new)
qed

text \<open>
  A full table: the first failure of a new name is dropped but still increments \<^verbatim>\<open>_nameCount\<close>, and
  the next failure of an unknown name makes \<^verbatim>\<open>findName\<close> read beyond the array of names.
\<close>

theorem record_full_table:
  assumes "wf_failures s" and "nameCount s = 1024" and "name \<notin> known s" and "name' \<notin> known s"
  shows "\<exists>s'. record_failure kind (Some name) s = Inr s' \<and> nameCount s' = 1025 \<and> tally s' = tally s
     \<and> record_failure kind' (Some name') s' = Inl NamesIndex"
proof -
  let ?s = "s\<lparr>nameCount := 1025\<rparr>"
  have len: "length (names s) = 1024" using assms(1) by (simp add: wf_failures_def)
  have no: "find_in name 0 (take 1024 (names s)) = None" "find_in name' 0 (names s) = None"
    using assms len by (simp_all add: known_def find_in_None)
  have "record_failure kind (Some name) s = Inr ?s"
    using no assms(2)
    by (simp add: record_failure_findOrCreate [OF assms(1)] findOrCreateName_def findName_wf [OF assms(1)]
        MAX_UNWIND_FAILURE_NAMES_def)
  moreover have "tally ?s = tally s" using assms(2) len by (intro ext) (simp add: tally_def split: option.split)
  moreover have "record_failure kind' (Some name') ?s = Inl NamesIndex"
    using no len by (simp add: record_failure_def findName_def)
  ultimately show ?thesis by simp
qed

definition full_names :: "string list" where
  "full_names = map (\<lambda>i. [char_of (1 + i mod 32), char_of (1 + i div 32)]) [0..<1024]"

definition full_table :: unwind_failures where
  "full_table = new_UnwindFailures\<lparr>names := full_names, nameCount := 1024\<rparr>"

lemma distinct_full_names: "distinct full_names"
proof -
  have "inj_on (\<lambda>i :: nat. [char_of (1 + i mod 32), char_of (1 + i div 32)]) {0..<1024}"
  proof (rule inj_onI)
    fix i j :: nat
    assume ij: "i \<in> {0..<1024}" "j \<in> {0..<1024}"
      and eq: "[char_of (1 + i mod 32), char_of (1 + i div 32)] = [char_of (1 + j mod 32), char_of (1 + j div 32)]"
    have small: "1 + i mod 32 < 256" "1 + j mod 32 < 256" using mod_less_divisor [of 32 i] mod_less_divisor [of 32 j] by linarith+
    have small': "1 + i div 32 < 256" "1 + j div 32 < 256" using ij by auto
    have "of_char (char_of (1 + i mod 32) :: char) = (of_char (char_of (1 + j mod 32) :: char) :: nat)"
      "of_char (char_of (1 + i div 32) :: char) = (of_char (char_of (1 + j div 32) :: char) :: nat)"
      using eq by (simp_all only: list.inject)
    then have "i mod 32 = j mod 32" "i div 32 = j div 32" using small small' by simp_all
    then show "i = j" by (metis div_mult_mod_eq)
  qed
  then show ?thesis by (simp add: full_names_def distinct_map)
qed

lemma wf_full_table: "wf_failures full_table"
  using distinct_full_names
  by (simp add: wf_failures_def full_table_def new_UnwindFailures_def MAX_UNWIND_FAILURE_NAMES_def)
     (auto simp: full_names_def)

lemma known_full_table: "name \<in> known full_table \<Longrightarrow> length name = 2"
  by (auto simp: known_def full_table_def full_names_def)

theorem record_full_table_witness:
  "\<exists>s'. record_failure UNWIND_FAILURE_STUB (Some ''a'') full_table = Inr s' \<and> nameCount s' = 1025
     \<and> record_failure UNWIND_FAILURE_STUB (Some ''b'') s' = Inl NamesIndex"
proof -
  have "''a'' \<notin> known full_table" "''b'' \<notin> known full_table"
    using known_full_table [of "''a''"] known_full_table [of "''b''"] by auto
  from record_full_table [OF wf_full_table _ this, of UNWIND_FAILURE_STUB UNWIND_FAILURE_STUB] show ?thesis
    by (auto simp: full_table_def)
qed

text \<open>
  A name of 256 characters or more is stored cut, so it is never found again: its failure is recorded in a
  fresh slot and \<^verbatim>\<open>count\<close> reports 0.
\<close>

lemma record_long_name:
  assumes "wf_failures s" and "256 \<le> length name" and "nameCount s < 1024"
  shows "\<exists>s'. record_failure kind (Some name) s = Inr s' \<and> nameCount s' = Suc (nameCount s)
     \<and> count_failures name kind' s' = Inr 0"
proof -
  have len: "length (names s) = 1024" and short: "\<forall>n \<in> set (names s). length n < 256"
    using assms(1) by (auto simp: wf_failures_def)
  let ?names = "(names s)[nameCount s := take 255 name]"
  have "\<forall>n \<in> set (take (Suc (nameCount s)) ?names). length n < 256"
    using short by (auto dest!: in_set_takeD set_update_subset_insert [THEN subsetD])
  then have new: "find_in name 0 (take (Suc (nameCount s)) ?names) = None"
    using assms(2) by (auto simp: find_in_None)
  have old: "find_in name 0 (take (nameCount s) (names s)) = None"
    using assms(2) short by (auto simp: find_in_None dest!: in_set_takeD)
  show ?thesis
    using assms(3) old new len
    by (simp add: record_failure_findOrCreate [OF assms(1)] findOrCreateName_def findName_wf [OF assms(1)] Let_def
        MAX_UNWIND_FAILURE_NAMES_def MAX_NAME_LENGTH_def count_failures_def findName_def)
qed

end
