(* ===== verification/Arguments.thy ===== *)
theory Arguments
  imports Prelude Complex_Main
begin

text \<open>
  Model of \<^verbatim>\<open>arguments.h\<close> and \<^verbatim>\<open>arguments.cpp\<close>: the option string the agent is started with, its
  parser, the units of intervals, and the expansion of the output file pattern.

  Strings that the code keeps as pointers into its copy of the option string are values here; a NULL pointer
  is \<open>None\<close>. The parser dispatches on a hash of the option name, as the code does. Three things come from
  outside: whether \<^verbatim>\<open>malloc\<close> succeeds, \<^verbatim>\<open>VM::isOpenJ9()\<close>, and what \<^verbatim>\<open>strtod\<close> reads from the ratio.
  Numbers of type \<^verbatim>\<open>double\<close> are rationals with the infinities and NaN; the literals 0.1 and 0.01 stand for
  themselves.
\<close>

section \<open>Types and defaults\<close>

definition DEFAULT_CPU_INTERVAL :: int where "DEFAULT_CPU_INTERVAL = 10 * 1000 * 1000"
definition DEFAULT_WALL_INTERVAL :: int where "DEFAULT_WALL_INTERVAL = 50 * 1000 * 1000"
definition DEFAULT_ALLOC_INTERVAL :: int where "DEFAULT_ALLOC_INTERVAL = 524287"
definition DEFAULT_WALL_THREADS_PER_TICK :: int where "DEFAULT_WALL_THREADS_PER_TICK = 16"
definition DEFAULT_JSTACKDEPTH :: int where "DEFAULT_JSTACKDEPTH = 2048"

definition EVENT_NOOP :: string where "EVENT_NOOP = ''noop''"
definition EVENT_CPU :: string where "EVENT_CPU = ''cpu''"
definition EVENT_ALLOC :: string where "EVENT_ALLOC = ''alloc''"
definition EVENT_WALL :: string where "EVENT_WALL = ''wall''"
definition EVENT_ITIMER :: string where "EVENT_ITIMER = ''itimer''"
definition EVENT_CTIMER :: string where "EVENT_CTIMER = ''ctimer''"

datatype Action = ACTION_NONE | ACTION_START | ACTION_RESUME | ACTION_STOP | ACTION_CHECK | ACTION_STATUS
  | ACTION_LIST | ACTION_VERSION

datatype Ring = RING_KERNEL | RING_USER | RING_ANY

datatype CStack = CSTACK_DEFAULT | CSTACK_NO | CSTACK_FP | CSTACK_DWARF | CSTACK_LBR | CSTACK_VM | CSTACK_VMX

datatype JfrOption = NO_SYSTEM_INFO | NO_SYSTEM_PROPS | NO_NATIVE_LIBS | NO_CPU_LOAD | JFR_SYNC_OPTS

fun jfr_option_bits :: "JfrOption \<Rightarrow> int" where
  "jfr_option_bits NO_SYSTEM_INFO = 0x1"
| "jfr_option_bits NO_SYSTEM_PROPS = 0x2"
| "jfr_option_bits NO_NATIVE_LIBS = 0x4"
| "jfr_option_bits NO_CPU_LOAD = 0x8"
| "jfr_option_bits JFR_SYNC_OPTS = 0xF"

datatype WallclockSampler = ASGCT | JVMTI

datatype c_double = NaN | MInf | Fin rat | PInf

fun double_less :: "c_double \<Rightarrow> c_double \<Rightarrow> bool" where
  "double_less NaN _ = False"
| "double_less _ NaN = False"
| "double_less MInf y = (y \<noteq> MInf)"
| "double_less (Fin x) y = (case y of Fin y' \<Rightarrow> x < y' | PInf \<Rightarrow> True | _ \<Rightarrow> False)"
| "double_less PInf _ = False"

text \<open>\<^verbatim>\<open>std::min(a, b)\<close> is \<^verbatim>\<open>b < a ? b : a\<close> and \<^verbatim>\<open>std::max(a, b)\<close> is \<^verbatim>\<open>a < b ? b : a\<close>.\<close>

definition clamp_ratio :: "c_double \<Rightarrow> c_double" where
  "clamp_ratio x =
     (let m = (if double_less (Fin 1) x then Fin 1 else x)
      in if double_less m (Fin (1 / 100)) then Fin (1 / 100) else m)"

record arguments =
  buf :: bool
  shared :: bool
  persistent :: bool
  action :: Action
  ring :: Ring
  event :: "string option"
  interval :: int
  cpu :: int
  wall :: int
  wall_collapsing :: bool
  wall_threads_per_tick :: int
  wallclock_sampler :: WallclockSampler
  memory :: int
  record_allocations :: bool
  record_liveness :: bool
  live_samples_ratio :: c_double
  record_heap_usage :: bool
  gc_generations :: bool
  jstackdepth :: int
  safe_mode :: int
  file_arg :: "string option"
  log_arg :: "string option"
  loglevel :: "string option"
  unknown_arg :: "string option"
  filter_arg :: "string option"
  cstack :: CStack
  jfr_options :: int
  context_attributes :: "string list"
  lightweight :: bool

definition new_Arguments :: "bool \<Rightarrow> arguments" where
  "new_Arguments persist =
     \<lparr>buf = False, shared = False, persistent = persist, action = ACTION_NONE, ring = RING_ANY, event = None,
      interval = 0, cpu = -1, wall = -1, wall_collapsing = False,
      wall_threads_per_tick = DEFAULT_WALL_THREADS_PER_TICK, wallclock_sampler = ASGCT, memory = -1,
      record_allocations = False, record_liveness = False, live_samples_ratio = Fin (1 / 10),
      record_heap_usage = False, gc_generations = False, jstackdepth = DEFAULT_JSTACKDEPTH, safe_mode = 0,
      file_arg = None, log_arg = None, loglevel = None, unknown_arg = None, filter_arg = None,
      cstack = CSTACK_DEFAULT, jfr_options = 0, context_attributes = [], lightweight = False\<rparr>"

section \<open>Option names\<close>

text \<open>
  \<^verbatim>\<open>Arguments::hash\<close> packs the low five bits of each character, with a shift that grows without bound: a
  shift by 64 or more of a \<^verbatim>\<open>long long\<close> is undefined.
\<close>

datatype arg_error = Shift_Overflow

definition low5 :: "char \<Rightarrow> u64" where
  "low5 c = word_of_nat (of_char c) AND 31"

fun hash_from :: "nat \<Rightarrow> u64 \<Rightarrow> string \<Rightarrow> arg_error + u64" where
  "hash_from shift h [] = Inr h"
| "hash_from shift h (c # cs) =
     (if shift < 64 then hash_from (shift + 5) (h OR push_bit shift (low5 c)) cs else Inl Shift_Overflow)"

definition hash :: "string \<Rightarrow> arg_error + u64" where
  "hash arg = hash_from 0 0 arg"

text \<open>The macro \<^verbatim>\<open>HASH\<close> reads the first 12 characters of the name padded with 12 blanks.\<close>

definition HASH :: "string \<Rightarrow> u64" where
  "HASH s =
     (let p = s @ replicate 12 (CHR '' '')
      in low5 (p ! 0) OR push_bit 5 (low5 (p ! 1)) OR push_bit 10 (low5 (p ! 2)) OR push_bit 15 (low5 (p ! 3))
         OR push_bit 20 (low5 (p ! 4)) OR push_bit 25 (low5 (p ! 5)) OR push_bit 30 (low5 (p ! 6))
         OR push_bit 35 (low5 (p ! 7)) OR push_bit 40 (low5 (p ! 8)) OR push_bit 45 (low5 (p ! 9))
         OR push_bit 50 (low5 (p ! 10)) OR push_bit 55 (low5 (p ! 11)))"

section \<open>Units\<close>

type_synonym multipliers = "(char \<times> int) list"

definition NANOS :: multipliers where
  "NANOS = [(CHR ''n'', 1), (CHR ''u'', 1000), (CHR ''m'', 1000000), (CHR ''s'', 1000000000)]"
definition BYTES :: multipliers where
  "BYTES = [(CHR ''b'', 1), (CHR ''k'', 1024), (CHR ''m'', 1048576), (CHR ''g'', 1073741824)]"
definition SECONDS :: multipliers where
  "SECONDS = [(CHR ''s'', 1), (CHR ''m'', 60), (CHR ''h'', 3600), (CHR ''d'', 86400)]"
definition UNIVERSAL :: multipliers where
  "UNIVERSAL = [(CHR ''n'', 1), (CHR ''u'', 1000), (CHR ''m'', 1000000), (CHR ''s'', 1000000000),
                (CHR ''b'', 1), (CHR ''k'', 1024), (CHR ''g'', 1073741824)]"

definition lower :: "char \<Rightarrow> char" where
  "lower c = (let n = of_char c :: nat in if 65 \<le> n \<and> n \<le> 90 then char_of (n + 32) else c)"

text \<open>The product wraps at the width of \<^verbatim>\<open>long\<close>.\<close>

definition parseUnits :: "string \<Rightarrow> multipliers \<Rightarrow> int" where
  "parseUnits str multipliers =
     (case strtol str 0 of (result, end) \<Rightarrow>
        (case end of
           [] \<Rightarrow> result
         | c # _ \<Rightarrow> (case map_of multipliers (lower c) of Some m \<Rightarrow> s64 (result * m) | None \<Rightarrow> -1)))"

section \<open>The parser\<close>

text \<open>A token is split at its first \<^verbatim>\<open>=\<close>.\<close>

definition name_part :: "string \<Rightarrow> string" where
  "name_part token = takeWhile (\<lambda>c. c \<noteq> CHR ''='') token"

definition value_part :: "string \<Rightarrow> string option" where
  "value_part token = map_option tl (strchr token (CHR ''=''))"

definition before :: "char \<Rightarrow> string \<Rightarrow> string" where
  "before c s = takeWhile (\<lambda>x. x \<noteq> c) s"

definition after :: "char \<Rightarrow> string \<Rightarrow> string option" where
  "after c s = map_option tl (strchr s c)"

fun split_at :: "char \<Rightarrow> string \<Rightarrow> string \<Rightarrow> string list" where
  "split_at sep acc [] = [rev acc]"
| "split_at sep acc (c # cs) = (if c = sep then rev acc # split_at sep [] cs else split_at sep (c # acc) cs)"

type_synonym parse_state = "string option \<times> arguments"

definition parse_memory :: "(string \<Rightarrow> c_double) \<Rightarrow> string option \<Rightarrow> arguments \<Rightarrow> arguments" where
  "parse_memory strtod value a =
     (let config0 = Option.bind value (after (CHR '':''));
          ratio = Option.bind config0 (after (CHR '':''));
          config = map_option (before (CHR '':'')) config0;
          value' = map_option (before (CHR '':'')) value;
          a1 = a\<lparr>memory := (case value' of None \<Rightarrow> DEFAULT_ALLOC_INTERVAL | Some v \<Rightarrow> parseUnits v BYTES)\<rparr>
      in if memory a1 \<ge> 0 then
           (case config of
              Some cfg \<Rightarrow>
                (let a2 = (if CHR ''a'' \<in> set cfg then a1\<lparr>record_allocations := True\<rparr> else a1);
                     a3 = (if CHR ''l'' \<in> set cfg then a2\<lparr>record_liveness := True\<rparr>
                           else if CHR ''L'' \<in> set cfg then a2\<lparr>record_liveness := True, record_heap_usage := True\<rparr>
                           else a2)
                 in case ratio of
                      Some r \<Rightarrow> if record_liveness a3 then a3\<lparr>live_samples_ratio := clamp_ratio (strtod r)\<rparr> else a3
                    | None \<Rightarrow> a3)
            | None \<Rightarrow> a1\<lparr>record_allocations := True, record_liveness := True\<rparr>)
         else a1)"

definition parse_event :: "string option \<Rightarrow> parse_state \<Rightarrow> parse_state" where
  "parse_event value = (\<lambda>(msg, a).
     if value = None \<or> value = Some [] then (Some ''event must not be empty'', a)
     else if value = Some EVENT_ALLOC then (msg, if memory a < 0 then a\<lparr>memory := 0\<rparr> else a)
     else if event a \<noteq> None then (Some ''Duplicate event argument'', a)
     else (msg, a\<lparr>event := value\<rparr>))"

definition parse_wall :: "string option \<Rightarrow> parse_state \<Rightarrow> parse_state" where
  "parse_wall value = (\<lambda>(msg, a).
     let a1 = (case value of
                 None \<Rightarrow> a\<lparr>wall := 0\<rparr>
               | Some v \<Rightarrow> if v \<noteq> [] \<and> hd v = CHR ''~''
                           then a\<lparr>wall_collapsing := True, wall := parseUnits (tl v) NANOS\<rparr>
                           else a\<lparr>wall := parseUnits v NANOS\<rparr>)
     in (if wall a1 < 0 then Some ''wall must be >= 0'' else msg, a1))"

definition parse_cstack :: "string \<Rightarrow> CStack" where
  "parse_cstack v =
     (if v = ''fp'' then CSTACK_FP else if v = ''dwarf'' then CSTACK_DWARF else if v = ''lbr'' then CSTACK_LBR
      else if v = ''vm'' then CSTACK_VM else if v = ''vmx'' then CSTACK_VMX else CSTACK_NO)"

text \<open>The second half of the chain of \<^verbatim>\<open>CASE\<close>s, from the filters to the default.\<close>

definition parse_filters :: "string \<Rightarrow> string option \<Rightarrow> u64 \<Rightarrow> parse_state \<Rightarrow> parse_state" where
  "parse_filters arg value h = (\<lambda>(msg, a).
     if h = HASH ''filter'' then
       (msg, a\<lparr>filter_arg := (case value of None \<Rightarrow> Some [] | Some v \<Rightarrow> Some v)\<rparr>)
     else if h = HASH ''allkernel'' then (msg, a\<lparr>ring := RING_KERNEL\<rparr>)
     else if h = HASH ''alluser'' then (msg, a\<lparr>ring := RING_USER\<rparr>)
     else if h = HASH ''cstack'' then
       (msg, case value of None \<Rightarrow> a | Some v \<Rightarrow> a\<lparr>cstack := parse_cstack v\<rparr>)
     else if h = HASH ''attributes'' then
       (msg, case value of None \<Rightarrow> a
             | Some v \<Rightarrow> a\<lparr>context_attributes := context_attributes a @ split_at (CHR '';'') [] v\<rparr>)
     else if h = HASH ''lightweight'' then
       (msg, case value of None \<Rightarrow> a
             | Some v \<Rightarrow> a\<lparr>lightweight := (v \<noteq> [] \<and> (hd v = CHR ''y'' \<or> hd v = CHR ''t''))\<rparr>)
     else if h = HASH ''wallsampler'' then
       (msg, case value of None \<Rightarrow> a
             | Some v \<Rightarrow> a\<lparr>wallclock_sampler := (if v \<noteq> [] \<and> hd v = CHR ''j'' then JVMTI else ASGCT)\<rparr>)
     else (msg, if unknown_arg a = None then a\<lparr>unknown_arg := Some arg\<rparr> else a))"

text \<open>One round of the loop: the chain of \<^verbatim>\<open>CASE\<close>s on the hash of the option name.\<close>

definition parse_arg ::
  "(string \<Rightarrow> c_double) \<Rightarrow> string \<Rightarrow> string option \<Rightarrow> u64 \<Rightarrow> parse_state \<Rightarrow> parse_state" where
  "parse_arg strtod arg value h = (\<lambda>(msg, a).
     if h = HASH ''start'' then (msg, a\<lparr>action := ACTION_START\<rparr>)
     else if h = HASH ''resume'' then (msg, a\<lparr>action := ACTION_RESUME\<rparr>)
     else if h = HASH ''stop'' then (msg, a\<lparr>action := ACTION_STOP\<rparr>)
     else if h = HASH ''check'' then (msg, a\<lparr>action := ACTION_CHECK\<rparr>)
     else if h = HASH ''status'' then (msg, a\<lparr>action := ACTION_STATUS\<rparr>)
     else if h = HASH ''list'' then (msg, a\<lparr>action := ACTION_LIST\<rparr>)
     else if h = HASH ''version'' then (msg, a\<lparr>action := ACTION_VERSION\<rparr>)
     else if h = HASH ''jfr'' then
       (msg, case value of None \<Rightarrow> a | Some v \<Rightarrow> a\<lparr>jfr_options := s32 (fst (strtol v 0))\<rparr>)
     else if h = HASH ''cpu'' then
       (let a1 = a\<lparr>cpu := (case value of None \<Rightarrow> 0 | Some v \<Rightarrow> parseUnits v NANOS)\<rparr>
        in (if cpu a1 < 0 then Some ''cpu must be >= 0'' else msg, a1))
     else if h = HASH ''wall'' then parse_wall value (msg, a)
     else if h = HASH ''walltpt'' then
       (case value of
          None \<Rightarrow> (Some ''walltpt must be > 0'', a)
        | Some v \<Rightarrow> (if atoi v \<le> 0 then Some ''walltpt must be > 0'' else msg, a\<lparr>wall_threads_per_tick := atoi v\<rparr>))
     else if h = HASH ''event'' then parse_event value (msg, a)
     else if h = HASH ''memory'' then (msg, parse_memory strtod value a)
     else if h = HASH ''generations'' then
       (let a1 = a\<lparr>gc_generations := (value = Some ''true'')\<rparr>
        in (msg, if gc_generations a1 \<and> memory a1 \<le> 0 then a1\<lparr>memory := 4 * 1024 * 1024\<rparr> else a1))
     else if h = HASH ''interval'' then
       (case value of
          None \<Rightarrow> (Some ''Invalid interval'', a)
        | Some v \<Rightarrow> (if parseUnits v UNIVERSAL \<le> 0 then Some ''Invalid interval'' else msg,
                     a\<lparr>interval := parseUnits v UNIVERSAL\<rparr>))
     else if h = HASH ''jstackdepth'' then
       (case value of
          None \<Rightarrow> (Some ''jstackdepth must be > 0'', a)
        | Some v \<Rightarrow> (if atoi v \<le> 0 then Some ''jstackdepth must be > 0'' else msg, a\<lparr>jstackdepth := atoi v\<rparr>))
     else if h = HASH ''safemode'' then
       (msg, a\<lparr>safe_mode := (case value of None \<Rightarrow> INT_MAX | Some v \<Rightarrow> s32 (fst (strtol v 0)))\<rparr>)
     else if h = HASH ''file'' then
       (if value = None \<or> value = Some [] then Some ''file must not be empty'' else msg, a\<lparr>file_arg := value\<rparr>)
     else if h = HASH ''log'' then (msg, a\<lparr>log_arg := (if value = Some [] then None else value)\<rparr>)
     else if h = HASH ''loglevel'' then
       (if value = None \<or> value = Some [] then Some ''loglevel must not be empty'' else msg, a\<lparr>loglevel := value\<rparr>)
     else parse_filters arg value h (msg, a))"

definition parse_token :: "(string \<Rightarrow> c_double) \<Rightarrow> string \<Rightarrow> parse_state \<Rightarrow> arg_error + parse_state" where
  "parse_token strtod token s =
     (case hash (name_part token) of
        Inl e \<Rightarrow> Inl e
      | Inr h \<Rightarrow> Inr (parse_arg strtod (name_part token) (value_part token) h s))"

text \<open>The settings made after the loop.\<close>

definition parse_defaults :: "bool \<Rightarrow> arguments \<Rightarrow> arguments" where
  "parse_defaults isOpenJ9 a =
     (let a1 = (if event a = None \<and> cpu a < 0 \<and> wall a < 0 \<and> memory a < 0 then a\<lparr>event := Some EVENT_CPU\<rparr> else a)
      in if isOpenJ9 \<and> cstack a1 = CSTACK_FP then a1\<lparr>cstack := CSTACK_DWARF\<rparr> else a1)"

definition parse ::
  "bool \<Rightarrow> bool \<Rightarrow> (string \<Rightarrow> c_double) \<Rightarrow> string option \<Rightarrow> arguments \<Rightarrow> arg_error + parse_state" where
  "parse malloc_ok isOpenJ9 strtod args a =
     (case args of
        None \<Rightarrow> Inr (None, a)
      | Some s \<Rightarrow>
          if \<not> malloc_ok then Inr (Some ''Not enough memory to parse arguments'', a\<lparr>buf := False\<rparr>)
          else
            (case run_ops (map (parse_token strtod) (strtok_all (CHR '','') s)) (None, a\<lparr>buf := True\<rparr>) of
               Inl e \<Rightarrow> Inl e
             | Inr (Some msg, a1) \<Rightarrow> Inr (Some msg, a1)
             | Inr (None, a1) \<Rightarrow> Inr (None, parse_defaults isOpenJ9 a1)))"

section \<open>Queries\<close>

definition isCpuEvent :: "string option \<Rightarrow> bool" where
  "isCpuEvent ev \<longleftrightarrow> ev = None \<or> ev = Some EVENT_CPU \<or> ev = Some EVENT_ITIMER \<or> ev = Some EVENT_CTIMER"

definition cpuSamplerInterval :: "arguments \<Rightarrow> int" where
  "cpuSamplerInterval a =
     (if isCpuEvent (event a)
      then if cpu a > 0 then cpu a else if interval a > 0 then interval a else DEFAULT_CPU_INTERVAL
      else 0)"

definition hasOption :: "arguments \<Rightarrow> JfrOption \<Rightarrow> bool" where
  "hasOption a opt \<longleftrightarrow> jfr_options a AND jfr_option_bits opt \<noteq> 0"

definition save :: "arguments \<Rightarrow> arguments" where
  "save a = a\<lparr>buf := False, shared := True\<rparr>"

section \<open>The file pattern\<close>

definition EXTRA_BUF_SIZE :: nat where "EXTRA_BUF_SIZE = 512"

definition dec02 :: "nat \<Rightarrow> string" where
  "dec02 n = (if n < 10 then CHR ''0'' # dec n else dec n)"

record file_env =
  pid :: nat
  tm :: "nat list"
  getenv :: "string \<Rightarrow> string option"

text \<open>The \<^verbatim>\<open>struct tm\<close> fields in the order they are printed: year, month, day, hour, minute, second.\<close>

definition timestamp :: "nat list \<Rightarrow> string" where
  "timestamp t = dec (t ! 0 + 1900) @ dec02 (t ! 1 + 1) @ dec02 (t ! 2) @ ''-'' @ dec02 (t ! 3) @ dec02 (t ! 4) @ dec02 (t ! 5)"

text \<open>
  \<^verbatim>\<open>snprintf(ptr, end - ptr, ...)\<close> stores at most \<^verbatim>\<open>end - ptr - 1\<close> characters but returns the full
  length, which \<^verbatim>\<open>ptr\<close> advances by: the result is what the buffer holds and the offset of \<^verbatim>\<open>ptr\<close>.
\<close>

definition snprintf_at :: "string \<Rightarrow> string \<Rightarrow> string \<times> nat" where
  "snprintf_at out s = (out @ take (EXTRA_BUF_SIZE - 1 - length out - 1) s, length out + length s)"

function expand :: "file_env \<Rightarrow> string \<times> nat \<Rightarrow> string \<Rightarrow> string" where
  "expand env (out, ptr) pattern =
     (if ptr < EXTRA_BUF_SIZE - 1 then
        (case pattern of
           [] \<Rightarrow> out
         | c # p \<Rightarrow>
             if c = CHR ''%'' then
               (case p of
                  [] \<Rightarrow> out
                | d # q \<Rightarrow>
                    if d = CHR ''p'' then expand env (snprintf_at out (dec (pid env))) q
                    else if d = CHR ''t'' then expand env (snprintf_at out (timestamp (tm env))) q
                    else if d = CHR ''{'' then
                      (case strchr q (CHR ''}'') of
                         None \<Rightarrow> expand env (out @ [d], ptr + 1) q
                       | Some r \<Rightarrow>
                           let key = before (CHR ''}'') q
                           in if length key < 128
                              then (case getenv env key of
                                      None \<Rightarrow> expand env (out @ [d], ptr + 1) q
                                    | Some v \<Rightarrow> expand env (snprintf_at out v) (tl r))
                              else expand env (out @ [d], ptr + 1) q)
                    else expand env (out @ [d], ptr + 1) q)
             else expand env (out @ [c], ptr + 1) p)
      else out)"
  by pat_completeness auto
termination
proof (relation "measure (\<lambda>(_, _, p). length p)", simp_all)
  fix q r v :: string and d c :: char and p
  assume "strchr q (CHR ''}'') = Some r"
  then have "length r \<le> length q" using strchr_Some [of q "CHR ''}''" r] by (metis le_add2 length_append)
  then show "length r - Suc 0 < Suc (Suc (length q))" by simp
qed

declare expand.simps [simp del]

definition expandFilePattern :: "file_env \<Rightarrow> string \<Rightarrow> string" where
  "expandFilePattern env pattern = expand env ([], 0) pattern"

definition file_name :: "file_env \<Rightarrow> arguments \<Rightarrow> string option" where
  "file_name env a =
     (case file_arg a of
        None \<Rightarrow> None
      | Some f \<Rightarrow> if strchr f (CHR ''%'') \<noteq> None then Some (expandFilePattern env f) else Some f)"

section \<open>Option names are told apart\<close>

definition is_letter :: "char \<Rightarrow> bool" where
  "is_letter c \<longleftrightarrow> 97 \<le> (of_char c :: nat) \<and> (of_char c :: nat) \<le> 122"

text \<open>The hash as a number in base 32.\<close>

fun base32 :: "string \<Rightarrow> nat" where
  "base32 [] = 0"
| "base32 (c # cs) = of_char c mod 32 + 32 * base32 cs"

lemma of_char_less_256: "(of_char c :: nat) < 256"
  by (metis mod_less_divisor of_char_mod_256 zero_less_numeral)

lemma unat_low5 [simp]: "unat (low5 c) = of_char c mod 32"
proof -
  have "(31 :: u64) = mask 5" by (simp add: mask_eq_exp_minus_1)
  then have "low5 c = take_bit 5 (word_of_nat (of_char c))" by (simp add: low5_def take_bit_eq_mask)
  then have "unat (low5 c) = take_bit 5 (unat (word_of_nat (of_char c) :: u64))"
    by (simp only: unsigned_take_bit_eq)
  moreover have "(of_char c :: nat) < 2 ^ 64" using of_char_less_256 [of c] by (rule less_trans) simp
  ultimately show ?thesis
    by (simp add: unat_word_of_nat take_bit_eq_mod)
qed

lemma base32_bound: "base32 s < 32 ^ length s"
proof (induction s)
  case (Cons c s)
  have "(of_char c :: nat) mod 32 < 32" by simp
  with Cons show ?case by simp
qed simp

lemma hash_from_base32:
  assumes "unat h < 2 ^ shift" and "shift + 5 * length s \<le> 60"
  shows "\<exists>h'. hash_from shift h s = Inr h' \<and> unat h' = unat h + 2 ^ shift * base32 s"
  using assms
proof (induction s arbitrary: shift h)
  case (Cons c s)
  have c: "(of_char c :: nat) mod 32 \<le> 31" by (simp add: less_Suc_eq_le [symmetric])
  have "unat h + 2 ^ shift * (of_char c mod 32) < 2 ^ shift + 2 ^ shift * 31"
    using Cons.prems(1) c by (intro add_less_le_mono mult_le_mono) auto
  also have "\<dots> = 2 ^ (shift + 5)" by (simp add: power_add)
  finally have sum: "unat h + 2 ^ shift * (of_char c mod 32) < 2 ^ (shift + 5)" .
  have le: "(2::nat) ^ (shift + 5) \<le> 2 ^ 64" using Cons.prems(2) by (intro power_increasing) auto
  have h: "unat (h OR push_bit shift (low5 c)) = unat h + 2 ^ shift * (of_char c mod 32)"
    using or_push_bit_add [OF Cons.prems(1), of "low5 c"] less_le_trans [OF sum le] by simp
  obtain h' where "hash_from (shift + 5) (h OR push_bit shift (low5 c)) s = Inr h'"
    "unat h' = unat (h OR push_bit shift (low5 c)) + 2 ^ (shift + 5) * base32 s"
    using Cons.IH [of "h OR push_bit shift (low5 c)" "shift + 5"] sum Cons.prems(2) unfolding h by auto
  then show ?case using Cons.prems(2) h by (simp add: power_add algebra_simps)
qed simp

lemma hash_base32:
  assumes "length s \<le> 12"
  obtains h where "hash s = Inr h" and "unat h = base32 s"
  using hash_from_base32 [of 0 0 s] assms unfolding hash_def by auto

lemma letter_mod: "is_letter c \<Longrightarrow> (of_char c :: nat) mod 32 + 96 = of_char c"
proof -
  assume "is_letter c"
  then have "of_char c = (of_char c - 96) + (96 :: nat)" and k: "(of_char c :: nat) - 96 < 32"
    by (auto simp: is_letter_def)
  then obtain k :: nat where "of_char c = k + 3 * 32" "k < 32" by auto
  then show ?thesis by (simp only: mod_mult_self1 mod_less)
qed

lemma base32_zero: "\<forall>c \<in> set s. is_letter c \<Longrightarrow> base32 s = 0 \<Longrightarrow> s = []"
proof (cases s)
  case (Cons c t)
  assume "\<forall>c \<in> set s. is_letter c" and z: "base32 s = 0"
  then have l: "is_letter c" using Cons by simp
  from z have "(of_char c :: nat) mod 32 = 0" using Cons by simp
  with letter_mod [OF l] l have "(of_char c :: nat) = 96" "97 \<le> (of_char c :: nat)" by (simp_all add: is_letter_def)
  then show ?thesis by simp
qed

lemma base32_inj:
  "\<forall>c \<in> set s. is_letter c \<Longrightarrow> \<forall>c \<in> set t. is_letter c \<Longrightarrow> base32 s = base32 t \<Longrightarrow> s = t"
proof (induction s arbitrary: t)
  case Nil
  then show ?case using base32_zero [of t] by simp
next
  case (Cons c s)
  obtain d t' where t: "t = d # t'" using Cons.prems base32_zero [of "c # s"] by (cases t) auto
  from Cons.prems(3) t have "base32 (c # s) mod 32 = base32 (d # t') mod 32" "base32 (c # s) div 32 = base32 (d # t') div 32"
    by simp_all
  then have cd: "(of_char c :: nat) mod 32 = of_char d mod 32" and st: "base32 s = base32 t'" by simp_all
  have "is_letter c" "is_letter d" using Cons.prems(1,2) t by simp_all
  with cd have "(of_char c :: nat) = of_char d" by (metis letter_mod)
  then have "c = d" by (metis char_of_char)
  with Cons.IH [of t'] Cons.prems t st show ?case by simp
qed

text \<open>The macro and the function agree on names of up to twelve characters.\<close>

lemma hash_from_append:
  "shift + 5 * length s \<le> 60 \<Longrightarrow>
     hash_from shift h (s @ t) =
       (case hash_from shift h s of Inl e \<Rightarrow> Inl e | Inr h' \<Rightarrow> hash_from (shift + 5 * length s) h' t)"
proof (induction s arbitrary: shift h)
  case (Cons c s)
  then have "shift < 64" "shift + 5 + 5 * length s \<le> 60" by simp_all
  with Cons.IH [of "shift + 5" "h OR push_bit shift (low5 c)"] show ?case
    by (simp add: algebra_simps split: sum.split)
qed simp

lemma hash_from_blanks:
  "shift + 5 * n \<le> 60 \<Longrightarrow> hash_from shift h (replicate n (CHR '' '')) = Inr h"
  by (induction n arbitrary: shift) (simp_all add: low5_def)

lemma hash_padded:
  assumes "length s \<le> 12"
  shows "hash (s @ replicate (12 - length s) (CHR '' '')) = hash s"
proof -
  obtain h where h: "hash s = Inr h" using hash_base32 [OF assms] by blast
  then show ?thesis
    using hash_from_append [of 0 s 0 "replicate (12 - length s) (CHR '' '')"] assms
    by (simp add: hash_def hash_from_blanks)
qed

lemma hash_twelve:
  assumes "length p = 12"
  shows "hash p = Inr (low5 (p ! 0) OR push_bit 5 (low5 (p ! 1)) OR push_bit 10 (low5 (p ! 2)) OR push_bit 15 (low5 (p ! 3))
         OR push_bit 20 (low5 (p ! 4)) OR push_bit 25 (low5 (p ! 5)) OR push_bit 30 (low5 (p ! 6))
         OR push_bit 35 (low5 (p ! 7)) OR push_bit 40 (low5 (p ! 8)) OR push_bit 45 (low5 (p ! 9))
         OR push_bit 50 (low5 (p ! 10)) OR push_bit 55 (low5 (p ! 11)))"
proof -
  have "p = map ((!) p) [0..<12]" using assms by (metis map_nth)
  also have "[0..<12] = [0, 1, 2, 3, 4, 5, 6, 7, 8, 9, 10, 11 :: nat]" by (simp add: upt_rec)
  finally have "hash p = hash (map ((!) p) [0, 1, 2, 3, 4, 5, 6, 7, 8, 9, 10, 11])" by simp
  then show ?thesis by (simp add: hash_def or.assoc del: nth_Cons_numeral)
qed

lemma HASH_hash:
  assumes "length s \<le> 12"
  shows "hash s = Inr (HASH s)"
proof -
  let ?p = "s @ replicate 12 (CHR '' '')" and ?q = "s @ replicate (12 - length s) (CHR '' '')"
  have q: "?q ! i = ?p ! i" if "i < 12" for i using that by (simp add: nth_append)
  have "hash ?q = Inr (HASH s)"
    unfolding HASH_def Let_def using assms by (subst hash_twelve) (simp_all add: q del: replicate.simps)
  then show ?thesis using hash_padded [OF assms] by simp
qed

text \<open>
  The dispatch on hashes (\<^verbatim>\<open>SWITCH\<close>, \<^verbatim>\<open>CASE\<close>, \<^verbatim>\<open>Arguments::hash\<close>): the static \<^verbatim>\<open>HASH\<close> of a keyword
  of at most twelve characters is what \<^verbatim>\<open>hash\<close> computes for it, and among names of at most twelve
  lower-case letters only the keyword itself has that hash, so no option is taken for another.
\<close>

theorem hash_selects_keyword:
  assumes "length keyword \<le> 12" and "\<forall>c \<in> set keyword. is_letter c"
    and "length arg \<le> 12" and "\<forall>c \<in> set arg. is_letter c"
  shows "hash keyword = Inr (HASH keyword) \<and> (hash arg = Inr (HASH keyword) \<longleftrightarrow> arg = keyword)"
proof -
  have "arg = keyword" if eq: "hash arg = Inr (HASH keyword)"
  proof -
    have "hash arg = hash keyword" using eq HASH_hash [OF assms(1)] by simp
    then have "base32 arg = base32 keyword"
      using hash_base32 [OF assms(1)] hash_base32 [OF assms(3)] by (metis sum.inject(2))
    then show ?thesis using base32_inj assms(2,4) by blast
  qed
  then show ?thesis using HASH_hash [OF assms(1)] by auto
qed

theorem hash_selects_keyword_witness:
  "hash ''wall'' = Inr (HASH ''wall'') \<and> hash ''walltpt'' \<noteq> Inr (HASH ''wall'')"
  using hash_selects_keyword [of "''wall''" "''walltpt''"] by (simp add: is_letter_def)
section \<open>What a successful parse guarantees\<close>

definition args_ok :: "arguments \<Rightarrow> bool" where
  "args_ok a \<longleftrightarrow> -1 \<le> cpu a \<and> -1 \<le> wall a \<and> 0 < wall_threads_per_tick a \<and> 0 \<le> interval a \<and> 0 < jstackdepth a
     \<and> file_arg a \<noteq> Some [] \<and> loglevel a \<noteq> Some [] \<and> log_arg a \<noteq> Some []"

definition parse_inv :: "parse_state \<Rightarrow> bool" where
  "parse_inv s \<longleftrightarrow> fst s = None \<longrightarrow> args_ok (snd s)"

lemma parse_inv_memory: "args_ok (parse_memory strtod value a) = args_ok a"
  by (simp add: parse_memory_def args_ok_def Let_def split: option.split)

lemma parse_inv_parse_memory: "parse_inv (msg, a) \<Longrightarrow> parse_inv (msg, parse_memory strtod value a)"
  by (simp add: parse_inv_def parse_inv_memory)

lemma parse_inv_event: "parse_inv s \<Longrightarrow> parse_inv (parse_event value s)"
  by (auto simp: parse_event_def parse_inv_def args_ok_def split: prod.split)

lemma parse_inv_wall: "parse_inv s \<Longrightarrow> parse_inv (parse_wall value s)"
  by (auto simp: parse_wall_def parse_inv_def args_ok_def Let_def split: prod.split option.split)

lemma parse_inv_if: "parse_inv s \<Longrightarrow> parse_inv t \<Longrightarrow> parse_inv (if c then s else t)"
  by simp

lemma parse_inv_filters:
  assumes "parse_inv (msg, a)"
  shows "parse_inv (parse_filters arg value h (msg, a))"
proof -
  have ok: "msg = None \<Longrightarrow> args_ok a" using assms by (simp add: parse_inv_def)
  show ?thesis
    unfolding parse_filters_def split_conv
    by (intro parse_inv_if)
      (use ok in \<open>auto simp: parse_inv_def args_ok_def split: option.split\<close>)
qed

lemma parse_inv_arg:
  assumes "parse_inv (msg, a)"
  shows "parse_inv (parse_arg strtod arg value h (msg, a))"
proof -
  have ok: "msg = None \<Longrightarrow> args_ok a" using assms by (simp add: parse_inv_def)
  show ?thesis
    unfolding parse_arg_def split_conv
    by (intro parse_inv_if parse_inv_event parse_inv_wall parse_inv_parse_memory parse_inv_filters assms)
      (use ok in \<open>auto simp: parse_inv_def args_ok_def Let_def split: option.split\<close>)
qed

lemma parse_inv_token:
  assumes "parse_inv s" and "parse_token strtod token s = Inr s'"
  shows "parse_inv s'"
  using assms parse_inv_arg [of "fst s" "snd s"] by (auto simp: parse_token_def split: sum.splits)

lemma run_ops_inv:
  assumes "\<And>f s s'. f \<in> set fs \<Longrightarrow> P s \<Longrightarrow> f s = Inr s' \<Longrightarrow> P s'" and "P s" and "run_ops fs s = Inr s'"
  shows "P s'"
  using assms
proof (induction fs arbitrary: s)
  case (Cons f fs)
  obtain s1 where "f s = Inr s1" "run_ops fs s1 = Inr s'" using Cons.prems(3) by (auto split: sum.splits)
  moreover have "P s1" using Cons.prems(1) [of f s s1] Cons.prems(2) \<open>f s = Inr s1\<close> by simp
  ultimately show ?case using Cons.IH Cons.prems(1) by (metis list.set_intros(2))
qed simp

lemma args_ok_new: "args_ok (new_Arguments p)"
  by (simp add: args_ok_def new_Arguments_def DEFAULT_WALL_THREADS_PER_TICK_def DEFAULT_JSTACKDEPTH_def)

lemma parse_defaults_ok:
  "args_ok a \<Longrightarrow> args_ok (parse_defaults j9 a)"
  "event (parse_defaults j9 a) \<noteq> None \<or> 0 \<le> cpu (parse_defaults j9 a) \<or> 0 \<le> wall (parse_defaults j9 a) \<or> 0 \<le> memory (parse_defaults j9 a)"
  "j9 \<Longrightarrow> cstack (parse_defaults j9 a) \<noteq> CSTACK_FP"
  by (auto simp: args_ok_def parse_defaults_def Let_def)

text \<open>
  C27. A successful \<^verbatim>\<open>Arguments::parse\<close> of an option string from fresh arguments selects at least one
  profiling engine, leaves the sampling intervals non-negative (or unset), the stack depth and the number of
  threads per tick positive, the file and log names non-empty, and never frame-pointer walking on OpenJ9.
\<close>

theorem parse_ok_settings:
  assumes "parse malloc_ok j9 strtod (Some s) (new_Arguments p) = Inr (None, a)"
  shows "args_ok a \<and> (event a \<noteq> None \<or> 0 \<le> cpu a \<or> 0 \<le> wall a \<or> 0 \<le> memory a)
     \<and> (j9 \<longrightarrow> cstack a \<noteq> CSTACK_FP) \<and> (0 < cpuSamplerInterval a \<longleftrightarrow> isCpuEvent (event a))"
proof -
  let ?ops = "map (parse_token strtod) (strtok_all (CHR '','') s)"
  let ?s0 = "(None, (new_Arguments p)\<lparr>buf := True\<rparr>)"
  obtain a1 where run: "run_ops ?ops ?s0 = Inr (None, a1)" and a: "a = parse_defaults j9 a1"
    using assms by (auto simp: parse_def split: if_splits sum.splits option.splits)
  have "parse_inv ?s0" using args_ok_new [of p] by (simp add: parse_inv_def args_ok_def)
  then have "parse_inv (None, a1)"
    using run by (rule run_ops_inv [where P = parse_inv, rotated]) (auto intro: parse_inv_token)
  then have "args_ok a1" by (simp add: parse_inv_def)
  then have ok: "args_ok a" using parse_defaults_ok(1) a by simp
  have "0 < cpuSamplerInterval a \<longleftrightarrow> isCpuEvent (event a)"
    by (simp add: cpuSamplerInterval_def DEFAULT_CPU_INTERVAL_def)
  with ok parse_defaults_ok(2) [of j9 a1] parse_defaults_ok(3) [of j9 a1] a show ?thesis by simp
qed

theorem parse_ok_settings_witness:
  "parse True True (\<lambda>_. NaN) (Some ''cpu=10m,cstack=fp'') (new_Arguments False) =
     Inr (None, (new_Arguments False)\<lparr>buf := True, cpu := 10000000, cstack := CSTACK_DWARF\<rparr>)
   \<and> args_ok ((new_Arguments False)\<lparr>buf := True, cpu := 10000000, cstack := CSTACK_DWARF\<rparr>)"
proof -
  have h: "hash ''cpu'' = Inr (HASH ''cpu'')" "hash ''cstack'' = Inr (HASH ''cstack'')"
    by (rule HASH_hash, simp)+
  have toks: "strtok_all (CHR '','') ''cpu=10m,cstack=fp'' = [''cpu=10m'', ''cstack=fp'']"
    by (simp add: strtok_all.simps)
  have units: "parseUnits ''10m'' NANOS = 10000000"
    by (simp add: parseUnits_def c_lib NANOS_def lower_def s64_def LONG_MAX_def)
  have cpu: "parse_token (\<lambda>_. NaN) ''cpu=10m'' (None, a) = Inr (None, a\<lparr>cpu := 10000000\<rparr>)" for a
    using units by (simp add: parse_token_def name_part_def value_part_def strchr_def h parse_arg_def HASH_def low5_def)
  have cs: "parse_token (\<lambda>_. NaN) ''cstack=fp'' (None, a) = Inr (None, a\<lparr>cstack := CSTACK_FP\<rparr>)" for a
    by (simp add: parse_token_def name_part_def value_part_def strchr_def h parse_arg_def parse_filters_def HASH_def low5_def parse_cstack_def)
  have "parse True True (\<lambda>_. NaN) (Some ''cpu=10m,cstack=fp'') (new_Arguments False) =
     Inr (None, (new_Arguments False)\<lparr>buf := True, cpu := 10000000, cstack := CSTACK_DWARF\<rparr>)"
    by (simp add: parse_def toks cpu cs parse_defaults_def new_Arguments_def)
  with parse_ok_settings [OF this] show ?thesis by blast
qed

section \<open>Units\<close>

lemma char_of_digit: "n < 10 \<Longrightarrow> digit_val (char_of (48 + n)) = n"
  by (simp add: digit_val_def)

lemma strtol_digits_dec:
  "strtol_digits 10 acc (dec n @ r) = strtol_digits 10 (acc * 10 ^ length (dec n) + n) r"
proof (induction n arbitrary: acc r rule: dec.induct)
  case (1 n)
  show ?case
  proof (cases "n < 10")
    case True
    then show ?thesis by (subst (1 2) dec.simps) (simp add: char_of_digit)
  next
    case False
    have "dec n = dec (n div 10) @ [char_of (48 + n mod 10)]" using False by (subst dec.simps) simp
    moreover have "strtol_digits 10 acc (dec (n div 10) @ [char_of (48 + n mod 10)] @ r)
      = strtol_digits 10 (acc * 10 ^ length (dec (n div 10)) + n div 10) ([char_of (48 + n mod 10)] @ r)"
      using "1" [OF False] .
    moreover have "(acc * 10 ^ k + n div 10) * 10 + n mod 10 = acc * (10 * 10 ^ k) + n" for k
      by (simp add: algebra_simps)
    ultimately show ?thesis by (simp add: char_of_digit ac_simps)
  qed
qed

lemma dec_hd: "\<exists>(d :: nat) r. dec n = char_of (48 + d) # r \<and> d < 10 \<and> (d = 0 \<longrightarrow> n = 0 \<and> r = [])"
proof (induction n rule: dec.induct)
  case (1 n)
  show ?case
  proof (cases "n < 10")
    case True
    then show ?thesis by (subst dec.simps) (auto intro!: exI [of _ n])
  next
    case False
    with 1 obtain d :: nat and r where "dec (n div 10) = char_of (48 + d) # r" "d < 10" "d = 0 \<longrightarrow> n div 10 = 0" by blast
    with False show ?thesis by (subst dec.simps) (auto intro!: exI [of _ d])
  qed
qed

lemma strtol_dec:
  assumes "int n \<le> LONG_MAX" and "r = [] \<or> (10 \<le> digit_val (hd r) \<and> hd r \<noteq> CHR ''x'' \<and> hd r \<noteq> CHR ''X'')"
  shows "strtol (dec n @ r) 0 = (int n, r)"
proof -
  obtain d :: nat and q where d: "dec n = char_of (48 + d) # q" "d < 10" "d = 0 \<longrightarrow> n = 0 \<and> q = []"
    using dec_hd by blast
  let ?c = "char_of (48 + d) :: char"
  have of: "(of_char ?c :: nat) = 48 + d" using d(2) by simp
  have ne: "?c \<noteq> x" if "of_char x < (48 :: nat)" for x using of that by auto
  have nsp: "\<not> is_space ?c" "?c \<noteq> CHR ''-''" "?c \<noteq> CHR ''+''"
    unfolding is_space_def by (auto dest: ne [THEN notE, rotated])
  have dv: "digit_val ?c = d" using d(2) by (rule char_of_digit)
  have "?c = CHR ''0'' \<longleftrightarrow> (of_char ?c :: nat) = of_char (CHR ''0'')" by (simp only: of_char_eq_iff)
  then have zero: "?c = CHR ''0'' \<longleftrightarrow> d = 0" unfolding of by simp
  have digits: "strtol_digits 10 0 (dec n @ r) = (n, r)"
    using strtol_digits_dec [of 0 n r] assms(2) by (cases r) auto
  have body: "strtol_body 0 (dec n @ r) = Some (n, r)"
  proof (cases "d = 0")
    case True
    then have "dec n = [CHR ''0'']" "n = 0" using d zero by auto
    then show ?thesis using assms(2) by (cases r) (auto simp: strtol_body_def digit_val_def)
  next
    case False
    then show ?thesis using digits d zero dv by (simp add: strtol_body_def)
  qed
  have "dropWhile is_space (dec n @ r) = dec n @ r" using d(1) nsp(1) by simp
  then show ?thesis using body d(1) nsp assms(1) by (simp add: strtol_def Let_def)
qed

text \<open>
  \<^verbatim>\<open>Arguments::parseUnits\<close> on a printed number: without a suffix the number itself, with a unit of the
  table (in either case, whatever follows it) the number times the unit's factor, wrapped to \<^verbatim>\<open>long\<close>, and
  \<open>-1\<close> for any other suffix.
\<close>

theorem parseUnits_dec:
  assumes "int n \<le> LONG_MAX"
  shows "parseUnits (dec n) ms = int n
     \<and> (\<forall>c rest. 10 \<le> digit_val c \<longrightarrow> c \<noteq> CHR ''x'' \<longrightarrow> c \<noteq> CHR ''X'' \<longrightarrow>
          parseUnits (dec n @ c # rest) ms = (case map_of ms (lower c) of Some m \<Rightarrow> s64 (int n * m) | None \<Rightarrow> -1))"
  using strtol_dec [OF assms, of "[]"] strtol_dec [OF assms, of "c # rest" for c rest]
  by (simp add: parseUnits_def)

theorem parseUnits_dec_witness:
  "parseUnits (dec 10) NANOS = 10 \<and> parseUnits (dec 10 @ CHR ''M'' # ''s'') NANOS = 10000000
     \<and> parseUnits (dec 10 @ CHR ''z'' # '''') NANOS = -1"
proof -
  have d: "10 \<le> digit_val (CHR ''M'')" "10 \<le> digit_val (CHR ''z'')" by (simp_all add: digit_val_def)
  have ok: "int 10 \<le> LONG_MAX" by (simp add: LONG_MAX_def)
  have l: "lower (CHR ''M'') = CHR ''m''" "lower (CHR ''z'') = CHR ''z''" by code_simp+
  have "map_of NANOS (CHR ''m'') = Some 1000000" "map_of NANOS (CHR ''z'') = None" by (simp_all add: NANOS_def)
  then show ?thesis
    using parseUnits_dec [OF ok, of NANOS] d l by (simp add: s64_def)
qed

section \<open>The file pattern stays in its buffer\<close>

definition out_ok :: "string \<times> nat \<Rightarrow> bool" where
  "out_ok = (\<lambda>(out, ptr). length out \<le> 511 \<and> (ptr < 511 \<longrightarrow> length out = ptr))"

lemma out_ok_put: "out_ok (out, ptr) \<Longrightarrow> ptr < 511 \<Longrightarrow> out_ok (out @ [c], Suc ptr)"
  by (auto simp: out_ok_def)

lemma out_ok_snprintf: "out_ok (out, ptr) \<Longrightarrow> ptr < 511 \<Longrightarrow> out_ok (snprintf_at out s)"
  by (auto simp: out_ok_def snprintf_at_def EXTRA_BUF_SIZE_def)

lemma expand_bound: "out_ok st \<Longrightarrow> length (expand env st pattern) \<le> 511"
proof (induction "length pattern" arbitrary: st pattern rule: less_induct)
  case less
  obtain out ptr where st: "st = (out, ptr)" by (cases st)
  note IH = less.hyps
  show ?case
  proof (cases "ptr < 511 \<and> pattern \<noteq> []")
    case False
    then show ?thesis using less.prems unfolding st by (subst expand.simps) (auto simp: EXTRA_BUF_SIZE_def out_ok_def)
  next
    case True
    then obtain c p where p: "pattern = c # p" by (cases pattern) auto
    have put: "out_ok (out @ [d], Suc ptr)" for d using less.prems st True by (auto intro: out_ok_put)
    have fmt: "out_ok (snprintf_at out s)" for s using less.prems st True by (auto intro: out_ok_snprintf)
    have len: "length out \<le> 511" using less.prems st by (simp add: out_ok_def)
    have short: "length (tl r) < Suc (Suc (length q))" if "strchr q (CHR ''}'') = Some r" for q r
      using strchr_Some [OF that] by (metis le_add2 le_imp_less_Suc length_append length_tl diff_le_self le_trans less_SucI)
    show ?thesis
      unfolding st p using True IH [OF _ put] IH [OF _ fmt] len short
      by (subst expand.simps) (auto simp: EXTRA_BUF_SIZE_def Let_def p split: list.split option.split)
  qed
qed

lemma expand_literal:
  "CHR ''%'' \<notin> set lit \<Longrightarrow> length out + length lit < 511 \<Longrightarrow>
     expand env (out, length out) (lit @ rest) = expand env (out @ lit, length (out @ lit)) rest"
proof (induction lit arbitrary: out)
  case (Cons c lit)
  have "expand env (out, length out) ((c # lit) @ rest) = expand env (out @ [c], length (out @ [c])) (lit @ rest)"
    using Cons.prems by (subst expand.simps) (auto simp: EXTRA_BUF_SIZE_def)
  also have "\<dots> = expand env ((out @ [c]) @ lit, length ((out @ [c]) @ lit)) rest"
    using Cons.prems by (intro Cons.IH) auto
  finally show ?case by simp
qed simp

lemma expand_pid:
  "length out + length (dec (pid env)) < 511 \<Longrightarrow>
     expand env (out, length out) (''%p'' @ rest) = expand env (out @ dec (pid env), length (out @ dec (pid env))) rest"
  by (subst expand.simps) (auto simp: EXTRA_BUF_SIZE_def snprintf_at_def)

lemma expand_Nil: "expand env (out, ptr) [] = out"
  by (subst expand.simps) simp

text \<open>
  \<^verbatim>\<open>Arguments::expandFilePattern\<close>: whatever the pattern and the environment, the name fits the 511
  characters before the terminator; and a pattern with one \<^verbatim>\<open>%p\<close> between literal parts, short enough,
  becomes the same text with the process id in its place.
\<close>

theorem expandFilePattern_spec:
  "length (expandFilePattern env pattern) \<le> 511
   \<and> (CHR ''%'' \<notin> set pre \<longrightarrow> CHR ''%'' \<notin> set post \<longrightarrow> length pre + length (dec (pid env)) + length post < 511 \<longrightarrow>
        expandFilePattern env (pre @ ''%p'' @ post) = pre @ dec (pid env) @ post)"
proof -
  have "expandFilePattern env (pre @ ''%p'' @ post) = pre @ dec (pid env) @ post"
    if pre: "CHR ''%'' \<notin> set pre" and post: "CHR ''%'' \<notin> set post"
      and len: "length pre + length (dec (pid env)) + length post < 511"
  proof -
    have "expandFilePattern env (pre @ ''%p'' @ post) = expand env (pre, length pre) (''%p'' @ post)"
      unfolding expandFilePattern_def using expand_literal [OF pre, of "[]" env "''%p'' @ post"] len by simp
    also have "\<dots> = expand env (pre @ dec (pid env), length (pre @ dec (pid env))) post"
      using len by (intro expand_pid) simp
    also have "\<dots> = (pre @ dec (pid env)) @ post"
      using expand_literal [OF post, of "pre @ dec (pid env)" env "[]"] len by (simp add: expand_Nil)
    finally show ?thesis by simp
  qed
  moreover have "length (expandFilePattern env pattern) \<le> 511"
    unfolding expandFilePattern_def by (rule expand_bound) (simp add: out_ok_def)
  ultimately show ?thesis by blast
qed

theorem expandFilePattern_spec_witness:
  "expandFilePattern \<lparr>pid = 42, tm = [], getenv = \<lambda>_. None\<rparr> (''/tmp/'' @ ''%p'' @ ''.jfr'') = ''/tmp/42.jfr''"
  using expandFilePattern_spec [of "\<lparr>pid = 42, tm = [], getenv = \<lambda>_. None\<rparr>" "[]" "''/tmp/''" "''.jfr''"]
  by (simp add: dec.simps char_of_def bit_Suc_0_iff)

end
