(* ===== verification/Jfr_Metadata.thy ===== *)
theory Jfr_Metadata
  imports Prelude
begin

text \<open>
  Model of \<^verbatim>\<open>jfrMetadata.h/.cpp\<close>: the description of all event types that is written into each chunk.

  An element has a name, attributes and children; \<^verbatim>\<open>NoField\<close> is the element that \<^verbatim>\<open>operator<<\<close> drops. The
  code replaces every string by a number at the moment it is first used (\<^verbatim>\<open>Element::getId\<close>). The model keeps
  the strings in the tree and numbers them in \<open>build\<close>, in the order name, attributes, children, key before
  value; C++11 leaves the order of operands open, and the order only decides which number a string gets.
\<close>

section \<open>Types and flags\<close>

datatype JfrType =
    T_METADATA | T_CPOOL | T_BOOLEAN | T_CHAR | T_FLOAT | T_DOUBLE | T_BYTE | T_SHORT | T_INT | T_LONG |
    T_STRING | T_CLASS | T_THREAD | T_CLASS_LOADER | T_FRAME_TYPE | T_THREAD_STATE | T_STACK_TRACE |
    T_STACK_FRAME | T_METHOD | T_PACKAGE | T_SYMBOL | T_LOG_LEVEL | T_ATTRIBUTE_VALUE | T_EXECUTION_MODE |
    T_COUNTER_NAME | T_EVENT | T_EXECUTION_SAMPLE | T_METHOD_SAMPLE | T_ALLOC | T_HEAP_LIVE_OBJECT |
    T_MONITOR_ENTER | T_THREAD_PARK | T_CPU_LOAD | T_ACTIVE_RECORDING | T_ACTIVE_SETTING | T_OS_INFORMATION |
    T_CPU_INFORMATION | T_CPU_TSC | T_JVM_INFORMATION | T_INITIAL_SYSTEM_PROPERTY | T_NATIVE_LIBRARY | T_LOG |
    T_WALLCLOCK_SAMPLE_EPOCH | T_ENDPOINT | T_DATADOG_SETTING | T_HEAP_USAGE | T_DATADOG_PROFILER_CONFIG |
    T_QUEUE_TIME | T_DATADOG_CLASSREF_CACHE | T_DATADOG_COUNTER | T_UNWIND_FAILURE | T_ANNOTATION | T_LABEL |
    T_CATEGORY | T_TIMESTAMP | T_TIMESPAN | T_DATA_AMOUNT | T_MEMORY_ADDRESS | T_UNSIGNED | T_PERCENTAGE

primrec jfr_id :: "JfrType \<Rightarrow> nat" where
  "jfr_id T_METADATA = 0" | "jfr_id T_CPOOL = 1" | "jfr_id T_BOOLEAN = 4" | "jfr_id T_CHAR = 5" |
  "jfr_id T_FLOAT = 6" | "jfr_id T_DOUBLE = 7" | "jfr_id T_BYTE = 8" | "jfr_id T_SHORT = 9" |
  "jfr_id T_INT = 10" | "jfr_id T_LONG = 11" | "jfr_id T_STRING = 20" | "jfr_id T_CLASS = 21" |
  "jfr_id T_THREAD = 22" | "jfr_id T_CLASS_LOADER = 23" | "jfr_id T_FRAME_TYPE = 24" |
  "jfr_id T_THREAD_STATE = 25" | "jfr_id T_STACK_TRACE = 26" | "jfr_id T_STACK_FRAME = 27" |
  "jfr_id T_METHOD = 28" | "jfr_id T_PACKAGE = 29" | "jfr_id T_SYMBOL = 30" | "jfr_id T_LOG_LEVEL = 31" |
  "jfr_id T_ATTRIBUTE_VALUE = 32" | "jfr_id T_EXECUTION_MODE = 33" | "jfr_id T_COUNTER_NAME = 34" |
  "jfr_id T_EVENT = 100" | "jfr_id T_EXECUTION_SAMPLE = 101" | "jfr_id T_METHOD_SAMPLE = 102" |
  "jfr_id T_ALLOC = 103" | "jfr_id T_HEAP_LIVE_OBJECT = 105" | "jfr_id T_MONITOR_ENTER = 106" |
  "jfr_id T_THREAD_PARK = 107" | "jfr_id T_CPU_LOAD = 108" | "jfr_id T_ACTIVE_RECORDING = 109" |
  "jfr_id T_ACTIVE_SETTING = 110" | "jfr_id T_OS_INFORMATION = 111" | "jfr_id T_CPU_INFORMATION = 112" |
  "jfr_id T_CPU_TSC = 113" | "jfr_id T_JVM_INFORMATION = 114" | "jfr_id T_INITIAL_SYSTEM_PROPERTY = 115" |
  "jfr_id T_NATIVE_LIBRARY = 116" | "jfr_id T_LOG = 117" | "jfr_id T_WALLCLOCK_SAMPLE_EPOCH = 118" |
  "jfr_id T_ENDPOINT = 119" | "jfr_id T_DATADOG_SETTING = 120" | "jfr_id T_HEAP_USAGE = 121" |
  "jfr_id T_DATADOG_PROFILER_CONFIG = 122" | "jfr_id T_QUEUE_TIME = 123" |
  "jfr_id T_DATADOG_CLASSREF_CACHE = 124" | "jfr_id T_DATADOG_COUNTER = 125" |
  "jfr_id T_UNWIND_FAILURE = 126" | "jfr_id T_ANNOTATION = 200" | "jfr_id T_LABEL = 201" |
  "jfr_id T_CATEGORY = 202" | "jfr_id T_TIMESTAMP = 203" | "jfr_id T_TIMESPAN = 204" |
  "jfr_id T_DATA_AMOUNT = 205" | "jfr_id T_MEMORY_ADDRESS = 206" | "jfr_id T_UNSIGNED = 207" |
  "jfr_id T_PERCENTAGE = 208"

definition F_CPOOL :: nat where "F_CPOOL = 1"
definition F_ARRAY :: nat where "F_ARRAY = 2"
definition F_UNSIGNED :: nat where "F_UNSIGNED = 4"
definition F_BYTES :: nat where "F_BYTES = 8"
definition F_TIME_TICKS :: nat where "F_TIME_TICKS = 16"
definition F_TIME_MILLIS :: nat where "F_TIME_MILLIS = 32"
definition F_DURATION_TICKS :: nat where "F_DURATION_TICKS = 64"
definition F_DURATION_NANOS :: nat where "F_DURATION_NANOS = 128"
definition F_DURATION_MILLIS :: nat where "F_DURATION_MILLIS = 256"
definition F_ADDRESS :: nat where "F_ADDRESS = 512"
definition F_PERCENTAGE :: nat where "F_PERCENTAGE = 1024"

lemmas field_flags = F_CPOOL_def F_ARRAY_def F_UNSIGNED_def F_BYTES_def F_TIME_TICKS_def F_TIME_MILLIS_def
  F_DURATION_TICKS_def F_DURATION_NANOS_def F_DURATION_MILLIS_def F_ADDRESS_def F_PERCENTAGE_def

section \<open>Elements\<close>

datatype element = Element string "(string \<times> string) list" "element list" | NoField string

definition new_element :: "string \<Rightarrow> element" where
  "new_element name = Element name [] []"

fun attribute :: "string \<Rightarrow> string \<Rightarrow> element \<Rightarrow> element" where
  "attribute key v (Element name as cs) = Element name (as @ [(key, v)]) cs"
| "attribute key v (NoField name) = NoField name"

definition attribute_type :: "string \<Rightarrow> JfrType \<Rightarrow> element \<Rightarrow> element" where
  "attribute_type key t = attribute key (dec (jfr_id t))"

text \<open>
  \<^verbatim>\<open>operator<<\<close>, and a chain of it. The tree keeps a \<^verbatim>\<open>NoField\<close> child, since its construction has numbered its
  name; \<open>build_all\<close> leaves it out of the children.
\<close>

fun add_child :: "element \<Rightarrow> element \<Rightarrow> element" where
  "add_child (Element name as cs) c = Element name as (cs @ [c])"
| "add_child (NoField name) c = NoField name"

definition add_children :: "element \<Rightarrow> element list \<Rightarrow> element" where
  "add_children e cs = foldl add_child e cs"

definition custom_attribute :: "string \<Rightarrow> element" where
  "custom_attribute name =
     attribute ''constantPool'' ''true'' (attribute_type ''class'' T_ATTRIBUTE_VALUE (attribute ''name'' name (new_element ''field'')))"

text \<open>\<^verbatim>\<open>operator||\<close>.\<close>

definition add_attributes :: "element \<Rightarrow> string list \<Rightarrow> element" where
  "add_attributes e customAttributes = add_children e (map custom_attribute customAttributes)"

definition annotation :: "JfrType \<Rightarrow> string option \<Rightarrow> element" where
  "annotation t v =
     (let e = attribute_type ''class'' t (new_element ''annotation'')
      in case v of None \<Rightarrow> e | Some s \<Rightarrow> attribute ''value'' s e)"

definition category :: "string \<Rightarrow> string option \<Rightarrow> element" where
  "category value0 value1 =
     (let e = attribute ''value-0'' value0 (annotation T_CATEGORY None)
      in case value1 of None \<Rightarrow> e | Some s \<Rightarrow> attribute ''value-1'' s e)"

definition jfr_type :: "string \<Rightarrow> JfrType \<Rightarrow> string option \<Rightarrow> bool \<Rightarrow> element" where
  "jfr_type name t label simple =
     (let e = attribute_type ''id'' t (attribute ''name'' name (new_element ''class''));
          e = (if simple then attribute ''simpleType'' ''true'' e
               else if jfr_id t > jfr_id T_ANNOTATION then attribute ''superType'' ''java.lang.annotation.Annotation'' e
               else if jfr_id t > jfr_id T_EVENT then attribute ''superType'' ''jdk.jfr.Event'' e
               else e)
      in case label of None \<Rightarrow> e | Some l \<Rightarrow> add_child e (annotation T_LABEL (Some l)))"

definition flag_annotations :: "nat \<Rightarrow> element list" where
  "flag_annotations flags =
     (if flags AND F_UNSIGNED \<noteq> 0 then [annotation T_UNSIGNED None]
      else if flags AND F_BYTES \<noteq> 0 then [annotation T_UNSIGNED None, annotation T_DATA_AMOUNT (Some ''BYTES'')]
      else if flags AND F_TIME_TICKS \<noteq> 0 then [annotation T_TIMESTAMP (Some ''TICKS'')]
      else if flags AND F_TIME_MILLIS \<noteq> 0 then [annotation T_TIMESTAMP (Some ''MILLISECONDS_SINCE_EPOCH'')]
      else if flags AND F_DURATION_TICKS \<noteq> 0 then [annotation T_TIMESPAN (Some ''TICKS'')]
      else if flags AND F_DURATION_NANOS \<noteq> 0 then [annotation T_TIMESPAN (Some ''NANOSECONDS'')]
      else if flags AND F_DURATION_MILLIS \<noteq> 0 then [annotation T_TIMESPAN (Some ''MILLISECONDS'')]
      else if flags AND F_ADDRESS \<noteq> 0 then [annotation T_UNSIGNED None, annotation T_MEMORY_ADDRESS None]
      else if flags AND F_PERCENTAGE \<noteq> 0 then [annotation T_PERCENTAGE None]
      else [])"

definition jfr_field :: "string \<Rightarrow> JfrType \<Rightarrow> string option \<Rightarrow> nat \<Rightarrow> bool \<Rightarrow> element" where
  "jfr_field name t label flags condition =
     (if \<not> condition then NoField name
      else
        (let e = attribute_type ''class'' t (attribute ''name'' name (new_element ''field''));
             e = (if flags AND F_CPOOL \<noteq> 0 then attribute ''constantPool'' ''true'' e else e);
             e = (if flags AND F_ARRAY \<noteq> 0 then attribute ''dimension'' ''1'' e else e);
             e = (case label of None \<Rightarrow> e | Some l \<Rightarrow> add_child e (annotation T_LABEL (Some l)))
         in add_children e (flag_annotations flags)))"

section \<open>The event types\<close>

text \<open>\<open>v14\<close> is \<^verbatim>\<open>VM::hotspot_version() >= 14\<close>.\<close>

definition primitive_types :: "element list" where
  "primitive_types =
     [jfr_type ''boolean'' T_BOOLEAN None False,
      jfr_type ''char'' T_CHAR None False,
      jfr_type ''float'' T_FLOAT None False,
      jfr_type ''double'' T_DOUBLE None False,
      jfr_type ''byte'' T_BYTE None False,
      jfr_type ''short'' T_SHORT None False,
      jfr_type ''int'' T_INT None False,
      jfr_type ''long'' T_LONG None False,
      jfr_type ''java.lang.String'' T_STRING None False]"

definition constant_types :: "element list" where
  "constant_types =
     [add_children (jfr_type ''java.lang.Class'' T_CLASS (Some ''Java Class'') False)
        [jfr_field ''classLoader'' T_CLASS_LOADER (Some ''Class Loader'') F_CPOOL True,
         jfr_field ''name'' T_SYMBOL (Some ''Name'') F_CPOOL True,
         jfr_field ''package'' T_PACKAGE (Some ''Package'') F_CPOOL True,
         jfr_field ''modifiers'' T_INT (Some ''Access Modifiers'') 0 True],
      add_children (jfr_type ''java.lang.Thread'' T_THREAD (Some ''Thread'') False)
        [jfr_field ''osName'' T_STRING (Some ''OS Thread Name'') 0 True,
         jfr_field ''osThreadId'' T_LONG (Some ''OS Thread Id'') 0 True,
         jfr_field ''javaName'' T_STRING (Some ''Java Thread Name'') 0 True,
         jfr_field ''javaThreadId'' T_LONG (Some ''Java Thread Id'') 0 True],
      add_children (jfr_type ''jdk.types.ClassLoader'' T_CLASS_LOADER (Some ''Java Class Loader'') False)
        [jfr_field ''type'' T_CLASS (Some ''Type'') F_CPOOL True,
         jfr_field ''name'' T_SYMBOL (Some ''Name'') F_CPOOL True],
      add_children (jfr_type ''jdk.types.FrameType'' T_FRAME_TYPE (Some ''Frame type'') True)
        [jfr_field ''description'' T_STRING (Some ''Description'') 0 True],
      add_children (jfr_type ''jdk.types.ThreadState'' T_THREAD_STATE (Some ''Java Thread State'') True)
        [jfr_field ''name'' T_STRING (Some ''Name'') 0 True],
      add_children (jfr_type ''datadog.types.ExecutionMode'' T_EXECUTION_MODE (Some ''Execution Mode'') True)
        [jfr_field ''name'' T_STRING (Some ''Name'') 0 True],
      add_children (jfr_type ''jdk.types.StackTrace'' T_STACK_TRACE (Some ''Stacktrace'') False)
        [jfr_field ''truncated'' T_BOOLEAN (Some ''Truncated'') 0 True,
         jfr_field ''frames'' T_STACK_FRAME (Some ''Stack Frames'') F_ARRAY True],
      add_children (jfr_type ''jdk.types.StackFrame'' T_STACK_FRAME None False)
        [jfr_field ''method'' T_METHOD (Some ''Java Method'') F_CPOOL True,
         jfr_field ''lineNumber'' T_INT (Some ''Line Number'') 0 True,
         jfr_field ''bytecodeIndex'' T_INT (Some ''Bytecode Index'') 0 True,
         jfr_field ''type'' T_FRAME_TYPE (Some ''Frame Type'') F_CPOOL True],
      add_children (jfr_type ''jdk.types.Method'' T_METHOD (Some ''Java Method'') False)
        [jfr_field ''type'' T_CLASS (Some ''Type'') F_CPOOL True,
         jfr_field ''name'' T_SYMBOL (Some ''Name'') F_CPOOL True,
         jfr_field ''descriptor'' T_SYMBOL (Some ''Descriptor'') F_CPOOL True,
         jfr_field ''modifiers'' T_INT (Some ''Access Modifiers'') 0 True,
         jfr_field ''hidden'' T_BOOLEAN (Some ''Hidden'') 0 True],
      add_children (jfr_type ''jdk.types.Package'' T_PACKAGE (Some ''Package'') False)
        [jfr_field ''name'' T_SYMBOL (Some ''Name'') F_CPOOL True],
      add_children (jfr_type ''jdk.types.Symbol'' T_SYMBOL (Some ''Symbol'') True)
        [jfr_field ''string'' T_STRING (Some ''String'') 0 True],
      add_children (jfr_type ''profiler.types.LogLevel'' T_LOG_LEVEL (Some ''Log Level'') True)
        [jfr_field ''name'' T_STRING (Some ''Name'') 0 True],
      add_children (jfr_type ''profiler.types.AttributeValue'' T_ATTRIBUTE_VALUE (Some ''Value'') True)
        [jfr_field ''value'' T_STRING (Some ''Value'') 0 True],
      add_children (jfr_type ''profiler.types.CounterName'' T_COUNTER_NAME (Some ''Value'') True)
        [jfr_field ''value'' T_STRING (Some ''Value'') 0 True]]"

definition sample_types :: "string list \<Rightarrow> element list" where
  "sample_types attrs =
     [add_attributes (add_children (jfr_type ''datadog.ExecutionSample'' T_EXECUTION_SAMPLE (Some ''Method CPU Profiling Sample'') False)
        [category ''Datadog'' (Some ''Profiling''),
         jfr_field ''startTime'' T_LONG (Some ''Start Time'') F_TIME_TICKS True,
         jfr_field ''eventThread'' T_THREAD (Some ''Thread'') F_CPOOL True,
         jfr_field ''stackTrace'' T_STACK_TRACE (Some ''Stack Trace'') F_CPOOL True,
         jfr_field ''state'' T_THREAD_STATE (Some ''Thread State'') F_CPOOL True,
         jfr_field ''mode'' T_EXECUTION_MODE (Some ''Execution Mode'') F_CPOOL True,
         jfr_field ''weight'' T_LONG (Some ''Sample weight'') 0 True,
         jfr_field ''spanId'' T_LONG (Some ''Span ID'') 0 True,
         jfr_field ''localRootSpanId'' T_LONG (Some ''Local Root Span ID'') 0 True])
        attrs,
      add_attributes (add_children (jfr_type ''datadog.MethodSample'' T_METHOD_SAMPLE (Some ''Method Wall Profiling Sample'') False)
        [category ''Datadog'' (Some ''Profiling''),
         jfr_field ''startTime'' T_LONG (Some ''Start Time'') F_TIME_TICKS True,
         jfr_field ''eventThread'' T_THREAD (Some ''Thread'') F_CPOOL True,
         jfr_field ''stackTrace'' T_STACK_TRACE (Some ''Stack Trace'') F_CPOOL True,
         jfr_field ''state'' T_THREAD_STATE (Some ''Thread State'') F_CPOOL True,
         jfr_field ''mode'' T_EXECUTION_MODE (Some ''Execution Mode'') F_CPOOL True,
         jfr_field ''weight'' T_LONG (Some ''Sample weight'') 0 True,
         jfr_field ''spanId'' T_LONG (Some ''Span ID'') 0 True,
         jfr_field ''localRootSpanId'' T_LONG (Some ''Local Root Span ID'') 0 True])
        attrs,
      add_children (jfr_type ''datadog.WallClockSamplingEpoch'' T_WALLCLOCK_SAMPLE_EPOCH (Some ''WallClock Sampling Epoch'') False)
        [category ''Datadog'' (Some ''Profiling''),
         jfr_field ''startTime'' T_LONG (Some ''Start Time'') F_TIME_TICKS True,
         jfr_field ''duration'' T_LONG (Some ''Duration'') F_DURATION_MILLIS True,
         jfr_field ''samplePoolSize'' T_INT (Some ''Sample Pool Size'') 0 True,
         jfr_field ''numSuccessfulSamples'' T_INT (Some ''Number of Successful Samples'') 0 True,
         jfr_field ''numFailedSamples'' T_INT (Some ''Number of Failed Samples'') 0 True,
         jfr_field ''numExitedThreads'' T_INT (Some ''Number of Exited Threads Before Handling Signal'') 0 True,
         jfr_field ''numPermissionDenied'' T_INT (Some ''Number of Permission Denied Errors'') 0 True],
      add_attributes (add_children (jfr_type ''datadog.ObjectSample'' T_ALLOC (Some ''Allocation sample'') False)
        [category ''Datadog'' (Some ''Profiling''),
         jfr_field ''startTime'' T_LONG (Some ''Start Time'') F_TIME_TICKS True,
         jfr_field ''eventThread'' T_THREAD (Some ''Event Thread'') F_CPOOL True,
         jfr_field ''stackTrace'' T_STACK_TRACE (Some ''Stack Trace'') F_CPOOL True,
         jfr_field ''objectClass'' T_CLASS (Some ''Object Class'') F_CPOOL True,
         jfr_field ''size'' T_LONG (Some ''Original Size'') F_BYTES True,
         jfr_field ''weight'' T_FLOAT (Some ''Sample weight'') 0 True,
         jfr_field ''spanId'' T_LONG (Some ''Span ID'') 0 True,
         jfr_field ''localRootSpanId'' T_LONG (Some ''Local Root Span ID'') 0 True])
        attrs,
      add_attributes (add_children (jfr_type ''datadog.HeapLiveObject'' T_HEAP_LIVE_OBJECT (Some ''Heap Live Object'') False)
        [category ''Datadog'' (Some ''Profiling''),
         jfr_field ''startTime'' T_LONG (Some ''Start Time'') F_TIME_TICKS True,
         jfr_field ''eventThread'' T_THREAD (Some ''Event Thread'') F_CPOOL True,
         jfr_field ''stackTrace'' T_STACK_TRACE (Some ''Stack Trace'') F_CPOOL True,
         jfr_field ''objectClass'' T_CLASS (Some ''Object Class'') F_CPOOL True,
         jfr_field ''age'' T_LONG (Some ''Age'') F_UNSIGNED True,
         jfr_field ''size'' T_LONG (Some ''Original Size'') F_BYTES True,
         jfr_field ''weight'' T_FLOAT (Some ''Sample weight'') 0 True,
         jfr_field ''spanId'' T_LONG (Some ''Span ID'') 0 True,
         jfr_field ''localRootSpanId'' T_LONG (Some ''Local Root Span ID'') 0 True])
        attrs,
      add_children (jfr_type ''datadog.Endpoint'' T_ENDPOINT (Some ''Endpoint'') False)
        [category ''Datadog'' None,
         jfr_field ''startTime'' T_LONG (Some ''Start Time'') F_TIME_TICKS True,
         jfr_field ''duration'' T_LONG (Some ''Duration'') F_DURATION_TICKS True,
         jfr_field ''eventThread'' T_THREAD (Some ''Event Thread'') F_CPOOL True,
         jfr_field ''stackTrace'' T_STACK_TRACE (Some ''Stack Trace'') F_CPOOL True,
         jfr_field ''endpoint'' T_STRING (Some ''Endpoint'') F_CPOOL True,
         jfr_field ''operation'' T_ATTRIBUTE_VALUE (Some ''Operation'') F_CPOOL True,
         jfr_field ''localRootSpanId'' T_LONG (Some ''Local Root Span ID'') 0 True],
      add_attributes (add_children (jfr_type ''datadog.QueueTime'' T_QUEUE_TIME (Some ''Queue Time'') False)
        [category ''Datadog'' None,
         jfr_field ''startTime'' T_LONG (Some ''Start Time'') F_TIME_TICKS True,
         jfr_field ''duration'' T_LONG (Some ''Duration'') F_DURATION_TICKS True,
         jfr_field ''eventThread'' T_THREAD (Some ''Event Thread'') F_CPOOL True,
         jfr_field ''origin'' T_THREAD (Some ''Origin Thread'') F_CPOOL True,
         jfr_field ''task'' T_CLASS (Some ''Task'') F_CPOOL True,
         jfr_field ''scheduler'' T_CLASS (Some ''Scheduler'') F_CPOOL True,
         jfr_field ''queueType'' T_CLASS (Some ''Queue Type'') F_CPOOL True,
         jfr_field ''queueLength'' T_INT (Some ''Queue Length on Entry'') 0 True,
         jfr_field ''spanId'' T_LONG (Some ''Span ID'') 0 True,
         jfr_field ''localRootSpanId'' T_LONG (Some ''Local Root Span ID'') 0 True])
        attrs]"

definition recording_types :: "bool \<Rightarrow> element list" where
  "recording_types v14 =
     [add_children (jfr_type ''datadog.HeapUsage'' T_HEAP_USAGE (Some ''JVM Heap Usage'') False)
        [category ''Datadog'' None,
         jfr_field ''startTime'' T_LONG (Some ''Start Time'') F_TIME_TICKS True,
         jfr_field ''size'' T_LONG (Some ''Current Heap Usage'') F_BYTES True,
         jfr_field ''isLive'' T_BOOLEAN (Some ''After GC'') 0 True],
      add_children (jfr_type ''jdk.CPULoad'' T_CPU_LOAD (Some ''CPU Load'') False)
        [category ''Operating System'' (Some ''Processor''),
         jfr_field ''startTime'' T_LONG (Some ''Start Time'') F_TIME_TICKS True,
         jfr_field ''jvmUser'' T_FLOAT (Some ''JVM User'') F_PERCENTAGE True,
         jfr_field ''jvmSystem'' T_FLOAT (Some ''JVM System'') F_PERCENTAGE True,
         jfr_field ''machineTotal'' T_FLOAT (Some ''Machine Total'') F_PERCENTAGE True],
      add_children (jfr_type ''jdk.ActiveRecording'' T_ACTIVE_RECORDING (Some ''java-profiler Recording'') False)
        [category ''Flight Recorder'' None,
         jfr_field ''startTime'' T_LONG (Some ''Start Time'') F_TIME_TICKS True,
         jfr_field ''duration'' T_LONG (Some ''Duration'') F_DURATION_TICKS True,
         jfr_field ''eventThread'' T_THREAD (Some ''Event Thread'') F_CPOOL True,
         jfr_field ''stackTrace'' T_STACK_TRACE (Some ''Stack Trace'') F_CPOOL True,
         jfr_field ''id'' T_LONG (Some ''Id'') 0 True,
         jfr_field ''name'' T_STRING (Some ''Name'') 0 True,
         jfr_field ''destination'' T_STRING (Some ''Destination'') 0 True,
         jfr_field ''maxAge'' T_LONG (Some ''Max Age'') F_DURATION_MILLIS True,
         jfr_field ''flushInterval'' T_LONG (Some ''Flush Interval'') F_DURATION_MILLIS v14,
         jfr_field ''maxSize'' T_LONG (Some ''Max Size'') F_BYTES True,
         jfr_field ''recordingStart'' T_LONG (Some ''Start Time'') F_TIME_MILLIS True,
         jfr_field ''recordingDuration'' T_LONG (Some ''Recording Duration'') F_DURATION_MILLIS True],
      add_children (jfr_type ''jdk.ActiveSetting'' T_ACTIVE_SETTING (Some ''java-profiler Setting'') False)
        [category ''Flight Recorder'' None,
         jfr_field ''startTime'' T_LONG (Some ''Start Time'') F_TIME_TICKS True,
         jfr_field ''duration'' T_LONG (Some ''Duration'') F_DURATION_TICKS True,
         jfr_field ''eventThread'' T_THREAD (Some ''Event Thread'') F_CPOOL True,
         jfr_field ''stackTrace'' T_STACK_TRACE (Some ''Stack Trace'') F_CPOOL True,
         jfr_field ''id'' T_LONG (Some ''Event Id'') 0 True,
         jfr_field ''name'' T_STRING (Some ''Setting Name'') 0 True,
         jfr_field ''value'' T_STRING (Some ''Setting Value'') 0 True],
      add_children (jfr_type ''datadog.ProfilerSetting'' T_DATADOG_SETTING (Some ''Profiler Configuration Setting'') False)
        [category ''Datadog'' None,
         jfr_field ''startTime'' T_LONG (Some ''Start Time'') F_TIME_TICKS True,
         jfr_field ''duration'' T_LONG (Some ''Duration'') F_DURATION_TICKS True,
         jfr_field ''eventThread'' T_THREAD (Some ''Event Thread'') F_CPOOL True,
         jfr_field ''stackTrace'' T_STACK_TRACE (Some ''Stack Trace'') F_CPOOL True,
         jfr_field ''name'' T_STRING (Some ''Setting Name'') 0 True,
         jfr_field ''value'' T_STRING (Some ''Setting Value'') 0 True,
         jfr_field ''unit'' T_STRING (Some ''Setting Unit'') 0 True],
      add_children (jfr_type ''datadog.DatadogProfilerConfig'' T_DATADOG_PROFILER_CONFIG (Some ''Datadog Profiler Configuration'') False)
        [category ''Datadog'' None,
         jfr_field ''startTime'' T_LONG (Some ''Start Time'') F_TIME_TICKS True,
         jfr_field ''duration'' T_LONG (Some ''Duration'') F_DURATION_TICKS True,
         jfr_field ''eventThread'' T_THREAD (Some ''Event Thread'') F_CPOOL True,
         jfr_field ''cpuInterval'' T_LONG (Some ''CPU Sampling Interval'') F_DURATION_MILLIS True,
         jfr_field ''wallInterval'' T_LONG (Some ''Wall Sampling Interval'') F_DURATION_MILLIS True,
         jfr_field ''allocInterval'' T_LONG (Some ''Allocation Sampling Interval'') F_BYTES True,
         jfr_field ''memleakInterval'' T_LONG (Some ''MemLeak Sampling Interval'') F_BYTES True,
         jfr_field ''memleakCapacity'' T_LONG (Some ''MemLeak Sampling Capacity'') 0 True,
         jfr_field ''memleakTrackPercent'' T_LONG (Some ''MemLeak Subsampling Percentage'') 0 True,
         jfr_field ''gcGenerations'' T_BOOLEAN (Some ''GC Generations Tracking'') 0 True,
         jfr_field ''modeMask'' T_INT (Some ''Profiling mode bitmask'') 0 True,
         jfr_field ''version'' T_STRING (Some ''Version'') 0 True,
         jfr_field ''cpuEngine'' T_STRING (Some ''CPU Engine'') 0 True],
      add_children (jfr_type ''datadog.DatadogProfilerClassRefCache'' T_DATADOG_CLASSREF_CACHE (Some ''Datadog ClassRef Cache Stats'') False)
        [category ''Datadog'' None,
         jfr_field ''startTime'' T_LONG (Some ''Start Time'') F_TIME_TICKS True,
         jfr_field ''size'' T_LONG (Some ''Cache Size'') F_BYTES True],
      add_children (jfr_type ''datadog.ProfilerCounter'' T_DATADOG_COUNTER (Some ''Datadog Profiler Internal Counter'') False)
        [category ''Datadog'' None,
         jfr_field ''startTime'' T_LONG (Some ''Start Time'') F_TIME_TICKS True,
         jfr_field ''name'' T_COUNTER_NAME (Some ''Name'') 0 True,
         jfr_field ''count'' T_LONG (Some ''Count'') 0 True],
      add_children (jfr_type ''datadog.UnwindFailure'' T_UNWIND_FAILURE (Some ''Unwind Failure'') False)
        [category ''Datadog'' None,
         jfr_field ''startTime'' T_LONG (Some ''Start Time'') F_TIME_TICKS True,
         jfr_field ''kind'' T_STRING (Some ''Kind'') 0 True,
         jfr_field ''name'' T_STRING (Some ''Name'') 0 True,
         jfr_field ''count'' T_LONG (Some ''Count'') 0 True]]"

definition system_types :: "element list" where
  "system_types =
     [add_children (jfr_type ''jdk.OSInformation'' T_OS_INFORMATION (Some ''OS Information'') False)
        [category ''Operating System'' None,
         jfr_field ''startTime'' T_LONG (Some ''Start Time'') F_TIME_TICKS True,
         jfr_field ''osVersion'' T_STRING (Some ''OS Version'') 0 True],
      add_children (jfr_type ''jdk.CPUInformation'' T_CPU_INFORMATION (Some ''CPU Information'') False)
        [category ''Operating System'' (Some ''Processor''),
         jfr_field ''startTime'' T_LONG (Some ''Start Time'') F_TIME_TICKS True,
         jfr_field ''cpu'' T_STRING (Some ''Type'') 0 True,
         jfr_field ''description'' T_STRING (Some ''Description'') 0 True,
         jfr_field ''sockets'' T_INT (Some ''Sockets'') F_UNSIGNED True,
         jfr_field ''cores'' T_INT (Some ''Cores'') F_UNSIGNED True,
         jfr_field ''hwThreads'' T_INT (Some ''Hardware Threads'') F_UNSIGNED True],
      add_children (jfr_type ''jdk.JVMInformation'' T_JVM_INFORMATION (Some ''JVM Information'') False)
        [category ''Java Virtual Machine'' None,
         jfr_field ''startTime'' T_LONG (Some ''Start Time'') F_TIME_TICKS True,
         jfr_field ''jvmName'' T_STRING (Some ''JVM Name'') 0 True,
         jfr_field ''jvmVersion'' T_STRING (Some ''JVM Version'') 0 True,
         jfr_field ''jvmArguments'' T_STRING (Some ''JVM Command Line Arguments'') 0 True,
         jfr_field ''jvmFlags'' T_STRING (Some ''JVM Settings File Arguments'') 0 True,
         jfr_field ''javaArguments'' T_STRING (Some ''Java Application Arguments'') 0 True,
         jfr_field ''jvmStartTime'' T_LONG (Some ''JVM Start Time'') F_TIME_MILLIS True,
         jfr_field ''pid'' T_LONG (Some ''Process Identifier'') 0 True],
      add_children (jfr_type ''jdk.InitialSystemProperty'' T_INITIAL_SYSTEM_PROPERTY (Some ''Initial System Property'') False)
        [category ''Java Virtual Machine'' None,
         jfr_field ''startTime'' T_LONG (Some ''Start Time'') F_TIME_TICKS True,
         jfr_field ''key'' T_STRING (Some ''Key'') 0 True,
         jfr_field ''value'' T_STRING (Some ''Value'') 0 True],
      add_children (jfr_type ''jdk.NativeLibrary'' T_NATIVE_LIBRARY (Some ''Native Library'') False)
        [category ''Java Virtual Machine'' (Some ''Runtime''),
         jfr_field ''startTime'' T_LONG (Some ''Start Time'') F_TIME_TICKS True,
         jfr_field ''name'' T_STRING (Some ''Name'') 0 True,
         jfr_field ''baseAddress'' T_LONG (Some ''Base Address'') F_ADDRESS True,
         jfr_field ''topAddress'' T_LONG (Some ''Top Address'') F_ADDRESS True],
      add_children (jfr_type ''profiler.Log'' T_LOG (Some ''Log Message'') False)
        [category ''Profiler'' None,
         jfr_field ''startTime'' T_LONG (Some ''Start Time'') F_TIME_TICKS True,
         jfr_field ''level'' T_LOG_LEVEL (Some ''Level'') F_CPOOL True,
         jfr_field ''message'' T_STRING (Some ''Message'') 0 True]]"

definition annotation_types :: "element list" where
  "annotation_types =
     [add_children (jfr_type ''jdk.jfr.Label'' T_LABEL None False)
        [jfr_field ''value'' T_STRING None 0 True],
      add_children (jfr_type ''jdk.jfr.Category'' T_CATEGORY None False)
        [jfr_field ''value'' T_STRING None F_ARRAY True],
      add_children (jfr_type ''jdk.jfr.Timestamp'' T_TIMESTAMP (Some ''Timestamp'') False)
        [jfr_field ''value'' T_STRING None 0 True],
      add_children (jfr_type ''jdk.jfr.Timespan'' T_TIMESPAN (Some ''Timespan'') False)
        [jfr_field ''value'' T_STRING None 0 True],
      add_children (jfr_type ''jdk.jfr.DataAmount'' T_DATA_AMOUNT (Some ''Data Amount'') False)
        [jfr_field ''value'' T_STRING None 0 True],
      jfr_type ''jdk.jfr.MemoryAddress'' T_MEMORY_ADDRESS (Some ''Memory Address'') False,
      jfr_type ''jdk.jfr.Unsigned'' T_UNSIGNED (Some ''Unsigned Value'') False,
      jfr_type ''jdk.jfr.Percentage'' T_PERCENTAGE (Some ''Percentage'') False]"

definition metadata_types :: "string list \<Rightarrow> bool \<Rightarrow> element list" where
  "metadata_types attrs v14 = primitive_types @ constant_types @ sample_types attrs @ recording_types v14 @ system_types
     @ annotation_types"

definition metadata_root :: "string list \<Rightarrow> bool \<Rightarrow> element" where
  "metadata_root attrs v14 =
     add_children (new_element ''root'')
       [add_children (new_element ''metadata'') (metadata_types attrs v14),
        attribute ''gmtOffset'' ''0'' (attribute ''locale'' ''en_US'' (new_element ''region''))]"

section \<open>Numbering of the strings\<close>

text \<open>
  \<^verbatim>\<open>_strings\<close> and \<^verbatim>\<open>_string_map\<close>. A string that is not in the map is entered with the new size of the map as
  its value; \<^verbatim>\<open>getId\<close> returns that value less one.
\<close>

record string_table =
  string_map :: "(string \<times> nat) list"
  strings :: "string list"

definition new_string_table :: string_table where
  "new_string_table = \<lparr>string_map = [], strings = []\<rparr>"

definition getId :: "string \<Rightarrow> string_table \<Rightarrow> nat \<times> string_table" where
  "getId s t =
     (case map_of (string_map t) s of
        Some n \<Rightarrow> (n - 1, t)
      | None \<Rightarrow>
          (let n = length (string_map t) + 1
           in (n - 1, t\<lparr>string_map := (s, n) # string_map t, strings := strings t @ [s]\<rparr>)))"

text \<open>An element as the code stores it.\<close>

datatype ielement = IElement (ie_name: nat) (ie_attributes: "(nat \<times> nat) list") (ie_children: "ielement list")

fun is_nofield :: "element \<Rightarrow> bool" where
  "is_nofield (NoField _) = True"
| "is_nofield (Element _ _ _) = False"

fun build_attributes :: "(string \<times> string) list \<Rightarrow> string_table \<Rightarrow> (nat \<times> nat) list \<times> string_table" where
  "build_attributes [] t = ([], t)"
| "build_attributes ((k, v) # as) t =
     (case getId k t of (i, t1) \<Rightarrow> case getId v t1 of (j, t2) \<Rightarrow>
        case build_attributes as t2 of (r, t3) \<Rightarrow> ((i, j) # r, t3))"

fun build :: "element \<Rightarrow> string_table \<Rightarrow> ielement \<times> string_table"
  and build_all :: "element list \<Rightarrow> string_table \<Rightarrow> ielement list \<times> string_table" where
  "build (NoField name) t = (case getId name t of (n, t1) \<Rightarrow> (IElement n [] [], t1))"
| "build (Element name as cs) t =
     (case getId name t of (n, t1) \<Rightarrow> case build_attributes as t1 of (ias, t2) \<Rightarrow>
        case build_all cs t2 of (ics, t3) \<Rightarrow> (IElement n ias ics, t3))"
| "build_all [] t = ([], t)"
| "build_all (c # cs) t =
     (case build c t of (e, t1) \<Rightarrow> case build_all cs t1 of (es, t2) \<Rightarrow> (if is_nofield c then es else e # es, t2))"

text \<open>The state of the class: the table, whether \<^verbatim>\<open>initialize\<close> has run, and the tree of \<^verbatim>\<open>_root\<close>.\<close>

record jfr_metadata =
  meta_table :: string_table
  meta_root :: ielement
  meta_initialized :: bool

definition new_JfrMetadata :: jfr_metadata where
  "new_JfrMetadata =
     (case getId ''root'' new_string_table of (n, t) \<Rightarrow>
        \<lparr>meta_table = t, meta_root = IElement n [] [], meta_initialized = False\<rparr>)"

text \<open>
  \<^verbatim>\<open>initialize\<close> appends the children to \<^verbatim>\<open>_root\<close>, whose name is already numbered, and clears the map.
\<close>

definition initialize_metadata :: "string list \<Rightarrow> bool \<Rightarrow> jfr_metadata \<Rightarrow> jfr_metadata" where
  "initialize_metadata contextAttributes v14 m =
     (if meta_initialized m then m
      else
        (case metadata_root contextAttributes v14 of
           Element _ _ cs \<Rightarrow>
             (case build_all cs (meta_table m) of (ics, t) \<Rightarrow>
                \<lparr>meta_table = t\<lparr>string_map := []\<rparr>,
                 meta_root = IElement (ie_name (meta_root m)) (ie_attributes (meta_root m)) (ie_children (meta_root m) @ ics),
                 meta_initialized = True\<rparr>)
         | NoField _ \<Rightarrow> m))"

section \<open>The numbering can be undone\<close>

text \<open>Replacing the numbers by their strings, and the tree without the dropped elements.\<close>

primrec resolve :: "string list \<Rightarrow> ielement \<Rightarrow> element" where
  "resolve ss (IElement n as cs) = Element (ss ! n) (map (\<lambda>(i, j). (ss ! i, ss ! j)) as) (map (resolve ss) cs)"

fun drop_nofields :: "element \<Rightarrow> element" where
  "drop_nofields (NoField name) = Element name [] []"
| "drop_nofields (Element name as cs) = Element name as (map drop_nofields (filter (\<lambda>c. \<not> is_nofield c) cs))"

text \<open>
  The table is consistent: the map sends the string at position \<open>n\<close> to \<open>n + 1\<close> and has no other entries.
\<close>

definition table_ok :: "string_table \<Rightarrow> bool" where
  "table_ok t \<longleftrightarrow> distinct (strings t) \<and> length (string_map t) = length (strings t) \<and>
     (\<forall>s n. map_of (string_map t) s = Some n \<longleftrightarrow> 0 < n \<and> n \<le> length (strings t) \<and> strings t ! (n - 1) = s)"

text \<open>\<open>extends t t'\<close>: later strings are only appended.\<close>

definition extends :: "string_table \<Rightarrow> string_table \<Rightarrow> bool" where
  "extends t t' \<longleftrightarrow> (\<exists>more. strings t' = strings t @ more)"

lemma extends_refl [simp]: "extends t t"
  by (simp add: extends_def)

lemma extends_trans: "extends t t' \<Longrightarrow> extends t' t'' \<Longrightarrow> extends t t''"
  by (auto simp: extends_def)

lemma extends_nth: "extends t t' \<Longrightarrow> n < length (strings t) \<Longrightarrow> strings t' ! n = strings t ! n"
  by (auto simp: extends_def nth_append)

lemma extends_length: "extends t t' \<Longrightarrow> n < length (strings t) \<Longrightarrow> n < length (strings t')"
  by (auto simp: extends_def)

lemma table_ok_new: "table_ok new_string_table"
  by (auto simp: table_ok_def new_string_table_def)

lemma getId_ok:
  assumes ok: "table_ok t" and g: "getId s t = (n, t')"
  shows "table_ok t'" and "extends t t'" and "n < length (strings t')" and "strings t' ! n = s"
proof -
  have maps: "map_of (string_map t) x = Some k \<longleftrightarrow> 0 < k \<and> k \<le> length (strings t) \<and> strings t ! (k - 1) = x" for x k
    using ok by (simp add: table_ok_def)
  have "table_ok t' \<and> extends t t' \<and> n < length (strings t') \<and> strings t' ! n = s"
  proof (cases "map_of (string_map t) s")
    case None
    have t': "t' = t\<lparr>string_map := (s, length (string_map t) + 1) # string_map t, strings := strings t @ [s]\<rparr>"
      and n: "n = length (strings t)"
      using g None ok by (auto simp: getId_def table_ok_def)
    have new: "s \<notin> set (strings t)"
    proof
      assume "s \<in> set (strings t)"
      then obtain k where "k < length (strings t)" "strings t ! k = s" by (auto simp: in_set_conv_nth)
      then have "map_of (string_map t) s = Some (Suc k)" by (simp add: maps)
      then show False using None by simp
    qed
    have len: "length (string_map t) = length (strings t)" using ok by (simp add: table_ok_def)
    have "map_of (string_map t') x = Some k \<longleftrightarrow> 0 < k \<and> k \<le> length (strings t') \<and> strings t' ! (k - 1) = x" for x k
      using new maps [of x k] by (auto simp: t' len nth_append less_Suc_eq_le le_Suc_eq nth_mem)
    moreover have "distinct (strings t')" "length (string_map t') = length (strings t')"
      using ok new by (auto simp: table_ok_def t')
    ultimately have "table_ok t'" unfolding table_ok_def by blast
    then show ?thesis by (simp add: t' n extends_def)
  next
    case (Some k)
    then have "n = k - 1" "t' = t" using g by (simp_all add: getId_def)
    moreover have "0 < k" "k \<le> length (strings t)" "strings t ! (k - 1) = s" using maps Some by blast+
    ultimately show ?thesis using ok by auto
  qed
  then show "table_ok t'" and "extends t t'" and "n < length (strings t')" and "strings t' ! n = s" by auto
qed

text \<open>All numbers of a tree lie inside a table of \<open>k\<close> strings.\<close>

primrec numbers_below :: "nat \<Rightarrow> ielement \<Rightarrow> bool" where
  "numbers_below k (IElement n as cs) \<longleftrightarrow> n < k \<and> (\<forall>(i, j)\<in>set as. i < k \<and> j < k) \<and> list_all (numbers_below k) cs"

lemma numbers_below_mono: "numbers_below k e \<Longrightarrow> k \<le> m \<Longrightarrow> numbers_below m e"
  by (induction e) (auto simp: list_all_iff)

lemma resolve_extends: "numbers_below (length (strings t)) e \<Longrightarrow> extends t t' \<Longrightarrow> resolve (strings t') e = resolve (strings t) e"
  by (induction e) (auto simp: extends_nth list_all_iff)

lemma build_attributes_ok:
  assumes "table_ok t" and "build_attributes as t = (r, t')"
  shows "table_ok t' \<and> extends t t' \<and> (\<forall>(i, j)\<in>set r. i < length (strings t') \<and> j < length (strings t')) \<and>
         map (\<lambda>(i, j). (strings t' ! i, strings t' ! j)) r = as"
  using assms
proof (induction as t arbitrary: r t' rule: build_attributes.induct)
  case (1 t)
  then show ?case by simp
next
  case (2 k v as t)
  obtain i t1 where g1: "getId k t = (i, t1)" by (cases "getId k t")
  obtain j t2 where g2: "getId v t1 = (j, t2)" by (cases "getId v t1")
  obtain r' where b: "build_attributes as t2 = (r', t')" and r: "r = (i, j) # r'"
    using 2(3) g1 g2 by (auto split: prod.splits)
  note o1 = getId_ok [OF 2(2) g1]
  note o2 = getId_ok [OF o1(1) g2]
  note ih = 2(1) [OF g1 [symmetric] g2 [symmetric] o2(1) b]
  have e: "extends t2 t'" using ih by auto
  show ?case
    using ih o1 o2 e extends_trans [OF o1(2) extends_trans [OF o2(2)]]
      extends_nth [OF extends_trans [OF o2(2) e], of i] extends_length [OF extends_trans [OF o2(2) e], of i]
      extends_nth [OF e, of j] extends_length [OF e, of j]
    by (auto simp: r)
qed


lemma build_ok:
  "table_ok t \<Longrightarrow> build e t = (ie, t') \<Longrightarrow>
     table_ok t' \<and> extends t t' \<and> numbers_below (length (strings t')) ie \<and> resolve (strings t') ie = drop_nofields e"
  "table_ok t \<Longrightarrow> build_all es t = (ies, t') \<Longrightarrow>
     table_ok t' \<and> extends t t' \<and> list_all (numbers_below (length (strings t'))) ies \<and>
     map (resolve (strings t')) ies = map drop_nofields (filter (\<lambda>c. \<not> is_nofield c) es)"
proof (induction e t and es t arbitrary: ie t' and ies t' rule: build_build_all.induct)
  case (1 name t)
  obtain n t1 where g: "getId name t = (n, t1)" by (cases "getId name t")
  show ?case using 1 g getId_ok [OF 1(1) g] by auto
next
  case (2 name as cs t)
  obtain n t1 where g: "getId name t = (n, t1)" by (cases "getId name t")
  obtain ias t2 where a: "build_attributes as t1 = (ias, t2)" by (cases "build_attributes as t1")
  obtain ics t3 where c: "build_all cs t2 = (ics, t3)" by (cases "build_all cs t2")
  have r: "ie = IElement n ias ics" "t' = t3" using 2(3) g a c by auto
  note og = getId_ok [OF 2(2) g]
  have oa: "table_ok t2" "extends t1 t2" "\<forall>(i, j)\<in>set ias. i < length (strings t2) \<and> j < length (strings t2)"
    "map (\<lambda>(i, j). (strings t2 ! i, strings t2 ! j)) ias = as"
    using build_attributes_ok [OF og(1) a] by blast+
  have oc: "table_ok t3" "extends t2 t3" "list_all (numbers_below (length (strings t3))) ics"
    "map (resolve (strings t3)) ics = map drop_nofields (filter (\<lambda>c. \<not> is_nofield c) cs)"
    using 2(1) [OF g [symmetric] a [symmetric] oa(1) c] by auto
  have e13: "extends t1 t3" by (rule extends_trans [OF oa(2) oc(2)])
  have "map (\<lambda>(i, j). (strings t3 ! i, strings t3 ! j)) ias = map (\<lambda>(i, j). (strings t2 ! i, strings t2 ! j)) ias"
    using oa(3) extends_nth [OF oc(2)] by auto
  then have "resolve (strings t3) ie = drop_nofields (Element name as cs)"
    using oa(4) oc(4) og(3,4) extends_nth [OF e13] by (simp add: r)
  moreover have "numbers_below (length (strings t3)) ie"
    using oa(3) oc(3) og(3) extends_length [OF e13] extends_length [OF oc(2)] by (fastforce simp: r)
  ultimately show ?case using oc(1) extends_trans [OF og(2) e13] by (simp add: r)
next
  case (3 t)
  then show ?case by simp
next
  case (4 c cs t)
  obtain e1 t1 where b: "build c t = (e1, t1)" by (cases "build c t")
  obtain es2 t2 where bs: "build_all cs t1 = (es2, t2)" by (cases "build_all cs t1")
  have r: "ies = (if is_nofield c then es2 else e1 # es2)" "t' = t2" using 4(4) b bs by auto
  have o1: "table_ok t1" "extends t t1" "numbers_below (length (strings t1)) e1" "resolve (strings t1) e1 = drop_nofields c"
    using 4(1) [OF 4(3) b] by auto
  have o2: "table_ok t2" "extends t1 t2" "list_all (numbers_below (length (strings t2))) es2"
    "map (resolve (strings t2)) es2 = map drop_nofields (filter (\<lambda>c. \<not> is_nofield c) cs)"
    using 4(2) [OF b [symmetric] o1(1) bs] by auto
  have "length (strings t1) \<le> length (strings t2)" using o2(2) by (auto simp: extends_def)
  then have "numbers_below (length (strings t2)) e1" by (rule numbers_below_mono [OF o1(3)])
  moreover have "resolve (strings t2) e1 = drop_nofields c"
    using resolve_extends [OF o1(3) o2(2)] o1(4) by simp
  ultimately show ?case using o1 o2 extends_trans [OF o1(2) o2(2)] by (simp add: r)
qed

text \<open>What \<^verbatim>\<open>initialize\<close> leaves behind when it runs for the first time.\<close>

lemma initialize_metadata_ok:
  fixes attrs v14
  defines "m \<equiv> initialize_metadata attrs v14 new_JfrMetadata"
  shows "resolve (strings (meta_table m)) (meta_root m) = drop_nofields (metadata_root attrs v14)"
    and "numbers_below (length (strings (meta_table m))) (meta_root m)"
    and "distinct (strings (meta_table m))"
proof -
  obtain n t0 where g: "getId ''root'' new_string_table = (n, t0)" by (cases "getId ''root'' new_string_table")
  note o0 = getId_ok [OF table_ok_new g]
  obtain cs where root: "metadata_root attrs v14 = Element ''root'' [] cs"
    by (simp add: metadata_root_def add_children_def new_element_def)
  obtain ics t where b: "build_all cs t0 = (ics, t)" by (cases "build_all cs t0")
  note ob = build_ok(2) [OF o0(1) b]
  have m: "m = \<lparr>meta_table = t\<lparr>string_map := []\<rparr>, meta_root = IElement n [] ics, meta_initialized = True\<rparr>"
    by (simp add: m_def initialize_metadata_def new_JfrMetadata_def g root b)
  show "resolve (strings (meta_table m)) (meta_root m) = drop_nofields (metadata_root attrs v14)"
    using ob o0 extends_nth [of t0 t n] by (simp add: m root)
  show "numbers_below (length (strings (meta_table m))) (meta_root m)"
    using ob o0 extends_length [of t0 t n] by (simp add: m)
  show "distinct (strings (meta_table m))"
    using ob by (simp add: m table_ok_def)
qed

end
