(* ===== verification/Jfr_Format.thy ===== *)
theory Jfr_Format
  imports Buffers Jfr_Metadata
begin

text \<open>
  A reader of the JFR format, the specification of what the recorder has to write. A reader knows nothing of
  the events in advance: it takes the metadata tree, looks up the class with the type number of an event,
  and reads its fields one after the other according to their types. A reference into a constant pool, an
  integer or a type number is a variable-length integer, a boolean one byte, a \<^verbatim>\<open>float\<close> four bytes in network
  order, a string has a tag; a field of another class is read field by field, an array has its length in
  front. \<open>reads ks bs vs\<close> says that the bytes \<open>bs\<close> are read as the values \<open>vs\<close>, whatever follows them.
\<close>

section \<open>Field types from the metadata\<close>

datatype jfr_kind = KVar | KByte | KFloat | KStr | KArray "jfr_kind list"

text \<open>Type number, in a constant pool, array.\<close>

type_synonym field_desc = "string \<times> bool \<times> bool"
type_synonym schema = "(string \<times> field_desc list) list"

fun elem_name :: "element \<Rightarrow> string" where
  "elem_name (Element n _ _) = n"
| "elem_name (NoField n) = n"

fun elem_attr :: "string \<Rightarrow> element \<Rightarrow> string option" where
  "elem_attr k (Element _ as _) = map_of as k"
| "elem_attr k (NoField _) = None"

fun elem_children :: "string \<Rightarrow> element \<Rightarrow> element list" where
  "elem_children n (Element _ _ cs) = filter (\<lambda>c. elem_name c = n) cs"
| "elem_children n (NoField _) = []"

definition field_desc :: "element \<Rightarrow> field_desc" where
  "field_desc e = (case elem_attr ''class'' e of Some c \<Rightarrow> c | None \<Rightarrow> [],
     elem_attr ''constantPool'' e = Some ''true'', elem_attr ''dimension'' e = Some ''1'')"

definition class_desc :: "element \<Rightarrow> string \<times> field_desc list" where
  "class_desc c = (case elem_attr ''id'' c of Some i \<Rightarrow> i | None \<Rightarrow> [], map field_desc (elem_children ''field'' c))"

definition schema_of :: "element \<Rightarrow> schema" where
  "schema_of root = map class_desc (concat (map (elem_children ''class'') (elem_children ''metadata'' root)))"

text \<open>The types of the fields of a class, with the nesting depth as fuel.\<close>

definition primitive_kind :: "string \<Rightarrow> jfr_kind option" where
  "primitive_kind i =
     (if i = dec (jfr_id T_BOOLEAN) \<or> i = dec (jfr_id T_BYTE) then Some KByte
      else if i = dec (jfr_id T_FLOAT) then Some KFloat
      else if i = dec (jfr_id T_CHAR) \<or> i = dec (jfr_id T_SHORT) \<or> i = dec (jfr_id T_INT) \<or> i = dec (jfr_id T_LONG) then Some KVar
      else if i = dec (jfr_id T_STRING) then Some KStr
      else None)"

fun kinds :: "nat \<Rightarrow> schema \<Rightarrow> string \<Rightarrow> jfr_kind list"
  and field_kinds :: "nat \<Rightarrow> schema \<Rightarrow> field_desc \<Rightarrow> jfr_kind list" where
  "kinds 0 sch i = []"
| "kinds (Suc n) sch i = (case map_of sch i of None \<Rightarrow> [] | Some fs \<Rightarrow> concat (map (field_kinds n sch) fs))"
| "field_kinds n sch (i, cpool, arr) =
     (let base = (if cpool then [KVar] else case primitive_kind i of Some k \<Rightarrow> [k] | None \<Rightarrow> kinds n sch i)
      in if arr then [KArray base] else base)"

definition event_kinds :: "schema \<Rightarrow> JfrType \<Rightarrow> jfr_kind list" where
  "event_kinds sch t = kinds (Suc (Suc (Suc 0))) sch (dec (jfr_id t))"

section \<open>Reading values\<close>

datatype jfr_value = VNum nat | VByte u8 | VFloat u32 | VStr "u8 list option" | VArr "jfr_value list list"

type_synonym 'a reader = "u8 list \<Rightarrow> ('a \<times> u8 list) option"

definition read_byte :: "u8 reader" where
  "read_byte bs = (case bs of [] \<Rightarrow> None | b # r \<Rightarrow> Some (b, r))"

definition read_bytes :: "nat \<Rightarrow> u8 list reader" where
  "read_bytes n bs = (if n \<le> length bs then Some (take n bs, drop n bs) else None)"

definition of_be32 :: "u8 list \<Rightarrow> u32" where
  "of_be32 bs = word_of_nat (foldl (\<lambda>a b. 256 * a + unat b) 0 bs)"

text \<open>Tag 0 is the null string, 1 the empty string, 3 a string of UTF-8 bytes; the recorder writes no others.\<close>

definition read_string :: "u8 list option reader" where
  "read_string bs =
     (case bs of
        [] \<Rightarrow> None
      | tag # r \<Rightarrow>
          if tag = 0 then Some (None, r)
          else if tag = 1 then Some (Some [], r)
          else if tag = 3 then
            (case jfr_read_long r of
               None \<Rightarrow> None
             | Some (n, r1) \<Rightarrow> (case read_bytes n r1 of None \<Rightarrow> None | Some (s, r2) \<Rightarrow> Some (Some s, r2)))
          else None)"

fun read_many :: "nat \<Rightarrow> 'a reader \<Rightarrow> 'a list reader" where
  "read_many 0 rd bs = Some ([], bs)"
| "read_many (Suc n) rd bs =
     (case rd bs of None \<Rightarrow> None | Some (v, r) \<Rightarrow>
        (case read_many n rd r of None \<Rightarrow> None | Some (vs, r1) \<Rightarrow> Some (v # vs, r1)))"

fun read_each :: "'a reader list \<Rightarrow> 'a list reader" where
  "read_each [] bs = Some ([], bs)"
| "read_each (rd # rds) bs =
     (case rd bs of None \<Rightarrow> None | Some (v, r) \<Rightarrow>
        (case read_each rds r of None \<Rightarrow> None | Some (vs, r1) \<Rightarrow> Some (v # vs, r1)))"

primrec read_kind :: "jfr_kind \<Rightarrow> jfr_value reader" where
  "read_kind KVar = (\<lambda>bs. map_option (\<lambda>(n, r). (VNum n, r)) (jfr_read_long bs))"
| "read_kind KByte = (\<lambda>bs. map_option (\<lambda>(b, r). (VByte b, r)) (read_byte bs))"
| "read_kind KFloat = (\<lambda>bs. map_option (\<lambda>(s, r). (VFloat (of_be32 s), r)) (read_bytes 4 bs))"
| "read_kind KStr = (\<lambda>bs. map_option (\<lambda>(s, r). (VStr s, r)) (read_string bs))"
| "read_kind (KArray ks) = (\<lambda>bs.
     case jfr_read_long bs of None \<Rightarrow> None
     | Some (n, r) \<Rightarrow> map_option (\<lambda>(vs, r1). (VArr vs, r1)) (read_many n (read_each (map read_kind ks)) r))"

definition read_fields :: "jfr_kind list \<Rightarrow> jfr_value list reader" where
  "read_fields ks = read_each (map read_kind ks)"

text \<open>
  An event: its size in bytes, all fields included, then its type, then its fields, which have to use up
  exactly the bytes the size announces.
\<close>

definition read_event :: "schema \<Rightarrow> JfrType \<Rightarrow> jfr_value list reader" where
  "read_event sch t bs =
     (case jfr_read_long bs of None \<Rightarrow> None
      | Some (sz, r) \<Rightarrow>
          let prefix = length bs - length r in
          if sz < prefix \<or> length bs < sz then None
          else case jfr_read_long (take (sz - prefix) r) of None \<Rightarrow> None
               | Some (i, body) \<Rightarrow>
                   if i \<noteq> jfr_id t then None
                   else case read_fields (event_kinds sch t) body of
                          Some (vs, []) \<Rightarrow> Some (vs, drop sz bs)
                        | _ \<Rightarrow> None)"

section \<open>Rules for reading\<close>

definition reads_as :: "'a reader \<Rightarrow> u8 list \<Rightarrow> 'a \<Rightarrow> bool" where
  "reads_as rd bs v \<longleftrightarrow> (\<forall>rest. rd (bs @ rest) = Some (v, rest))"

definition reads :: "jfr_kind list \<Rightarrow> u8 list \<Rightarrow> jfr_value list \<Rightarrow> bool" where
  "reads ks bs vs \<longleftrightarrow> reads_as (read_fields ks) bs vs"

lemma reads_Nil: "reads [] [] []"
  by (simp add: reads_def reads_as_def read_fields_def)

lemma reads_Cons:
  assumes "reads_as (read_kind k) as v" and "reads ks bs vs"
  shows "reads (k # ks) (as @ bs) (v # vs)"
  using assms by (simp add: reads_def reads_as_def read_fields_def)

lemma reads_append:
  assumes "reads ks as us" and "reads ls bs vs"
  shows "reads (ks @ ls) (as @ bs) (us @ vs)"
proof -
  have each: "read_each (f @ g) bs = (case read_each f bs of None \<Rightarrow> None | Some (us, r) \<Rightarrow>
      (case read_each g r of None \<Rightarrow> None | Some (vs, r1) \<Rightarrow> Some (us @ vs, r1)))" for f g :: "jfr_value reader list" and bs
    by (induction f arbitrary: bs) (auto split: option.split prod.split)
  show ?thesis using assms by (simp add: reads_def reads_as_def read_fields_def each)
qed

lemma reads_num: "reads_as jfr_read_long bs n \<Longrightarrow> reads_as (read_kind KVar) bs (VNum n)"
  by (simp add: reads_as_def)

lemma reads_var64: "reads_as (read_kind KVar) (var64_loop 0 v) (VNum (unat v))"
  by (simp add: reads_as_def read_var64)

lemma reads_var32: "reads_as (read_kind KVar) (var_loop v) (VNum (unat (v :: u32)))"
  by (simp add: reads_as_def read_var32)

lemma read_small: "unat b < 128 \<Longrightarrow> jfr_read_long (b # rest) = Some (unat b, rest)"
  using read_varint.simps(3) [of 7 b rest] by (simp add: jfr_read_long_def)

lemma reads_small: "unat b < 128 \<Longrightarrow> reads_as (read_kind KVar) [b] (VNum (unat b))"
  by (simp add: reads_as_def read_small)

lemma reads_byte: "reads_as (read_kind KByte) [b] (VByte b)"
  by (simp add: reads_as_def read_byte_def)

lemma base256_digits:
  "256 * (256 * (256 * (n div 256 div 256 div 256) + n div 256 div 256 mod 256) + n div 256 mod 256) + n mod 256 = (n :: nat)"
  by (simp only: mult.commute [of 256] div_mult_mod_eq)

lemma of_be32_be32: "of_be32 (be32 v) = v"
proof -
  let ?n = "unat v"
  have "?n div 2 ^ 24 < 256" using u32_less [of v] by (simp add: less_mult_imp_div_less)
  then have "foldl (\<lambda>a b. 256 * a + unat b) 0 (be32 v) = ?n"
    using base256_digits [of ?n] by (simp add: be32_def unat_ucast_u8 div_mult2_eq [symmetric])
  then show ?thesis by (simp add: of_be32_def)
qed

lemma reads_float: "reads_as (read_kind KFloat) (be32 v) (VFloat v)"
  by (simp add: reads_as_def read_bytes_def of_be32_be32)

lemma reads_string: "reads_as (read_kind KStr) (utf8_bytes s) (VStr (Some (take MAX_STRING_LENGTH s)))"
proof -
  let ?n = "min (length s) MAX_STRING_LENGTH"
  have n: "unat (word_of_nat ?n :: u32) = ?n" by (rule unat_word_of_nat) (simp add: MAX_STRING_LENGTH_def min_def)
  have "read_string (utf8_bytes s @ rest) = Some (Some (take MAX_STRING_LENGTH s), rest)" for rest
    using read_var32 [of "word_of_nat ?n" "take ?n s @ rest", unfolded n]
    by (simp add: utf8_bytes_def Let_def read_string_def read_bytes_def min_def)
  then show ?thesis by (simp add: reads_as_def)
qed

lemma reads_null: "reads_as (read_kind KStr) [0] (VStr None)"
  by (simp add: reads_as_def read_string_def)

lemma read_many_concat:
  assumes "list_all2 (reads_as rd) bss vs"
  shows "reads_as (read_many (length vs) rd) (concat bss) vs"
  using assms by (induction rule: list_all2_induct) (auto simp: reads_as_def)

lemma reads_array:
  assumes "reads_as jfr_read_long ns (length vss)" and "list_all2 (reads ks) bss vss"
  shows "reads_as (read_kind (KArray ks)) (ns @ concat bss) (VArr vss)"
proof -
  have "list_all2 (reads_as (read_each (map read_kind ks))) bss vss"
    using assms(2) by (simp add: reads_def [abs_def] read_fields_def)
  from read_many_concat [OF this] show ?thesis using assms(1) by (simp add: reads_as_def)
qed

lemma reads_replicate:
  assumes "list_all2 (reads_as (read_kind k)) bss vs"
  shows "reads (replicate (length vs) k) (concat bss) vs"
  using assms by (induction rule: list_all2_induct) (auto intro: reads_Nil reads_Cons)

text \<open>An event with a correct size in front is read as its fields.\<close>

lemma read_event_framed:
  assumes sz: "reads_as jfr_read_long szs (length szs + length ts + length body)"
    and type: "reads_as jfr_read_long ts (jfr_id t)"
    and body: "reads (event_kinds sch t) body vs"
  shows "reads_as (read_event sch t) (szs @ ts @ body) vs"
  unfolding reads_as_def
proof
  fix rest
  let ?bs = "(szs @ ts @ body) @ rest"
  have "jfr_read_long ?bs = Some (length szs + length ts + length body, ts @ body @ rest)"
    using sz by (simp add: reads_as_def)
  moreover have "length ?bs - length (ts @ body @ rest) = length szs" by simp
  moreover have "take (length szs + length ts + length body - length szs) (ts @ body @ rest) = ts @ body" by simp
  moreover have "jfr_read_long (ts @ body) = Some (jfr_id t, body)" using type by (simp add: reads_as_def)
  moreover have "read_fields (event_kinds sch t) body = Some (vs, [])"
    using body unfolding reads_def reads_as_def by (metis append_Nil2)
  moreover have "drop (length szs + length ts + length body) ?bs = rest" by simp
  ultimately show "read_event sch t ?bs = Some (vs, rest)"
    by (simp add: read_event_def Let_def)
qed

section \<open>The schema of the profiler\<close>

lemma dec_last: "last (dec n) = char_of (48 + n mod 10)"
  by (subst dec.simps) simp

lemma dec_butlast: "butlast (dec n) = (if n < 10 then [] else dec (n div 10))"
  by (subst dec.simps) simp

lemma dec_nonempty [simp]: "dec n \<noteq> []" "[] \<noteq> dec n"
  by (subst dec.simps, simp)+

lemma char_digit_eq: "a < 10 \<Longrightarrow> b < 10 \<Longrightarrow> (char_of (48 + a) = (char_of (48 + b) :: char)) \<longleftrightarrow> a = (b :: nat)"
  by (simp add: char_of_eq_iff take_bit_nat_eq_self)

lemma dec_inject [simp]: "dec m = dec n \<longleftrightarrow> m = n"
proof
  show "dec m = dec n \<Longrightarrow> m = n"
  proof (induction m arbitrary: n rule: less_induct)
    case (less m)
    have l: "m mod 10 = n mod 10"
      using arg_cong [OF less(2), of last] char_digit_eq [of "m mod 10" "n mod 10"] by (simp add: dec_last)
    have b: "(if m < 10 then [] else dec (m div 10)) = (if n < 10 then [] else dec (n div 10))"
      using arg_cong [OF less(2), of butlast] by (simp add: dec_butlast)
    show ?case
    proof (cases "m < 10")
      case True
      then show ?thesis using b l by (auto split: if_splits)
    next
      case False
      then have "m div 10 = n div 10" using less(1) [of "m div 10" "n div 10"] b by (auto split: if_splits)
      then have "m div 10 * 10 + m mod 10 = n div 10 * 10 + n mod 10" using l by simp
      then show ?thesis by (simp only: div_mult_mod_eq)
    qed
  qed
qed simp

text \<open>What a reader sees of the elements that the metadata is made of.\<close>

definition visible_fields :: "element list \<Rightarrow> field_desc list" where
  "visible_fields cs = map (\<lambda>c. field_desc (drop_nofields c)) (filter (\<lambda>c. \<not> is_nofield c \<and> elem_name c = ''field'') cs)"

lemma elem_name_drop [simp]: "elem_name (drop_nofields e) = elem_name e"
  by (cases e) simp_all

lemma add_children_Element: "add_children (Element n as cs) ds = Element n as (cs @ ds)"
  unfolding add_children_def by (induction ds arbitrary: cs) simp_all

lemma annotation_shape: "\<exists>as. annotation t v = Element ''annotation'' as []"
  by (simp add: annotation_def Let_def attribute_type_def new_element_def split: option.split)

lemma jfr_type_shape:
  "\<exists>as cs. jfr_type name t label simple = Element ''class'' ((''name'', name) # (''id'', dec (jfr_id t)) # as) cs \<and>
     visible_fields cs = []"
proof (cases label)
  case None
  then show ?thesis by (simp add: jfr_type_def Let_def attribute_type_def new_element_def visible_fields_def)
next
  case (Some l)
  obtain as where "annotation T_LABEL (Some l) = Element ''annotation'' as []" using annotation_shape by blast
  then show ?thesis using Some by (simp add: jfr_type_def Let_def attribute_type_def new_element_def visible_fields_def)
qed

lemma jfr_field_shape:
  "\<exists>cs. jfr_field name t label flags True = Element ''field''
     ([(''name'', name), (''class'', dec (jfr_id t))] @ (if flags AND F_CPOOL \<noteq> 0 then [(''constantPool'', ''true'')] else []) @
      (if flags AND F_ARRAY \<noteq> 0 then [(''dimension'', ''1'')] else [])) cs"
  by (cases label) (simp_all add: jfr_field_def Let_def attribute_type_def new_element_def add_children_Element)

lemma visible_fields_simps [simp]:
  "visible_fields [] = []"
  "visible_fields (cs @ ds) = visible_fields cs @ visible_fields ds"
  "visible_fields (jfr_field name t label flags True # cs) =
     (dec (jfr_id t), flags AND F_CPOOL \<noteq> 0, flags AND F_ARRAY \<noteq> 0) # visible_fields cs"
  "visible_fields (jfr_field name t label flags False # cs) = visible_fields cs"
  "visible_fields (category v w # cs) = visible_fields cs"
  "visible_fields (map custom_attribute attrs) = replicate (length attrs) (dec (jfr_id T_ATTRIBUTE_VALUE), True, False)"
proof -
  show "visible_fields [] = []" "visible_fields (cs @ ds) = visible_fields cs @ visible_fields ds"
    by (simp_all add: visible_fields_def)
  obtain es where "jfr_field name t label flags True = Element ''field''
     ([(''name'', name), (''class'', dec (jfr_id t))] @ (if flags AND F_CPOOL \<noteq> 0 then [(''constantPool'', ''true'')] else []) @
      (if flags AND F_ARRAY \<noteq> 0 then [(''dimension'', ''1'')] else [])) es"
    using jfr_field_shape by blast
  then show "visible_fields (jfr_field name t label flags True # cs) =
     (dec (jfr_id t), flags AND F_CPOOL \<noteq> 0, flags AND F_ARRAY \<noteq> 0) # visible_fields cs"
    by (simp add: visible_fields_def field_desc_def)
  show "visible_fields (jfr_field name t label flags False # cs) = visible_fields cs"
    by (simp add: visible_fields_def jfr_field_def)
  obtain as where "annotation T_CATEGORY None = Element ''annotation'' as []" using annotation_shape by blast
  then show "visible_fields (category v w # cs) = visible_fields cs"
    by (cases w) (simp_all add: visible_fields_def category_def Let_def)
  show "visible_fields (map custom_attribute attrs) = replicate (length attrs) (dec (jfr_id T_ATTRIBUTE_VALUE), True, False)"
    by (induction attrs) (simp_all add: visible_fields_def custom_attribute_def attribute_type_def new_element_def field_desc_def)
qed

definition class_entry :: "element \<Rightarrow> string \<times> field_desc list" where
  "class_entry c = class_desc (drop_nofields c)"

lemma class_entry_simps:
  "class_entry (jfr_type name t label simple) = (dec (jfr_id t), [])"
  "class_entry (add_children (jfr_type name t label simple) cs) = (dec (jfr_id t), visible_fields cs)"
  "class_entry (add_attributes (add_children (jfr_type name t label simple) cs) attrs) =
     (dec (jfr_id t), visible_fields cs @ replicate (length attrs) (dec (jfr_id T_ATTRIBUTE_VALUE), True, False))"
proof -
  obtain as ds where s: "jfr_type name t label simple = Element ''class'' ((''name'', name) # (''id'', dec (jfr_id t)) # as) ds"
    and v: "visible_fields ds = []" using jfr_type_shape by blast
  have "class_entry (Element ''class'' ((''name'', name) # (''id'', dec (jfr_id t)) # as) es) = (dec (jfr_id t), visible_fields es)" for es
    by (simp add: class_entry_def class_desc_def visible_fields_def filter_map comp_def conj_commute)
  then show "class_entry (jfr_type name t label simple) = (dec (jfr_id t), [])"
    and "class_entry (add_children (jfr_type name t label simple) cs) = (dec (jfr_id t), visible_fields cs)"
    and "class_entry (add_attributes (add_children (jfr_type name t label simple) cs) attrs) =
     (dec (jfr_id t), visible_fields cs @ replicate (length attrs) (dec (jfr_id T_ATTRIBUTE_VALUE), True, False))"
    using v by (simp_all add: s add_children_Element add_attributes_def)
qed


text \<open>The classes are all of this form and are children of the metadata element, so the schema is computed.\<close>

lemma all_classes:
  "list_all (\<lambda>c. \<not> is_nofield c \<and> elem_name c = ''class'') (metadata_types attrs v14)"
proof -
  have "\<not> is_nofield (jfr_type name t label simple) \<and> elem_name (jfr_type name t label simple) = ''class''"
    and "\<not> is_nofield (add_children (jfr_type name t label simple) cs) \<and>
         elem_name (add_children (jfr_type name t label simple) cs) = ''class''"
    and "\<not> is_nofield (add_attributes (add_children (jfr_type name t label simple) cs) attrs) \<and>
         elem_name (add_attributes (add_children (jfr_type name t label simple) cs) attrs) = ''class''" for name t label simple cs attrs
    using jfr_type_shape [of name t label simple] by (auto simp: add_children_Element add_attributes_def)
  then show ?thesis
    by (simp add: metadata_types_def primitive_types_def constant_types_def sample_types_def recording_types_def
        system_types_def annotation_types_def)
qed

lemma schema_metadata: "schema_of (drop_nofields (metadata_root attrs v14)) = map class_entry (metadata_types attrs v14)"
proof -
  let ?cs = "metadata_types attrs v14"
  have f: "filter (\<lambda>c. \<not> is_nofield c) ?cs = ?cs" "filter (\<lambda>c. elem_name c = ''class'') ?cs = ?cs"
    using all_classes [of attrs v14] by (simp_all add: list_all_iff filter_id_conv)
  then have "elem_children ''class'' (drop_nofields (Element ''metadata'' [] ?cs)) = map drop_nofields ?cs"
    by (simp add: filter_map comp_def)
  then show ?thesis
    by (simp add: schema_of_def metadata_root_def new_element_def add_children_Element class_entry_def)
qed

definition profiler_schema :: "nat \<Rightarrow> bool \<Rightarrow> schema" where
  "profiler_schema n v14 = schema_of (drop_nofields (metadata_root (replicate n []) v14))"

lemma profiler_schema_attrs: "schema_of (drop_nofields (metadata_root attrs v14)) = profiler_schema (length attrs) v14"
  by (simp add: profiler_schema_def schema_metadata metadata_types_def sample_types_def class_entry_simps)

lemma profiler_schema_split:
  "profiler_schema n v14 = map class_entry primitive_types @ map class_entry constant_types @
     map class_entry (sample_types (replicate n [])) @ map class_entry (recording_types v14) @ map class_entry system_types
     @ map class_entry annotation_types"
  by (simp add: profiler_schema_def schema_metadata metadata_types_def)

lemma primitive_kind_simps [simp]:
  "primitive_kind (dec n) =
     (if n = 4 \<or> n = 8 then Some KByte else if n = 6 then Some KFloat
      else if n = 5 \<or> n = 9 \<or> n = 10 \<or> n = 11 then Some KVar else if n = 20 then Some KStr else None)"
  by (simp add: primitive_kind_def)

lemmas metadata_defs = primitive_types_def constant_types_def sample_types_def recording_types_def system_types_def annotation_types_def

lemma concat_replicate_single [simp]: "concat (replicate n [x]) = replicate n x"
  by (induction n) simp_all

lemma event_kinds_samples:
  "event_kinds (profiler_schema n v14) T_EXECUTION_SAMPLE = [KVar, KVar, KVar, KVar, KVar, KVar, KVar, KVar] @ replicate n KVar"
  "event_kinds (profiler_schema n v14) T_METHOD_SAMPLE = [KVar, KVar, KVar, KVar, KVar, KVar, KVar, KVar] @ replicate n KVar"
  "event_kinds (profiler_schema n v14) T_WALLCLOCK_SAMPLE_EPOCH = [KVar, KVar, KVar, KVar, KVar, KVar, KVar]"
  "event_kinds (profiler_schema n v14) T_ALLOC = [KVar, KVar, KVar, KVar, KVar] @ [KFloat, KVar, KVar] @ replicate n KVar"
  "event_kinds (profiler_schema n v14) T_HEAP_LIVE_OBJECT = [KVar, KVar, KVar, KVar, KVar, KVar] @ [KFloat, KVar, KVar] @ replicate n KVar"
  "event_kinds (profiler_schema n v14) T_ENDPOINT = [KVar, KVar, KVar, KVar, KVar, KVar, KVar]"
  "event_kinds (profiler_schema n v14) T_QUEUE_TIME = [KVar, KVar, KVar, KVar, KVar, KVar, KVar, KVar, KVar, KVar] @ replicate n KVar"
  by (simp_all add: event_kinds_def profiler_schema_split metadata_defs class_entry_simps field_flags map_add_def)

lemma event_kinds_recording:
  "event_kinds (profiler_schema n v14) T_HEAP_USAGE = [KVar, KVar, KByte]"
  "event_kinds (profiler_schema n v14) T_CPU_LOAD = [KVar, KFloat, KFloat, KFloat]"
  "event_kinds (profiler_schema n v14) T_ACTIVE_RECORDING =
     [KVar, KVar, KVar, KVar, KVar, KStr, KStr, KVar] @ (if v14 then [KVar] else []) @ [KVar, KVar, KVar]"
  "event_kinds (profiler_schema n v14) T_ACTIVE_SETTING = [KVar, KVar, KVar, KVar, KVar, KStr, KStr]"
  "event_kinds (profiler_schema n v14) T_DATADOG_SETTING = [KVar, KVar, KVar, KVar, KStr, KStr, KStr]"
  "event_kinds (profiler_schema n v14) T_DATADOG_PROFILER_CONFIG =
     [KVar, KVar, KVar, KVar, KVar, KVar, KVar, KVar, KVar, KByte, KVar, KStr, KStr]"
  "event_kinds (profiler_schema n v14) T_DATADOG_COUNTER = [KVar, KStr, KVar]"
  "event_kinds (profiler_schema n v14) T_UNWIND_FAILURE = [KVar, KStr, KStr, KVar]"
  by (cases v14; simp add: event_kinds_def profiler_schema_split metadata_defs class_entry_simps field_flags map_add_def)+

lemma event_kinds_system:
  "event_kinds (profiler_schema n v14) T_OS_INFORMATION = [KVar, KStr]"
  "event_kinds (profiler_schema n v14) T_CPU_INFORMATION = [KVar, KStr, KStr, KVar, KVar, KVar]"
  "event_kinds (profiler_schema n v14) T_JVM_INFORMATION = [KVar, KStr, KStr, KStr, KStr, KStr, KVar, KVar]"
  "event_kinds (profiler_schema n v14) T_INITIAL_SYSTEM_PROPERTY = [KVar, KStr, KStr]"
  "event_kinds (profiler_schema n v14) T_NATIVE_LIBRARY = [KVar, KStr, KVar, KVar]"
  "event_kinds (profiler_schema n v14) T_LOG = [KVar, KVar, KStr]"
  by (simp_all add: event_kinds_def profiler_schema_split metadata_defs class_entry_simps field_flags map_add_def)

text \<open>The types of the constant pools.\<close>

lemma event_kinds_constants:
  "event_kinds (profiler_schema n v14) T_FRAME_TYPE = [KStr]"
  "event_kinds (profiler_schema n v14) T_THREAD_STATE = [KStr]"
  "event_kinds (profiler_schema n v14) T_EXECUTION_MODE = [KStr]"
  "event_kinds (profiler_schema n v14) T_THREAD = [KStr, KVar, KStr, KVar]"
  "event_kinds (profiler_schema n v14) T_STACK_TRACE = [KByte, KArray [KVar, KVar, KVar, KVar]]"
  "event_kinds (profiler_schema n v14) T_METHOD = [KVar, KVar, KVar, KVar, KByte]"
  "event_kinds (profiler_schema n v14) T_CLASS = [KVar, KVar, KVar, KVar]"
  "event_kinds (profiler_schema n v14) T_PACKAGE = [KVar]"
  "event_kinds (profiler_schema n v14) T_SYMBOL = [KStr]"
  "event_kinds (profiler_schema n v14) T_ATTRIBUTE_VALUE = [KStr]"
  "event_kinds (profiler_schema n v14) T_LOG_LEVEL = [KStr]"
  by (simp_all add: event_kinds_def profiler_schema_split metadata_defs class_entry_simps field_flags map_add_def)

text \<open>Types without a class in the metadata.\<close>

lemma event_kinds_undeclared:
  "map_of (profiler_schema n v14) (dec (jfr_id T_MONITOR_ENTER)) = None"
  "map_of (profiler_schema n v14) (dec (jfr_id T_THREAD_PARK)) = None"
  by (cases v14; simp add: profiler_schema_split metadata_defs class_entry_simps map_add_def)+

end
