(* ===== verification/Events.thy ===== *)
theory Events
  imports Prelude Contexts
begin

text \<open>
  Model of \<^verbatim>\<open>event.h\<close> and \<^verbatim>\<open>threadState.h\<close>: the events that the engines hand to the recorder. A
  \<^verbatim>\<open>float\<close> is given by its bit pattern.
\<close>

section \<open>Thread states\<close>

datatype OSThreadState = OS_UNKNOWN | OS_NEW | OS_RUNNABLE | OS_MONITOR_WAIT | OS_CONDVAR_WAIT | OS_OBJECT_WAIT
  | OS_BREAKPOINTED | OS_SLEEPING | OS_TERMINATED | OS_SYSCALL

fun os_state_code :: "OSThreadState \<Rightarrow> nat" where
  "os_state_code OS_UNKNOWN = 0" | "os_state_code OS_NEW = 1" | "os_state_code OS_RUNNABLE = 2"
| "os_state_code OS_MONITOR_WAIT = 3" | "os_state_code OS_CONDVAR_WAIT = 4" | "os_state_code OS_OBJECT_WAIT = 5"
| "os_state_code OS_BREAKPOINTED = 6" | "os_state_code OS_SLEEPING = 7" | "os_state_code OS_TERMINATED = 8"
| "os_state_code OS_SYSCALL = 9"

datatype ExecutionMode = EM_UNKNOWN | EM_JAVA | EM_JVM | EM_NATIVE | EM_SAFEPOINT | EM_SYSCALL

fun execution_mode_code :: "ExecutionMode \<Rightarrow> nat" where
  "execution_mode_code EM_UNKNOWN = 0" | "execution_mode_code EM_JAVA = 1" | "execution_mode_code EM_JVM = 2"
| "execution_mode_code EM_NATIVE = 3" | "execution_mode_code EM_SAFEPOINT = 4" | "execution_mode_code EM_SYSCALL = 5"

definition convertJvmExecutionState :: "int \<Rightarrow> ExecutionMode" where
  "convertJvmExecutionState state =
     (if state = 4 \<or> state = 5 then EM_NATIVE
      else if state = 6 \<or> state = 7 then EM_JVM
      else if state = 8 \<or> state = 9 then EM_JAVA
      else if state = 10 \<or> state = 11 then EM_SAFEPOINT
      else EM_UNKNOWN)"

section \<open>Events\<close>

record execution_event =
  ee_id :: u32
  ee_thread_state :: OSThreadState
  ee_execution_mode :: ExecutionMode
  ee_weight :: u64
  ee_call_trace_id :: u32

definition new_ExecutionEvent :: execution_event where
  "new_ExecutionEvent = \<lparr>ee_id = 0, ee_thread_state = OS_RUNNABLE, ee_execution_mode = EM_UNKNOWN, ee_weight = 1, ee_call_trace_id = 0\<rparr>"

record alloc_event =
  ae_id :: u32
  ae_size :: u64
  ae_weight :: u32

text \<open>The float 1 has the bit pattern 0x3f800000.\<close>

definition new_AllocEvent :: alloc_event where
  "new_AllocEvent = \<lparr>ae_id = 0, ae_size = 0, ae_weight = 0x3f800000\<rparr>"

record lock_event =
  le_id :: u32
  le_start_time :: u64
  le_end_time :: u64
  le_address :: u64
  le_timeout :: int

record object_liveness_event =
  ol_id :: u32
  ol_alloc :: alloc_event
  ol_skipped :: u64
  ol_start_time :: u64
  ol_age :: u64
  ol_ctx :: ctx

record wall_clock_epoch_event =
  dirty :: bool
  wc_start_time :: u64
  wc_duration_millis :: u64
  num_samplable_threads :: u32
  num_successful_samples :: u32
  num_failed_samples :: u32
  num_exited_threads :: u32
  num_permission_denied :: u32

definition new_WallClockEpochEvent :: "u64 \<Rightarrow> wall_clock_epoch_event" where
  "new_WallClockEpochEvent start_time =
     \<lparr>dirty = False, wc_start_time = start_time, wc_duration_millis = 0, num_samplable_threads = 0,
      num_successful_samples = 0, num_failed_samples = 0, num_exited_threads = 0, num_permission_denied = 0\<rparr>"

definition hasChanged :: "wall_clock_epoch_event \<Rightarrow> bool" where
  "hasChanged e \<longleftrightarrow> dirty e"

definition updateNumSamplableThreads :: "u32 \<Rightarrow> wall_clock_epoch_event \<Rightarrow> wall_clock_epoch_event" where
  "updateNumSamplableThreads n e =
     (if num_samplable_threads e \<noteq> n then e\<lparr>dirty := True, num_samplable_threads := n\<rparr> else e)"

definition updateNumSuccessfulSamples :: "u32 \<Rightarrow> wall_clock_epoch_event \<Rightarrow> wall_clock_epoch_event" where
  "updateNumSuccessfulSamples n e =
     (if num_successful_samples e \<noteq> n then e\<lparr>dirty := True, num_successful_samples := n\<rparr> else e)"

definition updateNumFailedSamples :: "u32 \<Rightarrow> wall_clock_epoch_event \<Rightarrow> wall_clock_epoch_event" where
  "updateNumFailedSamples n e =
     (if num_failed_samples e \<noteq> n then e\<lparr>dirty := True, num_failed_samples := n\<rparr> else e)"

definition updateNumExitedThreads :: "u32 \<Rightarrow> wall_clock_epoch_event \<Rightarrow> wall_clock_epoch_event" where
  "updateNumExitedThreads n e =
     (if num_exited_threads e \<noteq> n then e\<lparr>dirty := True, num_exited_threads := n\<rparr> else e)"

definition updateNumPermissionDenied :: "u32 \<Rightarrow> wall_clock_epoch_event \<Rightarrow> wall_clock_epoch_event" where
  "updateNumPermissionDenied n e =
     (if num_permission_denied e \<noteq> n then e\<lparr>dirty := True, num_permission_denied := n\<rparr> else e)"

definition endEpoch :: "u64 \<Rightarrow> wall_clock_epoch_event \<Rightarrow> wall_clock_epoch_event" where
  "endEpoch millis e = e\<lparr>wc_duration_millis := millis\<rparr>"

definition clean :: "wall_clock_epoch_event \<Rightarrow> wall_clock_epoch_event" where
  "clean e = e\<lparr>dirty := False\<rparr>"

definition newEpoch :: "u64 \<Rightarrow> wall_clock_epoch_event \<Rightarrow> wall_clock_epoch_event" where
  "newEpoch start_time e = e\<lparr>dirty := False, wc_start_time := start_time\<rparr>"

record trace_root_event =
  tr_local_root_span_id :: u64
  tr_label :: u32
  tr_operation :: u32

record queue_time_event =
  qt_start :: u64
  qt_end :: u64
  qt_task :: u32
  qt_scheduler :: u32
  qt_origin :: u32
  qt_queueType :: u32
  qt_queueLength :: u32

section \<open>Properties\<close>

definition epoch_counts :: "wall_clock_epoch_event \<Rightarrow> u32 list" where
  "epoch_counts e = [num_samplable_threads e, num_successful_samples e, num_failed_samples e, num_exited_threads e,
                     num_permission_denied e]"

definition update_epoch :: "u32 \<Rightarrow> u32 \<Rightarrow> u32 \<Rightarrow> u32 \<Rightarrow> u32 \<Rightarrow> wall_clock_epoch_event \<Rightarrow> wall_clock_epoch_event" where
  "update_epoch a b c d f e =
     updateNumPermissionDenied f (updateNumExitedThreads d (updateNumFailedSamples c
       (updateNumSuccessfulSamples b (updateNumSamplableThreads a e))))"

lemmas epoch_updates = updateNumSamplableThreads_def updateNumSuccessfulSamples_def updateNumFailedSamples_def
  updateNumExitedThreads_def updateNumPermissionDenied_def

text \<open>
  After an epoch event is cleaned, a round of updates marks it as changed exactly when one of the five
  numbers is new, and stores all five.
\<close>

lemma epoch_changed_iff:
  "epoch_counts (update_epoch a b c d f (clean e)) = [a, b, c, d, f]
   \<and> (hasChanged (update_epoch a b c d f (clean e)) \<longleftrightarrow> epoch_counts e \<noteq> [a, b, c, d, f])"
  by (auto simp: update_epoch_def epoch_counts_def epoch_updates clean_def hasChanged_def)

end
