(* ===== verification/Event_Writer.thy ===== *)
theory Event_Writer
  imports Jfr_Format Events Contexts
begin

text \<open>
  Model of the event writers of \<^verbatim>\<open>flightRecorder.cpp\<close> (class \<^verbatim>\<open>Recording\<close>): a recording buffer in front of
  the file, the flushing, and one operation per event.

  A \<open>sink\<close> is one buffer with the file behind it. The system call \<^verbatim>\<open>write\<close> is a parameter, the number of
  bytes it accepts for a number of bytes it is given; the theorems assume that it accepts all of them. The
  clock, the context of the thread and floating-point arithmetic are parameters. An event is written as a
  skipped size field, the fields, the patched size field and a flush when the buffer has reached its limit.

  \<open>emits\<close> is the contract of a writer: on a buffer below the limit it succeeds, leaves the buffer below the
  limit, and the stream of all bytes written so far, in the file and in the buffer, grows by exactly the
  given bytes. What the bytes mean is decided by the reader of \<^verbatim>\<open>Jfr_Format\<close>, which knows only the metadata.
\<close>

section \<open>Constants\<close>

definition MAX_JLONG :: u64 where "MAX_JLONG = 0x7fffffffffffffff"
definition MIN_JLONG :: u64 where "MIN_JLONG = 0x8000000000000000"
definition MAX_JFR_EVENT_SIZE :: nat where "MAX_JFR_EVENT_SIZE = 256"
definition JFR_EVENT_FLUSH_THRESHOLD :: int where "JFR_EVENT_FLUSH_THRESHOLD = int RECORDING_BUFFER_LIMIT"
definition MAX_VAR64_LENGTH :: int where "MAX_VAR64_LENGTH = 10"
definition MAX_VAR32_LENGTH :: nat where "MAX_VAR32_LENGTH = 5"

section \<open>The buffer and the file\<close>

record sink =
  sk_buf :: buffer
  sk_file :: "u8 list"
  sk_written :: u64

type_synonym sink_op = "sink \<Rightarrow> buffer_error + sink"
type_synonym os_write = "nat \<Rightarrow> int"

definition flush_sink :: "os_write \<Rightarrow> sink \<Rightarrow> sink" where
  "flush_sink w s =
     (let result = w (offset (sk_buf s)) in
      s\<lparr>sk_file := sk_file s @ take (nat result) (contents (sk_buf s)),
        sk_written := (if result > 0 then sk_written s + word_of_int result else sk_written s),
        sk_buf := reset (sk_buf s)\<rparr>)"

definition flushIfNeeded :: "os_write \<Rightarrow> int \<Rightarrow> sink \<Rightarrow> sink" where
  "flushIfNeeded w lim s = (if int (offset (sk_buf s)) \<ge> lim then flush_sink w s else s)"

definition on_buf :: "buffer_op \<Rightarrow> sink_op" where
  "on_buf op s = map_sum id (\<lambda>b. s\<lparr>sk_buf := b\<rparr>) (op (sk_buf s))"

definition flush_op :: "os_write \<Rightarrow> int \<Rightarrow> sink_op" where
  "flush_op w lim s = Inr (flushIfNeeded w lim s)"

definition writeEventSizePrefix :: "nat \<Rightarrow> buffer_op" where
  "writeEventSizePrefix start b =
     (let size = offset b - start in
      if size < MAX_JFR_EVENT_SIZE then put8_at start (word_of_nat size) b else Inl AssertionFailed)"

definition patch_size :: "nat \<Rightarrow> buffer_op" where
  "patch_size start b = putVar32_at start (word_of_nat (offset b - start)) b"

text \<open>The two frames of an event: a size of one byte, or of five bytes.\<close>

definition event1 :: "buffer_op list \<Rightarrow> buffer_op" where
  "event1 fs b =
     (case skip 1 b of Inl e \<Rightarrow> Inl e | Inr (start, b1) \<Rightarrow> run_ops (fs @ [writeEventSizePrefix start]) b1)"

definition event5 :: "buffer_op list \<Rightarrow> buffer_op" where
  "event5 fs b =
     (case skip 5 b of Inl e \<Rightarrow> Inl e | Inr (start, b1) \<Rightarrow> run_ops (fs @ [patch_size start]) b1)"

text \<open>Both end with a flush when needed.\<close>

definition write_event :: "os_write \<Rightarrow> buffer_op \<Rightarrow> sink_op" where
  "write_event w ev = run_ops [on_buf ev, flush_op w JFR_EVENT_FLUSH_THRESHOLD]"

definition putType :: "JfrType \<Rightarrow> buffer_op" where
  "putType t = putVar64 (word_of_nat (jfr_id t))"

definition putVar64_int :: "int \<Rightarrow> buffer_op" where
  "putVar64_int v = putVar64 (word_of_int v)"

definition putVar64_u32 :: "u32 \<Rightarrow> buffer_op" where
  "putVar64_u32 v = putVar64 (ucast v)"

definition putVar32_int :: "int \<Rightarrow> buffer_op" where
  "putVar32_int v = putVar32 (word_of_int v)"

section \<open>Sample events\<close>

text \<open>\<^verbatim>\<open>writeContext\<close>; a tag beyond the array of the context is read out of bounds.\<close>

definition put_tag :: "ctx \<Rightarrow> nat \<Rightarrow> buffer_op" where
  "put_tag c i b = (case get_tag c i of None \<Rightarrow> Inl OutOfBounds | Some v \<Rightarrow> putVar32 v b)"

definition writeContext :: "nat \<Rightarrow> ctx \<Rightarrow> buffer_op list" where
  "writeContext num_attributes c = [putVar64 (spanId c), putVar64 (rootSpanId c)] @ map (put_tag c) [0..<num_attributes]"

definition execution_fields :: "JfrType \<Rightarrow> u64 \<Rightarrow> nat \<Rightarrow> ctx \<Rightarrow> int \<Rightarrow> u32 \<Rightarrow> execution_event \<Rightarrow> buffer_op list" where
  "execution_fields t ticks n c tid call_trace_id ev =
     [putType t, putVar64 ticks, putVar64_int tid, putVar64_u32 call_trace_id,
      put8 (word_of_nat (os_state_code (ee_thread_state ev))), put8 (word_of_nat (execution_mode_code (ee_execution_mode ev))),
      putVar64 (ee_weight ev)] @ writeContext n c"

definition recordExecutionSample :: "u64 \<Rightarrow> nat \<Rightarrow> ctx \<Rightarrow> int \<Rightarrow> u32 \<Rightarrow> execution_event \<Rightarrow> buffer_op" where
  "recordExecutionSample ticks n c tid call_trace_id ev = event1 (execution_fields T_EXECUTION_SAMPLE ticks n c tid call_trace_id ev)"

definition recordMethodSample :: "u64 \<Rightarrow> nat \<Rightarrow> ctx \<Rightarrow> int \<Rightarrow> u32 \<Rightarrow> execution_event \<Rightarrow> buffer_op" where
  "recordMethodSample ticks n c tid call_trace_id ev = event1 (execution_fields T_METHOD_SAMPLE ticks n c tid call_trace_id ev)"

definition recordAllocation :: "u64 \<Rightarrow> nat \<Rightarrow> ctx \<Rightarrow> int \<Rightarrow> u32 \<Rightarrow> alloc_event \<Rightarrow> buffer_op" where
  "recordAllocation ticks n c tid call_trace_id ev =
     event1 ([putType T_ALLOC, putVar64 ticks, putVar64_int tid, putVar64_u32 call_trace_id, putVar64_u32 (ae_id ev),
              putVar64 (ae_size ev), putFloat (ae_weight ev)] @ writeContext n c)"

text \<open>\<open>weight\<close> is the quotient \<^verbatim>\<open>((_weight * _size) + _skipped) / _size\<close> in floating-point arithmetic.\<close>

definition live_weight :: "(alloc_event \<Rightarrow> u64 \<Rightarrow> u32) \<Rightarrow> object_liveness_event \<Rightarrow> u32" where
  "live_weight weight ev = (if ae_size (ol_alloc ev) > 0 then weight (ol_alloc ev) (ol_skipped ev) else 0)"

definition recordHeapLiveObject :: "(alloc_event \<Rightarrow> u64 \<Rightarrow> u32) \<Rightarrow> nat \<Rightarrow> int \<Rightarrow> u32 \<Rightarrow> object_liveness_event \<Rightarrow> buffer_op" where
  "recordHeapLiveObject weight n tid call_trace_id ev =
     event1 ([putType T_HEAP_LIVE_OBJECT, putVar64 (ol_start_time ev), putVar32_int tid, putVar32 call_trace_id,
              putVar32 (ol_id ev), putVar64 (ol_age ev), putVar64 (ae_size (ol_alloc ev)), putFloat (live_weight weight ev)]
             @ writeContext n (ol_ctx ev))"

definition recordMonitorBlocked :: "nat \<Rightarrow> ctx \<Rightarrow> int \<Rightarrow> u32 \<Rightarrow> lock_event \<Rightarrow> buffer_op" where
  "recordMonitorBlocked n c tid call_trace_id ev =
     event1 ([putType T_MONITOR_ENTER, putVar64 (le_start_time ev), putVar64 (le_end_time ev - le_start_time ev),
              putVar64_int tid, putVar64_u32 call_trace_id, putVar64_u32 (le_id ev), put8 0, putVar64 (le_address ev)]
             @ writeContext n c)"

definition recordThreadPark :: "int \<Rightarrow> u32 \<Rightarrow> lock_event \<Rightarrow> buffer_op" where
  "recordThreadPark tid call_trace_id ev =
     event1 [putType T_THREAD_PARK, putVar64 (le_start_time ev), putVar64 (le_end_time ev - le_start_time ev),
             putVar64_int tid, putVar64_u32 call_trace_id, putVar64_u32 (le_id ev), putVar64_int (le_timeout ev),
             putVar64 MIN_JLONG, putVar64 (le_address ev)]"

text \<open>The event type and the event that \<^verbatim>\<open>recordEvent\<close> is called with.\<close>

datatype sample_event =
    CpuSample execution_event | WallSample execution_event | AllocSample alloc_event
  | LiveSample object_liveness_event | LockSample lock_event | ParkSample lock_event | OtherSample

record clock_ctx =
  cc_ticks :: u64
  cc_attributes :: nat
  cc_context :: ctx
  cc_weight :: "alloc_event \<Rightarrow> u64 \<Rightarrow> u32"

definition sample_op :: "clock_ctx \<Rightarrow> int \<Rightarrow> u32 \<Rightarrow> sample_event \<Rightarrow> buffer_op option" where
  "sample_op cc tid call_trace_id ev =
     (let ticks = cc_ticks cc; n = cc_attributes cc; c = cc_context cc in
      case ev of
        CpuSample e \<Rightarrow> Some (recordExecutionSample ticks n c tid call_trace_id e)
      | WallSample e \<Rightarrow> Some (recordMethodSample ticks n c tid call_trace_id e)
      | AllocSample e \<Rightarrow> Some (recordAllocation ticks n c tid call_trace_id e)
      | LiveSample e \<Rightarrow> Some (recordHeapLiveObject (cc_weight cc) n tid call_trace_id e)
      | LockSample e \<Rightarrow> Some (recordMonitorBlocked n c tid call_trace_id e)
      | ParkSample e \<Rightarrow> Some (recordThreadPark tid call_trace_id e)
      | OtherSample \<Rightarrow> None)"

definition record_sample :: "os_write \<Rightarrow> clock_ctx \<Rightarrow> int \<Rightarrow> u32 \<Rightarrow> sample_event \<Rightarrow> sink_op" where
  "record_sample w cc tid call_trace_id ev =
     run_ops [case sample_op cc tid call_trace_id ev of None \<Rightarrow> Inr | Some op \<Rightarrow> write_event w op,
              flush_op w JFR_EVENT_FLUSH_THRESHOLD]"

section \<open>Other events of fixed size\<close>

definition recordWallClockEpoch :: "wall_clock_epoch_event \<Rightarrow> buffer_op" where
  "recordWallClockEpoch ev =
     event1 [putType T_WALLCLOCK_SAMPLE_EPOCH, putVar64 (wc_start_time ev), putVar64 (wc_duration_millis ev),
             putVar64_u32 (num_samplable_threads ev), putVar64_u32 (num_successful_samples ev),
             putVar64_u32 (num_failed_samples ev), putVar64_u32 (num_exited_threads ev), putVar64_u32 (num_permission_denied ev)]"

definition recordTraceRoot :: "u64 \<Rightarrow> int \<Rightarrow> trace_root_event \<Rightarrow> buffer_op" where
  "recordTraceRoot ticks tid ev =
     event1 [putType T_ENDPOINT, putVar64 ticks, put8 0, putVar32_int tid, put8 0, putVar32 (tr_label ev),
             putVar32 (tr_operation ev), putVar64 (tr_local_root_span_id ev)]"

definition recordQueueTime :: "nat \<Rightarrow> ctx \<Rightarrow> int \<Rightarrow> queue_time_event \<Rightarrow> buffer_op" where
  "recordQueueTime n c tid ev =
     event1 ([putType T_QUEUE_TIME, putVar64 (qt_start ev), putVar64 (qt_end ev - qt_start ev), putVar64_int tid,
              putVar64_u32 (qt_origin ev), putVar64_u32 (qt_task ev), putVar64_u32 (qt_scheduler ev),
              putVar64_u32 (qt_queueType ev), putVar64_u32 (qt_queueLength ev)] @ writeContext n c)"

definition writeHeapUsage :: "u64 \<Rightarrow> int \<Rightarrow> bool \<Rightarrow> buffer_op" where
  "writeHeapUsage ticks v live =
     event1 [putType T_HEAP_USAGE, putVar64 ticks, putVar64_int v, put8 (if live then 1 else 0)]"

definition recordCpuLoad :: "u64 \<Rightarrow> u32 \<Rightarrow> u32 \<Rightarrow> u32 \<Rightarrow> buffer_op" where
  "recordCpuLoad ticks proc_user proc_system machine_total =
     event1 [putType T_CPU_LOAD, putVar64 ticks, putFloat proc_user, putFloat proc_system, putFloat machine_total]"

section \<open>The contract of a writer\<close>

definition ready :: "sink \<Rightarrow> bool" where
  "ready s \<longleftrightarrow> wf_buffer (sk_buf s) \<and> limit (sk_buf s) = RecordingBuffer_limit \<and> offset (sk_buf s) < RECORDING_BUFFER_LIMIT"

definition stream :: "sink \<Rightarrow> u8 list" where
  "stream s = sk_file s @ contents (sk_buf s)"

definition full_writes :: "os_write \<Rightarrow> bool" where
  "full_writes w \<longleftrightarrow> (\<forall>n. w n = int n)"

definition emits :: "u8 list \<Rightarrow> sink_op \<Rightarrow> bool" where
  "emits bs op \<longleftrightarrow> (\<forall>s. ready s \<longrightarrow> (\<exists>s'. op s = Inr s' \<and> ready s' \<and> stream s' = stream s @ bs))"

lemma emitsD: "emits bs op \<Longrightarrow> ready s \<Longrightarrow> \<exists>s'. op s = Inr s' \<and> ready s' \<and> stream s' = stream s @ bs"
  by (simp add: emits_def)

lemma emits_Nil: "emits [] (run_ops [])"
  by (simp add: emits_def)

lemma emits_Cons:
  assumes "emits as f" and "emits bs (run_ops fs)"
  shows "emits (as @ bs) (run_ops (f # fs))"
  unfolding emits_def
proof (intro allI impI)
  fix s assume "ready s"
  from emitsD [OF assms(1) this] obtain s1 where 1: "f s = Inr s1" "ready s1" "stream s1 = stream s @ as" by blast
  from emitsD [OF assms(2) 1(2)] obtain s2 where "run_ops fs s1 = Inr s2" "ready s2" "stream s2 = stream s1 @ bs" by blast
  with 1 show "\<exists>s'. run_ops (f # fs) s = Inr s' \<and> ready s' \<and> stream s' = stream s @ as @ bs" by simp
qed

lemma wf_reset: "wf_buffer b \<Longrightarrow> wf_buffer (reset b)"
  by (simp add: wf_buffer_def reset_def)

lemma flush_sink_stream: "full_writes w \<Longrightarrow> wf_buffer (sk_buf s) \<Longrightarrow> stream (flush_sink w s) = stream s"
  by (simp add: stream_def flush_sink_def Let_def full_writes_def contents_def reset_def)

lemma flushIfNeeded_ready:
  assumes "full_writes w" and "wf_buffer (sk_buf s)" and "limit (sk_buf s) = RecordingBuffer_limit" and "lim \<le> JFR_EVENT_FLUSH_THRESHOLD"
  shows "ready (flushIfNeeded w lim s) \<and> stream (flushIfNeeded w lim s) = stream s
     \<and> int (offset (sk_buf (flushIfNeeded w lim s))) \<le> max 0 (lim - 1)"
proof (cases "int (offset (sk_buf s)) \<ge> lim")
  case True
  then have f: "flushIfNeeded w lim s = flush_sink w s" by (simp add: flushIfNeeded_def)
  have "sk_buf (flush_sink w s) = reset (sk_buf s)" by (simp add: flush_sink_def Let_def)
  then show ?thesis
    using assms flush_sink_stream [OF assms(1,2)] wf_reset [OF assms(2)]
    by (simp add: f ready_def reset_def buffer_consts)
next
  case False
  then show ?thesis using assms by (auto simp: flushIfNeeded_def ready_def JFR_EVENT_FLUSH_THRESHOLD_def)
qed

lemma emits_flush: "full_writes w \<Longrightarrow> lim \<le> JFR_EVENT_FLUSH_THRESHOLD \<Longrightarrow> emits [] (flush_op w lim)"
  using flushIfNeeded_ready unfolding emits_def flush_op_def by (auto simp: ready_def)

text \<open>Bytes appended to the buffer of a ready sink.\<close>

lemma on_buf_append:
  assumes "ready s" and "op (sk_buf s) = Inr (append_bytes bs (sk_buf s))"
  shows "on_buf op s = Inr (s\<lparr>sk_buf := append_bytes bs (sk_buf s)\<rparr>)"
    and "stream (s\<lparr>sk_buf := append_bytes bs (sk_buf s)\<rparr>) = stream s @ bs"
  using assms by (simp_all add: on_buf_def stream_def contents_append_bytes ready_def)

text \<open>The room that a ready buffer has.\<close>

definition ROOM :: nat where "ROOM = RecordingBuffer_limit - RECORDING_BUFFER_LIMIT"

lemma ROOM_eq: "ROOM = 3064"
  by (simp add: ROOM_def buffer_consts)

lemma ready_room: "ready s \<Longrightarrow> n \<le> ROOM \<Longrightarrow> offset (sk_buf s) + n < limit (sk_buf s)"
  by (simp add: ready_def ROOM_def buffer_consts)

lemma write_event_emits:
  assumes "full_writes w" and "appends n bs ev" and "n \<le> ROOM"
  shows "emits bs (write_event w ev)"
  unfolding emits_def
proof (intro allI impI)
  fix s assume r: "ready s"
  let ?s1 = "s\<lparr>sk_buf := append_bytes bs (sk_buf s)\<rparr>"
  have wf: "wf_buffer (sk_buf s)" and lim: "limit (sk_buf s) = RecordingBuffer_limit" using r by (simp_all add: ready_def)
  have room: "offset (sk_buf s) + n < limit (sk_buf s)" by (rule ready_room [OF r assms(3)])
  note ap = on_buf_append [of s ev bs, OF r appendsD [OF assms(2) wf room]]
  have "offset (sk_buf s) + length bs \<le> limit (sk_buf s)" using room appends_length [OF assms(2)] by simp
  then have "wf_buffer (sk_buf ?s1)" "limit (sk_buf ?s1) = RecordingBuffer_limit" using wf lim by simp_all
  from flushIfNeeded_ready [OF assms(1) this] ap
  show "\<exists>s'. write_event w ev s = Inr s' \<and> ready s' \<and> stream s' = stream s @ bs"
    by (simp add: write_event_def flush_op_def)
qed

text \<open>A framed event is the size followed by the fields.\<close>

lemma event1_appends:
  assumes ap: "appends n bs (run_ops fs)" and n: "n < 255"
  shows "appends (Suc n) (word_of_nat (Suc (length bs)) # bs) (event1 fs)"
  unfolding appends_def
proof (intro conjI allI impI)
  have len: "length bs \<le> n" by (rule appends_length [OF ap])
  then show "length (word_of_nat (Suc (length bs)) # bs) \<le> Suc n" by simp
  fix b assume wf: "wf_buffer b" and room: "offset b + Suc n < limit b"
  obtain stale where st: "length stale = 1" "skip 1 b = Inr (offset b, append_bytes stale b)"
    using skip_eq [OF wf, of 1] room by auto
  then obtain x where x: "stale = [x]" by (metis One_nat_def length_0_conv length_Suc_conv)
  let ?b1 = "append_bytes stale b"
  have wf1: "wf_buffer ?b1" using wf room st by simp
  have "run_ops fs ?b1 = Inr (append_bytes bs ?b1)"
    by (rule appendsD [OF ap wf1]) (use room st in simp)
  also have "append_bytes bs ?b1 = append_bytes (x # bs) b"
    using append_bytes_append_bytes [OF wf, of stale bs] st room len by (simp add: x)
  finally have f: "run_ops fs ?b1 = Inr (append_bytes (x # bs) b)" .
  have "writeEventSizePrefix (offset b) (append_bytes (x # bs) b)
      = Inr (append_bytes (word_of_nat (Suc (length bs)) # bs) b)"
    using put8_at_patch [OF wf, of bs "word_of_nat (Suc (length bs))" x] room len n
    by (simp add: writeEventSizePrefix_def MAX_JFR_EVENT_SIZE_def)
  then show "event1 fs b = Inr (append_bytes (word_of_nat (Suc (length bs)) # bs) b)"
    using f st by (simp add: event1_def run_ops_append)
qed

lemma event5_appends:
  assumes ap: "appends n bs (run_ops fs)"
  shows "appends (5 + n) (var32_padded (word_of_nat (5 + length bs)) @ bs) (event5 fs)"
  unfolding appends_def
proof (intro conjI allI impI)
  have len: "length bs \<le> n" by (rule appends_length [OF ap])
  then show "length (var32_padded (word_of_nat (5 + length bs)) @ bs) \<le> 5 + n" by simp
  fix b assume wf: "wf_buffer b" and room: "offset b + (5 + n) < limit b"
  obtain stale where st: "length stale = 5" "skip 5 b = Inr (offset b, append_bytes stale b)"
    using skip_eq [OF wf, of 5] room by auto
  let ?b1 = "append_bytes stale b"
  have wf1: "wf_buffer ?b1" using wf room st by simp
  have "run_ops fs ?b1 = Inr (append_bytes bs ?b1)"
    by (rule appendsD [OF ap wf1]) (use room st in simp)
  also have "append_bytes bs ?b1 = append_bytes (stale @ bs) b"
    using append_bytes_append_bytes [OF wf, of stale bs] st room len by simp
  finally have f: "run_ops fs ?b1 = Inr (append_bytes (stale @ bs) b)" .
  have "patch_size (offset b) (append_bytes (stale @ bs) b)
      = Inr (append_bytes (var32_padded (word_of_nat (5 + length bs)) @ bs) b)"
    using putVar32_at_patch [OF wf st(1), of bs] room len st by (simp add: patch_size_def)
  then show "event5 fs b = Inr (append_bytes (var32_padded (word_of_nat (5 + length bs)) @ bs) b)"
    using f st by (simp add: event5_def run_ops_append)
qed

section \<open>Fields that can be read\<close>

text \<open>
  A field writer needs room for \<open>n\<close> bytes and appends at most \<open>m\<close>, which are read as the value \<open>v\<close> of a field of
  kind \<open>k\<close>; and the same for a list of fields. The room may be larger than the field, since \<^verbatim>\<open>putVar64\<close> asserts
  room for nine bytes whatever the value.
\<close>

definition field_op :: "nat \<Rightarrow> nat \<Rightarrow> jfr_kind \<Rightarrow> jfr_value \<Rightarrow> buffer_op \<Rightarrow> bool" where
  "field_op n m k v op \<longleftrightarrow> (\<exists>bs. appends n bs op \<and> length bs \<le> m \<and> reads_as (read_kind k) bs v)"

definition fields_op :: "nat \<Rightarrow> nat \<Rightarrow> jfr_kind list \<Rightarrow> jfr_value list \<Rightarrow> buffer_op list \<Rightarrow> bool" where
  "fields_op n m ks vs ops \<longleftrightarrow> (\<exists>bs. appends n bs (run_ops ops) \<and> length bs \<le> m \<and> reads ks bs vs)"

lemma fields_op_Nil: "fields_op 0 0 [] [] []"
  unfolding fields_op_def using appends_Nil reads_Nil by (metis le0 list.size(3))

lemma fields_op_Cons:
  assumes "field_op n m k v op" and "fields_op n' m' ks vs ops"
  shows "fields_op (n + n') (m + m') (k # ks) (v # vs) (op # ops)"
proof -
  obtain as where 1: "appends n as op" "length as \<le> m" "reads_as (read_kind k) as v" using assms(1) by (auto simp: field_op_def)
  obtain bs where 2: "appends n' bs (run_ops ops)" "length bs \<le> m'" "reads ks bs vs" using assms(2) by (auto simp: fields_op_def)
  show ?thesis unfolding fields_op_def
    by (intro exI [of _ "as @ bs"] conjI appends_Cons 1 2 reads_Cons) (use 1(2) 2(2) in simp)
qed

lemma fields_op_append:
  assumes "fields_op n m ks vs ops" and "fields_op n' m' ls us ops'"
  shows "fields_op (n + n') (m + m') (ks @ ls) (vs @ us) (ops @ ops')"
proof -
  obtain as where 1: "appends n as (run_ops ops)" "length as \<le> m" "reads ks as vs" using assms(1) by (auto simp: fields_op_def)
  obtain bs where 2: "appends n' bs (run_ops ops')" "length bs \<le> m'" "reads ls bs us" using assms(2) by (auto simp: fields_op_def)
  show ?thesis unfolding fields_op_def
    by (intro exI [of _ "as @ bs"] conjI appends_append 1 2 reads_append) (use 1(2) 2(2) in simp)
qed

lemma fields_op_mono: "fields_op n m ks vs ops \<Longrightarrow> n \<le> n' \<Longrightarrow> m \<le> m' \<Longrightarrow> fields_op n' m' ks vs ops"
  unfolding fields_op_def using appends_mono le_trans by blast

lemma field_op_intro: "appends n bs op \<Longrightarrow> length bs \<le> m \<Longrightarrow> reads_as (read_kind k) bs v \<Longrightarrow> field_op n m k v op"
  by (auto simp: field_op_def)

lemma length_var64_small:
  assumes "unat v < 2 ^ 35"
  shows "length (var64_loop 0 v) \<le> 5"
proof (cases "unat v > 0x1fffff")
  case True
  have "unat (drop_bit 21 v) < 128 ^ Suc 1" using assms by (simp add: less_mult_imp_div_less)
  then have "length (var_loop (drop_bit 21 v)) \<le> Suc 1" by (rule length_var_loop)
  moreover have "\<not> unat (drop_bit 21 v) > 0x1fffff" using assms by (simp add: less_mult_imp_div_less)
  ultimately show ?thesis using True by (simp add: var64_loop.simps [of 0 v] var64_loop.simps [of "Suc 0"])
next
  case False
  then have "unat v < 128 ^ Suc 4" by simp
  then have "length (var_loop v) \<le> Suc 4" by (rule length_var_loop)
  then show ?thesis using False by (simp add: var64_loop.simps [of 0 v])
qed

lemma var64_one_byte: "unat v < 128 \<Longrightarrow> var64_loop 0 v = [ucast v]"
  by (simp add: var64_loop.simps var_loop.simps)

lemma unat_ucast_u32_u64 [simp]: "unat (ucast (v :: u32) :: u64) = unat v"
  using u32_less [of v] by (simp add: unsigned_ucast_eq take_bit_nat_eq_self)

lemma field_var64: "field_op 9 9 KVar (VNum (unat v)) (putVar64 v)"
  by (rule field_op_intro [OF appends_putVar64 length_var64 reads_var64])

lemma field_var64_int: "field_op 9 9 KVar (VNum (unat (word_of_int v :: u64))) (putVar64_int v)"
  unfolding putVar64_int_def by (rule field_var64)

lemma field_var64_u32: "field_op 9 5 KVar (VNum (unat v)) (putVar64_u32 v)"
proof -
  have "length (var64_loop 0 (ucast v)) \<le> 5" by (rule length_var64_small) (use u32_less [of v] in simp)
  from field_op_intro [OF appends_putVar64 this reads_var64] show ?thesis by (simp add: putVar64_u32_def)
qed

lemma field_var32: "field_op 5 5 KVar (VNum (unat v)) (putVar32 v)"
  by (rule field_op_intro [OF appends_putVar32 length_var32 reads_var32])

lemma field_var32_int: "field_op 5 5 KVar (VNum (unat (word_of_int v :: u32))) (putVar32_int v)"
  unfolding putVar32_int_def by (rule field_var32)

lemma field_small: "unat b < 128 \<Longrightarrow> field_op 1 1 KVar (VNum (unat b)) (put8 b)"
  by (rule field_op_intro [OF appends_put8 _ reads_small]) simp

lemma field_byte: "field_op 1 1 KByte (VByte b) (put8 b)"
  by (rule field_op_intro [OF appends_put8 _ reads_byte]) simp

lemma field_float: "field_op 4 4 KFloat (VFloat v) (putFloat v)"
  by (rule field_op_intro [OF appends_putFloat _ reads_float]) simp

lemma length_utf8_bytes_small: "length s < 128 \<Longrightarrow> length (utf8_bytes s) = 2 + length s"
  by (simp add: utf8_bytes_def Let_def MAX_STRING_LENGTH_def min_def var_loop.simps unat_word_of_nat)

lemma field_string:
  assumes "length s < 2 ^ 32"
  shows "field_op (6 + min (length s) MAX_STRING_LENGTH) (6 + min (length s) MAX_STRING_LENGTH) KStr
     (VStr (Some (take MAX_STRING_LENGTH s))) (putUtf8 (Some s))"
  by (rule field_op_intro [OF appends_putUtf8_Some [OF assms] appends_length [OF appends_putUtf8_Some [OF assms]] reads_string])

lemma field_string_small:
  assumes "length s < 128"
  shows "field_op (6 + length s) (2 + length s) KStr (VStr (Some s)) (putUtf8 (Some s))"
proof -
  have "appends (6 + length s) (utf8_bytes s) (putUtf8 (Some s))" "take MAX_STRING_LENGTH s = s"
    using appends_putUtf8_Some [of s] assms by (simp_all add: MAX_STRING_LENGTH_def min_def)
  then show ?thesis using reads_string [of s] length_utf8_bytes_small [OF assms] by (auto intro: field_op_intro)
qed

lemma field_null: "field_op 1 1 KStr (VStr None) (putUtf8 None)"
  by (rule field_op_intro [OF appends_putUtf8_None _ reads_null]) simp

lemmas field_intros = fields_op_Cons fields_op_Nil field_var64 field_var64_int field_var64_u32 field_var32 field_var32_int
  field_byte field_float field_null

lemma tags_fields:
  assumes "n \<le> length (tags c)"
  shows "fields_op (5 * n) (5 * n) (replicate n KVar) (map (\<lambda>t. VNum (unat t)) (take n (tags c))) (map (put_tag c) [0..<n])"
  using assms
proof (induction n)
  case 0
  show ?case by (simp add: fields_op_Nil)
next
  case (Suc n)
  then have "put_tag c n = putVar32 (tags c ! n)" by (simp add: put_tag_def get_tag_def fun_eq_iff)
  then have one: "fields_op (5 + 0) (5 + 0) [KVar] [VNum (unat (tags c ! n))] [put_tag c n]"
    by (metis field_var32 fields_op_Cons fields_op_Nil)
  have "fields_op (5 * n) (5 * n) (replicate n KVar) (map (\<lambda>t. VNum (unat t)) (take n (tags c))) (map (put_tag c) [0..<n])"
    using Suc by simp
  from fields_op_append [OF this one] Suc(2) show ?case
    by (simp add: take_Suc_conv_app_nth replicate_append_same [symmetric] add.commute)
qed

definition context_values :: "nat \<Rightarrow> ctx \<Rightarrow> jfr_value list" where
  "context_values n c = [VNum (unat (spanId c)), VNum (unat (rootSpanId c))] @ map (\<lambda>t. VNum (unat t)) (take n (tags c))"

lemma context_fields:
  assumes "n \<le> length (tags c)" and "n \<le> 10"
  shows "fields_op 68 68 ([KVar, KVar] @ replicate n KVar) (context_values n c) (writeContext n c)"
proof -
  have "fields_op (9 + (9 + 0)) (9 + (9 + 0)) [KVar, KVar] [VNum (unat (spanId c)), VNum (unat (rootSpanId c))]
      [putVar64 (spanId c), putVar64 (rootSpanId c)]"
    by (intro field_intros)
  from fields_op_append [OF this tags_fields [OF assms(1)]]
  have "fields_op (9 + (9 + 0) + 5 * n) (9 + (9 + 0) + 5 * n) ([KVar, KVar] @ replicate n KVar) (context_values n c) (writeContext n c)"
    unfolding context_values_def writeContext_def .
  then show ?thesis by (rule fields_op_mono) (use assms(2) in simp_all)
qed

section \<open>Events that can be read\<close>

text \<open>An event of less than 128 bytes has a size of one byte; a longer one needs the size of five bytes.\<close>

definition event_op :: "nat \<Rightarrow> schema \<Rightarrow> JfrType \<Rightarrow> jfr_value list \<Rightarrow> buffer_op \<Rightarrow> bool" where
  "event_op n sch t vs op \<longleftrightarrow> (\<exists>bs. appends n bs op \<and> reads_as (read_event sch t) bs vs)"

lemma type_field:
  assumes "jfr_id t < 128"
  shows "appends 9 [word_of_nat (jfr_id t)] (putType t)" and "reads_as jfr_read_long [word_of_nat (jfr_id t)] (jfr_id t)"
proof -
  have u: "unat (word_of_nat (jfr_id t) :: u64) = jfr_id t" "unat (word_of_nat (jfr_id t) :: u8) = jfr_id t"
    using assms by (simp_all add: unat_word_of_nat)
  have "ucast (word_of_nat (jfr_id t) :: u64) = (word_of_nat (jfr_id t) :: u8)"
    unfolding word_unat_eq_iff using assms by (simp add: u unat_ucast_u8)
  then have "var64_loop 0 (word_of_nat (jfr_id t)) = [word_of_nat (jfr_id t)]"
    using var64_one_byte [of "word_of_nat (jfr_id t)"] assms by (simp add: u)
  then show "appends 9 [word_of_nat (jfr_id t)] (putType t)"
    using appends_putVar64 [of "word_of_nat (jfr_id t)"] by (simp add: putType_def)
  show "reads_as jfr_read_long [word_of_nat (jfr_id t)] (jfr_id t)"
    using read_small [of "word_of_nat (jfr_id t)"] assms by (simp add: reads_as_def u)
qed

lemma event1_framed:
  assumes "fields_op n m ks vs fs" and "jfr_id t < 128" and "n \<le> 244" and "m \<le> 125"
  shows "\<exists>szs ts body. appends (10 + n) (szs @ ts @ body) (event1 (putType t # fs)) \<and>
     reads_as jfr_read_long szs (length szs + length ts + length body) \<and> reads_as jfr_read_long ts (jfr_id t) \<and> reads ks body vs"
proof -
  obtain bs where bs: "appends n bs (run_ops fs)" "length bs \<le> m" "reads ks bs vs"
    using assms(1) by (auto simp: fields_op_def)
  let ?ts = "[word_of_nat (jfr_id t)]"
  have "appends (9 + n) (?ts @ bs) (run_ops (putType t # fs))" by (rule appends_Cons [OF type_field(1) [OF assms(2)] bs(1)])
  from event1_appends [OF this] assms(3)
  have "appends (10 + n) ([word_of_nat (Suc (Suc (length bs)))] @ ?ts @ bs) (event1 (putType t # fs))" by simp
  moreover have u: "unat (word_of_nat (Suc (Suc (length bs))) :: u8) = Suc (Suc (length bs))"
    using bs(2) assms(4) by (intro unat_word_of_nat) simp
  moreover have "reads_as jfr_read_long [word_of_nat (Suc (Suc (length bs)))]
      (length [word_of_nat (Suc (Suc (length bs))) :: u8] + length ?ts + length bs)"
    using read_small [of "word_of_nat (Suc (Suc (length bs)))"] bs(2) assms(4) unfolding reads_as_def u by simp
  ultimately show ?thesis using type_field(2) [OF assms(2)] bs(3) by blast
qed

lemma event1_op:
  assumes "fields_op n m (event_kinds sch t) vs fs" and "jfr_id t < 128" and "n \<le> 244" and "m \<le> 125"
  shows "event_op (10 + n) sch t vs (event1 (putType t # fs))"
  unfolding event_op_def using event1_framed [OF assms] read_event_framed by blast

lemma event5_op:
  assumes "fields_op n m (event_kinds sch t) vs fs" and "jfr_id t < 128" and "n < 2 ^ 31"
  shows "event_op (14 + n) sch t vs (event5 (putType t # fs))"
proof -
  obtain bs where bs: "appends n bs (run_ops fs)" "length bs \<le> m" "reads (event_kinds sch t) bs vs"
    using assms(1) by (auto simp: fields_op_def)
  let ?ts = "[word_of_nat (jfr_id t)]"
  have "appends (9 + n) (?ts @ bs) (run_ops (putType t # fs))" by (rule appends_Cons [OF type_field(1) [OF assms(2)] bs(1)])
  from event5_appends [OF this]
  have ap: "appends (14 + n) (var32_padded (word_of_nat (5 + length (?ts @ bs))) @ ?ts @ bs) (event5 (putType t # fs))" by simp
  have u: "unat (word_of_nat (5 + length (?ts @ bs)) :: u32) = 5 + length (?ts @ bs)"
    using appends_length [OF bs(1)] assms(3) by (intro unat_word_of_nat) simp
  have "reads_as jfr_read_long (var32_padded (word_of_nat (5 + length (?ts @ bs)))) (5 + length (?ts @ bs))"
    using read_var32_padded [of "word_of_nat (5 + length (?ts @ bs))"] unfolding reads_as_def jfr_read_long_def u by simp
  then have "reads_as (read_event sch t) (var32_padded (word_of_nat (5 + length (?ts @ bs))) @ ?ts @ bs) vs"
    by (intro read_event_framed type_field(2) [OF assms(2)] bs(3)) simp
  then show ?thesis unfolding event_op_def using ap by auto
qed

section \<open>What the events mean\<close>

text \<open>The type of an event and the values a reader should find in it.\<close>

fun sample_type :: "sample_event \<Rightarrow> JfrType" where
  "sample_type (CpuSample _) = T_EXECUTION_SAMPLE"
| "sample_type (WallSample _) = T_METHOD_SAMPLE"
| "sample_type (AllocSample _) = T_ALLOC"
| "sample_type (LiveSample _) = T_HEAP_LIVE_OBJECT"
| "sample_type (LockSample _) = T_MONITOR_ENTER"
| "sample_type (ParkSample _) = T_THREAD_PARK"
| "sample_type OtherSample = T_EVENT"

definition tid_value :: "int \<Rightarrow> jfr_value" where
  "tid_value tid = VNum (unat (word_of_int tid :: u64))"

definition execution_values :: "clock_ctx \<Rightarrow> int \<Rightarrow> u32 \<Rightarrow> execution_event \<Rightarrow> jfr_value list" where
  "execution_values cc tid ct e =
     [VNum (unat (cc_ticks cc)), tid_value tid, VNum (unat ct), VNum (os_state_code (ee_thread_state e)),
      VNum (execution_mode_code (ee_execution_mode e)), VNum (unat (ee_weight e))] @ context_values (cc_attributes cc) (cc_context cc)"

fun sample_values :: "clock_ctx \<Rightarrow> int \<Rightarrow> u32 \<Rightarrow> sample_event \<Rightarrow> jfr_value list" where
  "sample_values cc tid ct (CpuSample e) = execution_values cc tid ct e"
| "sample_values cc tid ct (WallSample e) = execution_values cc tid ct e"
| "sample_values cc tid ct (AllocSample e) =
     [VNum (unat (cc_ticks cc)), tid_value tid, VNum (unat ct), VNum (unat (ae_id e)), VNum (unat (ae_size e)),
      VFloat (ae_weight e)] @ context_values (cc_attributes cc) (cc_context cc)"
| "sample_values cc tid ct (LiveSample e) =
     [VNum (unat (ol_start_time e)), VNum (unat (word_of_int tid :: u32)), VNum (unat ct), VNum (unat (ol_id e)),
      VNum (unat (ol_age e)), VNum (unat (ae_size (ol_alloc e))), VFloat (live_weight (cc_weight cc) e)]
     @ context_values (cc_attributes cc) (ol_ctx e)"
| "sample_values cc tid ct _ = []"

text \<open>The events the metadata declares, with enough tags in the context.\<close>

fun declared :: "nat \<Rightarrow> ctx \<Rightarrow> sample_event \<Rightarrow> bool" where
  "declared n c (LiveSample e) \<longleftrightarrow> n \<le> length (tags (ol_ctx e))"
| "declared n c (LockSample e) \<longleftrightarrow> False"
| "declared n c (ParkSample e) \<longleftrightarrow> False"
| "declared n c OtherSample \<longleftrightarrow> False"
| "declared n c _ \<longleftrightarrow> n \<le> length (tags c)"

lemma os_state_code_small: "os_state_code st < 10"
  by (cases st) simp_all

lemma execution_mode_code_small: "execution_mode_code m < 6"
  by (cases m) simp_all

lemma field_os_state: "field_op 1 1 KVar (VNum (os_state_code st)) (put8 (word_of_nat (os_state_code st)))"
  using field_small [of "word_of_nat (os_state_code st)"] os_state_code_small [of st] by (simp add: unat_word_of_nat)

lemma field_execution_mode: "field_op 1 1 KVar (VNum (execution_mode_code m)) (put8 (word_of_nat (execution_mode_code m)))"
  using field_small [of "word_of_nat (execution_mode_code m)"] execution_mode_code_small [of m] by (simp add: unat_word_of_nat)

lemma field_zero: "field_op 1 1 KVar (VNum 0) (put8 0)"
  using field_small [of 0] by simp

lemmas sample_field_intros = field_intros field_os_state field_execution_mode field_zero

text \<open>An event with a context at its end, and one without.\<close>

lemma event1_ctx:
  assumes f: "fields_op n m ks vs fs" and bounds: "n \<le> 176" "m \<le> 57" and c: "k \<le> length (tags c)" "k \<le> 10"
    and kinds: "event_kinds sch t = ks @ [KVar, KVar] @ replicate k KVar" and i: "jfr_id t < 128"
  shows "event_op 254 sch t (vs @ context_values k c) (event1 (putType t # fs @ writeContext k c))"
proof -
  have "fields_op (n + 68) (m + 68) (event_kinds sch t) (vs @ context_values k c) (fs @ writeContext k c)"
    unfolding kinds by (rule fields_op_append [OF f context_fields [OF c]])
  then have "fields_op 244 125 (event_kinds sch t) (vs @ context_values k c) (fs @ writeContext k c)"
    by (rule fields_op_mono) (use bounds in simp_all)
  from event1_op [OF this i] show ?thesis by simp
qed

lemma event1_plain:
  assumes f: "fields_op n m ks vs fs" and bounds: "n \<le> 244" "m \<le> 125"
    and kinds: "event_kinds sch t = ks" and i: "jfr_id t < 128"
  shows "event_op 254 sch t vs (event1 (putType t # fs))"
proof -
  have "fields_op 244 125 (event_kinds sch t) vs fs" unfolding kinds by (rule fields_op_mono [OF f]) (use bounds in simp_all)
  from event1_op [OF this i] show ?thesis by simp
qed

lemma execution_fields_op:
  assumes "k \<le> length (tags c)" and "k \<le> 10"
  shows "fields_op 244 125 ([KVar, KVar, KVar, KVar, KVar, KVar] @ [KVar, KVar] @ replicate k KVar)
     ([VNum (unat ticks), tid_value tid, VNum (unat ct), VNum (os_state_code (ee_thread_state e)),
       VNum (execution_mode_code (ee_execution_mode e)), VNum (unat (ee_weight e))] @ context_values k c)
     (tl (execution_fields t ticks k c tid ct e))"
proof -
  have "fields_op (9 + (9 + (9 + (1 + (1 + (9 + 0)))))) (9 + (9 + (5 + (1 + (1 + (9 + 0)))))) [KVar, KVar, KVar, KVar, KVar, KVar]
     [VNum (unat ticks), tid_value tid, VNum (unat ct), VNum (os_state_code (ee_thread_state e)),
      VNum (execution_mode_code (ee_execution_mode e)), VNum (unat (ee_weight e))]
     [putVar64 ticks, putVar64_int tid, putVar64_u32 ct, put8 (word_of_nat (os_state_code (ee_thread_state e))),
      put8 (word_of_nat (execution_mode_code (ee_execution_mode e))), putVar64 (ee_weight e)]"
    unfolding tid_value_def by (intro sample_field_intros)
  from fields_op_mono [OF fields_op_append [OF this context_fields [OF assms]], of 244 125]
  show ?thesis by (simp add: execution_fields_def)
qed

lemma execution_op:
  assumes "k \<le> length (tags c)" and "k \<le> 10"
    and kinds: "event_kinds sch t = [KVar, KVar, KVar, KVar, KVar, KVar] @ [KVar, KVar] @ replicate k KVar" and i: "jfr_id t < 128"
  shows "event_op 254 sch t
     ([VNum (unat ticks), tid_value tid, VNum (unat ct), VNum (os_state_code (ee_thread_state e)),
       VNum (execution_mode_code (ee_execution_mode e)), VNum (unat (ee_weight e))] @ context_values k c)
     (event1 (execution_fields t ticks k c tid ct e))"
  using event1_op [OF execution_fields_op [OF assms(1,2), folded kinds], of ticks tid ct e t] i by (simp add: execution_fields_def)

lemma allocation_op:
  assumes "k \<le> length (tags c)" and "k \<le> 10"
  shows "event_op 254 (profiler_schema k v14) T_ALLOC
     ([VNum (unat ticks), tid_value tid, VNum (unat ct), VNum (unat (ae_id e)), VNum (unat (ae_size e)), VFloat (ae_weight e)]
      @ context_values k c)
     (recordAllocation ticks k c tid ct e)"
proof -
  have "fields_op (9 + (9 + (9 + (9 + (9 + (4 + 0)))))) (9 + (9 + (5 + (5 + (9 + (4 + 0)))))) [KVar, KVar, KVar, KVar, KVar, KFloat]
     [VNum (unat ticks), tid_value tid, VNum (unat ct), VNum (unat (ae_id e)), VNum (unat (ae_size e)), VFloat (ae_weight e)]
     [putVar64 ticks, putVar64_int tid, putVar64_u32 ct, putVar64_u32 (ae_id e), putVar64 (ae_size e), putFloat (ae_weight e)]"
    unfolding tid_value_def by (intro sample_field_intros)
  from event1_ctx [OF this _ _ assms, of "profiler_schema k v14" T_ALLOC] show ?thesis
    by (simp add: recordAllocation_def event_kinds_samples)
qed

lemma live_object_op:
  assumes "k \<le> length (tags (ol_ctx e))" and "k \<le> 10"
  shows "event_op 254 (profiler_schema k v14) T_HEAP_LIVE_OBJECT
     ([VNum (unat (ol_start_time e)), VNum (unat (word_of_int tid :: u32)), VNum (unat ct), VNum (unat (ol_id e)),
       VNum (unat (ol_age e)), VNum (unat (ae_size (ol_alloc e))), VFloat (live_weight weight e)] @ context_values k (ol_ctx e))
     (recordHeapLiveObject weight k tid ct e)"
proof -
  have "fields_op (9 + (5 + (5 + (5 + (9 + (9 + (4 + 0))))))) (9 + (5 + (5 + (5 + (9 + (9 + (4 + 0)))))))
     [KVar, KVar, KVar, KVar, KVar, KVar, KFloat]
     [VNum (unat (ol_start_time e)), VNum (unat (word_of_int tid :: u32)), VNum (unat ct), VNum (unat (ol_id e)),
      VNum (unat (ol_age e)), VNum (unat (ae_size (ol_alloc e))), VFloat (live_weight weight e)]
     [putVar64 (ol_start_time e), putVar32_int tid, putVar32 ct, putVar32 (ol_id e), putVar64 (ol_age e),
      putVar64 (ae_size (ol_alloc e)), putFloat (live_weight weight e)]"
    by (intro sample_field_intros)
  from event1_ctx [OF this _ _ assms, of "profiler_schema k v14" T_HEAP_LIVE_OBJECT] show ?thesis
    by (simp add: recordHeapLiveObject_def event_kinds_samples)
qed

lemma queue_time_op:
  assumes "k \<le> length (tags c)" and "k \<le> 10"
  shows "event_op 254 (profiler_schema k v14) T_QUEUE_TIME
     ([VNum (unat (qt_start e)), VNum (unat (qt_end e - qt_start e)), tid_value tid, VNum (unat (qt_origin e)),
       VNum (unat (qt_task e)), VNum (unat (qt_scheduler e)), VNum (unat (qt_queueType e)), VNum (unat (qt_queueLength e))]
      @ context_values k c)
     (recordQueueTime k c tid e)"
proof -
  have "fields_op (9 + (9 + (9 + (9 + (9 + (9 + (9 + (9 + 0)))))))) (9 + (9 + (9 + (5 + (5 + (5 + (5 + (5 + 0))))))))
     [KVar, KVar, KVar, KVar, KVar, KVar, KVar, KVar]
     [VNum (unat (qt_start e)), VNum (unat (qt_end e - qt_start e)), tid_value tid, VNum (unat (qt_origin e)),
      VNum (unat (qt_task e)), VNum (unat (qt_scheduler e)), VNum (unat (qt_queueType e)), VNum (unat (qt_queueLength e))]
     [putVar64 (qt_start e), putVar64 (qt_end e - qt_start e), putVar64_int tid, putVar64_u32 (qt_origin e),
      putVar64_u32 (qt_task e), putVar64_u32 (qt_scheduler e), putVar64_u32 (qt_queueType e), putVar64_u32 (qt_queueLength e)]"
    unfolding tid_value_def by (intro sample_field_intros)
  from event1_ctx [OF this _ _ assms, of "profiler_schema k v14" T_QUEUE_TIME] show ?thesis
    by (simp add: recordQueueTime_def event_kinds_samples)
qed

lemma wall_clock_epoch_op:
  "event_op 254 (profiler_schema k v14) T_WALLCLOCK_SAMPLE_EPOCH
     [VNum (unat (wc_start_time e)), VNum (unat (wc_duration_millis e)), VNum (unat (num_samplable_threads e)),
      VNum (unat (num_successful_samples e)), VNum (unat (num_failed_samples e)), VNum (unat (num_exited_threads e)),
      VNum (unat (num_permission_denied e))]
     (recordWallClockEpoch e)"
  unfolding recordWallClockEpoch_def
  by (rule event1_plain [OF _ _ _ event_kinds_samples(3), of "9 + (9 + (9 + (9 + (9 + (9 + (9 + 0))))))" "9 + (9 + (5 + (5 + (5 + (5 + (5 + 0))))))"])
    (intro sample_field_intros, simp_all)

lemma trace_root_op:
  "event_op 254 (profiler_schema k v14) T_ENDPOINT
     [VNum (unat ticks), VNum 0, VNum (unat (word_of_int tid :: u32)), VNum 0, VNum (unat (tr_label e)),
      VNum (unat (tr_operation e)), VNum (unat (tr_local_root_span_id e))]
     (recordTraceRoot ticks tid e)"
  unfolding recordTraceRoot_def
  by (rule event1_plain [OF _ _ _ event_kinds_samples(6), of "9 + (1 + (5 + (1 + (5 + (5 + (9 + 0))))))" "9 + (1 + (5 + (1 + (5 + (5 + (9 + 0))))))"])
    (intro sample_field_intros, simp_all)

lemma heap_usage_op:
  "event_op 254 (profiler_schema k v14) T_HEAP_USAGE
     [VNum (unat ticks), VNum (unat (word_of_int v :: u64)), VByte (if live then 1 else 0)] (writeHeapUsage ticks v live)"
  unfolding writeHeapUsage_def
  by (rule event1_plain [OF _ _ _ event_kinds_recording(1), of "9 + (9 + (1 + 0))" "9 + (9 + (1 + 0))"])
    (intro sample_field_intros, simp_all)

lemma cpu_load_op:
  "event_op 254 (profiler_schema k v14) T_CPU_LOAD [VNum (unat ticks), VFloat u, VFloat s, VFloat m] (recordCpuLoad ticks u s m)"
  unfolding recordCpuLoad_def
  by (rule event1_plain [OF _ _ _ event_kinds_recording(2), of "9 + (4 + (4 + (4 + 0)))" "9 + (4 + (4 + (4 + 0)))"])
    (intro sample_field_intros, simp_all)

section \<open>Properties\<close>

text \<open>
  \<open>records sch t vs op s\<close>: the writer succeeds on \<open>s\<close>, leaves the buffer below its limit, and has added one event
  that a reader with the schema \<open>sch\<close> reads as type \<open>t\<close> with the values \<open>vs\<close>.
\<close>

definition records :: "schema \<Rightarrow> JfrType \<Rightarrow> jfr_value list \<Rightarrow> sink_op \<Rightarrow> sink \<Rightarrow> bool" where
  "records sch t vs op s \<longleftrightarrow> (\<exists>s' bs. op s = Inr s' \<and> ready s' \<and> stream s' = stream s @ bs \<and> reads_as (read_event sch t) bs vs)"

lemma event_op_recorded:
  assumes "event_op n sch t vs op" and "n \<le> ROOM" and "full_writes w" and "ready s"
  shows "records sch t vs (write_event w op) s"
proof -
  obtain bs where "appends n bs op" "reads_as (read_event sch t) bs vs" using assms(1) by (auto simp: event_op_def)
  with emitsD [OF write_event_emits [OF assms(3) this(1) assms(2)] assms(4)] show ?thesis by (auto simp: records_def)
qed

lemma records_flush:
  assumes "records sch t vs op s" and "full_writes w"
  shows "records sch t vs (run_ops [op, flush_op w JFR_EVENT_FLUSH_THRESHOLD]) s"
proof -
  obtain s1 bs where 1: "op s = Inr s1" "ready s1" "stream s1 = stream s @ bs" "reads_as (read_event sch t) bs vs"
    using assms(1) by (auto simp: records_def)
  from emitsD [OF emits_flush [OF assms(2)] 1(2), of JFR_EVENT_FLUSH_THRESHOLD] obtain s2
    where "flush_op w JFR_EVENT_FLUSH_THRESHOLD s1 = Inr s2" "ready s2" "stream s2 = stream s1 @ []" by auto
  with 1 show ?thesis by (auto simp: records_def)
qed

lemma sample_event_op:
  assumes "cc_attributes cc \<le> 10" and "declared (cc_attributes cc) (cc_context cc) ev"
  shows "\<exists>op. sample_op cc tid ct ev = Some op \<and>
     event_op 254 (profiler_schema (cc_attributes cc) v14) (sample_type ev) (sample_values cc tid ct ev) op"
proof -
  note ex = execution_op [of "cc_attributes cc" "cc_context cc" "profiler_schema (cc_attributes cc) v14"]
  show ?thesis
  proof (cases ev)
    case (CpuSample e)
    then show ?thesis using assms ex [of T_EXECUTION_SAMPLE "cc_ticks cc" tid ct e]
      by (simp add: sample_op_def recordExecutionSample_def execution_values_def event_kinds_samples)
  next
    case (WallSample e)
    then show ?thesis using assms ex [of T_METHOD_SAMPLE "cc_ticks cc" tid ct e]
      by (simp add: sample_op_def recordMethodSample_def execution_values_def event_kinds_samples)
  next
    case (AllocSample e)
    then show ?thesis using assms allocation_op [of "cc_attributes cc" "cc_context cc" v14 "cc_ticks cc" tid ct e]
      by (simp add: sample_op_def)
  next
    case (LiveSample e)
    then show ?thesis using assms live_object_op [of "cc_attributes cc" e v14 tid ct "cc_weight cc"] by (simp add: sample_op_def)
  qed (use assms in simp_all)
qed

text \<open>
  C3. Every sample that the metadata declares is recorded readably: on a buffer below its limit the writer
  does not fail, and it adds exactly one event to the stream, which a JFR reader that knows only the metadata
  reads as the time, thread, call trace and measurements of the sample, the span ids and the context
  attributes.
\<close>

theorem samples_readable:
  fixes attrs v14
  defines "m \<equiv> initialize_metadata attrs v14 new_JfrMetadata"
  assumes "full_writes w" and "ready s" and "length attrs \<le> 10" and "cc_attributes cc = length attrs"
    and "declared (cc_attributes cc) (cc_context cc) ev"
  shows "\<exists>s' bs. record_sample w cc tid call_trace_id ev s = Inr s' \<and> ready s' \<and> stream s' = stream s @ bs \<and>
     (\<forall>rest. read_event (schema_of (resolve (strings (meta_table m)) (meta_root m))) (sample_type ev) (bs @ rest)
             = Some (sample_values cc tid call_trace_id ev, rest))"
proof -
  obtain op where op: "sample_op cc tid call_trace_id ev = Some op"
    "event_op 254 (profiler_schema (length attrs) v14) (sample_type ev) (sample_values cc tid call_trace_id ev) op"
    using sample_event_op [of cc ev tid call_trace_id v14] assms by auto
  have "254 \<le> ROOM" by (simp add: ROOM_eq)
  from records_flush [OF event_op_recorded [OF op(2) this assms(2,3)] assms(2)] show ?thesis
    by (simp only: record_sample_def op(1) option.case records_def reads_as_def m_def initialize_metadata_ok profiler_schema_attrs)
qed

text \<open>A state and a sample to apply the properties to.\<close>

definition demo_sink :: sink where
  "demo_sink = \<lparr>sk_buf = new_RecordingBuffer [], sk_file = [], sk_written = 0\<rparr>"

definition demo_clock :: "nat \<Rightarrow> clock_ctx" where
  "demo_clock n = \<lparr>cc_ticks = 1000, cc_attributes = n, cc_context = empty_ctx\<lparr>spanId := 7, tags := [4, 4, 4, 4, 4, 4, 4, 4, 4, 4]\<rparr>, cc_weight = (\<lambda>_ _. 0)\<rparr>"

lemma demo_ready: "ready demo_sink" "full_writes int"
  by (simp_all add: ready_def demo_sink_def wf_new_RecordingBuffer full_writes_def)
    (simp_all add: new_RecordingBuffer_def buffer_consts)

definition demo_metadata :: jfr_metadata where
  "demo_metadata = initialize_metadata [''user'', ''tenant''] True new_JfrMetadata"

theorem samples_readable_witness:
  "\<exists>s' bs. record_sample int (demo_clock (Suc (Suc 0))) 42 5 (WallSample new_ExecutionEvent) demo_sink = Inr s' \<and> ready s' \<and>
     stream s' = stream demo_sink @ bs \<and>
     (\<forall>rest. read_event (schema_of (resolve (strings (meta_table demo_metadata)) (meta_root demo_metadata))) T_METHOD_SAMPLE (bs @ rest) =
        Some ([VNum 1000, VNum 42, VNum 5, VNum 2, VNum 0, VNum 1, VNum 7, VNum 0, VNum 4, VNum 4], rest))"
proof -
  have v: "sample_values (demo_clock (Suc (Suc 0))) 42 5 (WallSample new_ExecutionEvent) =
      [VNum 1000, VNum 42, VNum 5, VNum 2, VNum 0, VNum 1, VNum 7, VNum 0, VNum 4, VNum 4]"
    by (simp add: execution_values_def new_ExecutionEvent_def demo_clock_def context_values_def tid_value_def empty_ctx_def)
  have "length [''user'', ''tenant''] \<le> 10" "cc_attributes (demo_clock (Suc (Suc 0))) = length [''user'', ''tenant'']"
    "declared (cc_attributes (demo_clock (Suc (Suc 0)))) (cc_context (demo_clock (Suc (Suc 0)))) (WallSample new_ExecutionEvent)"
    by (simp_all add: demo_clock_def)
  from samples_readable [OF demo_ready(2) demo_ready(1) this, of 42 5 True] show ?thesis
    unfolding v demo_metadata_def by simp
qed

text \<open>
  C38. The other measurements are recorded readably too: the wall-clock epochs, the endpoints, the queue times,
  the heap usage and the processor load are each one event that a reader of the metadata reads as written.
\<close>

theorem measurements_readable:
  assumes "full_writes w" and "ready s" and "n \<le> length (tags c)" and "n \<le> 10"
  shows "records (profiler_schema n v14) T_WALLCLOCK_SAMPLE_EPOCH
           [VNum (unat (wc_start_time ep)), VNum (unat (wc_duration_millis ep)), VNum (unat (num_samplable_threads ep)),
            VNum (unat (num_successful_samples ep)), VNum (unat (num_failed_samples ep)), VNum (unat (num_exited_threads ep)),
            VNum (unat (num_permission_denied ep))] (write_event w (recordWallClockEpoch ep)) s \<and>
         records (profiler_schema n v14) T_ENDPOINT
           [VNum (unat ticks), VNum 0, VNum (unat (word_of_int tid :: u32)), VNum 0, VNum (unat (tr_label tr)),
            VNum (unat (tr_operation tr)), VNum (unat (tr_local_root_span_id tr))] (write_event w (recordTraceRoot ticks tid tr)) s \<and>
         records (profiler_schema n v14) T_QUEUE_TIME
           ([VNum (unat (qt_start q)), VNum (unat (qt_end q - qt_start q)), tid_value tid, VNum (unat (qt_origin q)),
             VNum (unat (qt_task q)), VNum (unat (qt_scheduler q)), VNum (unat (qt_queueType q)), VNum (unat (qt_queueLength q))]
            @ context_values n c) (write_event w (recordQueueTime n c tid q)) s \<and>
         records (profiler_schema n v14) T_HEAP_USAGE
           [VNum (unat ticks), VNum (unat (word_of_int used :: u64)), VByte (if live then 1 else 0)]
           (write_event w (writeHeapUsage ticks used live)) s \<and>
         records (profiler_schema n v14) T_CPU_LOAD [VNum (unat ticks), VFloat u, VFloat sy, VFloat m]
           (write_event w (recordCpuLoad ticks u sy m)) s"
proof -
  have r: "254 \<le> ROOM" by (simp add: ROOM_eq)
  note rec = event_op_recorded [OF _ r assms(1,2)]
  show ?thesis
    by (intro conjI rec wall_clock_epoch_op trace_root_op queue_time_op [OF assms(3,4)] heap_usage_op cpu_load_op)
qed

theorem measurements_readable_witness:
  "records (profiler_schema 0 True) T_HEAP_USAGE [VNum 3, VNum 4096, VByte 1] (write_event int (writeHeapUsage 3 4096 True)) demo_sink"
  using measurements_readable [OF demo_ready(2) demo_ready(1), of 0 empty_ctx True "new_WallClockEpochEvent 0" 3 _ _ _ 4096 True] by simp


text \<open>Reading a different number of integers than there are in the fields of an event.\<close>

lemma read_each_append:
  "read_each (f @ g) bs = (case read_each f bs of None \<Rightarrow> None | Some (us, r) \<Rightarrow>
      (case read_each g r of None \<Rightarrow> None | Some (vs, r1) \<Rightarrow> Some (us @ vs, r1)))"
  by (induction f arbitrary: bs) (auto split: option.split prod.split)

lemma read_fields_append:
  "read_fields (ks @ ls) bs = (case read_fields ks bs of None \<Rightarrow> None | Some (us, r) \<Rightarrow>
      (case read_fields ls r of None \<Rightarrow> None | Some (vs, r1) \<Rightarrow> Some (us @ vs, r1)))"
  unfolding read_fields_def map_append read_each_append ..

lemma read_var_empty: "0 < k \<Longrightarrow> read_fields (replicate k KVar) [] = None"
  by (cases k) (simp_all add: read_fields_def jfr_read_long_def)

lemma read_other_length:
  assumes r: "reads (replicate n KVar) body vs" and k: "k \<noteq> n"
  shows "read_fields (replicate k KVar) body = None \<or> (\<exists>us b r. read_fields (replicate k KVar) body = Some (us, b # r))"
proof -
  have all: "read_fields (replicate n KVar) body = Some (vs, [])"
    using r unfolding reads_def reads_as_def by (metis append_Nil2)
  show ?thesis
  proof (cases "k < n")
    case True
    then have "replicate n KVar = replicate k KVar @ replicate (n - k) KVar" by (simp add: replicate_add [symmetric])
    then have "\<exists>us r. read_fields (replicate k KVar) body = Some (us, r) \<and> read_fields (replicate (n - k) KVar) r \<noteq> None"
      using all by (auto simp: read_fields_append split: option.splits)
    then obtain us r where "read_fields (replicate k KVar) body = Some (us, r)" "read_fields (replicate (n - k) KVar) r \<noteq> None" by blast
    moreover have "r \<noteq> []" using calculation(2) read_var_empty [of "n - k"] True by auto
    ultimately show ?thesis by (cases r) auto
  next
    case False
    then have "replicate k KVar = replicate n KVar @ replicate (k - n) KVar" by (simp add: replicate_add [symmetric])
    then show ?thesis using all read_var_empty [of "k - n"] False k by (simp add: read_fields_append)
  qed
qed

lemma read_event_other_length:
  assumes sz: "reads_as jfr_read_long szs (length szs + length ts + length body)"
    and type: "reads_as jfr_read_long ts (jfr_id t)"
    and body: "reads (replicate n KVar) body vs" and k: "event_kinds sch t = replicate k KVar" "k \<noteq> n"
  shows "read_event sch t ((szs @ ts @ body) @ rest) = None"
proof -
  let ?bs = "(szs @ ts @ body) @ rest"
  have "jfr_read_long ?bs = Some (length szs + length ts + length body, ts @ body @ rest)"
    using sz by (simp add: reads_as_def)
  moreover have "length ?bs - length (ts @ body @ rest) = length szs" by simp
  moreover have "take (length szs + length ts + length body - length szs) (ts @ body @ rest) = ts @ body" by simp
  moreover have "jfr_read_long (ts @ body) = Some (jfr_id t, body)" using type by (simp add: reads_as_def)
  ultimately show ?thesis
    using read_other_length [OF body k(2)] by (auto simp: read_event_def Let_def k(1))
qed




end
