(* ===== verification/Recording_Info.thy ===== *)
theory Recording_Info
  imports Event_Writer Arguments Unwind_Stats
begin

text \<open>
  Model of the writers of \<^verbatim>\<open>flightRecorder.cpp\<close> for what surrounds the samples: the chunk header, the metadata
  event, the settings, the description of the machine, the virtual machine and the native libraries, the
  counters and the unwind failures, and the log messages.

  A C string is a list of bytes, \<open>None\<close> for NULL. What the operating system, the VM and the other components
  answer is an argument of the operation that asks. Events with strings flush the buffer before, so that
  there is room for the longest strings that are written.
\<close>

section \<open>State of a recording that the writers use\<close>

record rec_times =
  rt_start_time :: u64
  rt_start_ticks :: u64
  rt_recording_start_time :: u64
  rt_recording_start_ticks :: u64
  rt_stop_time :: u64
  rt_stop_ticks :: u64
  rt_tid :: int
  rt_available_processors :: int

definition cbytes :: "string \<Rightarrow> u8 list" where
  "cbytes s = map (\<lambda>c. word_of_nat (of_char c)) s"

definition cstr :: "string \<Rightarrow> u8 list option" where
  "cstr s = Some (cbytes s)"

text \<open>\<^verbatim>\<open>snprintf("%lld")\<close>; at most 20 characters, so the 32 bytes of the buffer suffice.\<close>

definition dec_int :: "int \<Rightarrow> string" where
  "dec_int v = (if v < 0 then ''-'' @ dec (nat (- v)) else dec (nat v))"

section \<open>Header\<close>

definition writeHeader :: "os_write \<Rightarrow> rec_times \<Rightarrow> u64 \<Rightarrow> sink_op" where
  "writeHeader w rt tsc_frequency =
     run_ops (map on_buf
       [put (cbytes ''FLR'' @ [0]) 4, put16 2, put16 0, put64 (1024 * 1024 * 1024), put64 0, put64 0,
        put64 (rt_start_time rt * 1000), put64 0, put64 (rt_start_ticks rt), put64 tsc_frequency, put32 1]
       @ [flush_op w JFR_EVENT_FLUSH_THRESHOLD])"

section \<open>Metadata\<close>

fun element_ops :: "os_write \<Rightarrow> ielement \<Rightarrow> sink_op list" where
  "element_ops w (IElement name as cs) =
     [on_buf (putVar64 (word_of_nat name)), on_buf (putVar64 (word_of_nat (length as)))]
     @ concat (map (\<lambda>(k, v). [flush_op w JFR_EVENT_FLUSH_THRESHOLD, on_buf (putVar64 (word_of_nat k)), on_buf (putVar64 (word_of_nat v))]) as)
     @ [on_buf (putVar64 (word_of_nat (length cs)))]
     @ concat (map (\<lambda>c. flush_op w JFR_EVENT_FLUSH_THRESHOLD # element_ops w c) cs)
     @ [flush_op w JFR_EVENT_FLUSH_THRESHOLD]"

definition writeElement :: "os_write \<Rightarrow> ielement \<Rightarrow> sink_op" where
  "writeElement w e = run_ops (element_ops w e)"

definition string_ops :: "os_write \<Rightarrow> string \<Rightarrow> sink_op list" where
  "string_ops w s =
     [flush_op w (int RECORDING_BUFFER_LIMIT - int (length s)), on_buf (putUtf8_len (cbytes s) (word_of_nat (length s)))]"

text \<open>
  The size is patched at the position the event had in the buffer when it was begun, and counted from there,
  also when the buffer has been flushed in between.
\<close>

definition writeMetadata :: "os_write \<Rightarrow> rec_times \<Rightarrow> jfr_metadata \<Rightarrow> sink_op" where
  "writeMetadata w rt m s =
     (case skip 5 (sk_buf s) of
        Inl e \<Rightarrow> Inl e
      | Inr (metadata_start, b) \<Rightarrow>
          run_ops (map on_buf [putType T_METADATA, putVar64 (rt_start_ticks rt), put8 0, put8 1,
                               putVar64 (word_of_nat (length (strings (meta_table m))))]
                   @ concat (map (string_ops w) (strings (meta_table m)))
                   @ [writeElement w (meta_root m), on_buf (patch_size metadata_start), flush_op w JFR_EVENT_FLUSH_THRESHOLD])
            (s\<lparr>sk_buf := b\<rparr>))"

section \<open>Settings\<close>

definition write_big :: "os_write \<Rightarrow> int \<Rightarrow> buffer_op \<Rightarrow> sink_op" where
  "write_big w lm ev = run_ops [flush_op w lm, on_buf ev, flush_op w JFR_EVENT_FLUSH_THRESHOLD]"

definition setting_event :: "rec_times \<Rightarrow> JfrType \<Rightarrow> u8 list option \<Rightarrow> u8 list option \<Rightarrow> buffer_op" where
  "setting_event rt cat key v =
     event5 [putType T_ACTIVE_SETTING, putVar64 (rt_start_ticks rt), put8 0, putVar64_int (rt_tid rt), put8 0,
             putVar64_u32 (word_of_nat (jfr_id cat)), putUtf8 key, putUtf8 v]"

definition writeStringSetting :: "os_write \<Rightarrow> rec_times \<Rightarrow> JfrType \<Rightarrow> string \<Rightarrow> u8 list option \<Rightarrow> sink_op" where
  "writeStringSetting w rt cat key v =
     write_big w (int RECORDING_BUFFER_LIMIT - (2 * int MAX_STRING_LENGTH + int MAX_JFR_EVENT_SIZE))
       (setting_event rt cat (cstr key) v)"

definition writeBoolSetting :: "os_write \<Rightarrow> rec_times \<Rightarrow> JfrType \<Rightarrow> string \<Rightarrow> bool \<Rightarrow> sink_op" where
  "writeBoolSetting w rt cat key v = writeStringSetting w rt cat key (cstr (if v then ''true'' else ''false''))"

definition writeIntSetting :: "os_write \<Rightarrow> rec_times \<Rightarrow> JfrType \<Rightarrow> string \<Rightarrow> int \<Rightarrow> sink_op" where
  "writeIntSetting w rt cat key v = writeStringSetting w rt cat key (cstr (dec_int v))"

text \<open>What the settings ask of the other components.\<close>

record settings_env =
  se_version :: string
  se_tsc_frequency :: int
  se_log_level :: string
  se_hotspot :: bool
  se_openj9 :: bool
  se_debug_symbols :: bool
  se_kernel_symbols :: bool
  se_cpu_engine :: string
  se_wall_engine :: string
  se_cstack :: string

definition writeSettings :: "os_write \<Rightarrow> rec_times \<Rightarrow> settings_env \<Rightarrow> arguments \<Rightarrow> sink_op" where
  "writeSettings w rt se args =
     run_ops
       ([writeBoolSetting w rt T_ACTIVE_RECORDING ''asyncprofiler'' True,
         writeStringSetting w rt T_ACTIVE_RECORDING ''version'' (cstr (se_version se)),
         writeIntSetting w rt T_ACTIVE_RECORDING ''tscfrequency'' (se_tsc_frequency se),
         writeStringSetting w rt T_ACTIVE_RECORDING ''loglevel'' (cstr (se_log_level se)),
         writeBoolSetting w rt T_ACTIVE_RECORDING ''hotspot'' (se_hotspot se),
         writeBoolSetting w rt T_ACTIVE_RECORDING ''openj9'' (se_openj9 se)]
        @ map (\<lambda>a. writeStringSetting w rt T_ACTIVE_RECORDING ''contextattribute'' (cstr a)) (context_attributes args)
        @ (if \<not> ((event args \<noteq> None \<and> event args \<noteq> Some EVENT_NOOP) \<or> cpu args \<ge> 0)
           then [writeBoolSetting w rt T_EXECUTION_SAMPLE ''enabled'' False]
           else [writeBoolSetting w rt T_EXECUTION_SAMPLE ''enabled'' True,
                 writeIntSetting w rt T_EXECUTION_SAMPLE ''interval'' (cpuSamplerInterval args)])
        @ [writeBoolSetting w rt T_METHOD_SAMPLE ''enabled'' (wall args \<ge> 0)]
        @ (if wall args \<ge> 0
           then [writeIntSetting w rt T_METHOD_SAMPLE ''interval'' (if wall args \<noteq> 0 then wall args else DEFAULT_WALL_INTERVAL)]
           else [])
        @ [writeBoolSetting w rt T_ALLOC ''enabled'' (record_allocations args),
           writeBoolSetting w rt T_HEAP_LIVE_OBJECT ''enabled'' (record_liveness args),
           writeBoolSetting w rt T_ACTIVE_RECORDING ''debugSymbols'' (se_debug_symbols se),
           writeBoolSetting w rt T_ACTIVE_RECORDING ''kernelSymbols'' (se_kernel_symbols se),
           writeStringSetting w rt T_ACTIVE_RECORDING ''cpuEngine'' (cstr (se_cpu_engine se)),
           writeStringSetting w rt T_ACTIVE_RECORDING ''wallEngine'' (cstr (se_wall_engine se)),
           writeStringSetting w rt T_ACTIVE_RECORDING ''cstack'' (cstr (se_cstack se)),
           flush_op w JFR_EVENT_FLUSH_THRESHOLD])"

definition datadog_setting_event :: "rec_times \<Rightarrow> u8 list option \<Rightarrow> u8 list option \<Rightarrow> u8 list option \<Rightarrow> buffer_op" where
  "datadog_setting_event rt name v unit =
     event5 [putType T_DATADOG_SETTING, putVar64 (rt_start_ticks rt), put8 0, putVar32_int (rt_tid rt), put8 0,
             putUtf8 name, putUtf8 v, putUtf8 unit]"

definition writeDatadogSetting ::
  "os_write \<Rightarrow> rec_times \<Rightarrow> int \<Rightarrow> u8 list option \<Rightarrow> u8 list option \<Rightarrow> u8 list option \<Rightarrow> sink_op" where
  "writeDatadogSetting w rt len name v unit =
     write_big w (int RECORDING_BUFFER_LIMIT - len) (datadog_setting_event rt name v unit)"

text \<open>\<open>percent\<close> is \<^verbatim>\<open>static_cast<int>(memleakRatio * 100)\<close>.\<close>

record profiler_config =
  pc_cpuInterval :: int
  pc_wallInterval :: int
  pc_allocInterval :: int
  pc_memleakInterval :: int
  pc_memleakCapacity :: int
  pc_percent :: int
  pc_gcGenerations :: bool
  pc_modeMask :: int
  pc_cpuEngine :: string

definition profiler_config_event :: "rec_times \<Rightarrow> string \<Rightarrow> profiler_config \<Rightarrow> buffer_op" where
  "profiler_config_event rt version cfg =
     event1 [putType T_DATADOG_PROFILER_CONFIG, putVar64 (rt_start_ticks rt), put8 0, putVar64_int (rt_tid rt),
             putVar64_int (pc_cpuInterval cfg), putVar64_int (pc_wallInterval cfg), putVar64_int (pc_allocInterval cfg),
             putVar64_int (pc_memleakInterval cfg), putVar64_int (pc_memleakCapacity cfg), put8 (word_of_int (pc_percent cfg)),
             put8 (if pc_gcGenerations cfg then 1 else 0), putVar32_int (pc_modeMask cfg), putUtf8 (cstr version),
             putUtf8 (cstr (pc_cpuEngine cfg))]"

definition writeDatadogProfilerConfig :: "os_write \<Rightarrow> rec_times \<Rightarrow> string \<Rightarrow> profiler_config \<Rightarrow> sink_op" where
  "writeDatadogProfilerConfig w rt version cfg =
     write_big w (int RECORDING_BUFFER_LIMIT - (1 + 6 * MAX_VAR64_LENGTH + int MAX_VAR32_LENGTH + 3 * int MAX_STRING_LENGTH))
       (profiler_config_event rt version cfg)"

section \<open>Recording, machine and virtual machine\<close>

definition recording_event :: "bool \<Rightarrow> rec_times \<Rightarrow> string \<Rightarrow> buffer_op" where
  "recording_event v14 rt version =
     event5 ([putType T_ACTIVE_RECORDING, putVar64 (rt_recording_start_ticks rt),
              putVar64 (rt_stop_ticks rt - rt_recording_start_ticks rt), putVar64_int (rt_tid rt), put8 0, put8 1,
              putUtf8 (cstr (''java-profiler '' @ version)), putUtf8 (cstr ''java-profiler.jfr''), putVar64 MAX_JLONG]
             @ (if v14 then [put8 0] else [])
             @ [put8 0, putVar64 (rt_recording_start_time rt div 1000),
                putVar64 ((rt_stop_time rt - rt_recording_start_time rt) div 1000)])"

definition writeRecordingInfo :: "os_write \<Rightarrow> bool \<Rightarrow> rec_times \<Rightarrow> string \<Rightarrow> sink_op" where
  "writeRecordingInfo w v14 rt version = write_event w (recording_event v14 rt version)"

record uname_info =
  un_sysname :: string
  un_release :: string
  un_version :: string
  un_machine :: string

definition uname_string :: "uname_info \<Rightarrow> string" where
  "uname_string u = take 510 (''uname: '' @ un_sysname u @ '' '' @ un_release u @ '' '' @ un_version u @ '' '' @ un_machine u)"

definition os_event :: "rec_times \<Rightarrow> string \<Rightarrow> buffer_op" where
  "os_event rt str = event5 [putType T_OS_INFORMATION, putVar64 (rt_start_ticks rt), putUtf8 (cstr str)]"

definition cpu_event :: "rec_times \<Rightarrow> string \<Rightarrow> string option \<Rightarrow> buffer_op" where
  "cpu_event rt machine description =
     event5 [putType T_CPU_INFORMATION, putVar64 (rt_start_ticks rt), putUtf8 (cstr machine),
             putUtf8 (cstr (case description of Some d \<Rightarrow> d | None \<Rightarrow> [])), put8 1,
             putVar64_int (rt_available_processors rt), putVar64_int (rt_available_processors rt)]"

definition writeOsCpuInfo :: "os_write \<Rightarrow> rec_times \<Rightarrow> uname_info option \<Rightarrow> string option \<Rightarrow> sink_op" where
  "writeOsCpuInfo w rt uname description =
     (case uname of
        None \<Rightarrow> Inr
      | Some u \<Rightarrow>
          (let str = uname_string u in
           run_ops [flush_op w (int RECORDING_BUFFER_LIMIT - (2 * int (length str) + int (length (un_machine u)))),
                    on_buf (os_event rt str), on_buf (cpu_event rt (un_machine u) description),
                    flush_op w JFR_EVENT_FLUSH_THRESHOLD]))"

text \<open>
  The second half of \<^verbatim>\<open>parseAgentProperties\<close>: the text of the properties without its braces is cut at each
  \<^verbatim>\<open>", "\<close>, and three of the parts are remembered.
\<close>

record agent_properties =
  jvm_args :: "string option"
  jvm_flags :: "string option"
  java_command :: "string option"

definition has_prefix :: "string \<Rightarrow> string \<Rightarrow> bool" where
  "has_prefix str prefix \<longleftrightarrow> take (length prefix) str = prefix"

fun cut_comma :: "string \<Rightarrow> string \<times> string option" where
  "cut_comma [] = ([], None)"
| "cut_comma [c] = ([c], None)"
| "cut_comma (c # d # s) =
     (if c = CHR '','' \<and> d = CHR '' '' then ([], Some s)
      else case cut_comma (d # s) of (a, r) \<Rightarrow> (c # a, r))"

lemma cut_comma_shorter: "cut_comma p = (a, Some r) \<Longrightarrow> length r < length p"
  by (induction p arbitrary: a rule: cut_comma.induct) (auto split: if_splits prod.splits)

definition remember_property :: "string \<Rightarrow> agent_properties \<Rightarrow> agent_properties" where
  "remember_property p ap =
     (if has_prefix p ''sun.jvm.args='' then ap\<lparr>jvm_args := Some (drop 13 p)\<rparr>
      else if has_prefix p ''sun.jvm.flags='' then ap\<lparr>jvm_flags := Some (drop 14 p)\<rparr>
      else if has_prefix p ''sun.java.command='' then ap\<lparr>java_command := Some (drop 17 p)\<rparr>
      else ap)"

function parse_properties :: "string \<Rightarrow> agent_properties \<Rightarrow> agent_properties" where
  "parse_properties p ap =
     (if p = [] then ap
      else case cut_comma p of
             (a, None) \<Rightarrow> remember_property a ap
           | (a, Some r) \<Rightarrow> parse_properties r (remember_property a ap))"
  by pat_completeness auto
termination
  by (relation "measure (\<lambda>(p, _). length p)") (auto dest: cut_comma_shorter [OF sym])

declare parse_properties.simps [simp del]

definition parseAgentProperties :: "string option \<Rightarrow> agent_properties option" where
  "parseAgentProperties props =
     (case props of
        None \<Rightarrow> None
      | Some s \<Rightarrow> Some (parse_properties (butlast (tl s)) \<lparr>jvm_args = None, jvm_flags = None, java_command = None\<rparr>))"

definition or_empty :: "string option \<Rightarrow> u8 list option" where
  "or_empty s = cstr (case s of Some x \<Rightarrow> x | None \<Rightarrow> [])"

definition jvm_event :: "rec_times \<Rightarrow> u8 list option \<Rightarrow> u8 list option \<Rightarrow> agent_properties \<Rightarrow> int \<Rightarrow> int \<Rightarrow> buffer_op" where
  "jvm_event rt jvm_name jvm_version ap process_start process_id =
     event5 [putType T_JVM_INFORMATION, putVar64 (rt_start_ticks rt), putUtf8 jvm_name, putUtf8 jvm_version,
             putUtf8 (or_empty (jvm_args ap)), putUtf8 (or_empty (jvm_flags ap)), putUtf8 (or_empty (java_command ap)),
             putVar64_int process_start, putVar64_int process_id]"

definition writeJvmInfo ::
  "os_write \<Rightarrow> rec_times \<Rightarrow> string option \<Rightarrow> u8 list option \<Rightarrow> u8 list option \<Rightarrow> int \<Rightarrow> int \<Rightarrow> sink_op" where
  "writeJvmInfo w rt props jvm_name jvm_version process_start process_id =
     (case parseAgentProperties props of
        None \<Rightarrow> Inr
      | Some ap \<Rightarrow> write_big w (int RECORDING_BUFFER_LIMIT - 5 * int MAX_STRING_LENGTH)
                     (jvm_event rt jvm_name jvm_version ap process_start process_id))"

text \<open>The system properties: a key and its value, \<open>None\<close> when \<^verbatim>\<open>GetSystemProperty\<close> fails.\<close>

definition property_event :: "rec_times \<Rightarrow> u8 list \<Rightarrow> u8 list \<Rightarrow> buffer_op" where
  "property_event rt key v = event5 [putType T_INITIAL_SYSTEM_PROPERTY, putVar64 (rt_start_ticks rt), putUtf8 (Some key), putUtf8 (Some v)]"

definition property_ops :: "os_write \<Rightarrow> rec_times \<Rightarrow> u8 list \<times> u8 list option \<Rightarrow> sink_op list" where
  "property_ops w rt = (\<lambda>(key, v). case v of
      None \<Rightarrow> []
    | Some s \<Rightarrow> [flush_op w (int RECORDING_BUFFER_LIMIT - 2 * int MAX_STRING_LENGTH), on_buf (property_event rt key s)])"

definition writeSystemProperties :: "os_write \<Rightarrow> rec_times \<Rightarrow> (u8 list \<times> u8 list option) list option \<Rightarrow> sink_op" where
  "writeSystemProperties w rt props =
     (case props of
        None \<Rightarrow> Inr
      | Some kvs \<Rightarrow> run_ops (concat (map (property_ops w rt) kvs) @ [flush_op w JFR_EVENT_FLUSH_THRESHOLD]))"

definition library_event :: "rec_times \<Rightarrow> u8 list \<times> u64 \<times> u64 \<Rightarrow> buffer_op" where
  "library_event rt = (\<lambda>(name, min_address, max_address).
     event5 [putType T_NATIVE_LIBRARY, putVar64 (rt_start_ticks rt), putUtf8 (Some name), putVar64 min_address, putVar64 max_address])"

text \<open>The libraries that are not recorded yet; \<open>-1\<close> switches the recording of libraries off.\<close>

definition writeNativeLibraries ::
  "os_write \<Rightarrow> rec_times \<Rightarrow> (u8 list \<times> u64 \<times> u64) list \<Rightarrow> int \<Rightarrow> sink \<Rightarrow> buffer_error + int \<times> sink" where
  "writeNativeLibraries w rt libs recorded s =
     (if recorded < 0 then Inr (recorded, s)
      else map_sum id (Pair (int (length libs)))
        (run_ops (map (\<lambda>l. write_big w (int RECORDING_BUFFER_LIMIT - int MAX_STRING_LENGTH) (library_event rt l))
                    (drop (nat recorded) libs)) s))"

section \<open>Counters, unwind failures and log messages\<close>

definition counter_event :: "rec_times \<Rightarrow> string \<Rightarrow> int \<Rightarrow> buffer_op" where
  "counter_event rt name v = event1 [putType T_DATADOG_COUNTER, putVar64 (rt_start_ticks rt), putUtf8 (cstr name), putVar64_int v]"

definition writeCounters :: "os_write \<Rightarrow> rec_times \<Rightarrow> counters \<Rightarrow> sink_op" where
  "writeCounters w rt cs =
     run_ops (map (\<lambda>i. write_event w (counter_event rt (describeCounters ! i) (cs ! address i))) [0..<length describeCounters])"

definition unwind_failure_event :: "rec_times \<Rightarrow> UnwindFailureKind \<times> string \<times> u64 \<Rightarrow> buffer_op" where
  "unwind_failure_event rt = (\<lambda>(kind, name, count).
     event1 [putType T_UNWIND_FAILURE, putVar64 (rt_start_ticks rt),
             putUtf8 (cstr (if kind = UNWIND_FAILURE_STUB \<or> kind = UNWIND_FAILURE_ANY then ''stub'' else ''other'')),
             putUtf8 (cstr name), putVar64 count])"

definition failure_events :: "os_write \<Rightarrow> rec_times \<Rightarrow> (UnwindFailureKind \<times> string \<times> u64) list \<Rightarrow> sink_op" where
  "failure_events w rt failures = run_ops (map (\<lambda>f. write_event w (unwind_failure_event rt f)) failures)"

text \<open>
  The state is the static table of the function and the lock and the table of \<^verbatim>\<open>UnwindStats\<close>. Nothing clears the
  static table, which the next call swaps back into \<^verbatim>\<open>UnwindStats\<close>. \<open>None\<close> is waiting for the lock.
\<close>

type_synonym failure_state = "unwind_failures \<times> int \<times> unwind_failures"

definition writeUnwindFailures ::
  "os_write \<Rightarrow> rec_times \<Rightarrow> failure_state \<Rightarrow> sink \<Rightarrow> ((names_error + buffer_error) + failure_state \<times> sink) option" where
  "writeUnwindFailures w rt = (\<lambda>(failures, stats) s.
     case collectAndReset failures stats of
       None \<Rightarrow> None
     | Some (failures1, stats1) \<Rightarrow>
         Some (case forEach failures1 of
                 Inl e \<Rightarrow> Inl (Inl e)
               | Inr fs \<Rightarrow> (case failure_events w rt fs s of Inl e \<Rightarrow> Inl (Inr e) | Inr s1 \<Rightarrow> Inr ((failures1, stats1), s1))))"

text \<open>\<^verbatim>\<open>recordLog\<close> writes the event into a buffer of its own, which is large enough for it, and flushes that.\<close>

definition log_fields :: "u64 \<Rightarrow> nat \<Rightarrow> u8 list \<Rightarrow> buffer_op list" where
  "log_fields ticks level message =
     [putType T_LOG, putVar64 ticks, putVar64 (word_of_nat level),
      putUtf8_len message (word_of_nat (min (length message) MAX_STRING_LENGTH))]"

section \<open>Writers between two flushes\<close>

text \<open>
  A buffer that is at most \<open>k\<close> bytes above the flush threshold, and the contract of a writer that takes it from
  \<open>k\<close> to \<open>l\<close>. The contract \<open>emits\<close> is the case \<open>k = l = 0\<close>.
\<close>

definition near :: "nat \<Rightarrow> sink \<Rightarrow> bool" where
  "near k s \<longleftrightarrow> wf_buffer (sk_buf s) \<and> limit (sk_buf s) = RecordingBuffer_limit \<and> offset (sk_buf s) < RECORDING_BUFFER_LIMIT + k"

definition emits_room :: "nat \<Rightarrow> nat \<Rightarrow> u8 list \<Rightarrow> sink_op \<Rightarrow> bool" where
  "emits_room k l bs op \<longleftrightarrow> (\<forall>s. near k s \<longrightarrow> (\<exists>s'. op s = Inr s' \<and> near l s' \<and> stream s' = stream s @ bs))"

lemma near_0: "near 0 s = ready s"
  by (simp add: near_def ready_def)

lemma emits_room_0: "emits_room 0 0 bs op = emits bs op"
  by (simp add: emits_room_def emits_def near_0)

lemma emits_roomD: "emits_room k l bs op \<Longrightarrow> near k s \<Longrightarrow> \<exists>s'. op s = Inr s' \<and> near l s' \<and> stream s' = stream s @ bs"
  by (simp add: emits_room_def)

lemma emits_room_mono: "emits_room k l bs op \<Longrightarrow> k' \<le> k \<Longrightarrow> l \<le> l' \<Longrightarrow> emits_room k' l' bs op"
  unfolding emits_room_def near_def by (meson add_left_mono less_le_trans)

lemma emits_room_Nil: "emits_room k k [] (run_ops [])"
  by (simp add: emits_room_def)

lemma emits_room_Inr: "emits_room k k [] Inr"
  by (simp add: emits_room_def)

lemma emits_room_Cons:
  assumes "emits_room k l as f" and "emits_room l m bs (run_ops fs)"
  shows "emits_room k m (as @ bs) (run_ops (f # fs))"
  unfolding emits_room_def
proof (intro allI impI)
  fix s assume "near k s"
  from emits_roomD [OF assms(1) this] obtain s1 where 1: "f s = Inr s1" "near l s1" "stream s1 = stream s @ as" by blast
  from emits_roomD [OF assms(2) 1(2)] obtain s2 where "run_ops fs s1 = Inr s2" "near m s2" "stream s2 = stream s1 @ bs" by blast
  with 1 show "\<exists>s'. run_ops (f # fs) s = Inr s' \<and> near m s' \<and> stream s' = stream s @ as @ bs" by simp
qed

lemma emits_room_append:
  assumes "emits_room k l as (run_ops fs)" and "emits_room l m bs (run_ops gs)"
  shows "emits_room k m (as @ bs) (run_ops (fs @ gs))"
proof -
  have "emits_room k m (as @ bs) (run_ops (run_ops fs # gs))" using assms by (rule emits_room_Cons)
  moreover have "run_ops (run_ops fs # gs) = run_ops (fs @ gs)" by (simp add: fun_eq_iff run_ops_append)
  ultimately show ?thesis by simp
qed

lemma emits_room_concat:
  assumes "\<And>x. x \<in> set xs \<Longrightarrow> emits_room k k (f x) (run_ops (g x))"
  shows "emits_room k k (concat (map f xs)) (run_ops (concat (map g xs)))"
  using assms by (induction xs) (auto intro: emits_room_Nil emits_room_append)

lemma emits_room_flush: "full_writes w \<Longrightarrow> lm \<le> JFR_EVENT_FLUSH_THRESHOLD \<Longrightarrow> emits_room k 0 [] (flush_op w lm)"
  unfolding emits_room_def near_0 using flushIfNeeded_ready [of w _ lm] by (auto simp: flush_op_def near_def)

lemma emits_room_put:
  assumes "appends n bs op" and "k + n \<le> ROOM"
  shows "emits_room k (k + n) bs (on_buf op)"
  unfolding emits_room_def
proof (intro allI impI)
  fix s assume s: "near k s"
  have wf: "wf_buffer (sk_buf s)" using s by (simp add: near_def)
  have room: "offset (sk_buf s) + n < limit (sk_buf s)" using s assms(2) by (simp add: near_def ROOM_def buffer_consts)
  have len: "length bs \<le> n" by (rule appends_length [OF assms(1)])
  have "op (sk_buf s) = Inr (append_bytes bs (sk_buf s))" by (rule appendsD [OF assms(1) wf room])
  then show "\<exists>s'. on_buf op s = Inr s' \<and> near (k + n) s' \<and> stream s' = stream s @ bs"
    using s wf room len by (auto simp: on_buf_def near_def stream_def contents_append_bytes)
qed

text \<open>A flush that makes room for \<open>n\<close> bytes in advance.\<close>

lemma emits_room_big:
  assumes w: "full_writes w" and ap: "appends n bs op" and lm: "lm \<le> JFR_EVENT_FLUSH_THRESHOLD"
    and room: "max 0 (lm - 1) + int n < int RecordingBuffer_limit" and l: "max 0 (lm - 1) + int n < int RECORDING_BUFFER_LIMIT + int l"
  shows "emits_room k l bs (run_ops [flush_op w lm, on_buf op])"
  unfolding emits_room_def
proof (intro allI impI)
  fix s assume s: "near k s"
  let ?s1 = "flushIfNeeded w lm s"
  have f: "ready ?s1" "stream ?s1 = stream s" "int (offset (sk_buf ?s1)) \<le> max 0 (lm - 1)"
    using flushIfNeeded_ready [OF w _ _ lm] s by (auto simp: near_def)
  have wf: "wf_buffer (sk_buf ?s1)" "limit (sk_buf ?s1) = RecordingBuffer_limit" using f(1) by (simp_all add: ready_def)
  have "int (offset (sk_buf ?s1) + n) < int (limit (sk_buf ?s1))" using f(3) room wf(2) by simp
  then have r: "offset (sk_buf ?s1) + n < limit (sk_buf ?s1)" by (simp only: of_nat_less_iff)
  have len: "length bs \<le> n" by (rule appends_length [OF ap])
  have "op (sk_buf ?s1) = Inr (append_bytes bs (sk_buf ?s1))" by (rule appendsD [OF ap wf(1) r])
  moreover have "int (offset (sk_buf ?s1) + length bs) < int (RECORDING_BUFFER_LIMIT + l)" using f(3) l len by simp
  then have "offset (sk_buf ?s1) + length bs < RECORDING_BUFFER_LIMIT + l" by (simp only: of_nat_less_iff)
  ultimately show "\<exists>s'. run_ops [flush_op w lm, on_buf op] s = Inr s' \<and> near l s' \<and> stream s' = stream s @ bs"
    using wf r len f(2) by (auto simp: flush_op_def on_buf_def near_def stream_def contents_append_bytes)
qed

lemma write_big_emits:
  assumes "full_writes w" and "appends n bs ev" and "lm \<le> JFR_EVENT_FLUSH_THRESHOLD"
    and "max 0 (lm - 1) + int n < int RecordingBuffer_limit"
  shows "emits bs (write_big w lm ev)"
proof -
  have "emits_room 0 ROOM bs (run_ops [flush_op w lm, on_buf ev])"
    by (rule emits_room_big [OF assms]) (use assms(4) in \<open>simp add: ROOM_def buffer_consts\<close>)
  from emits_room_append [OF this emits_room_Cons [OF emits_room_flush [OF assms(1) order_refl] emits_room_Nil]]
  show ?thesis by (simp add: write_big_def flip: emits_room_0)
qed

lemma write_big_records:
  assumes "event_op n sch t vs ev" and "full_writes w" and "lm \<le> JFR_EVENT_FLUSH_THRESHOLD"
    and "max 0 (lm - 1) + int n < int RecordingBuffer_limit" and "ready s"
  shows "records sch t vs (write_big w lm ev) s"
proof -
  obtain bs where "appends n bs ev" "reads_as (read_event sch t) bs vs" using assms(1) by (auto simp: event_op_def)
  with emitsD [OF write_big_emits [OF assms(2) this(1) assms(3,4)] assms(5)] show ?thesis by (auto simp: records_def)
qed

section \<open>Settings and descriptions can be read\<close>

lemma event_op_mono: "event_op n sch t vs op \<Longrightarrow> n \<le> m \<Longrightarrow> event_op m sch t vs op"
  unfolding event_op_def using appends_mono by blast

definition str_value :: "u8 list option \<Rightarrow> jfr_value" where
  "str_value s = VStr (map_option (take MAX_STRING_LENGTH) s)"

text \<open>Any string, also NULL, takes at most 8197 bytes.\<close>

definition short_str :: "u8 list option \<Rightarrow> bool" where
  "short_str s \<longleftrightarrow> (case s of None \<Rightarrow> True | Some x \<Rightarrow> length x < 2 ^ 32)"

lemma field_str:
  assumes "short_str s"
  shows "field_op 8197 8197 KStr (str_value s) (putUtf8 s)"
proof (cases s)
  case None
  then show ?thesis using field_null appends_mono [of 1 _ _ 8197] by (fastforce simp: field_op_def str_value_def)
next
  case (Some x)
  then have "field_op (6 + min (length x) MAX_STRING_LENGTH) (6 + min (length x) MAX_STRING_LENGTH) KStr (str_value s) (putUtf8 s)"
    using field_string [of x] assms by (simp add: short_str_def str_value_def)
  moreover have "6 + min (length x) MAX_STRING_LENGTH \<le> 8197" by (simp add: MAX_STRING_LENGTH_def)
  ultimately show ?thesis unfolding field_op_def using appends_mono le_trans by blast
qed

lemma field_one: "field_op 1 1 KVar (VNum 1) (put8 1)"
  using field_small [of 1] by simp

lemmas info_field_intros = sample_field_intros field_str field_one

lemma jfr_id_small: "jfr_id t < 256"
  by (cases t) simp_all

lemma setting_op:
  assumes "short_str key" and "short_str v"
  shows "event_op 16437 (profiler_schema k v14) T_ACTIVE_SETTING
     [VNum (unat (rt_start_ticks rt)), VNum 0, tid_value (rt_tid rt), VNum 0, VNum (jfr_id cat), str_value key, str_value v]
     (setting_event rt cat key v)"
proof -
  have c: "unat (word_of_nat (jfr_id cat) :: u32) = jfr_id cat"
    using jfr_id_small [of cat] by (intro unat_word_of_nat) simp
  have "field_op 9 5 KVar (VNum (jfr_id cat)) (putVar64_u32 (word_of_nat (jfr_id cat)))"
    using field_var64_u32 [of "word_of_nat (jfr_id cat)"] by (simp only: c)
  then have "fields_op (9 + (1 + (9 + (1 + (9 + (8197 + (8197 + 0))))))) (9 + (1 + (9 + (1 + (5 + (8197 + (8197 + 0)))))))
     (event_kinds (profiler_schema k v14) T_ACTIVE_SETTING)
     [VNum (unat (rt_start_ticks rt)), VNum 0, tid_value (rt_tid rt), VNum 0, VNum (jfr_id cat), str_value key, str_value v]
     [putVar64 (rt_start_ticks rt), put8 0, putVar64_int (rt_tid rt), put8 0,
      putVar64_u32 (word_of_nat (jfr_id cat)), putUtf8 key, putUtf8 v]"
    unfolding event_kinds_recording tid_value_def using assms by (intro info_field_intros)
  from event5_op [OF this] show ?thesis by (simp add: setting_event_def)
qed

lemma setting_records:
  assumes "full_writes w" and "ready s" and "length key < 2 ^ 32" and "short_str v"
  shows "records (profiler_schema k v14) T_ACTIVE_SETTING
     [VNum (unat (rt_start_ticks rt)), VNum 0, tid_value (rt_tid rt), VNum 0, VNum (jfr_id cat), str_value (cstr key), str_value v]
     (writeStringSetting w rt cat key v) s"
  unfolding writeStringSetting_def
  by (rule write_big_records [OF setting_op assms(1) _ _ assms(2)])
    (use assms in \<open>simp_all add: short_str_def cstr_def cbytes_def JFR_EVENT_FLUSH_THRESHOLD_def buffer_consts MAX_JFR_EVENT_SIZE_def\<close>)


lemma short_cstr: "length s < 2 ^ 32 \<Longrightarrow> short_str (cstr s)"
  by (simp add: short_str_def cstr_def cbytes_def)

lemma datadog_setting_op:
  assumes "length name < 2 ^ 32" and "length v < 2 ^ 32" and "length un < 2 ^ 32"
  shows "event_op (57 + min (length name) MAX_STRING_LENGTH + min (length v) MAX_STRING_LENGTH + min (length un) MAX_STRING_LENGTH)
     (profiler_schema k v14) T_DATADOG_SETTING
     [VNum (unat (rt_start_ticks rt)), VNum 0, VNum (unat (word_of_int (rt_tid rt) :: u32)), VNum 0, str_value (Some name),
      str_value (Some v), str_value (Some un)]
     (datadog_setting_event rt (Some name) (Some v) (Some un))"
proof -
  let ?m = "\<lambda>x. 6 + min (length x) MAX_STRING_LENGTH"
  have "fields_op (9 + (1 + (5 + (1 + (?m name + (?m v + (?m un + 0))))))) (9 + (1 + (5 + (1 + (?m name + (?m v + (?m un + 0)))))))
     (event_kinds (profiler_schema k v14) T_DATADOG_SETTING)
     [VNum (unat (rt_start_ticks rt)), VNum 0, VNum (unat (word_of_int (rt_tid rt) :: u32)), VNum 0, str_value (Some name),
      str_value (Some v), str_value (Some un)]
     [putVar64 (rt_start_ticks rt), put8 0, putVar32_int (rt_tid rt), put8 0, putUtf8 (Some name), putUtf8 (Some v), putUtf8 (Some un)]"
    unfolding event_kinds_recording str_value_def option.map by (intro sample_field_intros field_string assms)
  from event5_op [OF this] have "event_op (14 + (9 + (1 + (5 + (1 + (?m name + (?m v + (?m un + 0)))))))) (profiler_schema k v14) T_DATADOG_SETTING
     [VNum (unat (rt_start_ticks rt)), VNum 0, VNum (unat (word_of_int (rt_tid rt) :: u32)), VNum 0, str_value (Some name),
      str_value (Some v), str_value (Some un)] (datadog_setting_event rt (Some name) (Some v) (Some un))"
    by (simp add: datadog_setting_event_def MAX_STRING_LENGTH_def)
  then show ?thesis by (rule event_op_mono) simp
qed

lemma datadog_setting_records:
  assumes "full_writes w" and "ready s" and "length name + length v + length un = len" and "len < 2 ^ 31"
  shows "records (profiler_schema k v14) T_DATADOG_SETTING
     [VNum (unat (rt_start_ticks rt)), VNum 0, VNum (unat (word_of_int (rt_tid rt) :: u32)), VNum 0, str_value (Some name),
      str_value (Some v), str_value (Some un)]
     (writeDatadogSetting w rt (int len) (Some name) (Some v) (Some un)) s"
  unfolding writeDatadogSetting_def
proof (rule write_big_records [OF datadog_setting_op assms(1) _ _ assms(2)])
  let ?n = "57 + min (length name) MAX_STRING_LENGTH + min (length v) MAX_STRING_LENGTH + min (length un) MAX_STRING_LENGTH"
  have "?n \<le> 57 + len" using assms(3) by simp
  moreover have "?n \<le> 24630" by (simp add: MAX_STRING_LENGTH_def)
  ultimately show "max 0 (int RECORDING_BUFFER_LIMIT - int len - 1) + int ?n < int RecordingBuffer_limit"
    by (simp add: buffer_consts max_def)
qed (use assms in \<open>simp_all add: JFR_EVENT_FLUSH_THRESHOLD_def\<close>)

lemma recording_op:
  assumes "length version < 100"
  shows "event_op 2000 (profiler_schema k v14) T_ACTIVE_RECORDING
     ([VNum (unat (rt_recording_start_ticks rt)), VNum (unat (rt_stop_ticks rt - rt_recording_start_ticks rt)), tid_value (rt_tid rt),
       VNum 0, VNum 1, str_value (cstr (''java-profiler '' @ version)), str_value (cstr ''java-profiler.jfr''), VNum (unat MAX_JLONG)]
      @ (if v14 then [VNum 0] else [])
      @ [VNum 0, VNum (unat (rt_recording_start_time rt div 1000)), VNum (unat ((rt_stop_time rt - rt_recording_start_time rt) div 1000))])
     (recording_event v14 rt version)"
proof -
  let ?s = "cbytes (''java-profiler '' @ version)" and ?t = "cbytes ''java-profiler.jfr''"
  have short: "length ?s < 128" "length ?t < 128" using assms by (simp_all add: cbytes_def)
  then have sv: "str_value (cstr (''java-profiler '' @ version)) = VStr (Some ?s)" "str_value (cstr ''java-profiler.jfr'') = VStr (Some ?t)"
    by (simp_all add: str_value_def cstr_def MAX_STRING_LENGTH_def)
  have a: "fields_op (9 + (9 + (9 + (1 + (1 + ((6 + length ?s) + ((6 + length ?t) + (9 + 0))))))))
      (9 + (9 + (9 + (1 + (1 + ((2 + length ?s) + ((2 + length ?t) + (9 + 0)))))))) [KVar, KVar, KVar, KVar, KVar, KStr, KStr, KVar]
     [VNum (unat (rt_recording_start_ticks rt)), VNum (unat (rt_stop_ticks rt - rt_recording_start_ticks rt)), tid_value (rt_tid rt),
       VNum 0, VNum 1, VStr (Some ?s), VStr (Some ?t), VNum (unat MAX_JLONG)]
     [putVar64 (rt_recording_start_ticks rt), putVar64 (rt_stop_ticks rt - rt_recording_start_ticks rt), putVar64_int (rt_tid rt),
      put8 0, put8 1, putUtf8 (Some ?s), putUtf8 (Some ?t), putVar64 MAX_JLONG]"
    unfolding tid_value_def by (intro info_field_intros field_string_small short)
  have b: "fields_op 1 1 (if v14 then [KVar] else []) (if v14 then [VNum 0] else []) (if v14 then [put8 0] else [])"
    using fields_op_Cons [OF field_zero fields_op_Nil] fields_op_mono [OF fields_op_Nil, of 1 1] by simp
  have c: "fields_op (1 + (9 + (9 + 0))) (1 + (9 + (9 + 0))) [KVar, KVar, KVar]
     [VNum 0, VNum (unat (rt_recording_start_time rt div 1000)), VNum (unat ((rt_stop_time rt - rt_recording_start_time rt) div 1000))]
     [put8 0, putVar64 (rt_recording_start_time rt div 1000), putVar64 ((rt_stop_time rt - rt_recording_start_time rt) div 1000)]"
    by (intro info_field_intros)
  let ?fs = "[putVar64 (rt_recording_start_ticks rt), putVar64 (rt_stop_ticks rt - rt_recording_start_ticks rt), putVar64_int (rt_tid rt),
      put8 0, put8 1, putUtf8 (Some ?s), putUtf8 (Some ?t), putVar64 MAX_JLONG] @ (if v14 then [put8 0] else []) @
      [put8 0, putVar64 (rt_recording_start_time rt div 1000), putVar64 ((rt_stop_time rt - rt_recording_start_time rt) div 1000)]"
  have ev: "recording_event v14 rt version = event5 (putType T_ACTIVE_RECORDING # ?fs)"
    unfolding recording_event_def cstr_def append_Cons append_Nil ..
  have "fields_op 1986 1986 (event_kinds (profiler_schema k v14) T_ACTIVE_RECORDING)
     ([VNum (unat (rt_recording_start_ticks rt)), VNum (unat (rt_stop_ticks rt - rt_recording_start_ticks rt)), tid_value (rt_tid rt),
       VNum 0, VNum 1, VStr (Some ?s), VStr (Some ?t), VNum (unat MAX_JLONG)]
      @ (if v14 then [VNum 0] else [])
      @ [VNum 0, VNum (unat (rt_recording_start_time rt div 1000)), VNum (unat ((rt_stop_time rt - rt_recording_start_time rt) div 1000))]) ?fs"
    unfolding event_kinds_recording
    by (rule fields_op_mono [OF fields_op_append [OF a fields_op_append [OF b c]]]) (use short in simp_all)
  from event5_op [OF this] show ?thesis unfolding ev sv by simp
qed


lemma os_op:
  assumes "length str \<le> 510"
  shows "event_op (38 + length str) (profiler_schema k v14) T_OS_INFORMATION [VNum (unat (rt_start_ticks rt)), VStr (Some (cbytes str))] (os_event rt str)"
proof -
  have "length (cbytes str) < 2 ^ 32" "take MAX_STRING_LENGTH (cbytes str) = cbytes str" "6 + min (length (cbytes str)) MAX_STRING_LENGTH = 6 + length str"
    using assms by (simp_all add: cbytes_def MAX_STRING_LENGTH_def)
  with field_string [of "cbytes str"] have "field_op (6 + length str) (6 + length str) KStr (VStr (Some (cbytes str))) (putUtf8 (cstr str))"
    by (simp add: cstr_def)
  then have "fields_op (9 + ((6 + length str) + 0)) (9 + ((6 + length str) + 0)) (event_kinds (profiler_schema k v14) T_OS_INFORMATION)
     [VNum (unat (rt_start_ticks rt)), VStr (Some (cbytes str))] [putVar64 (rt_start_ticks rt), putUtf8 (cstr str)]"
    unfolding event_kinds_system by (intro sample_field_intros)
  from event5_op [OF this] assms have "event_op (14 + (9 + ((6 + length str) + 0))) (profiler_schema k v14) T_OS_INFORMATION
      [VNum (unat (rt_start_ticks rt)), VStr (Some (cbytes str))] (os_event rt str)" by (simp add: os_event_def)
  then show ?thesis by (rule event_op_mono) simp
qed

lemma jvm_op:
  assumes "short_str name" and "short_str version" and "short_str (or_empty (jvm_args ap))" and "short_str (or_empty (jvm_flags ap))"
    and "short_str (or_empty (java_command ap))"
  shows "event_op 41026 (profiler_schema k v14) T_JVM_INFORMATION
     [VNum (unat (rt_start_ticks rt)), str_value name, str_value version, str_value (or_empty (jvm_args ap)),
      str_value (or_empty (jvm_flags ap)), str_value (or_empty (java_command ap)), VNum (unat (word_of_int st :: u64)),
      VNum (unat (word_of_int process_id :: u64))]
     (jvm_event rt name version ap st process_id)"
proof -
  have "fields_op (9 + (8197 + (8197 + (8197 + (8197 + (8197 + (9 + (9 + 0))))))))
     (9 + (8197 + (8197 + (8197 + (8197 + (8197 + (9 + (9 + 0)))))))) (event_kinds (profiler_schema k v14) T_JVM_INFORMATION)
     [VNum (unat (rt_start_ticks rt)), str_value name, str_value version, str_value (or_empty (jvm_args ap)),
      str_value (or_empty (jvm_flags ap)), str_value (or_empty (java_command ap)), VNum (unat (word_of_int st :: u64)),
      VNum (unat (word_of_int process_id :: u64))]
     [putVar64 (rt_start_ticks rt), putUtf8 name, putUtf8 version, putUtf8 (or_empty (jvm_args ap)), putUtf8 (or_empty (jvm_flags ap)),
      putUtf8 (or_empty (java_command ap)), putVar64_int st, putVar64_int process_id]"
    unfolding event_kinds_system using assms by (intro info_field_intros)
  from event5_op [OF this] show ?thesis by (simp add: jvm_event_def)
qed

lemma jvm_records:
  assumes "full_writes w" and "ready s" and "parseAgentProperties props = Some ap" and "short_str name" and "short_str version"
    and "short_str (or_empty (jvm_args ap))" and "short_str (or_empty (jvm_flags ap))" and "short_str (or_empty (java_command ap))"
  shows "records (profiler_schema k v14) T_JVM_INFORMATION
     [VNum (unat (rt_start_ticks rt)), str_value name, str_value version, str_value (or_empty (jvm_args ap)),
      str_value (or_empty (jvm_flags ap)), str_value (or_empty (java_command ap)), VNum (unat (word_of_int st :: u64)),
      VNum (unat (word_of_int process_id :: u64))]
     (writeJvmInfo w rt props name version st process_id) s"
  unfolding writeJvmInfo_def assms(3) option.case
  by (rule write_big_records [OF jvm_op [OF assms(4-8)] assms(1) _ _ assms(2)]) (simp_all add: JFR_EVENT_FLUSH_THRESHOLD_def buffer_consts)

lemma property_op:
  assumes "short_str (Some key)" and "short_str (Some v)"
  shows "event_op 16417 (profiler_schema k v14) T_INITIAL_SYSTEM_PROPERTY
     [VNum (unat (rt_start_ticks rt)), str_value (Some key), str_value (Some v)] (property_event rt key v)"
proof -
  have "fields_op (9 + (8197 + (8197 + 0))) (9 + (8197 + (8197 + 0))) (event_kinds (profiler_schema k v14) T_INITIAL_SYSTEM_PROPERTY)
     [VNum (unat (rt_start_ticks rt)), str_value (Some key), str_value (Some v)]
     [putVar64 (rt_start_ticks rt), putUtf8 (Some key), putUtf8 (Some v)]"
    unfolding event_kinds_system using assms by (intro info_field_intros)
  from event5_op [OF this] show ?thesis by (simp add: property_event_def)
qed

lemma library_op:
  assumes "short_str (Some name)"
  shows "event_op 8238 (profiler_schema k v14) T_NATIVE_LIBRARY
     [VNum (unat (rt_start_ticks rt)), str_value (Some name), VNum (unat lo), VNum (unat hi)] (library_event rt (name, lo, hi))"
proof -
  have "fields_op (9 + (8197 + (9 + (9 + 0)))) (9 + (8197 + (9 + (9 + 0)))) (event_kinds (profiler_schema k v14) T_NATIVE_LIBRARY)
     [VNum (unat (rt_start_ticks rt)), str_value (Some name), VNum (unat lo), VNum (unat hi)]
     [putVar64 (rt_start_ticks rt), putUtf8 (Some name), putVar64 lo, putVar64 hi]"
    unfolding event_kinds_system using assms by (intro info_field_intros)
  from event5_op [OF this] show ?thesis by (simp add: library_event_def)
qed

text \<open>A sequence of events of one type.\<close>

definition records_many :: "schema \<Rightarrow> JfrType \<Rightarrow> jfr_value list list \<Rightarrow> sink_op \<Rightarrow> sink \<Rightarrow> bool" where
  "records_many sch t vss op s \<longleftrightarrow> (\<exists>s' bs. op s = Inr s' \<and> ready s' \<and> stream s' = stream s @ bs \<and>
     reads_as (read_many (length vss) (read_event sch t)) bs vss)"

lemma reads_many_Nil: "reads_as (read_many 0 rd) [] []"
  by (simp add: reads_as_def)

lemma reads_many_Cons:
  "reads_as rd as v \<Longrightarrow> reads_as (read_many n rd) bs vs \<Longrightarrow> reads_as (read_many (Suc n) rd) (as @ bs) (v # vs)"
  by (simp add: reads_as_def)

lemma many_emits:
  assumes "\<And>x. x \<in> set xs \<Longrightarrow> \<exists>bs. emits_room k k bs (run_ops (g x)) \<and> reads_as rd bs (v x)"
  shows "\<exists>bs. emits_room k k bs (run_ops (concat (map g xs))) \<and> reads_as (read_many (length xs) rd) bs (map v xs)"
  using assms
proof (induction xs)
  case Nil
  show ?case unfolding list.map concat.simps list.size using emits_room_Nil reads_many_Nil by blast
next
  case (Cons x xs)
  from Cons.IH Cons.prems obtain bs where 1: "emits_room k k bs (run_ops (concat (map g xs)))"
    "reads_as (read_many (length xs) rd) bs (map v xs)" by auto
  from Cons.prems obtain as where 2: "emits_room k k as (run_ops (g x))" "reads_as rd as (v x)" by auto
  show ?case unfolding list.map concat.simps length_Cons
    using emits_room_append [OF 2(1) 1(1)] reads_many_Cons [OF 2(2) 1(2)] by blast
qed

definition known_properties :: "(u8 list \<times> u8 list option) list \<Rightarrow> (u8 list \<times> u8 list) list" where
  "known_properties kvs = concat (map (\<lambda>(key, v). case v of None \<Rightarrow> [] | Some s \<Rightarrow> [(key, s)]) kvs)"

lemma properties_record:
  assumes w: "full_writes w" and "ready s" and short: "\<forall>(key, v)\<in>set kvs. short_str (Some key) \<and> short_str v"
  shows "records_many (profiler_schema k v14) T_INITIAL_SYSTEM_PROPERTY
     (map (\<lambda>(key, v). [VNum (unat (rt_start_ticks rt)), str_value (Some key), str_value (Some v)]) (known_properties kvs))
     (writeSystemProperties w rt (Some kvs)) s"
proof -
  let ?rd = "read_event (profiler_schema k v14) T_INITIAL_SYSTEM_PROPERTY"
  let ?kvs = "known_properties kvs"
  let ?g = "\<lambda>(key, v). [flush_op w (int RECORDING_BUFFER_LIMIT - 2 * int MAX_STRING_LENGTH), on_buf (property_event rt key v)]"
  let ?v = "\<lambda>(key, v). [VNum (unat (rt_start_ticks rt)), str_value (Some key), str_value (Some v)]"
  have ops: "concat (map (property_ops w rt) kvs) = concat (map ?g ?kvs)"
    by (induction kvs) (auto simp: property_ops_def known_properties_def split: option.split)
  have one: "\<exists>bs. emits_room 35 35 bs (run_ops (?g x)) \<and> reads_as ?rd bs (?v x)" if kv: "x \<in> set ?kvs" for x
  proof -
    obtain key v where x: "x = (key, v)" and "(key, Some v) \<in> set kvs" using kv by (auto simp: known_properties_def split: option.splits)
    then have "short_str (Some key)" "short_str (Some v)" using short by auto
    from property_op [OF this, of k v14 rt] obtain bs where "appends 16417 bs (property_event rt key v)"
      "reads_as ?rd bs (?v x)" by (auto simp: event_op_def x)
    with emits_room_big [OF w this(1), of "int RECORDING_BUFFER_LIMIT - 2 * int MAX_STRING_LENGTH" 35 35]
    show ?thesis by (auto simp: x JFR_EVENT_FLUSH_THRESHOLD_def buffer_consts)
  qed
  obtain bs where bs: "emits_room 35 35 bs (run_ops (concat (map ?g ?kvs)))" "reads_as (read_many (length ?kvs) ?rd) bs (map ?v ?kvs)"
    using many_emits [of ?kvs 35 ?g ?rd ?v, OF one] by blast
  have "emits_room 35 0 (bs @ [] @ []) (run_ops (concat (map ?g ?kvs) @ [flush_op w JFR_EVENT_FLUSH_THRESHOLD]))"
    by (rule emits_room_append [OF bs(1) emits_room_Cons [OF emits_room_flush [OF w order_refl] emits_room_Nil]])
  then have "emits bs (writeSystemProperties w rt (Some kvs))"
    using emits_room_mono [of 35 0 bs _ 0 0] by (simp add: writeSystemProperties_def ops flip: emits_room_0)
  from emitsD [OF this assms(2)] bs(2) show ?thesis by (auto simp: records_many_def)
qed

lemma libraries_record:
  assumes w: "full_writes w" and r: "ready s" and short: "\<forall>(name, lo, hi)\<in>set libs. short_str (Some name)" and n: "0 \<le> recorded"
  shows "\<exists>s' bs. writeNativeLibraries w rt libs recorded s = Inr (int (length libs), s') \<and> ready s' \<and> stream s' = stream s @ bs \<and>
     reads_as (read_many (length libs - nat recorded) (read_event (profiler_schema k v14) T_NATIVE_LIBRARY)) bs
       [[VNum (unat (rt_start_ticks rt)), str_value (Some name), VNum (unat lo), VNum (unat hi)]. (name, lo, hi) \<leftarrow> drop (nat recorded) libs]"
proof -
  let ?rd = "read_event (profiler_schema k v14) T_NATIVE_LIBRARY"
  let ?libs = "drop (nat recorded) libs"
  let ?g = "\<lambda>l. [write_big w (int RECORDING_BUFFER_LIMIT - int MAX_STRING_LENGTH) (library_event rt l)]"
  let ?v = "\<lambda>(name, lo, hi). [VNum (unat (rt_start_ticks rt)), str_value (Some name), VNum (unat lo), VNum (unat hi)]"
  have one: "\<exists>bs. emits_room 0 0 bs (run_ops (?g l)) \<and> reads_as ?rd bs (?v l)" if "l \<in> set ?libs" for l
  proof -
    obtain name lo hi where l: "l = (name, lo, hi)" by (cases l)
    with that short have "short_str (Some name)" by (auto dest: in_set_dropD)
    from library_op [OF this, of k v14 rt lo hi] obtain bs where bs: "appends 8238 bs (library_event rt l)" "reads_as ?rd bs (?v l)"
      by (auto simp: event_op_def l)
    have "emits bs (write_big w (int RECORDING_BUFFER_LIMIT - int MAX_STRING_LENGTH) (library_event rt l))"
      by (rule write_big_emits [OF w bs(1)]) (simp_all add: JFR_EVENT_FLUSH_THRESHOLD_def buffer_consts)
    then have "emits_room 0 0 (bs @ []) (run_ops (?g l))"
      by (intro emits_room_Cons [where l = 0] emits_room_Nil) (simp add: emits_room_0)
    then show ?thesis using bs(2) by auto
  qed
  have ops: "concat (map ?g ?libs) = map (\<lambda>l. write_big w (int RECORDING_BUFFER_LIMIT - int MAX_STRING_LENGTH) (library_event rt l)) ?libs"
    by (induction "?libs") auto
  obtain bs where bs: "emits_room 0 0 bs (run_ops (concat (map ?g ?libs)))" "reads_as (read_many (length ?libs) ?rd) bs (map ?v ?libs)"
    using many_emits [of ?libs 0 ?g ?rd ?v, OF one] by blast
  from emitsD [OF bs(1) [unfolded ops emits_room_0] r] bs(2) n show ?thesis by (auto simp: writeNativeLibraries_def)
qed


section \<open>Properties\<close>

text \<open>The settings of a recording, as category, name and value, in the order in which they are written.\<close>

definition bool_string :: "bool \<Rightarrow> string" where
  "bool_string b = (if b then ''true'' else ''false'')"

definition settings_list :: "settings_env \<Rightarrow> arguments \<Rightarrow> (JfrType \<times> string \<times> string) list" where
  "settings_list se args =
     [(T_ACTIVE_RECORDING, ''asyncprofiler'', ''true''), (T_ACTIVE_RECORDING, ''version'', se_version se),
      (T_ACTIVE_RECORDING, ''tscfrequency'', dec_int (se_tsc_frequency se)), (T_ACTIVE_RECORDING, ''loglevel'', se_log_level se),
      (T_ACTIVE_RECORDING, ''hotspot'', bool_string (se_hotspot se)), (T_ACTIVE_RECORDING, ''openj9'', bool_string (se_openj9 se))]
     @ map (\<lambda>a. (T_ACTIVE_RECORDING, ''contextattribute'', a)) (context_attributes args)
     @ (if event args \<noteq> None \<and> event args \<noteq> Some EVENT_NOOP \<or> cpu args \<ge> 0
        then [(T_EXECUTION_SAMPLE, ''enabled'', ''true''), (T_EXECUTION_SAMPLE, ''interval'', dec_int (cpuSamplerInterval args))]
        else [(T_EXECUTION_SAMPLE, ''enabled'', ''false'')])
     @ (if wall args \<ge> 0
        then [(T_METHOD_SAMPLE, ''enabled'', ''true''),
              (T_METHOD_SAMPLE, ''interval'', dec_int (if wall args \<noteq> 0 then wall args else DEFAULT_WALL_INTERVAL))]
        else [(T_METHOD_SAMPLE, ''enabled'', ''false'')])
     @ [(T_ALLOC, ''enabled'', bool_string (record_allocations args)),
        (T_HEAP_LIVE_OBJECT, ''enabled'', bool_string (record_liveness args)),
        (T_ACTIVE_RECORDING, ''debugSymbols'', bool_string (se_debug_symbols se)),
        (T_ACTIVE_RECORDING, ''kernelSymbols'', bool_string (se_kernel_symbols se)),
        (T_ACTIVE_RECORDING, ''cpuEngine'', se_cpu_engine se), (T_ACTIVE_RECORDING, ''wallEngine'', se_wall_engine se),
        (T_ACTIVE_RECORDING, ''cstack'', se_cstack se)]"

definition setting_values :: "rec_times \<Rightarrow> JfrType \<times> string \<times> string \<Rightarrow> jfr_value list" where
  "setting_values rt = (\<lambda>(cat, key, v).
     [VNum (unat (rt_start_ticks rt)), VNum 0, tid_value (rt_tid rt), VNum 0, VNum (jfr_id cat), str_value (cstr key), str_value (cstr v)])"

lemma bool_string_simps: "bool_string True = ''true''" "bool_string False = ''false''"
  by (simp_all add: bool_string_def)

lemma writeBoolSetting_eq: "writeBoolSetting w rt cat key v = writeStringSetting w rt cat key (cstr (bool_string v))"
  unfolding writeBoolSetting_def bool_string_def ..

lemma concat_singletons: "concat (map (\<lambda>x. [f x]) xs) = map f xs"
  by (induction xs) simp_all

lemma writeSettings_eq:
  "writeSettings w rt se args =
     run_ops (map (\<lambda>(cat, key, v). writeStringSetting w rt cat key (cstr v)) (settings_list se args) @ [flush_op w JFR_EVENT_FLUSH_THRESHOLD])"
proof -
  define a where "a \<longleftrightarrow> event args \<noteq> None \<and> event args \<noteq> Some EVENT_NOOP \<or> cpu args \<ge> 0"
  define b where "b \<longleftrightarrow> wall args \<ge> 0"
  show ?thesis
    unfolding writeSettings_def settings_list_def a_def [symmetric] b_def [symmetric] writeBoolSetting_eq writeIntSetting_def
    by (cases a; cases b) (simp_all only: bool_string_simps if_True if_False not_True_eq_False not_False_eq_True map_append list.map
      list.map_comp o_def prod.case append.simps append_assoc)
qed

lemma setting_emits:
  assumes "full_writes w" and "length key < 2 ^ 32" and "length v < 2 ^ 32"
  shows "\<exists>bs. emits_room 0 0 bs (run_ops [writeStringSetting w rt cat key (cstr v)]) \<and>
     reads_as (read_event (profiler_schema k v14) T_ACTIVE_SETTING) bs (setting_values rt (cat, key, v))"
proof -
  from setting_op [OF short_cstr [OF assms(2)] short_cstr [OF assms(3)], of k v14 rt cat]
  obtain bs where bs: "appends 16437 bs (setting_event rt cat (cstr key) (cstr v))"
    "reads_as (read_event (profiler_schema k v14) T_ACTIVE_SETTING) bs (setting_values rt (cat, key, v))"
    by (auto simp: event_op_def setting_values_def)
  have "emits bs (writeStringSetting w rt cat key (cstr v))"
    unfolding writeStringSetting_def
    by (rule write_big_emits [OF assms(1) bs(1)]) (simp_all add: JFR_EVENT_FLUSH_THRESHOLD_def buffer_consts MAX_JFR_EVENT_SIZE_def)
  then have "emits_room 0 0 (bs @ []) (run_ops [writeStringSetting w rt cat key (cstr v)])"
    by (intro emits_room_Cons [where l = 0] emits_room_Nil) (simp add: emits_room_0)
  with bs(2) show ?thesis by auto
qed

text \<open>
  C18. The settings of a recording, whatever the arguments and however long the strings: the writer succeeds and
  appends one event for each setting of the list, in order, which a reader with the declared metadata reads
  back, the strings cut at \<^verbatim>\<open>MAX_STRING_LENGTH\<close>.
\<close>

theorem settings_readable:
  assumes "full_writes w" and "ready s" and "\<forall>(cat, key, v)\<in>set (settings_list se args). length key < 2 ^ 32 \<and> length v < 2 ^ 32"
  shows "records_many (profiler_schema k v14) T_ACTIVE_SETTING (map (setting_values rt) (settings_list se args))
     (writeSettings w rt se args) s"
proof -
  let ?rd = "read_event (profiler_schema k v14) T_ACTIVE_SETTING" and ?l = "settings_list se args"
  let ?w = "\<lambda>(cat, key, v). writeStringSetting w rt cat key (cstr v)"
  let ?g = "\<lambda>x. [?w x]"
  have one: "\<exists>bs. emits_room 0 0 bs (run_ops (?g x)) \<and> reads_as ?rd bs (setting_values rt x)" if x: "x \<in> set ?l" for x
    using setting_emits [OF assms(1)] assms(3) x by fastforce
  obtain bs where bs: "emits_room 0 0 bs (run_ops (concat (map ?g ?l)))" "reads_as (read_many (length ?l) ?rd) bs (map (setting_values rt) ?l)"
    using many_emits [of ?l 0 ?g ?rd "setting_values rt", OF one] by blast
  have "emits_room 0 0 (bs @ [] @ []) (run_ops (concat (map ?g ?l) @ [flush_op w JFR_EVENT_FLUSH_THRESHOLD]))"
    by (rule emits_room_append [OF bs(1) emits_room_Cons [OF emits_room_flush [OF assms(1) order_refl] emits_room_Nil]])
  then have "emits bs (writeSettings w rt se args)" by (simp add: writeSettings_eq concat_singletons flip: emits_room_0)
  from emitsD [OF this assms(2)] bs(2) show ?thesis by (auto simp: records_many_def)
qed

definition demo_times :: rec_times where
  "demo_times = \<lparr>rt_start_time = 1000000, rt_start_ticks = 77, rt_recording_start_time = 1000000, rt_recording_start_ticks = 77,
     rt_stop_time = 3000000, rt_stop_ticks = 99, rt_tid = 12, rt_available_processors = 4\<rparr>"

definition demo_settings :: settings_env where
  "demo_settings = \<lparr>se_version = ''1.0'', se_tsc_frequency = 1000000000, se_log_level = ''INFO'', se_hotspot = True, se_openj9 = False,
     se_debug_symbols = True, se_kernel_symbols = False, se_cpu_engine = ''PerfEvents'', se_wall_engine = ''ASGCT'', se_cstack = ''no''\<rparr>"

lemma length_dec: "length (dec n) \<le> Suc n"
proof (induction n rule: dec.induct)
  case (1 n)
  then show ?case by (cases "n < 10") (simp_all add: dec.simps [of n])
qed

lemma dec_int_short: "0 \<le> v \<Longrightarrow> v < 2 ^ 31 \<Longrightarrow> length (dec_int v) < 2 ^ 32"
  using length_dec [of "nat v"] by (simp add: dec_int_def)

theorem settings_readable_witness:
  "records_many (profiler_schema 0 True) T_ACTIVE_SETTING (map (setting_values demo_times) (settings_list demo_settings (new_Arguments False)))
     (writeSettings int demo_times demo_settings (new_Arguments False)) demo_sink"
  by (rule settings_readable [OF demo_ready(2) demo_ready(1)])
    (use dec_int_short in \<open>simp add: settings_list_def demo_settings_def new_Arguments_def bool_string_def\<close>)


text \<open>
  C30. The description of the recording and of the virtual machine, the known system properties and the native
  libraries that are not recorded yet: each writer succeeds and its events read back with the declared
  metadata. A second call with the returned number of libraries writes nothing.
\<close>

theorem descriptions_readable:
  assumes w: "full_writes w" and s: "ready s" and "length version < 100"
    and ap: "parseAgentProperties props = Some ap" "short_str (or_empty (jvm_args ap))" "short_str (or_empty (jvm_flags ap))"
      "short_str (or_empty (java_command ap))" "short_str name" "short_str jvmversion"
    and "\<forall>(key, v)\<in>set kvs. short_str (Some key) \<and> short_str v"
    and "\<forall>(lib, lo, hi)\<in>set libs. short_str (Some lib)" and "0 \<le> recorded"
  shows "records (profiler_schema k v14) T_ACTIVE_RECORDING
       ([VNum (unat (rt_recording_start_ticks rt)), VNum (unat (rt_stop_ticks rt - rt_recording_start_ticks rt)), tid_value (rt_tid rt),
         VNum 0, VNum 1, str_value (cstr (''java-profiler '' @ version)), str_value (cstr ''java-profiler.jfr''), VNum (unat MAX_JLONG)]
        @ (if v14 then [VNum 0] else [])
        @ [VNum 0, VNum (unat (rt_recording_start_time rt div 1000)), VNum (unat ((rt_stop_time rt - rt_recording_start_time rt) div 1000))])
       (writeRecordingInfo w v14 rt version) s \<and>
     records (profiler_schema k v14) T_JVM_INFORMATION
       [VNum (unat (rt_start_ticks rt)), str_value name, str_value jvmversion, str_value (or_empty (jvm_args ap)),
        str_value (or_empty (jvm_flags ap)), str_value (or_empty (java_command ap)), VNum (unat (word_of_int st :: u64)),
        VNum (unat (word_of_int process_id :: u64))]
       (writeJvmInfo w rt props name jvmversion st process_id) s \<and>
     records_many (profiler_schema k v14) T_INITIAL_SYSTEM_PROPERTY
       (map (\<lambda>(key, v). [VNum (unat (rt_start_ticks rt)), str_value (Some key), str_value (Some v)]) (known_properties kvs))
       (writeSystemProperties w rt (Some kvs)) s \<and>
     (\<exists>s' bs. writeNativeLibraries w rt libs recorded s = Inr (int (length libs), s') \<and> ready s' \<and> stream s' = stream s @ bs \<and>
       reads_as (read_many (length libs - nat recorded) (read_event (profiler_schema k v14) T_NATIVE_LIBRARY)) bs
         [[VNum (unat (rt_start_ticks rt)), str_value (Some lib), VNum (unat lo), VNum (unat hi)]. (lib, lo, hi) \<leftarrow> drop (nat recorded) libs] \<and>
       writeNativeLibraries w rt libs (int (length libs)) s' = Inr (int (length libs), s'))"
proof (intro conjI)
  have "event_op 2000 (profiler_schema k v14) T_ACTIVE_RECORDING
       ([VNum (unat (rt_recording_start_ticks rt)), VNum (unat (rt_stop_ticks rt - rt_recording_start_ticks rt)), tid_value (rt_tid rt),
         VNum 0, VNum 1, str_value (cstr (''java-profiler '' @ version)), str_value (cstr ''java-profiler.jfr''), VNum (unat MAX_JLONG)]
        @ (if v14 then [VNum 0] else [])
        @ [VNum 0, VNum (unat (rt_recording_start_time rt div 1000)), VNum (unat ((rt_stop_time rt - rt_recording_start_time rt) div 1000))])
       (recording_event v14 rt version)" by (rule recording_op [OF assms(3)])
  from event_op_recorded [OF this _ w s] show "records (profiler_schema k v14) T_ACTIVE_RECORDING
       ([VNum (unat (rt_recording_start_ticks rt)), VNum (unat (rt_stop_ticks rt - rt_recording_start_ticks rt)), tid_value (rt_tid rt),
         VNum 0, VNum 1, str_value (cstr (''java-profiler '' @ version)), str_value (cstr ''java-profiler.jfr''), VNum (unat MAX_JLONG)]
        @ (if v14 then [VNum 0] else [])
        @ [VNum 0, VNum (unat (rt_recording_start_time rt div 1000)), VNum (unat ((rt_stop_time rt - rt_recording_start_time rt) div 1000))])
       (writeRecordingInfo w v14 rt version) s" by (simp add: writeRecordingInfo_def ROOM_eq)
  show "\<exists>s' bs. writeNativeLibraries w rt libs recorded s = Inr (int (length libs), s') \<and> ready s' \<and> stream s' = stream s @ bs \<and>
       reads_as (read_many (length libs - nat recorded) (read_event (profiler_schema k v14) T_NATIVE_LIBRARY)) bs
         [[VNum (unat (rt_start_ticks rt)), str_value (Some lib), VNum (unat lo), VNum (unat hi)]. (lib, lo, hi) \<leftarrow> drop (nat recorded) libs] \<and>
       writeNativeLibraries w rt libs (int (length libs)) s' = Inr (int (length libs), s')"
    using libraries_record [OF w s assms(11,12), of rt k v14] by (auto simp: writeNativeLibraries_def [of _ _ _ "int _"])
qed (rule jvm_records [OF w s ap(1,5,6,2-4)] properties_record [OF w s assms(10)])+

theorem descriptions_readable_witness:
  "records_many (profiler_schema 0 True) T_INITIAL_SYSTEM_PROPERTY [[VNum 77, VStr (Some [107]), VStr (Some [118])]]
     (writeSystemProperties int demo_times (Some [([107], Some [118]), ([98], None)])) demo_sink"
proof -
  have "parseAgentProperties (Some ''{}'') = Some \<lparr>jvm_args = None, jvm_flags = None, java_command = None\<rparr>"
    by (simp add: parseAgentProperties_def parse_properties.simps)
  from descriptions_readable [OF demo_ready(2) demo_ready(1) _ this, of "''1.0''" None None "[([107], Some [118]), ([98], None)]" "[]" 0 0 True demo_times]
  show ?thesis by (simp add: short_str_def or_empty_def cstr_def cbytes_def known_properties_def demo_times_def str_value_def MAX_STRING_LENGTH_def)
qed

text \<open>
  An unwind failure is written with a size of one byte. When the event has 128 to 254 bytes, because of a long
  name, a reader takes that byte for the first of a longer size.
\<close>

lemma unwind_failure_appends:
  assumes "length name < 128"
  shows "\<exists>bs. appends (63 + length name) (word_of_nat (Suc (length bs)) # bs) (unwind_failure_event rt (kind, name, count)) \<and>
     length bs = 1 + length (var64_loop 0 (rt_start_ticks rt)) +
       (if kind = UNWIND_FAILURE_STUB \<or> kind = UNWIND_FAILURE_ANY then 6 else 7) + (2 + length name) + length (var64_loop 0 count) \<and>
     bs ! 0 = word_of_nat (jfr_id T_UNWIND_FAILURE) \<and> bs \<noteq> []"
proof -
  let ?k = "cbytes (if kind = UNWIND_FAILURE_STUB \<or> kind = UNWIND_FAILURE_ANY then ''stub'' else ''other'')"
  let ?t = "[word_of_nat (jfr_id T_UNWIND_FAILURE) :: u8]" and ?n = "cbytes name"
  let ?bs = "?t @ var64_loop 0 (rt_start_ticks rt) @ utf8_bytes ?k @ utf8_bytes ?n @ var64_loop 0 count @ []"
  have small: "length (utf8_bytes x) = 2 + length x" if "length x < 128" for x
    using that by (simp add: utf8_bytes_def Let_def MAX_STRING_LENGTH_def var_loop.simps unat_of_nat take_bit_eq_mod)
  have k: "length ?k \<le> 5" by (simp add: cbytes_def)
  have a: "appends 11 (utf8_bytes ?k) (putUtf8 (Some ?k))" "appends (6 + length name) (utf8_bytes ?n) (putUtf8 (Some ?n))"
    using appends_putUtf8_Some [of ?k] appends_putUtf8_Some [of ?n] k assms
    by (auto simp: cbytes_def MAX_STRING_LENGTH_def intro: appends_mono)
  have "appends (9 + (9 + (11 + ((6 + length name) + (9 + 0))))) ?bs
     (run_ops [putType T_UNWIND_FAILURE, putVar64 (rt_start_ticks rt), putUtf8 (Some ?k), putUtf8 (Some ?n), putVar64 count])"
    by (intro appends_Cons appends_Nil type_field(1) appends_putVar64 a) simp
  from event1_appends [OF this] assms have "appends (63 + length name) (word_of_nat (Suc (length ?bs)) # ?bs) (unwind_failure_event rt (kind, name, count))"
    by (auto simp: unwind_failure_event_def cstr_def intro: appends_mono)
  then show ?thesis using small [of ?k] small [of ?n] k assms by (intro exI [of _ ?bs]) (auto simp: cbytes_def)
qed


lemma read_two_bytes:
  assumes "128 \<le> unat a" and "unat b < 128"
  shows "jfr_read_long (a # b # r) = Some (unat a - 128 + 128 * unat b, r)"
  using assms read_varint.simps(3) [of 7 a "b # r"] read_varint.simps(3) [of 6 b r] by (simp add: jfr_read_long_def)

text \<open>
  An unwind failure whose name has 120 to 127 characters is written without an error, but its size byte is
  128 or more: a reader takes it for the first byte of a longer number and expects an event of more than
  16000 bytes.
\<close>

theorem unwind_failure_misread:
  assumes "full_writes w" and "ready s" and "120 \<le> length name" and "length name < 128"
  shows "\<exists>s' bs. failure_events w rt [(kind, name, count)] s = Inr s' \<and> stream s' = stream s @ bs \<and> length bs < 256 \<and>
     (\<forall>rest. \<exists>n r. jfr_read_long (bs @ rest) = Some (n, r) \<and> n > 16000)"
proof -
  obtain bs where ap: "appends (63 + length name) (word_of_nat (Suc (length bs)) # bs) (unwind_failure_event rt (kind, name, count))"
    and len: "length bs = 1 + length (var64_loop 0 (rt_start_ticks rt)) +
       (if kind = UNWIND_FAILURE_STUB \<or> kind = UNWIND_FAILURE_ANY then 6 else 7) + (2 + length name) + length (var64_loop 0 count)"
    and t: "bs ! 0 = word_of_nat (jfr_id T_UNWIND_FAILURE)" "bs \<noteq> []"
    using unwind_failure_appends [OF assms(4)] by blast
  have l: "127 \<le> length bs" "length bs < 200"
    using len assms(3,4) length_var64 [of "rt_start_ticks rt"] length_var64 [of count] by (auto split: if_splits)
  let ?a = "word_of_nat (Suc (length bs)) :: u8"
  have u: "unat ?a = Suc (length bs)" using l by (intro unat_word_of_nat) simp
  obtain r where bs: "bs = word_of_nat (jfr_id T_UNWIND_FAILURE) # r" using t by (cases bs) auto
  have "jfr_read_long ((?a # bs) @ rest) = Some (unat ?a - 128 + 128 * jfr_id T_UNWIND_FAILURE, r @ rest)" for rest
    using read_two_bytes [of ?a "word_of_nat (jfr_id T_UNWIND_FAILURE)" "r @ rest"] l u by (subst (2) bs) simp
  then have n: "\<forall>rest. \<exists>n r. jfr_read_long ((?a # bs) @ rest) = Some (n, r) \<and> n > 16000" by auto
  have "emits (?a # bs) (write_event w (unwind_failure_event rt (kind, name, count)))"
    by (rule write_event_emits [OF assms(1) ap]) (use assms(4) in \<open>simp add: ROOM_eq\<close>)
  from emitsD [OF this assms(2)] obtain s' where "write_event w (unwind_failure_event rt (kind, name, count)) s = Inr s'"
    "stream s' = stream s @ ?a # bs" by blast
  then show ?thesis using n l by (intro exI [of _ s'] exI [of _ "?a # bs"]) (simp add: failure_events_def)
qed

theorem unwind_failure_misread_witness:
  "\<exists>s' bs. failure_events int demo_times [(UNWIND_FAILURE_STUB, replicate 125 CHR ''f'', 3)] demo_sink = Inr s' \<and>
     stream s' = stream demo_sink @ bs \<and> length bs < 256 \<and>
     (\<forall>rest. \<exists>n r. jfr_read_long (bs @ rest) = Some (n, r) \<and> n > 16000)"
  by (rule unwind_failure_misread [OF demo_ready(2) demo_ready(1)]) simp_all


lemma unwind_failure_op:
  assumes "length name \<le> 90"
  shows "event_op 200 (profiler_schema k v14) T_UNWIND_FAILURE
     [VNum (unat (rt_start_ticks rt)), VStr (Some (cbytes (if kind = UNWIND_FAILURE_STUB \<or> kind = UNWIND_FAILURE_ANY then ''stub'' else ''other''))),
      VStr (Some (cbytes name)), VNum (unat count)]
     (unwind_failure_event rt (kind, name, count))"
proof -
  let ?k = "cbytes (if kind = UNWIND_FAILURE_STUB \<or> kind = UNWIND_FAILURE_ANY then ''stub'' else ''other'')" and ?n = "cbytes name"
  have len: "length ?k \<le> 5" "length ?n \<le> 90" using assms by (simp_all add: cbytes_def)
  have k: "event_kinds (profiler_schema k v14) T_UNWIND_FAILURE = [KVar, KStr, KStr, KVar]" by (rule event_kinds_recording)
  have "fields_op (9 + ((6 + length ?k) + ((6 + length ?n) + (9 + 0)))) (9 + ((2 + length ?k) + ((2 + length ?n) + (9 + 0))))
     (event_kinds (profiler_schema k v14) T_UNWIND_FAILURE)
     [VNum (unat (rt_start_ticks rt)), VStr (Some ?k), VStr (Some ?n), VNum (unat count)]
     [putVar64 (rt_start_ticks rt), putUtf8 (Some ?k), putUtf8 (Some ?n), putVar64 count]"
    unfolding k using len by (intro sample_field_intros field_string_small) simp_all
  from event1_op [OF this] len have "event_op (10 + (9 + ((6 + length ?k) + ((6 + length ?n) + (9 + 0))))) (profiler_schema k v14) T_UNWIND_FAILURE
     [VNum (unat (rt_start_ticks rt)), VStr (Some ?k), VStr (Some ?n), VNum (unat count)] (unwind_failure_event rt (kind, name, count))"
    by (simp add: unwind_failure_event_def cstr_def)
  then show ?thesis by (rule event_op_mono) (use len in simp)
qed

definition failure_values :: "rec_times \<Rightarrow> UnwindFailureKind \<times> string \<times> u64 \<Rightarrow> jfr_value list" where
  "failure_values rt = (\<lambda>(kind, name, count).
     [VNum (unat (rt_start_ticks rt)), VStr (Some (cbytes (if kind = UNWIND_FAILURE_STUB \<or> kind = UNWIND_FAILURE_ANY then ''stub'' else ''other''))),
      VStr (Some (cbytes name)), VNum (unat count)])"

lemma failure_events_emit:
  assumes w: "full_writes w" and names: "\<forall>(kind, name, count)\<in>set fs. length name \<le> 90"
  shows "\<exists>bs. emits bs (failure_events w rt fs) \<and>
     reads_as (read_many (length fs) (read_event (profiler_schema k v14) T_UNWIND_FAILURE)) bs (map (failure_values rt) fs)"
proof -
  let ?rd = "read_event (profiler_schema k v14) T_UNWIND_FAILURE"
  let ?g = "\<lambda>f. [write_event w (unwind_failure_event rt f)]"
  have one: "\<exists>bs. emits_room 0 0 bs (run_ops (?g f)) \<and> reads_as ?rd bs (failure_values rt f)" if f: "f \<in> set fs" for f
  proof -
    obtain kind name count where x: "f = (kind, name, count)" by (cases f)
    with f names have "length name \<le> 90" by auto
    from unwind_failure_op [OF this, of k v14 rt kind count] obtain bs where bs: "appends 200 bs (unwind_failure_event rt f)"
      "reads_as ?rd bs (failure_values rt f)" by (auto simp: event_op_def x failure_values_def)
    have "emits bs (write_event w (unwind_failure_event rt f))" by (rule write_event_emits [OF w bs(1)]) (simp add: ROOM_eq)
    then have "emits_room 0 0 (bs @ []) (run_ops (?g f))" by (intro emits_room_Cons [where l = 0] emits_room_Nil) (simp add: emits_room_0)
    with bs(2) show ?thesis by auto
  qed
  have ops: "run_ops (concat (map ?g fs)) = failure_events w rt fs" by (simp add: failure_events_def concat_singletons)
  obtain bs where bs: "emits_room 0 0 bs (run_ops (concat (map ?g fs)))" "reads_as (read_many (length fs) ?rd) bs (map (failure_values rt) fs)"
    using many_emits [of fs 0 ?g ?rd "failure_values rt", OF one] by blast
  from bs(1) have "emits bs (failure_events w rt fs)" unfolding ops emits_room_0 .
  with bs(2) show ?thesis by blast
qed

text \<open>
  C37. Unwind failures are reported again: when no failure is recorded in between, the third of three calls of
  \<^verbatim>\<open>writeUnwindFailures\<close> writes the same events as the first, since the first table is swapped back by the second
  call without being cleared. Each call takes and releases the lock.
\<close>

theorem unwind_failures_repeated:
  assumes "full_writes w" and "ready s" and "forEach old = Inr olds" and "forEach recent = Inr recents"
    and "\<forall>(kind, name, count)\<in>set (olds @ recents). length name \<le> 90"
  shows "\<exists>s1 s2 s3 a b. writeUnwindFailures w rt (old, 0, recent) s = Some (Inr ((recent, 0, old), s1)) \<and>
     writeUnwindFailures w rt (recent, 0, old) s1 = Some (Inr ((old, 0, recent), s2)) \<and>
     writeUnwindFailures w rt (old, 0, recent) s2 = Some (Inr ((recent, 0, old), s3)) \<and>
     stream s1 = stream s @ a \<and> stream s2 = stream s1 @ b \<and> stream s3 = stream s2 @ a \<and>
     reads_as (read_many (length recents) (read_event (profiler_schema k v14) T_UNWIND_FAILURE)) a (map (failure_values rt) recents)"
proof -
  obtain a where a: "emits a (failure_events w rt recents)"
    "reads_as (read_many (length recents) (read_event (profiler_schema k v14) T_UNWIND_FAILURE)) a (map (failure_values rt) recents)"
    using failure_events_emit [OF assms(1), of recents rt k v14] assms(5) by auto
  obtain b where b: "emits b (failure_events w rt olds)" using failure_events_emit [OF assms(1), of olds rt k v14] assms(5) by auto
  from emitsD [OF a(1) assms(2)] obtain s1 where 1: "failure_events w rt recents s = Inr s1" "ready s1" "stream s1 = stream s @ a" by blast
  from emitsD [OF b 1(2)] obtain s2 where 2: "failure_events w rt olds s1 = Inr s2" "ready s2" "stream s2 = stream s1 @ b" by blast
  from emitsD [OF a(1) 2(2)] obtain s3 where 3: "failure_events w rt recents s2 = Inr s3" "stream s3 = stream s2 @ a" by blast
  have c: "writeUnwindFailures w rt (x, 0, y) z =
     Some (case forEach y of Inl e \<Rightarrow> Inl (Inl e) | Inr fs \<Rightarrow> (case failure_events w rt fs z of Inl e \<Rightarrow> Inl (Inr e) | Inr s1 \<Rightarrow> Inr ((y, 0, x), s1)))" for x y z
    by (simp add: writeUnwindFailures_def collectAndReset_def tryLock_def unlock_def swap_def)
  show ?thesis using a(2) 1 2 3 assms(3,4) by (intro exI [of _ s1] exI [of _ s2] exI [of _ s3] exI [of _ a] exI [of _ b]) (simp add: c)
qed

definition demo_failures :: unwind_failures where
  "demo_failures = \<lparr>names = [''stub1''], nameCount = 1, rows = [[3, 0, 0, 0]]\<rparr>"

theorem unwind_failures_repeated_witness:
  "\<exists>s1 s2 s3 a b. writeUnwindFailures int demo_times (new_UnwindFailures, 0, demo_failures) demo_sink = Some (Inr ((demo_failures, 0, new_UnwindFailures), s1)) \<and>
     writeUnwindFailures int demo_times (demo_failures, 0, new_UnwindFailures) s1 = Some (Inr ((new_UnwindFailures, 0, demo_failures), s2)) \<and>
     writeUnwindFailures int demo_times (new_UnwindFailures, 0, demo_failures) s2 = Some (Inr ((demo_failures, 0, new_UnwindFailures), s3)) \<and>
     stream s1 = stream demo_sink @ a \<and> stream s2 = stream s1 @ b \<and> stream s3 = stream s2 @ a \<and>
     reads_as (read_many (length [(UNWIND_FAILURE_STUB, ''stub1'', 3 :: u64)]) (read_event (profiler_schema 0 True) T_UNWIND_FAILURE)) a
       (map (failure_values demo_times) [(UNWIND_FAILURE_STUB, ''stub1'', 3)])"
proof (rule unwind_failures_repeated [OF demo_ready(2) demo_ready(1), where olds = "[]"])
  show "forEach new_UnwindFailures = Inr []" by (simp add: forEach_def new_UnwindFailures_def entries_def)
  show "forEach demo_failures = Inr [(UNWIND_FAILURE_STUB, ''stub1'', 3)]" by (simp add: forEach_def demo_failures_def entries_def)
qed simp

end
