(* ===== verification/Metadata_Event.thy ===== *)
theory Metadata_Event
  imports Recording_Info
begin

text \<open>
  The metadata event and its reader. As long as the event fits into the buffer before a flush is due, what
  \<^verbatim>\<open>writeMetadata\<close> writes is a string table and an element tree from which a reader rebuilds the elements of
  \<^verbatim>\<open>jfrMetadata.cpp\<close>.
\<close>

section \<open>Writers that do not flush\<close>

definition quiet :: "u8 list \<Rightarrow> sink_op \<Rightarrow> bool" where
  "quiet bs op \<longleftrightarrow> (\<forall>s. ready s \<and> offset (sk_buf s) + length bs < RECORDING_BUFFER_LIMIT \<longrightarrow>
     op s = Inr (s\<lparr>sk_buf := append_bytes bs (sk_buf s)\<rparr>))"

lemma quietD: "quiet bs op \<Longrightarrow> ready s \<Longrightarrow> offset (sk_buf s) + length bs < RECORDING_BUFFER_LIMIT \<Longrightarrow>
    op s = Inr (s\<lparr>sk_buf := append_bytes bs (sk_buf s)\<rparr>)"
  by (simp add: quiet_def)

lemma ready_append:
  assumes "ready s" and "offset (sk_buf s) + length bs < RECORDING_BUFFER_LIMIT"
  shows "ready (s\<lparr>sk_buf := append_bytes bs (sk_buf s)\<rparr>)"
  using assms by (simp add: ready_def buffer_consts)

lemma append_append:
  assumes "ready s" and "offset (sk_buf s) + length as + length bs < RECORDING_BUFFER_LIMIT"
  shows "append_bytes bs (append_bytes as (sk_buf s)) = append_bytes (as @ bs) (sk_buf s)"
  using assms by (intro append_bytes_append_bytes) (simp_all add: ready_def buffer_consts)

lemma quiet_Nil: "quiet [] (run_ops [])"
  by (simp add: quiet_def)

lemma quiet_Cons:
  assumes "quiet as f" and "quiet bs (run_ops fs)"
  shows "quiet (as @ bs) (run_ops (f # fs))"
  unfolding quiet_def
proof (intro allI impI, elim conjE)
  fix s assume s: "ready s" "offset (sk_buf s) + length (as @ bs) < RECORDING_BUFFER_LIMIT"
  let ?s1 = "s\<lparr>sk_buf := append_bytes as (sk_buf s)\<rparr>"
  have 1: "f s = Inr ?s1" by (rule quietD [OF assms(1) s(1)]) (use s(2) in simp)
  have r: "ready ?s1" by (rule ready_append [OF s(1)]) (use s(2) in simp)
  have "run_ops fs ?s1 = Inr (?s1\<lparr>sk_buf := append_bytes bs (sk_buf ?s1)\<rparr>)" by (rule quietD [OF assms(2) r]) (use s(2) in simp)
  then show "run_ops (f # fs) s = Inr (s\<lparr>sk_buf := append_bytes (as @ bs) (sk_buf s)\<rparr>)"
    using 1 append_append [OF s(1), of as bs] s(2) by simp
qed

lemma quiet_append:
  assumes "quiet as (run_ops fs)" and "quiet bs (run_ops gs)"
  shows "quiet (as @ bs) (run_ops (fs @ gs))"
proof -
  have "quiet (as @ bs) (run_ops (run_ops fs # gs))" using assms by (rule quiet_Cons)
  moreover have "run_ops (run_ops fs # gs) = run_ops (fs @ gs)" by (simp add: fun_eq_iff run_ops_append)
  ultimately show ?thesis by simp
qed

lemma quiet_concat:
  assumes "\<And>x. x \<in> set xs \<Longrightarrow> quiet (f x) (run_ops (g x))"
  shows "quiet (concat (map f xs)) (run_ops (concat (map g xs)))"
  using assms
proof (induction xs)
  case Nil
  show ?case unfolding list.map concat.simps by (rule quiet_Nil)
next
  case (Cons x xs)
  show ?case unfolding list.map concat.simps by (rule quiet_append) (use Cons in auto)
qed

lemma quiet_put:
  assumes "appends n bs op" and "n \<le> ROOM"
  shows "quiet bs (on_buf op)"
  unfolding quiet_def
proof (intro allI impI, elim conjE)
  fix s assume s: "ready s"
  have "op (sk_buf s) = Inr (append_bytes bs (sk_buf s))"
    by (rule appendsD [OF assms(1) _ ready_room [OF s assms(2)]]) (use s in \<open>simp add: ready_def\<close>)
  then show "on_buf op s = Inr (s\<lparr>sk_buf := append_bytes bs (sk_buf s)\<rparr>)" by (simp add: on_buf_def)
qed

lemma quiet_flush: "quiet [] (flush_op w JFR_EVENT_FLUSH_THRESHOLD)"
  by (simp add: quiet_def flush_op_def flushIfNeeded_def JFR_EVENT_FLUSH_THRESHOLD_def)

abbreviation num_bytes :: "nat \<Rightarrow> u8 list" where
  "num_bytes n \<equiv> var64_loop 0 (word_of_nat n)"

lemma quiet_num: "quiet (num_bytes n) (on_buf (putVar64 (word_of_nat n)))"
  by (rule quiet_put [OF appends_putVar64]) (simp add: ROOM_eq)

section \<open>The bytes of the event\<close>

fun element_bytes :: "ielement \<Rightarrow> u8 list" where
  "element_bytes (IElement name as cs) =
     num_bytes name @ num_bytes (length as) @ concat (map (\<lambda>(k, v). num_bytes k @ num_bytes v) as)
     @ num_bytes (length cs) @ concat (map element_bytes cs)"

lemma quiet_element: "quiet (element_bytes e) (run_ops (element_ops w e))"
proof (induction e)
  case (IElement name as cs)
  let ?f = "flush_op w JFR_EVENT_FLUSH_THRESHOLD"
  have a: "quiet (concat (map (\<lambda>(k, v). num_bytes k @ num_bytes v) as))
     (run_ops (concat (map (\<lambda>(k, v). [?f, on_buf (putVar64 (word_of_nat k)), on_buf (putVar64 (word_of_nat v))]) as)))"
  proof (rule quiet_concat, clarify)
    fix k v
    have "quiet ([] @ num_bytes k @ num_bytes v @ []) (run_ops [?f, on_buf (putVar64 (word_of_nat k)), on_buf (putVar64 (word_of_nat v))])"
      by (intro quiet_Cons quiet_Nil quiet_flush quiet_num)
    then show "quiet (num_bytes k @ num_bytes v) (run_ops [?f, on_buf (putVar64 (word_of_nat k)), on_buf (putVar64 (word_of_nat v))])"
      by (simp only: append_Nil append_Nil2)
  qed
  have c: "quiet (concat (map element_bytes cs)) (run_ops (concat (map (\<lambda>c. ?f # element_ops w c) cs)))"
  proof (rule quiet_concat)
    fix c assume "c \<in> set cs"
    then have "quiet ([] @ element_bytes c) (run_ops (?f # element_ops w c))" by (intro quiet_Cons quiet_flush IElement.IH)
    then show "quiet (element_bytes c) (run_ops (?f # element_ops w c))" by (simp only: append_Nil)
  qed
  have "quiet ((num_bytes name @ num_bytes (length as) @ []) @ concat (map (\<lambda>(k, v). num_bytes k @ num_bytes v) as)
     @ (num_bytes (length cs) @ []) @ concat (map element_bytes cs) @ [] @ []) (run_ops (element_ops w (IElement name as cs)))"
    unfolding element_ops.simps by (intro quiet_append quiet_Cons quiet_Nil quiet_flush quiet_num a c)
  then show ?case by (simp only: element_bytes.simps append_Nil append_Nil2 append_assoc)
qed

lemma quiet_string:
  assumes "length s \<le> 3000"
  shows "quiet (utf8_bytes (cbytes s)) (run_ops (string_ops w s))"
  unfolding quiet_def
proof (intro allI impI, elim conjE)
  fix k assume k: "ready k" "offset (sk_buf k) + length (utf8_bytes (cbytes s)) < RECORDING_BUFFER_LIMIT"
  have "unat (word_of_nat (length s) :: u32) = length (cbytes s)" using assms by (subst unat_word_of_nat) (simp_all add: cbytes_def)
  from appends_putUtf8_len [OF this] assms
  have "appends (6 + length s) (utf8_bytes (cbytes s)) (putUtf8_len (cbytes s) (word_of_nat (length s)))"
    by (simp add: cbytes_def MAX_STRING_LENGTH_def)
  then have q: "quiet (utf8_bytes (cbytes s)) (on_buf (putUtf8_len (cbytes s) (word_of_nat (length s))))"
    by (rule quiet_put) (use assms in \<open>simp add: ROOM_eq\<close>)
  have "length s \<le> length (utf8_bytes (cbytes s))" using assms by (simp add: utf8_bytes_def cbytes_def Let_def MAX_STRING_LENGTH_def)
  then have "flush_op w (int RECORDING_BUFFER_LIMIT - int (length s)) k = Inr k"
    using k(2) by (simp add: flush_op_def flushIfNeeded_def)
  then show "run_ops (string_ops w s) k = Inr (k\<lparr>sk_buf := append_bytes (utf8_bytes (cbytes s)) (sk_buf k)\<rparr>)"
    using quietD [OF q k] by (simp add: string_ops_def)
qed

definition metadata_body :: "rec_times \<Rightarrow> jfr_metadata \<Rightarrow> u8 list" where
  "metadata_body rt m =
     num_bytes (jfr_id T_METADATA) @ var64_loop 0 (rt_start_ticks rt) @ [0, 1] @ num_bytes (length (strings (meta_table m)))
     @ concat (map (\<lambda>s. utf8_bytes (cbytes s)) (strings (meta_table m))) @ element_bytes (meta_root m)"

lemma quiet_metadata_body:
  assumes "\<forall>s\<in>set (strings (meta_table m)). length s \<le> 3000"
  shows "quiet (metadata_body rt m)
     (run_ops (map on_buf [putType T_METADATA, putVar64 (rt_start_ticks rt), put8 0, put8 1, putVar64 (word_of_nat (length (strings (meta_table m))))]
        @ concat (map (string_ops w) (strings (meta_table m))) @ [writeElement w (meta_root m)]))"
proof -
  have t: "quiet (num_bytes (jfr_id T_METADATA)) (on_buf (putType T_METADATA))" unfolding putType_def by (rule quiet_num)
  have s: "quiet (var64_loop 0 (rt_start_ticks rt)) (on_buf (putVar64 (rt_start_ticks rt)))"
    by (rule quiet_put [OF appends_putVar64]) (simp add: ROOM_eq)
  have b: "quiet [x] (on_buf (put8 x))" for x by (rule quiet_put [OF appends_put8]) (simp add: ROOM_eq)
  have str: "quiet (concat (map (\<lambda>s. utf8_bytes (cbytes s)) (strings (meta_table m)))) (run_ops (concat (map (string_ops w) (strings (meta_table m)))))"
    by (rule quiet_concat [where g = "string_ops w"]) (use assms in \<open>auto intro: quiet_string\<close>)
  have e: "quiet (element_bytes (meta_root m)) (writeElement w (meta_root m))" unfolding writeElement_def by (rule quiet_element)
  have "quiet ((num_bytes (jfr_id T_METADATA) @ var64_loop 0 (rt_start_ticks rt) @ [0] @ [1] @ num_bytes (length (strings (meta_table m))) @ [])
     @ concat (map (\<lambda>s. utf8_bytes (cbytes s)) (strings (meta_table m))) @ element_bytes (meta_root m) @ [])
     (run_ops (map on_buf [putType T_METADATA, putVar64 (rt_start_ticks rt), put8 0, put8 1, putVar64 (word_of_nat (length (strings (meta_table m))))]
        @ concat (map (string_ops w) (strings (meta_table m))) @ [writeElement w (meta_root m)]))"
    unfolding list.map by (intro quiet_append quiet_Cons quiet_Nil t s b str e quiet_num)
  then show ?thesis by (simp only: metadata_body_def append_Nil append_Nil2 append_Cons append_assoc)
qed

text \<open>What \<^verbatim>\<open>writeMetadata\<close> leaves in the buffer.\<close>

lemma writeMetadata_bytes:
  assumes s: "ready s" and str: "\<forall>x\<in>set (strings (meta_table m)). length x \<le> 3000"
    and fits: "offset (sk_buf s) + 5 + length (metadata_body rt m) < RECORDING_BUFFER_LIMIT"
  shows "writeMetadata w rt m s =
     Inr (s\<lparr>sk_buf := append_bytes (var32_padded (word_of_nat (5 + length (metadata_body rt m))) @ metadata_body rt m) (sk_buf s)\<rparr>)"
proof -
  let ?body = "metadata_body rt m"
  have wf: "wf_buffer (sk_buf s)" and room: "offset (sk_buf s) + 5 < limit (sk_buf s)"
    using s by (simp_all add: ready_def buffer_consts)
  obtain stale where st: "length stale = 5" "skip 5 (sk_buf s) = Inr (offset (sk_buf s), append_bytes stale (sk_buf s))"
    using skip_eq [OF wf room] by auto
  let ?s1 = "s\<lparr>sk_buf := append_bytes stale (sk_buf s)\<rparr>"
  let ?s2 = "s\<lparr>sk_buf := append_bytes (stale @ ?body) (sk_buf s)\<rparr>"
  let ?s3 = "s\<lparr>sk_buf := append_bytes (var32_padded (word_of_nat (5 + length ?body)) @ ?body) (sk_buf s)\<rparr>"
  have r1: "ready ?s1" by (rule ready_append [OF s]) (use st fits in simp)
  let ?fs = "map on_buf [putType T_METADATA, putVar64 (rt_start_ticks rt), put8 0, put8 1, putVar64 (word_of_nat (length (strings (meta_table m))))]
        @ concat (map (string_ops w) (strings (meta_table m))) @ [writeElement w (meta_root m)]"
  have "run_ops ?fs ?s1 = Inr (?s1\<lparr>sk_buf := append_bytes ?body (sk_buf ?s1)\<rparr>)"
    by (rule quietD [OF quiet_metadata_body [OF str] r1]) (use st fits in simp)
  then have f: "run_ops ?fs ?s1 = Inr ?s2" using append_append [OF s, of stale ?body] st fits by simp
  have "patch_size (offset (sk_buf s)) (sk_buf ?s2) = Inr (sk_buf ?s3)"
    using putVar32_at_patch [OF wf st(1), of ?body] fits st s by (simp add: patch_size_def ready_def buffer_consts)
  then have p: "on_buf (patch_size (offset (sk_buf s))) ?s2 = Inr ?s3" by (simp add: on_buf_def)
  have e: "flush_op w JFR_EVENT_FLUSH_THRESHOLD ?s3 = Inr ?s3"
    using fits by (simp add: flush_op_def flushIfNeeded_def JFR_EVENT_FLUSH_THRESHOLD_def)
  have "writeMetadata w rt m s = run_ops (?fs @ [on_buf (patch_size (offset (sk_buf s))), flush_op w JFR_EVENT_FLUSH_THRESHOLD]) ?s1"
    unfolding writeMetadata_def st(2) sum.case prod.case append_assoc append_Cons append_Nil ..
  also have "\<dots> = (case run_ops ?fs ?s1 of Inl x \<Rightarrow> Inl x | Inr x \<Rightarrow>
      run_ops [on_buf (patch_size (offset (sk_buf s))), flush_op w JFR_EVENT_FLUSH_THRESHOLD] x)" by (rule run_ops_append)
  also have "\<dots> = Inr ?s3" unfolding f sum.case using p e by simp
  finally show ?thesis .
qed


section \<open>A reader of the event\<close>

definition then_read :: "'a reader \<Rightarrow> ('a \<Rightarrow> 'b reader) \<Rightarrow> 'b reader" where
  "then_read rd f bs = (case rd bs of None \<Rightarrow> None | Some (v, r) \<Rightarrow> f v r)"

definition read_nothing :: "'a \<Rightarrow> 'a reader" where
  "read_nothing v bs = Some (v, bs)"

definition read_pair :: "(nat \<times> nat) reader" where
  "read_pair = then_read jfr_read_long (\<lambda>k. then_read jfr_read_long (\<lambda>v. read_nothing (k, v)))"

text \<open>The nesting depth is fuel; an element has at least one byte, so the number of bytes is enough.\<close>

fun read_element :: "nat \<Rightarrow> ielement reader" where
  "read_element 0 = (\<lambda>bs. None)"
| "read_element (Suc d) =
     then_read jfr_read_long (\<lambda>name. then_read jfr_read_long (\<lambda>n. then_read (read_many n read_pair) (\<lambda>as.
       then_read jfr_read_long (\<lambda>k. then_read (read_many k (read_element d)) (\<lambda>cs. read_nothing (IElement name as cs))))))"

text \<open>The size, the start, the strings and the root of a metadata event.\<close>

definition read_metadata :: "(nat \<times> nat \<times> u8 list option list \<times> ielement) reader" where
  "read_metadata =
     then_read jfr_read_long (\<lambda>sz. then_read jfr_read_long (\<lambda>type.
       if type \<noteq> jfr_id T_METADATA then (\<lambda>bs. None)
       else then_read jfr_read_long (\<lambda>start. then_read jfr_read_long (\<lambda>duration. then_read jfr_read_long (\<lambda>id.
         then_read jfr_read_long (\<lambda>n. then_read (read_many n read_string) (\<lambda>ss.
           then_read (\<lambda>bs. read_element (length bs) bs) (\<lambda>root. read_nothing (sz, start, ss, root)))))))))"

lemma reads_then: "reads_as rd as v \<Longrightarrow> reads_as (f v) bs u \<Longrightarrow> reads_as (then_read rd f) (as @ bs) u"
  by (simp add: reads_as_def then_read_def)

lemma reads_nothing: "reads_as (read_nothing v) [] v"
  by (simp add: reads_as_def read_nothing_def)

lemma reads_num_bytes: "n < 2 ^ 64 \<Longrightarrow> reads_as jfr_read_long (num_bytes n) n"
  using read_var64 [of "word_of_nat n"] by (simp add: reads_as_def unat_of_nat take_bit_nat_eq_self)

lemma reads_many_map:
  assumes "\<And>x. x \<in> set xs \<Longrightarrow> reads_as rd (f x) (g x)"
  shows "reads_as (read_many (length xs) rd) (concat (map f xs)) (map g xs)"
  using assms
proof (induction xs)
  case Nil
  show ?case unfolding list.map concat.simps list.size by (rule reads_many_Nil)
next
  case (Cons x xs)
  show ?case unfolding list.map concat.simps length_Cons by (rule reads_many_Cons) (use Cons in auto)
qed

text \<open>The numbers of a tree, and the lengths of its lists, are numbers of 64 bits.\<close>

primrec small_tree :: "ielement \<Rightarrow> bool" where
  "small_tree (IElement n as cs) \<longleftrightarrow> n < 2 ^ 64 \<and> length as < 2 ^ 64 \<and> length cs < 2 ^ 64 \<and>
     (\<forall>(i, j)\<in>set as. i < 2 ^ 64 \<and> j < 2 ^ 64) \<and> list_all small_tree cs"

fun height :: "ielement \<Rightarrow> nat" where
  "height (IElement n as cs) = Suc (foldr max (map height cs) 0)"

lemma foldr_max_le: "x \<in> set xs \<Longrightarrow> f x \<le> foldr max (map f xs) (0 :: nat)"
  by (induction xs) auto

lemma foldr_max_less: "(\<And>x. x \<in> set xs \<Longrightarrow> f x \<le> n) \<Longrightarrow> foldr max (map f xs) (0 :: nat) \<le> n"
  by (induction xs) auto

lemma reads_element:
  "small_tree e \<Longrightarrow> height e \<le> d \<Longrightarrow> reads_as (read_element d) (element_bytes e) e"
proof (induction e arbitrary: d)
  case (IElement n as cs)
  from IElement.prems(2) obtain d' where d: "d = Suc d'" by (cases d) auto
  have small: "n < 2 ^ 64" "length as < 2 ^ 64" "length cs < 2 ^ 64" "\<forall>(i, j)\<in>set as. i < 2 ^ 64 \<and> j < 2 ^ 64"
    "\<forall>c\<in>set cs. small_tree c"
    using IElement.prems(1) by (auto simp: list_all_iff)
  have "reads_as read_pair (num_bytes i @ num_bytes j @ []) (i, j)" if ij: "(i, j) \<in> set as" for i j
  proof -
    have "i < 2 ^ 64" "j < 2 ^ 64" using ij small(4) by auto
    then show ?thesis unfolding read_pair_def by (intro reads_then [OF reads_num_bytes] reads_nothing)
  qed
  then have "reads_as read_pair ((\<lambda>(i, j). num_bytes i @ num_bytes j) x) (id x)" if x: "x \<in> set as" for x
    using x by (cases x) simp
  from reads_many_map [of as read_pair "\<lambda>(i, j). num_bytes i @ num_bytes j" id, OF this]
  have a: "reads_as (read_many (length as) read_pair) (concat (map (\<lambda>(i, j). num_bytes i @ num_bytes j) as)) as" by simp
  have "reads_as (read_element d') (element_bytes c) (id c)" if c: "c \<in> set cs" for c
  proof -
    have "height c \<le> d'" using foldr_max_le [OF c, of height] IElement.prems(2) d by simp
    with IElement.IH [OF c] small(5) c show ?thesis by simp
  qed
  from reads_many_map [of cs "read_element d'" element_bytes id, OF this]
  have c: "reads_as (read_many (length cs) (read_element d')) (concat (map element_bytes cs)) cs" by simp
  have "reads_as (read_element d) (num_bytes n @ num_bytes (length as) @ concat (map (\<lambda>(i, j). num_bytes i @ num_bytes j) as)
      @ num_bytes (length cs) @ concat (map element_bytes cs) @ []) (IElement n as cs)"
    unfolding d read_element.simps
    by (rule reads_then [OF reads_num_bytes [OF small(1)]], rule reads_then [OF reads_num_bytes [OF small(2)]], rule reads_then [OF a],
        rule reads_then [OF reads_num_bytes [OF small(3)]], rule reads_then [OF c], rule reads_nothing)
  then show ?case by simp
qed

lemma num_bytes_nonempty: "1 \<le> length (num_bytes n)"
proof (cases "num_bytes n")
  case Nil
  then show ?thesis using read_var64 [of "word_of_nat n" "[]"] by (simp add: jfr_read_long_def)
qed simp

lemma length_concat_ge: "(\<And>x. x \<in> set xs \<Longrightarrow> 1 \<le> length (f x)) \<Longrightarrow> length xs \<le> length (concat (map f xs))"
proof (induction xs)
  case (Cons x xs)
  then have "1 \<le> length (f x)" "length xs \<le> length (concat (map f xs))" by simp_all
  then show ?case unfolding list.map concat.simps length_append length_Cons by linarith
qed simp

lemma length_concat_member: "x \<in> set xs \<Longrightarrow> length (f x) \<le> length (concat (map f xs))"
  by (induction xs) auto

lemma element_bytes_nonempty: "1 \<le> length (element_bytes e)"
  by (cases e) (simp add: trans_le_add1 num_bytes_nonempty del: One_nat_def)

lemma height_le_bytes: "height e \<le> length (element_bytes e)"
proof (induction e)
  case (IElement n as cs)
  have "height c \<le> length (concat (map element_bytes cs))" if c: "c \<in> set cs" for c
    using IElement.IH [OF c] length_concat_member [OF c, of element_bytes] by simp
  then have "foldr max (map height cs) 0 \<le> length (concat (map element_bytes cs))" by (rule foldr_max_less)
  then show ?case unfolding height.simps element_bytes.simps length_append using num_bytes_nonempty [of n] by linarith
qed

lemma small_tree_bytes:
  "numbers_below k e \<Longrightarrow> k \<le> 2 ^ 64 \<Longrightarrow> length (element_bytes e) < 2 ^ 64 \<Longrightarrow> small_tree e"
proof (induction e)
  case (IElement n as cs)
  have "1 \<le> length ((\<lambda>(i, j). num_bytes i @ num_bytes j) x)" for x
    by (cases x) (simp add: trans_le_add1 num_bytes_nonempty del: One_nat_def)
  then have a: "length as \<le> length (concat (map (\<lambda>(i, j). num_bytes i @ num_bytes j) as))" by (intro length_concat_ge)
  have c: "length cs \<le> length (concat (map element_bytes cs))" by (intro length_concat_ge element_bytes_nonempty)
  have "small_tree x" if x: "x \<in> set cs" for x
    using IElement.IH [OF x] IElement.prems x length_concat_member [OF x, of element_bytes] by (auto simp: list_all_iff)
  moreover have "\<forall>(i, j)\<in>set as. i < 2 ^ 64 \<and> j < 2 ^ 64" using IElement.prems(1,2) by fastforce
  moreover have "n < 2 ^ 64" using IElement.prems(1,2) by simp
  ultimately show ?case using a c IElement.prems(3) by (simp add: list_all_iff)
qed

lemma reads_metadata:
  assumes "numbers_below (length (strings (meta_table m))) (meta_root m)"
    and "\<forall>s\<in>set (strings (meta_table m)). length s \<le> 3000" and "length (metadata_body rt m) < 2 ^ 31"
  shows "reads_as read_metadata (var32_padded (word_of_nat (5 + length (metadata_body rt m))) @ metadata_body rt m)
     (5 + length (metadata_body rt m), unat (rt_start_ticks rt), map (\<lambda>s. Some (cbytes s)) (strings (meta_table m)), meta_root m)"
proof -
  let ?sz = "5 + length (metadata_body rt m)" and ?ss = "strings (meta_table m)"
  let ?sb = "concat (map (\<lambda>s. utf8_bytes (cbytes s)) ?ss)" and ?eb = "element_bytes (meta_root m)"
  have len: "length ?eb < 2 ^ 31" "length ?sb < 2 ^ 31" using assms(3) by (simp_all add: metadata_body_def)
  have u: "unat (word_of_nat ?sz :: u32) = ?sz" using assms(3) by (intro unat_word_of_nat) simp
  have 1: "reads_as jfr_read_long (var32_padded (word_of_nat ?sz)) ?sz"
    using read_var32_padded [of "word_of_nat ?sz"] unfolding reads_as_def jfr_read_long_def u by simp
  have small: "length ?ss < 2 ^ 64"
  proof -
    have "1 \<le> length (utf8_bytes (cbytes s))" for s by (simp add: utf8_bytes_def Let_def)
    then have "length ?ss \<le> length ?sb" by (intro length_concat_ge)
    then show ?thesis using len by simp
  qed
  have "reads_as read_string (utf8_bytes (cbytes s)) (Some (cbytes s))" if s: "s \<in> set ?ss" for s
    using reads_string [of "cbytes s"] s assms(2) by (auto simp: reads_as_def cbytes_def MAX_STRING_LENGTH_def)
  then have 2: "reads_as (read_many (length ?ss) read_string) ?sb (map (\<lambda>s. Some (cbytes s)) ?ss)" by (rule reads_many_map)
  have "small_tree (meta_root m)" by (rule small_tree_bytes [OF assms(1)]) (use small len in simp_all)
  then have "read_element (length (?eb @ rest)) (?eb @ rest) = Some (meta_root m, rest)" for rest
    using reads_element [of "meta_root m" "length (?eb @ rest)"] height_le_bytes [of "meta_root m"] by (simp add: reads_as_def)
  then have 3: "reads_as (\<lambda>bs. read_element (length bs) bs) ?eb (meta_root m)" by (simp add: reads_as_def)
  have 4: "reads_as jfr_read_long (var64_loop 0 (rt_start_ticks rt)) (unat (rt_start_ticks rt))" by (simp add: reads_as_def read_var64)
  have 5: "reads_as jfr_read_long [0] 0" "reads_as jfr_read_long [1] 1" by (simp_all add: reads_as_def read_small)
  have 6: "jfr_id T_METADATA < 2 ^ 64" by simp
  have "reads_as read_metadata (var32_padded (word_of_nat ?sz) @ num_bytes (jfr_id T_METADATA) @ var64_loop 0 (rt_start_ticks rt) @ [0] @ [1]
      @ num_bytes (length ?ss) @ ?sb @ ?eb @ []) (?sz, unat (rt_start_ticks rt), map (\<lambda>s. Some (cbytes s)) ?ss, meta_root m)"
    unfolding read_metadata_def
    by (rule reads_then [OF 1], rule reads_then [OF reads_num_bytes [OF 6]], simp only: simp_thms if_False,
        rule reads_then [OF 4], rule reads_then [OF 5(1)], rule reads_then [OF 5(2)], rule reads_then [OF reads_num_bytes [OF small]],
        rule reads_then [OF 2], rule reads_then [OF 3], rule reads_nothing)
  then show ?thesis unfolding metadata_body_def by (simp only: append_Cons append_Nil append_Nil2)
qed


section \<open>The size of the profiler's metadata\<close>

text \<open>All strings of a tree, with repetitions, and the numbers its bytes consist of.\<close>

fun tree_strings :: "element \<Rightarrow> string list" where
  "tree_strings (NoField name) = [name]"
| "tree_strings (Element name as cs) = name # concat (map (\<lambda>(k, v). [k, v]) as) @ concat (map tree_strings cs)"

fun token_count :: "element \<Rightarrow> nat" where
  "token_count (NoField name) = 3"
| "token_count (Element name as cs) = 3 + 2 * length as + sum_list (map token_count cs)"

definition string_weight :: "string list \<Rightarrow> nat" where
  "string_weight ss = sum_list (map (\<lambda>s. 3 + length s) ss)"

lemma string_weight_simps [simp]:
  "string_weight [] = 0" "string_weight (s # ss) = 3 + length s + string_weight ss"
  "string_weight (as @ bs) = string_weight as + string_weight bs"
  by (simp_all add: string_weight_def)

lemma string_weight_subset:
  assumes "distinct xs" and "set xs \<subseteq> set ys"
  shows "string_weight xs \<le> string_weight ys"
proof -
  have "sum_list (map f (remdups ys)) \<le> sum_list (map f ys)" for f :: "string \<Rightarrow> nat"
    by (induction ys) (auto simp: member_le_sum_list)
  moreover have "sum_list (map f xs) \<le> sum_list (map f (remdups ys))" for f :: "string \<Rightarrow> nat"
    using assms by (simp add: sum_list_distinct_conv_sum_set sum_mono2)
  ultimately show ?thesis unfolding string_weight_def by (meson le_trans)
qed

lemma getId_strings: "getId s t = (n, t') \<Longrightarrow> set (strings t') \<subseteq> insert s (set (strings t))"
  by (auto simp: getId_def Let_def split: option.splits)

lemma build_attributes_strings:
  "build_attributes as t = (r, t') \<Longrightarrow> set (strings t') \<subseteq> set (strings t) \<union> set (concat (map (\<lambda>(k, v). [k, v]) as))"
proof (induction as t arbitrary: r t' rule: build_attributes.induct)
  case (2 k v as t)
  obtain i t1 where g1: "getId k t = (i, t1)" by (cases "getId k t")
  obtain j t2 where g2: "getId v t1 = (j, t2)" by (cases "getId v t1")
  obtain r' where b: "build_attributes as t2 = (r', t')" using 2(2) g1 g2 by (auto split: prod.splits)
  from 2(1) [OF g1 [symmetric] g2 [symmetric] b] getId_strings [OF g1] getId_strings [OF g2] show ?case by auto
qed simp

lemma build_strings:
  "build e t = (ie, t') \<Longrightarrow> set (strings t') \<subseteq> set (strings t) \<union> set (tree_strings e)"
  "build_all es t = (ies, t') \<Longrightarrow> set (strings t') \<subseteq> set (strings t) \<union> set (concat (map tree_strings es))"
proof (induction e t and es t arbitrary: ie t' and ies t' rule: build_build_all.induct)
  case (1 name t)
  then show ?case using getId_strings [of name t] by (auto split: prod.splits)
next
  case (2 name as cs t)
  obtain n t1 where g: "getId name t = (n, t1)" by (cases "getId name t")
  obtain ias t2 where a: "build_attributes as t1 = (ias, t2)" by (cases "build_attributes as t1")
  obtain ics where c: "build_all cs t2 = (ics, t')" using 2(2) g a by (auto split: prod.splits)
  show ?case
    using getId_strings [OF g] build_attributes_strings [OF a] 2(1) [OF g [symmetric] a [symmetric] c]
    by (simp add: subset_iff) blast
next
  case (4 c cs t)
  obtain e1 t1 where b: "build c t = (e1, t1)" by (cases "build c t")
  obtain es2 where bs: "build_all cs t1 = (es2, t')" using 4(3) b by (auto split: prod.splits)
  show ?case using 4(1) [OF b] 4(2) [OF b [symmetric] bs] by (simp add: subset_iff) blast
qed simp

lemma initialize_strings:
  "set (strings (meta_table (initialize_metadata attrs v14 new_JfrMetadata))) \<subseteq> set (tree_strings (metadata_root attrs v14))"
proof -
  obtain n t0 where g: "getId ''root'' new_string_table = (n, t0)" by (cases "getId ''root'' new_string_table")
  obtain cs where root: "metadata_root attrs v14 = Element ''root'' [] cs"
    by (simp add: metadata_root_def add_children_def new_element_def)
  obtain ics t where b: "build_all cs t0 = (ics, t)" by (cases "build_all cs t0")
  have m: "strings (meta_table (initialize_metadata attrs v14 new_JfrMetadata)) = strings t"
    by (simp add: initialize_metadata_def new_JfrMetadata_def g root b)
  show ?thesis using build_strings(2) [OF b] getId_strings [OF g] by (auto simp: m root new_string_table_def)
qed

lemma length_num_bytes: "n < 16384 \<Longrightarrow> length (num_bytes n) \<le> 2"
proof -
  assume n: "n < 16384"
  then have "unat (word_of_nat n :: u64) = n" by (intro unat_word_of_nat) simp
  then show ?thesis using n length_var_loop [of "word_of_nat n :: u64" 1] by (simp add: var64_loop.simps)
qed

lemma length_concat_bound:
  "(\<And>x. x \<in> set xs \<Longrightarrow> length (f x) \<le> g x) \<Longrightarrow> length (concat (map f xs)) \<le> sum_list (map g xs)"
proof (induction xs)
  case (Cons x xs)
  then have "length (f x) \<le> g x" "length (concat (map f xs)) \<le> sum_list (map g xs)" by simp_all
  then show ?case by simp
qed simp

lemma member_le_sum: "x \<in> set xs \<Longrightarrow> (f x :: nat) \<le> sum_list (map f xs)"
  by (simp add: member_le_sum_list)

lemma element_bytes_bound:
  assumes "numbers_below k e" and "k \<le> 16384" and "token_count (resolve ss e) \<le> 16000"
  shows "length (element_bytes e) \<le> 2 * token_count (resolve ss e)"
  using assms(1,3)
proof (induction e)
  case (IElement n as cs)
  let ?t = "\<lambda>c. token_count (resolve ss c)"
  have tc: "token_count (resolve ss (IElement n as cs)) = 3 + 2 * length as + sum_list (map ?t cs)" by (simp add: o_def)
  have pos: "1 \<le> ?t c" for c by (cases c) simp
  have "length cs \<le> sum_list (map ?t cs)"
  proof (induction cs)
    case (Cons c cs)
    then show ?case using pos [of c] by simp
  qed simp
  then have small: "length as < 16384" "length cs < 16384" "n < 16384"
    using IElement.prems tc assms(2) by (simp_all add: le_trans)
  have a: "length (concat (map (\<lambda>(k, v). num_bytes k @ num_bytes v) as)) \<le> sum_list (map (\<lambda>_. 4) as)"
  proof (rule length_concat_bound)
    fix x assume mem: "x \<in> set as"
    obtain i j where x: "x = (i, j)" by (cases x)
    then have "i < 16384" "j < 16384" using mem IElement.prems(1) assms(2) by auto
    with x show "length (case x of (k, v) \<Rightarrow> num_bytes k @ num_bytes v) \<le> 4"
      using length_num_bytes [of i] length_num_bytes [of j] by simp
  qed
  have "length (element_bytes c) \<le> 2 * ?t c" if c: "c \<in> set cs" for c
    using IElement.IH [OF c] IElement.prems member_le_sum [OF c, of ?t] c unfolding tc by (simp add: list_all_iff)
  then have "length (concat (map element_bytes cs)) \<le> sum_list (map (\<lambda>c. 2 * ?t c) cs)" by (rule length_concat_bound)
  then have "length (concat (map element_bytes cs)) \<le> 2 * sum_list (map ?t cs)" by (simp add: sum_list_const_mult)
  then show ?case
    using a length_num_bytes [OF small(1)] length_num_bytes [OF small(2)] length_num_bytes [OF small(3)]
    unfolding tc by (simp add: sum_list_triv)
qed

lemma length_utf8_small: "length s < 16384 \<Longrightarrow> length (utf8_bytes s) \<le> 3 + length s"
proof -
  assume s: "length s < 16384"
  let ?n = "min (length s) MAX_STRING_LENGTH"
  have "unat (word_of_nat ?n :: u32) = ?n" by (rule unat_word_of_nat) (simp add: MAX_STRING_LENGTH_def min_def)
  then have "length (var_loop (word_of_nat ?n :: u32)) \<le> Suc 1" using s by (intro length_var_loop) (simp add: min_def)
  then show ?thesis by (simp add: utf8_bytes_def Let_def)
qed


lemma foldl_add_child: "foldl add_child (Element n as cs) xs = Element n as (cs @ xs)"
  by (induction xs arbitrary: cs) auto

lemmas tree_defs = jfr_type_def jfr_field_def annotation_def category_def add_children_def foldl_add_child add_attributes_def
  new_element_def attribute_type_def flag_annotations_def field_flags dec.simps
  primitive_types_def constant_types_def sample_types_def recording_types_def system_types_def annotation_types_def

abbreviation attribute_strings :: "string list \<Rightarrow> string list" where
  "attribute_strings attrs \<equiv> concat (map tree_strings (map custom_attribute attrs))"

abbreviation type_strings :: "element list \<Rightarrow> string list" where
  "type_strings ts \<equiv> concat (map tree_strings ts)"

lemma type_weights:
  "string_weight (type_strings primitive_types) = 300"
  "string_weight (type_strings constant_types) = 4148"
  "string_weight (type_strings (sample_types attrs)) = 7694 + 5 * string_weight (attribute_strings attrs)"
  "string_weight (type_strings (recording_types v14)) = (if v14 then 8088 else 7958)"
  "string_weight (type_strings system_types) = 3974"
  "string_weight (type_strings annotation_types) = 1225"
  by (simp_all add: tree_defs)

definition medium :: "string \<Rightarrow> bool" where
  "medium s \<longleftrightarrow> length s \<le> 3000"

lemma type_strings_medium:
  "list_all medium (type_strings primitive_types)"
  "list_all medium (type_strings constant_types)"
  "list_all medium (type_strings (sample_types attrs)) = list_all medium (attribute_strings attrs)"
  "list_all medium (type_strings (recording_types v14))"
  "list_all medium (type_strings system_types)"
  "list_all medium (type_strings annotation_types)"
  by (simp_all add: tree_defs medium_def)

lemma type_tokens:
  "sum_list (map token_count primitive_types) = 63"
  "sum_list (map token_count constant_types) = 633"
  "sum_list (map token_count (sample_types attrs)) = 1114 + 5 * sum_list (map (token_count \<circ> custom_attribute) attrs)"
  "sum_list (map token_count (recording_types v14)) \<le> 1300"
  "sum_list (map token_count system_types) \<le> 700"
  "sum_list (map token_count annotation_types) \<le> 300"
  by (simp_all add: tree_defs)


lemma custom_attribute_size:
  "string_weight (tree_strings (custom_attribute a)) = 53 + length a" "token_count (custom_attribute a) = 9"
  "list_all medium (tree_strings (custom_attribute a)) = medium a"
  by (simp_all add: custom_attribute_def tree_defs medium_def)

lemma token_count_drop: "token_count (drop_nofields e) \<le> token_count e"
proof (induction e)
  case (Element name as cs)
  have "sum_list (map (token_count \<circ> drop_nofields) (filter (\<lambda>c. \<not> is_nofield c) cs)) \<le> sum_list (map token_count cs)"
    using Element.IH by (induction cs) (auto simp: add_mono trans_le_add2)
  then show ?case by simp
qed simp

lemma sum_list_bound: "(\<And>x. x \<in> set xs \<Longrightarrow> f x \<le> (b :: nat)) \<Longrightarrow> sum_list (map f xs) \<le> length xs * b"
  by (induction xs) (auto simp: add_mono)

text \<open>The attributes of a context: at most ten, with names of at most 200 characters.\<close>

definition usual_attributes :: "string list \<Rightarrow> bool" where
  "usual_attributes attrs \<longleftrightarrow> length attrs \<le> 10 \<and> (\<forall>a\<in>set attrs. length a \<le> 200)"

lemma attribute_weights:
  assumes "usual_attributes attrs"
  shows "string_weight (attribute_strings attrs) \<le> 2530" and "sum_list (map (token_count \<circ> custom_attribute) attrs) \<le> 90"
    and "list_all medium (attribute_strings attrs)"
proof -
  have len: "length attrs \<le> 10" and each: "\<And>a. a \<in> set attrs \<Longrightarrow> length a \<le> 200" using assms by (auto simp: usual_attributes_def)
  have "string_weight (attribute_strings attrs) = sum_list (map (\<lambda>a. 53 + length a) attrs)"
    by (induction attrs) (simp_all add: custom_attribute_size)
  also have "\<dots> \<le> length attrs * 253" by (rule sum_list_bound) (use each in simp)
  finally show "string_weight (attribute_strings attrs) \<le> 2530" using len by simp
  have "sum_list (map (token_count \<circ> custom_attribute) attrs) \<le> length attrs * 9"
    by (rule sum_list_bound) (simp add: custom_attribute_size)
  then show "sum_list (map (token_count \<circ> custom_attribute) attrs) \<le> 90" using len by simp
  have "\<forall>a\<in>set attrs. medium a" using each by (fastforce simp: medium_def)
  then show "list_all medium (attribute_strings attrs)" by (induction attrs) (simp_all add: custom_attribute_size)
qed

lemma root_tree:
  "metadata_root attrs v14 = Element ''root'' []
     [Element ''metadata'' [] (metadata_types attrs v14), Element ''region'' [(''locale'', ''en_US''), (''gmtOffset'', ''0'')] []]"
  by (simp add: metadata_root_def add_children_def foldl_add_child new_element_def)

lemma root_size:
  assumes "usual_attributes attrs"
  shows "string_weight (tree_strings (metadata_root attrs v14)) \<le> 39000" and "token_count (metadata_root attrs v14) \<le> 5000"
    and "list_all medium (tree_strings (metadata_root attrs v14))"
proof -
  note sizes = attribute_weights [OF assms]
  have "string_weight (type_strings (metadata_types attrs v14)) \<le> 38500"
    using sizes(1) by (simp add: metadata_types_def type_weights)
  then show "string_weight (tree_strings (metadata_root attrs v14)) \<le> 39000" by (simp add: root_tree)
  have "sum_list (map token_count (metadata_types attrs v14)) \<le> 4600"
    using sizes(2) type_tokens(4) [of v14] type_tokens(5,6) by (simp add: metadata_types_def type_tokens(1-3))
  then show "token_count (metadata_root attrs v14) \<le> 5000" by (simp add: root_tree)
  have "list_all medium (type_strings (metadata_types attrs v14))"
    using sizes(3) by (simp add: metadata_types_def type_strings_medium)
  then show "list_all medium (tree_strings (metadata_root attrs v14))" by (simp add: root_tree medium_def)
qed

lemma length_times3: "3 * length ss \<le> string_weight ss"
  by (induction ss) simp_all

lemma utf8_total: "list_all medium ss \<Longrightarrow> length (concat (map (\<lambda>s. utf8_bytes (cbytes s)) ss)) \<le> string_weight ss"
proof (induction ss)
  case (Cons s ss)
  have "length (utf8_bytes (cbytes s)) \<le> 3 + length s" using length_utf8_small [of "cbytes s"] Cons.prems by (simp add: cbytes_def medium_def)
  then show ?case using Cons by simp
qed simp

text \<open>The metadata of the profiler has at most 49100 bytes, so that it fits into the buffer.\<close>

lemma metadata_fits:
  fixes attrs v14 rt
  assumes "usual_attributes attrs"
  defines "m \<equiv> initialize_metadata attrs v14 new_JfrMetadata"
  shows "length (metadata_body rt m) \<le> 49100" and "\<forall>s\<in>set (strings (meta_table m)). length s \<le> 3000"
proof -
  let ?ss = "strings (meta_table m)"
  note ok = initialize_metadata_ok [of attrs v14, folded m_def]
  note size = root_size [OF assms(1), of v14]
  have sub: "set ?ss \<subseteq> set (tree_strings (metadata_root attrs v14))" unfolding m_def by (rule initialize_strings)
  then show str: "\<forall>s\<in>set ?ss. length s \<le> 3000" using size(3) by (auto simp: list_all_iff medium_def)
  have w: "string_weight ?ss \<le> 39000" using string_weight_subset [OF ok(3) sub] size(1) by linarith
  then have k: "length ?ss \<le> 13000" using length_times3 [of ?ss] by linarith
  have t: "token_count (resolve ?ss (meta_root m)) \<le> 5000" unfolding ok(1) using token_count_drop [of "metadata_root attrs v14"] size(2) by linarith
  then have "length (element_bytes (meta_root m)) \<le> 2 * token_count (resolve ?ss (meta_root m))"
    by (intro element_bytes_bound [OF ok(2)]) (use k in simp_all)
  then have e: "length (element_bytes (meta_root m)) \<le> 10000" using t by linarith
  have s: "length (concat (map (\<lambda>s. utf8_bytes (cbytes s)) ?ss)) \<le> 39000"
    using utf8_total [of ?ss] w str by (auto simp: list_all_iff medium_def)
  show "length (metadata_body rt m) \<le> 49100"
    unfolding metadata_body_def length_append
    using e s length_num_bytes [of "length ?ss"] length_num_bytes [of "jfr_id T_METADATA"] length_var64 [of "rt_start_ticks rt"] k by simp
qed

section \<open>Property\<close>

text \<open>
  C6. The metadata of the profiler, with at most ten context attributes whose names have at most 200 characters,
  written into a buffer with at most 12000 bytes in it: the writer succeeds, the size it patches in is the length
  of the event, and a reader finds the start time, the string table and the element tree, in which the numbers
  replaced by their strings give the types and events that \<^verbatim>\<open>jfrMetadata.cpp\<close> declares.
\<close>

theorem metadata_roundtrip:
  fixes attrs v14
  defines "m \<equiv> initialize_metadata attrs v14 new_JfrMetadata"
  assumes "usual_attributes attrs" and "ready s" and "offset (sk_buf s) \<le> 12000"
  shows "\<exists>s' bs. writeMetadata w rt m s = Inr s' \<and> ready s' \<and> stream s' = stream s @ bs \<and>
     reads_as read_metadata bs (length bs, unat (rt_start_ticks rt), map (\<lambda>s. Some (cbytes s)) (strings (meta_table m)), meta_root m) \<and>
     resolve (strings (meta_table m)) (meta_root m) = drop_nofields (metadata_root attrs v14)"
proof -
  note ok = initialize_metadata_ok [of attrs v14, folded m_def]
  note fits = metadata_fits(1) [OF assms(2), of _ v14, folded m_def] metadata_fits(2) [OF assms(2), of v14, folded m_def]
  let ?bs = "var32_padded (word_of_nat (5 + length (metadata_body rt m))) @ metadata_body rt m"
  let ?s' = "s\<lparr>sk_buf := append_bytes ?bs (sk_buf s)\<rparr>"
  have room: "offset (sk_buf s) + 5 + length (metadata_body rt m) < RECORDING_BUFFER_LIMIT"
    using fits(1) [of rt] assms(4) by (simp add: buffer_consts)
  have w: "writeMetadata w rt m s = Inr ?s'" by (rule writeMetadata_bytes [OF assms(3) fits(2) room])
  have r: "ready ?s'" by (rule ready_append [OF assms(3)]) (use room in simp)
  have st: "stream ?s' = stream s @ ?bs"
    using assms(3) room by (simp add: stream_def contents_append_bytes ready_def buffer_consts)
  have "reads_as read_metadata ?bs (5 + length (metadata_body rt m), unat (rt_start_ticks rt),
      map (\<lambda>s. Some (cbytes s)) (strings (meta_table m)), meta_root m)"
    by (rule reads_metadata [OF ok(2) fits(2)]) (use fits(1) [of rt] in simp)
  then have rd: "reads_as read_metadata ?bs (length ?bs, unat (rt_start_ticks rt),
      map (\<lambda>s. Some (cbytes s)) (strings (meta_table m)), meta_root m)" by simp
  show ?thesis by (intro exI [of _ ?s'] exI [of _ ?bs] conjI w r st rd ok(1))
qed

theorem metadata_roundtrip_witness:
  "\<exists>s' bs. writeMetadata int demo_times (initialize_metadata [''user'', ''tenant''] True new_JfrMetadata) demo_sink = Inr s' \<and>
     ready s' \<and> stream s' = stream demo_sink @ bs \<and>
     reads_as read_metadata bs (length bs, 77,
       map (\<lambda>s. Some (cbytes s)) (strings (meta_table (initialize_metadata [''user'', ''tenant''] True new_JfrMetadata))),
       meta_root (initialize_metadata [''user'', ''tenant''] True new_JfrMetadata)) \<and>
     resolve (strings (meta_table (initialize_metadata [''user'', ''tenant''] True new_JfrMetadata)))
       (meta_root (initialize_metadata [''user'', ''tenant''] True new_JfrMetadata)) = drop_nofields (metadata_root [''user'', ''tenant''] True)"
proof -
  have "unat (rt_start_ticks demo_times) = 77" by (simp add: demo_times_def)
  moreover have "usual_attributes [''user'', ''tenant'']" by (simp add: usual_attributes_def)
  moreover have "offset (sk_buf demo_sink) \<le> 12000" by (simp add: demo_sink_def new_RecordingBuffer_def)
  ultimately show ?thesis using metadata_roundtrip [of "[''user'', ''tenant'']" demo_sink int demo_times True] demo_ready(1) by metis
qed

end
