(* ===== verification/Rust_Demangler.thy ===== *)
theory Rust_Demangler
  imports Prelude
begin

text \<open>
  Model of \<^verbatim>\<open>rustDemangler.cpp\<close>: recognising and demangling legacy Rust symbols, after the C++ demangler has
  turned the length-prefixed path into \<^verbatim>\<open>a::b::h0123456789abcdef\<close>. The loop of \<^verbatim>\<open>demangle\<close> is modelled on
  the rest of the string from position \<^verbatim>\<open>i\<close> on. A string shorter than the hash makes the size computation
  wrap around and \<^verbatim>\<open>reserve\<close> throw, the error \<open>Length_Error\<close>.

  The round trip is stated against an encoder of paths, which escapes characters the way the Rust compiler
  does.
\<close>

section \<open>The code\<close>

definition hash_pre :: string where "hash_pre = ''::h''"
definition hash_eg :: string where "hash_eg = ''0123456789abcdef''"

definition patterns :: "(string \<times> string) list" where
  "patterns = [(''..'', ''::''), (''$C$'', '',''), (''$BP$'', ''*''), (''$GT$'', ''>''), (''$LT$'', ''<''),
               (''$LP$'', ''(''), (''$RP$'', '')''), (''$RF$'', ''&''), (''$SP$'', ''@'')]"

definition is_hexdig :: "char \<Rightarrow> bool" where
  "is_hexdig c \<longleftrightarrow> (let n = of_char c :: nat in (97 \<le> n \<and> n \<le> 102) \<or> (48 \<le> n \<and> n \<le> 57))"

definition hex_to_int :: "char \<Rightarrow> int" where
  "hex_to_int dig =
     (let n = of_char dig :: nat in
      if 48 \<le> n \<and> n \<le> 57 then int (n - 48)
      else if 97 \<le> n \<and> n \<le> 102 then int (n - 97 + 10)
      else if 65 \<le> n \<and> n \<le> 70 then int (n - 65 + 10)
      else -1)"

definition has_hash :: "string \<Rightarrow> bool" where
  "has_hash str \<longleftrightarrow>
     length str > length hash_pre + length hash_eg
     \<and> take (length hash_pre) (drop (length str - length hash_eg - length hash_pre) str) = hash_pre
     \<and> list_all is_hexdig (drop (length str - length hash_eg) str)"

text \<open>The scan for the first \<^verbatim>\<open>$\<close> or dot, over the characters up to the hash.\<close>

fun scan_legacy :: "nat \<Rightarrow> string \<Rightarrow> bool" where
  "scan_legacy 0 s = True"
| "scan_legacy (Suc n) s =
     (if hd s = CHR ''$'' then
        if s ! 1 = CHR ''$'' then False else s ! 2 = CHR ''$'' \<or> s ! 3 = CHR ''$'' \<or> s ! 4 = CHR ''$''
      else if hd s = CHR ''.'' then s ! 1 \<noteq> CHR ''.'' \<or> s ! 2 \<noteq> CHR ''.''
      else scan_legacy n (tl s))"

definition is_probably_rust_legacy :: "string \<Rightarrow> bool" where
  "is_probably_rust_legacy str \<longleftrightarrow>
     has_hash str \<and> scan_legacy (Suc (length str - length hash_pre - length hash_eg)) str"

text \<open>One round of the loop: the output and the number of characters consumed.\<close>

definition demangle_step :: "string \<Rightarrow> string \<times> nat" where
  "demangle_step s =
     (if hd s = CHR ''.'' \<or> hd s = CHR ''$'' then
        (case find (\<lambda>(p, _). take (length p) s = p) patterns of
           Some (p, replacement) \<Rightarrow> (replacement, length p)
         | None \<Rightarrow>
             if hd s = CHR ''.'' then (''-'', 1)
             else if take 2 s = ''$u'' \<and> s ! 4 = CHR ''$'' then
               (let hi = hex_to_int (s ! 2); lo = hex_to_int (s ! 3)
                in if hi \<noteq> -1 \<and> lo \<noteq> -1 then ([char_of (nat (lo + 16 * hi))], 5) else (take 5 s, 5))
             else ([hd s], 1))
      else ([hd s], 1))"

lemma pattern_found:
  assumes "find (\<lambda>(p, _). take (length p) s = p) patterns = Some (p, r)"
  shows "0 < length p" and "length p \<le> 4" and "length r \<le> length p"
proof -
  have "(p, r) \<in> set patterns" using assms by (auto simp: find_Some_iff) (metis nth_mem)
  then show "0 < length p" "length p \<le> 4" "length r \<le> length p" by (auto simp: patterns_def)
qed

lemma demangle_step_pos: "0 < snd (demangle_step s)"
  using pattern_found(1) [of s] by (auto simp: demangle_step_def Let_def split: option.split)

function demangle_loop :: "string \<Rightarrow> string" where
  "demangle_loop s =
     (if length s > length hash_pre + length hash_eg
      then fst (demangle_step s) @ demangle_loop (drop (snd (demangle_step s)) s)
      else [])"
  by pat_completeness auto
termination
proof (relation "measure length", simp)
  fix s :: string assume "length hash_pre + length hash_eg < length s"
  then show "(drop (snd (demangle_step s)) s, s) \<in> measure length"
    using demangle_step_pos [of s] by simp
qed

declare demangle_loop.simps [simp del]

datatype demangle_error = Length_Error

definition demangle :: "string \<Rightarrow> demangle_error + string" where
  "demangle str =
     (if length str < length hash_pre + length hash_eg then Inl Length_Error
      else Inr (demangle_loop (if take 2 str = ''_$'' then tl str else str)))"

section \<open>Recognised symbols are demangled, and shrink\<close>

lemma demangle_step_shrinks:
  assumes "5 \<le> length s"
  shows "length (fst (demangle_step s)) \<le> snd (demangle_step s)" and "snd (demangle_step s) \<le> 5"
proof -
  show "length (fst (demangle_step s)) \<le> snd (demangle_step s)"
    using pattern_found(3) [of s] assms by (auto simp: demangle_step_def Let_def split: option.split)
  show "snd (demangle_step s) \<le> 5"
    using pattern_found(2) [of s] by (fastforce simp: demangle_step_def Let_def split: option.split)
qed

lemma demangle_loop_length: "length (demangle_loop s) \<le> length s"
proof (induction s rule: demangle_loop.induct)
  case (1 s)
  show ?case
  proof (cases "length hash_pre + length hash_eg < length s")
    case True
    then have "5 \<le> length s" by (simp add: hash_pre_def hash_eg_def)
    note step = demangle_step_shrinks [OF this]
    have "length (demangle_loop s) = length (fst (demangle_step s)) + length (demangle_loop (drop (snd (demangle_step s)) s))"
      using True by (subst demangle_loop.simps) simp
    also have "\<dots> \<le> snd (demangle_step s) + (length s - snd (demangle_step s))"
      using "1.IH" [OF True] step(1) by simp
    also have "\<dots> = length s" using step(2) \<open>5 \<le> length s\<close> by simp
    finally show ?thesis .
  qed (subst demangle_loop.simps, simp)
qed

lemma has_hash_length: "has_hash s \<Longrightarrow> 19 < length s"
  by (simp add: has_hash_def hash_pre_def hash_eg_def)

text \<open>
  Every symbol that \<^verbatim>\<open>is_probably_rust_legacy\<close> accepts is long enough to be demangled: \<^verbatim>\<open>demangle\<close>
  returns without an error, a name no longer than the symbol. A symbol shorter than the hash makes it throw.
\<close>

theorem demangle_recognised:
  "(is_probably_rust_legacy str \<longrightarrow> (\<exists>r. demangle str = Inr r \<and> length r \<le> length str))
   \<and> (length str < 19 \<longrightarrow> demangle str = Inl Length_Error)"
proof -
  have "length (demangle_loop (if take 2 str = ''_$'' then tl str else str)) \<le> length str"
    using demangle_loop_length [of str] demangle_loop_length [of "tl str"]
    by (auto intro: order_trans)
  then show ?thesis
    using has_hash_length [of str]
    by (auto simp: is_probably_rust_legacy_def demangle_def hash_pre_def hash_eg_def)
qed

section \<open>Round trip\<close>

text \<open>A path is a sequence of characters and of scope separators, written \<^verbatim>\<open>..\<close> in a symbol.\<close>

datatype token = Scope | Ch char

definition named :: "(char \<times> string) list" where
  "named = [(CHR '','', ''$C$''), (CHR ''*'', ''$BP$''), (CHR ''>'', ''$GT$''), (CHR ''<'', ''$LT$''),
            (CHR ''('', ''$LP$''), (CHR '')'', ''$RP$''), (CHR ''&'', ''$RF$''), (CHR ''@'', ''$SP$'')]"

definition hexdig :: "nat \<Rightarrow> char" where
  "hexdig n = (if n < 10 then char_of (48 + n) else char_of (87 + n))"

definition escape :: "char \<Rightarrow> string" where
  "escape c =
     (let n = of_char c :: nat in
      ''$u'' @ [hexdig (n div 16), hexdig (n mod 16), CHR ''$''])"

fun encode_token :: "(char \<Rightarrow> bool) \<Rightarrow> token \<Rightarrow> string" where
  "encode_token plain Scope = ''..''"
| "encode_token plain (Ch c) =
     (case map_of named c of Some e \<Rightarrow> e | None \<Rightarrow> if plain c \<and> c \<noteq> CHR ''.'' \<and> c \<noteq> CHR ''$'' then [c] else escape c)"

fun token_text :: "token \<Rightarrow> string" where
  "token_text Scope = ''::''"
| "token_text (Ch c) = [c]"

definition encode :: "(char \<Rightarrow> bool) \<Rightarrow> token list \<Rightarrow> string" where
  "encode plain ts = (let e = concat (map (encode_token plain) ts) in if take 1 e = ''$'' then ''_'' @ e else e)"

lemma hex_to_int_hexdig: "n < 16 \<Longrightarrow> hex_to_int (hexdig n) = int n"
  by (auto simp: hex_to_int_def hexdig_def Let_def)

lemma demangle_loop_step:
  assumes "19 < length s" and "demangle_step s = (out, n)"
  shows "demangle_loop s = out @ demangle_loop (drop n s)"
  using assms by (subst demangle_loop.simps) (simp add: hash_pre_def hash_eg_def)

lemma demangle_named:
  assumes "map_of named c = Some e"
  shows "demangle_step (e @ s) = ([c], length e)"
proof -
  have "list_all (\<lambda>(c, e). demangle_step (e @ s) = ([c], length e)) named"
    by (simp add: named_def demangle_step_def patterns_def)
  moreover have "(c, e) \<in> set named" using assms by (rule map_of_SomeD)
  ultimately show ?thesis by (auto simp: list_all_iff)
qed

lemma demangle_escape: "demangle_step (escape c @ s) = ([c], 5)"
proof -
  define hi lo where "hi = (of_char c :: nat) div 16" and "lo = (of_char c :: nat) mod 16"
  have n: "hi < 16" "lo < 16"
    using nat_of_char_less_256 [of c] by (simp_all add: hi_def lo_def less_mult_imp_div_less)
  have e: "escape c = ''$u'' @ [hexdig hi, hexdig lo, CHR ''$'']" by (simp add: escape_def hi_def lo_def Let_def)
  have "lo + 16 * hi = of_char c" by (simp add: hi_def lo_def)
  then have "char_of (lo + 16 * hi) = c" by simp
  moreover have "nat (int lo + 16 * int hi) = lo + 16 * hi" by simp
  ultimately show ?thesis
    unfolding e using n by (simp add: demangle_step_def patterns_def Let_def hex_to_int_hexdig)
qed

lemma length_escape [simp]: "length (escape c) = 5"
  by (simp add: escape_def Let_def)

lemma demangle_token:
  assumes "19 \<le> length s"
  shows "demangle_loop (encode_token plain t @ s) = token_text t @ demangle_loop s"
proof (cases t)
  case Scope
  have "demangle_step (''..'' @ s) = (''::'', 2)" by (simp add: demangle_step_def patterns_def)
  from demangle_loop_step [OF _ this] assms Scope show ?thesis by simp
next
  case (Ch c)
  show ?thesis
  proof (cases "map_of named c")
    case (Some e)
    then have "0 < length e" by (auto simp: named_def split: if_splits)
    with demangle_loop_step [OF _ demangle_named [OF Some], of s] assms Ch Some show ?thesis by simp
  next
    case None
    have "demangle_step (c # s) = ([c], 1)" if "c \<noteq> CHR ''.''" "c \<noteq> CHR ''$''" using that by (simp add: demangle_step_def)
    with demangle_loop_step [of "c # s"] demangle_loop_step [OF _ demangle_escape, of c s] assms Ch None
    show ?thesis by auto
  qed
qed

lemma demangle_tokens:
  assumes "length h = 19"
  shows "demangle_loop (concat (map (encode_token plain) ts) @ h) = concat (map token_text ts)"
proof (induction ts)
  case Nil
  then show ?case using assms by (subst demangle_loop.simps) (simp add: hash_pre_def hash_eg_def)
next
  case (Cons t ts)
  have "demangle_loop (encode_token plain t @ concat (map (encode_token plain) ts) @ h)
      = token_text t @ demangle_loop (concat (map (encode_token plain) ts) @ h)"
    using assms by (intro demangle_token) simp
  with Cons show ?case by simp
qed

text \<open>
  C20. Demangling inverts mangling: for every path, whichever characters besides the named ones are escaped
  by their code, and every hash of sixteen digits, \<^verbatim>\<open>demangle\<close> of the encoded path followed by the hash is
  the text of the path. The path must not begin with an underscore, which is the mark of an escaped first
  character.
\<close>

theorem demangle_roundtrip:
  assumes "length h = 16" and "take 1 (concat (map (encode_token plain) ts)) \<noteq> ''_''"
  shows "demangle (encode plain ts @ ''::h'' @ h) = Inr (concat (map token_text ts))"
proof -
  define e where "e = concat (map (encode_token plain) ts)"
  let ?h = "''::h'' @ h"
  have loop: "demangle_loop (e @ ?h) = concat (map token_text ts)"
    unfolding e_def using assms(1) by (intro demangle_tokens) simp
  have enc: "encode plain ts = (if take 1 e = ''$'' then ''_'' @ e else e)" by (simp add: encode_def e_def Let_def)
  show ?thesis
  proof (cases "take 1 e = ''$''")
    case True
    then obtain r where "e = CHR ''$'' # r" by (cases e) auto
    then show ?thesis using loop assms(1) enc by (simp add: demangle_def hash_pre_def hash_eg_def)
  next
    case False
    have "take 2 (e @ ?h) \<noteq> ''_$''" using assms(2) unfolding e_def [symmetric] by (cases e) auto
    then show ?thesis using loop assms(1) False enc by (simp add: demangle_def hash_pre_def hash_eg_def)
  qed
qed

theorem demangle_roundtrip_witness:
  "demangle (encode (\<lambda>c. c \<noteq> CHR '' '') [Ch (CHR ''<''), Ch (CHR ''I''), Ch (CHR '' ''), Ch (CHR ''a''), Scope, Ch (CHR ''b''), Ch (CHR ''>'')]
      @ ''::h'' @ ''8581507801fb8615'') = Inr ''<I a::b>''"
  using demangle_roundtrip [of "''8581507801fb8615''" "\<lambda>c. c \<noteq> CHR '' ''"
      "[Ch (CHR ''<''), Ch (CHR ''I''), Ch (CHR '' ''), Ch (CHR ''a''), Scope, Ch (CHR ''b''), Ch (CHR ''>'')]"]
  by (simp add: named_def)

theorem demangle_recognised_witness:
  "\<exists>r. demangle ''main::main::he714a2e23ed7db23'' = Inr r \<and> length r \<le> length ''main::main::he714a2e23ed7db23''"
proof -
  have "is_probably_rust_legacy ''main::main::he714a2e23ed7db23''"
    by (simp add: is_probably_rust_legacy_def has_hash_def hash_pre_def hash_eg_def is_hexdig_def eval_nat_numeral)
  then show ?thesis using demangle_recognised [of "''main::main::he714a2e23ed7db23''"] by blast
qed
end
