(* ===== verification/Method_Lookup.thy ===== *)
theory Method_Lookup
  imports Recording_Info Rust_Demangler Call_Trace_Storage Dictionaries
begin

text \<open>
  Model of \<^verbatim>\<open>MethodInfo\<close>, \<^verbatim>\<open>MethodMap\<close> and \<^verbatim>\<open>Lookup\<close> of \<^verbatim>\<open>flightRecorder.h\<close> and \<^verbatim>\<open>flightRecorder.cpp\<close>, and of
  \<^verbatim>\<open>FrameType\<close> of \<^verbatim>\<open>frame.h\<close>: the methods of the stack traces are resolved to names and given the numbers by
  which the stack traces refer to them.

  What JVMTI, JNI and the C++ demangler answer are arguments, as is the memory behind a native frame, whose
  \<^verbatim>\<open>method_id\<close> points at a name. The library name of a native frame is asked for and never used.
\<close>

unbundle bit_operations_syntax

section \<open>Frame types\<close>

definition FRAME_INTERPRETED :: nat where "FRAME_INTERPRETED = 0"
definition FRAME_JIT_COMPILED :: nat where "FRAME_JIT_COMPILED = 1"
definition FRAME_INLINED :: nat where "FRAME_INLINED = 2"
definition FRAME_NATIVE :: nat where "FRAME_NATIVE = 3"
definition FRAME_CPP :: nat where "FRAME_CPP = 4"
definition FRAME_KERNEL :: nat where "FRAME_KERNEL = 5"
definition FRAME_C1_COMPILED :: nat where "FRAME_C1_COMPILED = 6"

lemmas frame_types = FRAME_INTERPRETED_def FRAME_JIT_COMPILED_def FRAME_INLINED_def FRAME_NATIVE_def FRAME_CPP_def
  FRAME_KERNEL_def FRAME_C1_COMPILED_def

definition encode_frame_type :: "nat \<Rightarrow> u32 \<Rightarrow> u32" where
  "encode_frame_type type b = push_bit 24 1 OR push_bit 25 (word_of_nat type) OR (b AND 0xffffff)"

text \<open>The shifts are arithmetic.\<close>

definition decode_frame_type :: "u32 \<Rightarrow> nat" where
  "decode_frame_type b = (if sint b div 2 ^ 24 > 0 then nat (sint b div 2 ^ 25) else FRAME_JIT_COMPILED)"

definition BCI_NATIVE_FRAME :: u32 where "BCI_NATIVE_FRAME = word_of_int (- 11)"
definition BCI_ERROR :: u32 where "BCI_ERROR = word_of_int (- 18)"

section \<open>Methods\<close>

text \<open>A line number table is a list of start locations and line numbers.\<close>

record method_info =
  mi_mark :: bool
  mi_is_entry :: bool
  mi_key :: u32
  mi_class :: u32
  mi_name :: u32
  mi_sig :: u32
  mi_modifiers :: int
  mi_lines :: "(int \<times> int) list option"
  mi_type :: nat

definition new_MethodInfo :: method_info where
  "new_MethodInfo = \<lparr>mi_mark = False, mi_is_entry = False, mi_key = 0, mi_class = 0, mi_name = 0, mi_sig = 0, mi_modifiers = 0,
     mi_lines = None, mi_type = FRAME_INTERPRETED\<rparr>"

fun line_from :: "(int \<times> int) list \<Rightarrow> int \<Rightarrow> int \<Rightarrow> int" where
  "line_from [] cur b = cur"
| "line_from ((start, line) # rest) cur b = (if b \<ge> start then line_from rest line b else cur)"

definition getLineNumber :: "method_info \<Rightarrow> int \<Rightarrow> int" where
  "getLineNumber mi b =
     (case mi_lines mi of
        None \<Rightarrow> 0
      | Some [] \<Rightarrow> 0
      | Some ((_, line) # rest) \<Rightarrow> line_from rest line b)"

definition isHidden :: "method_info \<Rightarrow> bool" where
  "isHidden mi \<longleftrightarrow> mi_modifiers mi = 0 \<or> mi_modifiers mi AND 0x1040 \<noteq> 0"

text \<open>\<^verbatim>\<open>std::map\<close>: an association list in the order of the keys; \<^verbatim>\<open>operator[]\<close> enters a default value.\<close>

type_synonym method_map = "(u64 \<times> method_info) list"

fun mm_find :: "u64 \<Rightarrow> method_map \<Rightarrow> method_info option" where
  "mm_find m [] = None"
| "mm_find m ((k, v) # r) = (if m = k then Some v else mm_find m r)"

fun mm_store :: "u64 \<Rightarrow> method_info \<Rightarrow> method_map \<Rightarrow> method_map" where
  "mm_store m v [] = [(m, v)]"
| "mm_store m v ((k, w) # r) = (if m = k then (k, v) # r else if m < k then (m, v) # (k, w) # r else (k, w) # mm_store m v r)"

definition mm_at :: "u64 \<Rightarrow> method_map \<Rightarrow> method_info \<times> method_map" where
  "mm_at m mm = (case mm_find m mm of Some v \<Rightarrow> (v, mm) | None \<Rightarrow> (new_MethodInfo, mm_store m new_MethodInfo mm))"

section \<open>Lookup\<close>

record lookup_state =
  lk_methods :: method_map
  lk_classes :: dictionary
  lk_packages :: dictionary
  lk_symbols :: dictionary
  lk_counters :: counters

definition lookup_class :: "string \<Rightarrow> lookup_state \<Rightarrow> u32 \<times> lookup_state" where
  "lookup_class s st = (case lookup s (lk_classes st) (lk_counters st) of (i, d, cs) \<Rightarrow> (i, st\<lparr>lk_classes := d, lk_counters := cs\<rparr>))"

definition lookup_package :: "string \<Rightarrow> lookup_state \<Rightarrow> u32 \<times> lookup_state" where
  "lookup_package s st = (case lookup s (lk_packages st) (lk_counters st) of (i, d, cs) \<Rightarrow> (i, st\<lparr>lk_packages := d, lk_counters := cs\<rparr>))"

definition getSymbol :: "string \<Rightarrow> lookup_state \<Rightarrow> u32 \<times> lookup_state" where
  "getSymbol s st = (case lookup s (lk_symbols st) (lk_counters st) of (i, d, cs) \<Rightarrow> (i, st\<lparr>lk_symbols := d, lk_counters := cs\<rparr>))"

text \<open>
  What the virtual machine and the libraries answer. A class is a number, \<^verbatim>\<open>-1\<close> the marker of OpenJ9; the
  superclasses of a class are given as the list that \<^verbatim>\<open>GetSuperclass\<close> runs through.
\<close>

record vm_env =
  vm_name_at :: "u64 \<Rightarrow> string"
  vm_cxa_demangle :: "string \<Rightarrow> string option"
  vm_push_ok :: bool
  vm_phase :: nat
  vm_openj9 :: bool
  vm_check :: "u64 \<Rightarrow> bool"
  vm_declaring_class :: "u64 \<Rightarrow> int option"
  vm_class_signature :: "int \<Rightarrow> string option"
  vm_method_name :: "u64 \<Rightarrow> (string \<times> string) option"
  vm_line_table :: "u64 \<Rightarrow> (int \<times> int) list option"
  vm_thread_class :: int
  vm_superclasses :: "int \<Rightarrow> int list"

text \<open>\<open>cut_scan f p b\<close>: the loop with \<open>p\<close> before the decrement.\<close>

fun cut_scan :: "string \<Rightarrow> nat \<Rightarrow> nat \<Rightarrow> nat option" where
  "cut_scan f 0 b = None"
| "cut_scan f (Suc p) b =
     (if p = 0 then None
      else if f ! p = CHR ''('' then (if b = 1 then Some p else cut_scan f p (b - 1))
      else cut_scan f p (if f ! p = CHR '')'' then b + 1 else b))"

fun last_index :: "char \<Rightarrow> string \<Rightarrow> nat option" where
  "last_index c [] = None"
| "last_index c (x # xs) = (case last_index c xs of Some i \<Rightarrow> Some (Suc i) | None \<Rightarrow> if x = c then Some 0 else None)"

definition cutArguments :: "string \<Rightarrow> string" where
  "cutArguments f =
     (case last_index (CHR '')'') f of
        None \<Rightarrow> f
      | Some p \<Rightarrow> (case cut_scan f p 1 of None \<Rightarrow> f | Some q \<Rightarrow> take q f))"

text \<open>Rust symbols are demangled; an error of the demangler is an exception.\<close>

definition native_name :: "string \<Rightarrow> demangle_error + string" where
  "native_name demangled =
     (let d = cutArguments demangled in if is_probably_rust_legacy d then demangle d else Inr d)"

definition fillNativeMethodInfo :: "vm_env \<Rightarrow> string \<Rightarrow> method_info \<Rightarrow> lookup_state \<Rightarrow> demangle_error + method_info \<times> lookup_state" where
  "fillNativeMethodInfo env name mi st =
     (case lookup_class [] st of (c, st1) \<Rightarrow>
        let mi1 = mi\<lparr>mi_class := c, mi_modifiers := 0x100, mi_lines := None\<rparr> in
        case (if take 2 name = ''_Z'' then vm_cxa_demangle env name else None) of
          Some demangled \<Rightarrow>
            (case getSymbol ''()L;'' st1 of (sg, st2) \<Rightarrow>
               case native_name demangled of
                 Inl e \<Rightarrow> Inl e
               | Inr n \<Rightarrow> (case getSymbol n st2 of (i, st3) \<Rightarrow> Inr (mi1\<lparr>mi_sig := sg, mi_type := FRAME_CPP, mi_name := i\<rparr>, st3)))
        | None \<Rightarrow>
            (if length name \<ge> 4 \<and> drop (length name - 4) name = ''_[k]''
             then case getSymbol (take (length name - 4) name) st1 of (i, st2) \<Rightarrow>
                    case getSymbol ''(Lk;)L;'' st2 of (sg, st3) \<Rightarrow> Inr (mi1\<lparr>mi_name := i, mi_sig := sg, mi_type := FRAME_KERNEL\<rparr>, st3)
             else case getSymbol name st1 of (i, st2) \<Rightarrow>
                    case getSymbol ''()L;'' st2 of (sg, st3) \<Rightarrow> Inr (mi1\<lparr>mi_name := i, mi_sig := sg, mi_type := FRAME_NATIVE\<rparr>, st3)))"

text \<open>The signature of a class is its name between \<^verbatim>\<open>L\<close> and \<^verbatim>\<open>;\<close>.\<close>

definition class_of_signature :: "string \<Rightarrow> string" where
  "class_of_signature cn = take (length cn - 2) (drop 1 cn)"

definition lambda_form :: string where "lambda_form = ''Ljava/lang/invoke/LambdaForm$''"

text \<open>The names of the class and of the method that are recorded for a Java method.\<close>

definition java_names :: "string \<Rightarrow> string \<Rightarrow> string \<times> string" where
  "java_names cn mn =
     (if has_prefix cn ''Ljdk/internal/reflect/GeneratedConstructorAccessor'' then
        (''jdk/internal/reflect/GeneratedConstructorAccessor'',
         ''Object jdk.internal.reflect.GeneratedConstructorAccessor.newInstance(Object[])'')
      else if has_prefix cn ''Lsun/reflect/GeneratedConstructorAccessor'' then
        (''sun/reflect/GeneratedConstructorAccessor'', ''Object sun.reflect.GeneratedConstructorAccessor.newInstance(Object[])'')
      else if has_prefix cn ''Ljdk/internal/reflect/GeneratedMethodAccessor'' then
        (''jdk/internal/reflect.GeneratedMethodAccessor'',
         ''Object jdk.internal.reflect.GeneratedMethodAccessor.invoke(Object, Object[])'')
      else if has_prefix cn ''Lsun/reflect/GeneratedMethodAccessor'' then
        (''sun/reflect/GeneratedMethodAccessor'', ''Object sun.reflect.GeneratedMethodAccessor.invoke(Object, Object[])'')
      else if has_prefix cn lambda_form then
        (let rest = drop (length lambda_form) cn in
         (if has_prefix rest ''MH'' then ''java/lang/invoke/LambdaForm$MH''
          else if has_prefix rest ''BMH'' then ''java/lang/invoke/LambdaForm$BMH''
          else if has_prefix rest ''DMH'' then ''java/lang/invoke/LambdaForm$DMH''
          else class_of_signature cn, mn))
      else (class_of_signature cn, mn))"

definition is_entry_point :: "vm_env \<Rightarrow> int \<Rightarrow> string \<Rightarrow> string \<Rightarrow> bool" where
  "is_entry_point env cls mn sg =
     (if mn = ''run'' \<and> take 3 sg = ''()V'' then vm_thread_class env \<in> set (cls # vm_superclasses env cls)
      else mn = ''main'' \<and> take 21 sg \<noteq> ''(Ljava/lang/String;)V'')"

definition describe_method :: "vm_env \<Rightarrow> u64 \<Rightarrow> (int \<times> string \<times> string \<times> string) option" where
  "describe_method env m =
     (if \<not> vm_check env m then None
      else case vm_declaring_class env m of
             None \<Rightarrow> None
           | Some cls \<Rightarrow>
               (if vm_openj9 env \<and> cls = -1 then None
                else case vm_class_signature env cls of
                       None \<Rightarrow> None
                     | Some cn \<Rightarrow> (case vm_method_name env m of None \<Rightarrow> None | Some (mn, sg) \<Rightarrow> Some (cls, cn, mn, sg))))"

definition fillJavaMethodInfo :: "vm_env \<Rightarrow> u64 \<Rightarrow> bool \<Rightarrow> method_info \<Rightarrow> lookup_state \<Rightarrow> method_info \<times> lookup_state" where
  "fillJavaMethodInfo env m first_time mi st =
     (if \<not> vm_push_ok env \<or> vm_phase env AND 6 = 0 then (mi, st)
      else case describe_method env m of
             Some (cls, cn, mn, sg) \<Rightarrow>
               (case java_names cn mn of (c, n) \<Rightarrow>
                case lookup_class c st of (ci, st1) \<Rightarrow>
                case getSymbol n st1 of (ni, st2) \<Rightarrow>
                case getSymbol sg st2 of (si, st3) \<Rightarrow>
                  (mi\<lparr>mi_class := ci, mi_name := ni, mi_sig := si, mi_type := FRAME_INTERPRETED, mi_is_entry := is_entry_point env cls mn sg,
                     mi_lines := (case if first_time then vm_line_table env m else None of Some t \<Rightarrow> Some t | None \<Rightarrow> mi_lines mi)\<rparr>, st3))
           | None \<Rightarrow>
               (case lookup_class [] (st\<lparr>lk_counters := increment JMETHODID_SKIPPED 1 0 (lk_counters st)\<rparr>) of (ci, st1) \<Rightarrow>
                case getSymbol ''jvmtiError'' st1 of (ni, st2) \<Rightarrow>
                case getSymbol ''()L;'' st2 of (si, st3) \<Rightarrow>
                  (mi\<lparr>mi_class := ci, mi_name := ni, mi_sig := si, mi_type := FRAME_INTERPRETED, mi_is_entry := False\<rparr>, st3)))"

definition resolveMethod :: "vm_env \<Rightarrow> frame \<Rightarrow> lookup_state \<Rightarrow> demangle_error + method_info \<times> lookup_state" where
  "resolveMethod env fr st =
     (let m = method_id fr in
      case mm_at m (lk_methods st) of (mi, mm) \<Rightarrow>
        let st = st\<lparr>lk_methods := mm\<rparr> in
        if mi_mark mi then Inr (mi, st)
        else
          (let first_time = (mi_key mi = 0);
               mi1 = mi\<lparr>mi_mark := True, mi_key := (if first_time then word_of_nat (length mm) else mi_key mi)\<rparr>
           in case (if m = 0 then fillNativeMethodInfo env ''unknown'' mi1 st
                    else if bci fr = BCI_ERROR \<or> bci fr = BCI_NATIVE_FRAME then fillNativeMethodInfo env (vm_name_at env m) mi1 st
                    else Inr (fillJavaMethodInfo env m first_time mi1 st)) of
                Inl e \<Rightarrow> Inl e
              | Inr (mi2, st2) \<Rightarrow> Inr (mi2, st2\<lparr>lk_methods := mm_store m mi2 mm\<rparr>)))"

text \<open>The package of a class name; \<open>Inl\<close> is the pointer arithmetic going wrong on an array without a class.\<close>

datatype package_error = NoElementClass

function previous_slash :: "string \<Rightarrow> nat \<Rightarrow> nat option" where
  "previous_slash s p = (if p = 0 then None else if s ! (p - 1) = CHR ''/'' then Some (p - 1) else previous_slash s (p - 1))"
  by pat_completeness auto
termination by (relation "measure snd") auto

declare previous_slash.simps [simp del]

fun first_index :: "char \<Rightarrow> string \<Rightarrow> nat option" where
  "first_index c [] = None"
| "first_index c (x # xs) = (if x = c then Some 0 else map_option Suc (first_index c xs))"

definition package_end :: "string \<Rightarrow> nat option" where
  "package_end cn =
     (case last_index (CHR ''/'') cn of
        None \<Rightarrow> None
      | Some p \<Rightarrow> if Suc p < length cn \<and> cn ! Suc p \<in> set ''0123456789'' then previous_slash cn p else Some p)"

definition getPackage :: "string \<Rightarrow> lookup_state \<Rightarrow> package_error + u32 \<times> lookup_state" where
  "getPackage cn st =
     (case package_end cn of
        None \<Rightarrow> Inr (0, st)
      | Some p \<Rightarrow>
          (if cn \<noteq> [] \<and> hd cn = CHR ''[''
           then case first_index (CHR ''L'') cn of
                  None \<Rightarrow> Inl NoElementClass
                | Some l \<Rightarrow> if Suc l \<le> p then Inr (lookup_package (take (p - Suc l) (drop (Suc l) cn)) st) else Inl NoElementClass
           else Inr (lookup_package (take p cn) st)))"


section \<open>Frame types\<close>

lemma bit_encode_frame_type:
  assumes "type < 64"
  shows "bit (encode_frame_type type b) n = (n = 24 \<or> (25 \<le> n \<and> n < 31 \<and> bit type (n - 25)) \<or> (n < 24 \<and> bit b n))"
proof -
  have "take_bit 6 type = type" using assms by (simp add: take_bit_nat_eq_self)
  then have small: "bit type k \<Longrightarrow> k < 6" for k by (metis bit_take_bit_iff)
  have l: "b AND 0xffffff = take_bit 24 b" by (simp add: take_bit_eq_mask mask_eq_exp_minus_1)
  have 1: "bit (push_bit 24 1 :: u32) n = (n = 24)" unfolding bit_push_bit_iff by (auto simp: bit_1_iff)
  have 2: "bit (push_bit 25 (word_of_nat type) :: u32) n = (25 \<le> n \<and> n < 31 \<and> bit type (n - 25))"
    using small [of "n - 25"] by (auto simp: bit_push_bit_iff bit_of_nat_iff)
  show ?thesis unfolding encode_frame_type_def l bit_or_iff 1 2 bit_take_bit_iff by auto
qed

lemma sint_encode_frame_type:
  assumes "type < 64"
  shows "sint (encode_frame_type type b) div 2 ^ 25 = int type" and "odd (sint (encode_frame_type type b) div 2 ^ 24)"
proof -
  let ?e = "encode_frame_type type b"
  have bits: "bit (sint ?e) n = bit ?e n" for n
    using bit_encode_frame_type [OF assms, of b n] bit_encode_frame_type [OF assms, of b 31] by (auto simp: bit_sint_iff bit_imp_le_length)
  have "take_bit 6 type = type" using assms by (simp add: take_bit_nat_eq_self)
  then have small: "bit type k \<Longrightarrow> k < 6" for k by (metis bit_take_bit_iff)
  have "drop_bit 25 (sint ?e) = int type"
    by (rule bit_eqI) (use small in \<open>auto simp: bit_drop_bit_eq bits bit_encode_frame_type [OF assms] bit_of_nat_iff_bit\<close>)
  then show "sint ?e div 2 ^ 25 = int type" by (simp add: drop_bit_int_def)
  show "odd (sint ?e div 2 ^ 24)" using bits [of 24] bit_encode_frame_type [OF assms, of b 24] by (simp add: bit_int_def)
qed

text \<open>
  The type of a frame survives its encoding in the byte code index, as do the low 24 bits of the index.
\<close>

theorem frame_type_roundtrip:
  assumes "type < 64"
  shows "decode_frame_type (encode_frame_type type b) = type \<and> take_bit 24 (encode_frame_type type b) = take_bit 24 b"
proof
  let ?e = "encode_frame_type type b"
  note e = sint_encode_frame_type [OF assms, of b]
  have "0 \<le> sint ?e" using e(1) by (simp add: div_int_pos_iff flip: of_nat_0_le_iff)
  then have "0 \<le> sint ?e div 2 ^ 24" by (simp add: div_int_pos_iff)
  then have "0 < sint ?e div 2 ^ 24" using e(2) by (metis even_zero order_le_less)
  then show "decode_frame_type ?e = type" using e(1) by (simp add: decode_frame_type_def)
  show "take_bit 24 ?e = take_bit 24 b"
    by (rule bit_eqI) (auto simp: bit_take_bit_iff bit_encode_frame_type [OF assms])
qed

theorem frame_type_roundtrip_witness:
  "decode_frame_type (encode_frame_type FRAME_C1_COMPILED 17) = FRAME_C1_COMPILED \<and>
   take_bit 24 (encode_frame_type FRAME_C1_COMPILED 17) = take_bit 24 17"
  by (rule frame_type_roundtrip) (simp add: frame_types)

section \<open>Arguments of a function\<close>

text \<open>Text whose parentheses match; it is read from the end, with \<open>d\<close> open closing parentheses.\<close>

fun matched :: "nat \<Rightarrow> string \<Rightarrow> bool" where
  "matched d [] = (d = 0)"
| "matched d (c # s) =
     (if c = CHR '')'' then matched (Suc d) s else if c = CHR ''('' then 0 < d \<and> matched (d - 1) s else matched d s)"

definition balanced :: "string \<Rightarrow> bool" where
  "balanced s = matched 0 (rev s)"

lemma cut_scan_matched:
  assumes "matched d (rev r)" and "pre \<noteq> []"
  shows "cut_scan (pre @ r @ post) (length pre + length r) (Suc d) = cut_scan (pre @ r @ post) (length pre) 1"
  using assms(1)
proof (induction r arbitrary: d post rule: rev_induct)
  case (snoc c r)
  let ?f = "pre @ (r @ [c]) @ post" and ?p = "length pre + length r"
  have f: "?f ! ?p = c" "?p \<noteq> 0" using assms(2) by (simp_all add: nth_append)
  have IH: "cut_scan ?f ?p (Suc e) = cut_scan ?f (length pre) 1" if e: "matched e (rev r)" for e
    using snoc.IH [OF e, of "c # post"] by simp
  have "cut_scan ?f (length pre + length (r @ [c])) (Suc d) = cut_scan ?f (Suc ?p) (Suc d)" by simp
  also have "\<dots> = cut_scan ?f (length pre) 1"
  proof (cases "c = CHR ''(''")
    case True
    then obtain e where d: "d = Suc e" using snoc.prems by (cases d) auto
    then have "matched e (rev r)" using snoc.prems True by simp
    from IH [OF this] show ?thesis using f True by (simp add: d)
  next
    case False
    then have "matched (if c = CHR '')'' then Suc d else d) (rev r)" using snoc.prems by (auto split: if_splits)
    from IH [OF this] show ?thesis using f False by (cases "c = CHR '')''") simp_all
  qed
  finally show ?case .
qed simp

lemma last_index_None: "last_index c s = None \<longleftrightarrow> c \<notin> set s"
  by (induction s) (auto split: option.split)

lemma last_index_append: "c \<notin> set t \<Longrightarrow> last_index c (s @ c # t) = Some (length s)"
  by (induction s) (auto simp: last_index_None [THEN iffD2])

text \<open>
  \<^verbatim>\<open>cutArguments\<close> removes the argument list of a demangled function and what follows it: everything from the
  parenthesis that matches the last closing one. A name without a closing parenthesis stays as it is.
\<close>

theorem cutArguments_removes_arguments:
  assumes "name \<noteq> []" and "balanced args" and "CHR '')'' \<notin> set qualifiers"
  shows "cutArguments (name @ ''('' @ args @ '')'' @ qualifiers) = name \<and> (CHR '')'' \<notin> set name \<longrightarrow> cutArguments (name @ qualifiers) = name @ qualifiers)"
proof
  let ?f = "name @ ''('' @ args @ '')'' @ qualifiers" and ?pre = "name @ ''(''"
  have f: "?f = ?pre @ args @ ('')'' @ qualifiers)" by simp
  have "last_index (CHR '')'') ((?pre @ args) @ CHR '')'' # qualifiers) = Some (length (?pre @ args))" by (rule last_index_append [OF assms(3)])
  then have li: "last_index (CHR '')'') ?f = Some (length ?pre + length args)" by simp
  have "cut_scan ?f (length ?pre + length args) (Suc 0) = cut_scan ?f (length ?pre) 1"
    unfolding f by (rule cut_scan_matched) (use assms(2) in \<open>simp_all add: balanced_def\<close>)
  also have "\<dots> = Some (length name)" using assms(1) by (simp add: nth_append)
  finally show "cutArguments ?f = name" unfolding cutArguments_def li by simp
  show "CHR '')'' \<notin> set name \<longrightarrow> cutArguments (name @ qualifiers) = name @ qualifiers"
    using assms(3) by (simp add: cutArguments_def last_index_None [THEN iffD2])
qed

theorem cutArguments_removes_arguments_witness:
  "cutArguments ''ns::f(int (*)(char)) const'' = ''ns::f''"
  using cutArguments_removes_arguments [of "''ns::f''" "''int (*)(char)''" "'' const''"] by (simp add: balanced_def)


section \<open>The method map\<close>

definition mm_sorted :: "method_map \<Rightarrow> bool" where
  "mm_sorted mm \<longleftrightarrow> sorted_wrt (<) (map fst mm)"

lemma mm_find_map_of: "mm_find m mm = map_of mm m"
  by (induction mm) auto

lemma mm_find_store [simp]: "mm_find m' (mm_store m v mm) = (if m' = m then Some v else mm_find m' mm)"
  by (induction mm) auto

lemma mm_store_fst: "set (map fst (mm_store m v mm)) = insert m (set (map fst mm))"
  by (induction m v mm rule: mm_store.induct) (simp_all add: insert_commute)

lemma mm_store_sorted: "mm_sorted mm \<Longrightarrow> mm_sorted (mm_store m v mm)"
proof (induction mm)
  case (Cons p mm)
  obtain k w where p: "p = (k, w)" by (cases p)
  have IH: "mm_sorted (mm_store m v mm)" using Cons by (simp add: mm_sorted_def)
  show ?case
  proof (cases "m = k \<or> m < k")
    case True
    then show ?thesis using Cons.prems by (auto simp: p mm_sorted_def)
  next
    case False
    then have "k < m" by auto
    then show ?thesis using Cons.prems IH mm_store_fst [of m v mm] False by (auto simp: p mm_sorted_def)
  qed
qed (simp add: mm_sorted_def)

lemma mm_sorted_distinct: "mm_sorted mm \<Longrightarrow> distinct (map fst mm)"
  by (simp add: mm_sorted_def strict_sorted_iff)

lemma mm_store_length: "mm_sorted mm \<Longrightarrow> length (mm_store m v mm) = (if mm_find m mm = None then Suc (length mm) else length mm)"
proof -
  assume s: "mm_sorted mm"
  have "length (mm_store m v mm) = card (set (map fst (mm_store m v mm)))"
    using mm_sorted_distinct [OF mm_store_sorted [OF s]] by (metis distinct_card length_map)
  also have "\<dots> = (if m \<in> set (map fst mm) then card (set (map fst mm)) else Suc (card (set (map fst mm))))"
    unfolding mm_store_fst by (simp add: insert_absorb)
  also have "card (set (map fst mm)) = length mm" using mm_sorted_distinct [OF s] by (metis distinct_card length_map)
  finally show ?thesis by (simp add: mm_find_map_of map_of_eq_None_iff)
qed

text \<open>The numbers of the methods are not zero, at most the number of methods, and distinct; the types are those of \<^verbatim>\<open>FrameTypeId\<close>.\<close>

definition methods_ok :: "method_map \<Rightarrow> bool" where
  "methods_ok mm \<longleftrightarrow> mm_sorted mm \<and>
     (\<forall>m v. mm_find m mm = Some v \<longrightarrow> 0 < unat (mi_key v) \<and> unat (mi_key v) \<le> length mm \<and> mi_type v < 7) \<and>
     (\<forall>m m' v v'. mm_find m mm = Some v \<longrightarrow> mm_find m' mm = Some v' \<longrightarrow> mi_key v = mi_key v' \<longrightarrow> m = m')"

definition key_of :: "lookup_state \<Rightarrow> u64 \<Rightarrow> u32 option" where
  "key_of st m = map_option mi_key (mm_find m (lk_methods st))"

lemma methods_ok_Nil: "methods_ok []"
  by (simp add: methods_ok_def mm_sorted_def)

lemma methods_ok_new:
  assumes ok: "methods_ok mm" and new: "mm_find m mm = None" and key: "mi_key v = word_of_nat (Suc (length mm))"
    and few: "Suc (length mm) < 2 ^ 32" and type: "mi_type v < 7"
  shows "methods_ok (mm_store m v mm)"
proof -
  have u: "unat (mi_key v) = Suc (length mm)" unfolding key by (rule unat_word_of_nat) (use few in simp)
  have sorted: "mm_sorted mm" using ok by (simp add: methods_ok_def)
  have len: "length (mm_store m v mm) = Suc (length mm)" using mm_store_length [OF sorted, of m v] new by simp
  have old: "0 < unat (mi_key w) \<and> unat (mi_key w) \<le> length mm \<and> mi_type w < 7" if "mm_find k mm = Some w" for k w
    using ok that by (simp add: methods_ok_def)
  have differ: "mi_key w \<noteq> mi_key v" if "mm_find k mm = Some w" for k w
    using old [OF that] u by (metis not_less_eq_eq order_refl)
  show ?thesis
    unfolding methods_ok_def
  proof (intro conjI allI impI)
    show "mm_sorted (mm_store m v mm)" by (rule mm_store_sorted [OF sorted])
  next
    fix k w assume "mm_find k (mm_store m v mm) = Some w"
    then show "0 < unat (mi_key w)" "unat (mi_key w) \<le> length (mm_store m v mm)" "mi_type w < 7"
      using old [of k w] u len type by (auto split: if_splits)
  next
    fix k k' w w' assume "mm_find k (mm_store m v mm) = Some w" "mm_find k' (mm_store m v mm) = Some w'" "mi_key w = mi_key w'"
    then show "k = k'"
      using differ [of k w] differ [of k' w'] ok by (auto simp: methods_ok_def split: if_splits)
  qed
qed

lemma methods_ok_update:
  assumes ok: "methods_ok mm" and known: "mm_find m mm = Some w" and key: "mi_key v = mi_key w" and type: "mi_type v < 7"
  shows "methods_ok (mm_store m v mm)"
proof -
  have sorted: "mm_sorted mm" using ok by (simp add: methods_ok_def)
  have len: "length (mm_store m v mm) = length mm" using mm_store_length [OF sorted, of m v] known by simp
  have keys: "map_option mi_key (mm_find k (mm_store m v mm)) = map_option mi_key (mm_find k mm)" for k using known key by simp
  have ex: "\<exists>x. mm_find k mm = Some x \<and> mi_key x = mi_key w'" if "mm_find k (mm_store m v mm) = Some w'" for k w'
    using keys [of k] that by (cases "mm_find k mm") auto
  show ?thesis
    unfolding methods_ok_def
  proof (intro conjI allI impI)
    show "mm_sorted (mm_store m v mm)" by (rule mm_store_sorted [OF sorted])
  next
    fix k w' assume k: "mm_find k (mm_store m v mm) = Some w'"
    show "mi_type w' < 7" using k type ok by (auto simp: methods_ok_def split: if_splits)
    from k obtain x where "mm_find k mm = Some x" "mi_key x = mi_key w'" using ex by blast
    then show "0 < unat (mi_key w')" "unat (mi_key w') \<le> length (mm_store m v mm)" using ok len by (metis methods_ok_def)+
  next
    fix k k' a b assume "mm_find k (mm_store m v mm) = Some a" "mm_find k' (mm_store m v mm) = Some b" "mi_key a = mi_key b"
    then obtain x y where "mm_find k mm = Some x" "mm_find k' mm = Some y" "mi_key x = mi_key y" using ex by metis
    then show "k = k'" using ok by (auto simp: methods_ok_def)
  qed
qed

text \<open>Filling in a method leaves the map, the mark and the number alone, and succeeds.\<close>

lemma lookups_keep [simp]:
  "lk_methods (snd (lookup_class s st)) = lk_methods st" "lk_methods (snd (getSymbol s st)) = lk_methods st"
  "lk_methods (snd (lookup_package s st)) = lk_methods st"
  by (simp_all add: lookup_class_def getSymbol_def lookup_package_def split: prod.split)

lemma native_name_ok: "\<exists>n. native_name d = Inr n"
  using has_hash_length [of "cutArguments d"]
  by (auto simp: native_name_def Let_def is_probably_rust_legacy_def demangle_def hash_pre_def hash_eg_def)

lemma fillNative_ok:
  "\<exists>mi' st'. fillNativeMethodInfo env name mi st = Inr (mi', st') \<and> lk_methods st' = lk_methods st \<and>
     mi_mark mi' = mi_mark mi \<and> mi_key mi' = mi_key mi \<and> mi_type mi' < 7"
proof -
  obtain c st1 where c: "lookup_class [] st = (c, st1)" by (cases "lookup_class [] st")
  have k: "lk_methods st1 = lk_methods st" using lookups_keep(1) [of "[]" st] c by simp
  have sym: "\<exists>i t. getSymbol s x = (i, t) \<and> lk_methods t = lk_methods x" for s x
    using lookups_keep(2) [of s x] by (cases "getSymbol s x") simp
  show ?thesis
  proof (cases "if take 2 name = ''_Z'' then vm_cxa_demangle env name else None")
    case (Some d)
    obtain n where n: "native_name d = Inr n" using native_name_ok by blast
    obtain i t where 1: "getSymbol ''()L;'' st1 = (i, t)" "lk_methods t = lk_methods st1" using sym by blast
    obtain j u where 2: "getSymbol n t = (j, u)" "lk_methods u = lk_methods t" using sym by blast
    show ?thesis using k c n 1 2 Some by (simp add: fillNativeMethodInfo_def Let_def frame_types split del: if_split)
  next
    case None
    obtain i t where 1: "getSymbol (take (length name - 4) name) st1 = (i, t)" "lk_methods t = lk_methods st1" using sym by blast
    obtain j u where 2: "getSymbol ''(Lk;)L;'' t = (j, u)" "lk_methods u = lk_methods t" using sym by blast
    obtain i' t' where 3: "getSymbol name st1 = (i', t')" "lk_methods t' = lk_methods st1" using sym by blast
    obtain j' u' where 4: "getSymbol ''()L;'' t' = (j', u')" "lk_methods u' = lk_methods t'" using sym by blast
    show ?thesis
      unfolding fillNativeMethodInfo_def c prod.case Let_def None option.case 1 2 3 4
      using k 1(2) 2(2) 3(2) 4(2) by (cases "length name \<ge> 4 \<and> drop (length name - 4) name = ''_[k]''") (simp_all add: frame_types)
  qed
qed

lemma fillJava_ok:
  assumes "fillJavaMethodInfo env m first mi st = (mi', st')"
  shows "lk_methods st' = lk_methods st" and "mi_mark mi' = mi_mark mi" and "mi_key mi' = mi_key mi"
    and "mi_type mi < 7 \<Longrightarrow> mi_type mi' < 7"
proof -
  have sym: "lk_methods t = lk_methods x" if "getSymbol s x = (i, t)" for s x i t using lookups_keep(2) [of s x] that by simp
  have cls: "lk_methods t = lk_methods x" if "lookup_class s x = (i, t)" for s x i t using lookups_keep(1) [of s x] that by simp
  show "lk_methods st' = lk_methods st" "mi_mark mi' = mi_mark mi" "mi_key mi' = mi_key mi" "mi_type mi < 7 \<Longrightarrow> mi_type mi' < 7"
    using assms by (auto simp: frame_types fillJavaMethodInfo_def split: if_splits option.splits prod.splits dest!: sym cls)
qed

text \<open>What resolving a frame does to the map.\<close>

definition resolved :: "u64 \<Rightarrow> lookup_state \<Rightarrow> method_info \<Rightarrow> lookup_state \<Rightarrow> bool" where
  "resolved m st mi st' \<longleftrightarrow> methods_ok (lk_methods st') \<and> mm_find m (lk_methods st') = Some mi \<and> mi_mark mi \<and>
     (\<forall>k. k \<noteq> m \<longrightarrow> mm_find k (lk_methods st') = mm_find k (lk_methods st)) \<and>
     (\<forall>v. mm_find m (lk_methods st) = Some v \<longrightarrow> mi_key mi = mi_key v \<and> (mi_mark v \<longrightarrow> mi = v))"


lemma mm_store_store: "mm_store m v (mm_store m w mm) = mm_store m v mm"
  by (induction m w mm rule: mm_store.induct) auto

lemma resolveMethod_ok:
  assumes ok: "methods_ok (lk_methods st)" and few: "Suc (length (lk_methods st)) < 2 ^ 32"
  shows "\<exists>mi st'. resolveMethod env fr st = Inr (mi, st') \<and> resolved (method_id fr) st mi st'"
proof -
  let ?m = "method_id fr" and ?mm = "lk_methods st"
  obtain mi mm where at: "mm_at ?m ?mm = (mi, mm)" by (cases "mm_at ?m ?mm")
  show ?thesis
  proof (cases "mi_mark mi")
    case True
    have "mm_find ?m ?mm = Some mi \<and> mm = ?mm" using at True by (auto simp: mm_at_def new_MethodInfo_def split: option.splits)
    then show ?thesis using True ok at by (simp add: resolveMethod_def resolved_def)
  next
    case False
    define first where "first = (mi_key mi = 0)"
    define mi1 where "mi1 = mi\<lparr>mi_mark := True, mi_key := (if first then word_of_nat (length mm) else mi_key mi)\<rparr>"
    define st1 where "st1 = st\<lparr>lk_methods := mm\<rparr>"
    define fill where "fill = (if ?m = 0 then fillNativeMethodInfo env ''unknown'' mi1 st1
                    else if bci fr = BCI_ERROR \<or> bci fr = BCI_NATIVE_FRAME then fillNativeMethodInfo env (vm_name_at env ?m) mi1 st1
                    else Inr (fillJavaMethodInfo env ?m first mi1 st1))"
    have type1: "mi_type mi1 < 7"
      using at ok by (auto simp: mi1_def mm_at_def new_MethodInfo_def frame_types methods_ok_def split: option.splits)
    have "\<exists>mi2 st2. fill = Inr (mi2, st2) \<and> lk_methods st2 = lk_methods st1 \<and> mi_mark mi2 = mi_mark mi1 \<and> mi_key mi2 = mi_key mi1 \<and> mi_type mi2 < 7"
    proof (cases "?m = 0 \<or> bci fr = BCI_ERROR \<or> bci fr = BCI_NATIVE_FRAME")
      case True
      then obtain nm where "fill = fillNativeMethodInfo env nm mi1 st1" unfolding fill_def by (cases "?m = 0") simp_all
      then show ?thesis using fillNative_ok [of env nm mi1 st1] by auto
    next
      case False
      obtain a b where ab: "fillJavaMethodInfo env ?m first mi1 st1 = (a, b)" by (cases "fillJavaMethodInfo env ?m first mi1 st1")
      then have "fill = Inr (a, b)" using False by (simp add: fill_def)
      then show ?thesis using fillJava_ok [OF ab] type1 by simp
    qed
    then obtain mi2 st2 where f: "fill = Inr (mi2, st2)" "lk_methods st2 = mm" "mi_mark mi2" "mi_key mi2 = mi_key mi1" "mi_type mi2 < 7"
      by (auto simp: st1_def mi1_def)
    let ?st' = "st2\<lparr>lk_methods := mm_store ?m mi2 mm\<rparr>"
    have run: "resolveMethod env fr st = Inr (mi2, ?st')"
      using at False f(1) unfolding resolveMethod_def Let_def fill_def mi1_def st1_def first_def by simp
    have sorted: "mm_sorted ?mm" using ok by (simp add: methods_ok_def)
    have "resolved ?m st mi2 ?st'"
    proof (cases "mm_find ?m ?mm")
      case None
      have n: "mi = new_MethodInfo" "mm = mm_store ?m new_MethodInfo ?mm" using at None by (simp_all add: mm_at_def)
      have "length mm = Suc (length ?mm)" using mm_store_length [OF sorted, of ?m new_MethodInfo] None n(2) by simp
      then have key: "mi_key mi2 = word_of_nat (Suc (length ?mm))" using f(4) n(1) by (simp add: mi1_def first_def new_MethodInfo_def)
      have "methods_ok (mm_store ?m mi2 mm)" using methods_ok_new [OF ok None key few f(5)] n(2) by (simp add: mm_store_store)
      then show ?thesis using f(3) None n(2) by (simp add: resolved_def)
    next
      case (Some v)
      have n: "mi = v" "mm = ?mm" using at Some by (simp_all add: mm_at_def)
      have "0 < unat (mi_key v)" using ok Some by (simp add: methods_ok_def)
      then have "mi_key v \<noteq> 0" by auto
      then have key: "mi_key mi2 = mi_key v" using f(4) n by (simp add: mi1_def first_def)
      have "methods_ok (mm_store ?m mi2 ?mm)" by (rule methods_ok_update [OF ok Some key f(5)])
      then show ?thesis using f(3) Some n key False by (simp add: resolved_def)
    qed
    with run show ?thesis by blast
  qed
qed

lemma resolved_length:
  assumes "methods_ok (lk_methods st)" and "resolved m st mi st'"
  shows "length (lk_methods st') \<le> Suc (length (lk_methods st))"
proof -
  let ?d = "\<lambda>s. set (map fst (lk_methods s))"
  have s: "distinct (map fst (lk_methods st))" "distinct (map fst (lk_methods st'))"
    using assms by (auto simp: resolved_def methods_ok_def mm_sorted_distinct)
  have "?d st' \<subseteq> insert m (?d st)"
  proof
    fix k assume "k \<in> ?d st'"
    then have "mm_find k (lk_methods st') \<noteq> None" by (simp add: mm_find_map_of map_of_eq_None_iff)
    then have "k = m \<or> mm_find k (lk_methods st) \<noteq> None" using assms(2) by (auto simp: resolved_def)
    then show "k \<in> insert m (?d st)" by (auto simp: mm_find_map_of map_of_eq_None_iff)
  qed
  then have "card (?d st') \<le> card (insert m (?d st))" by (rule card_mono [rotated]) simp
  also have "\<dots> \<le> Suc (card (?d st))" by (simp add: card_insert_if)
  finally show ?thesis using s by (metis distinct_card length_map)
qed

lemma resolved_keeps: "resolved m st mi st' \<Longrightarrow> key_of st k = Some i \<Longrightarrow> key_of st' k = Some i"
  by (cases "k = m") (auto simp: resolved_def key_of_def)

text \<open>The frames of some stack traces, resolved one after the other, with the numbers that are written for them.\<close>

fun resolve_all :: "vm_env \<Rightarrow> frame list \<Rightarrow> lookup_state \<Rightarrow> demangle_error + u32 list \<times> lookup_state" where
  "resolve_all env [] st = Inr ([], st)"
| "resolve_all env (f # fs) st =
     (case resolveMethod env f st of
        Inl e \<Rightarrow> Inl e
      | Inr (mi, st1) \<Rightarrow> (case resolve_all env fs st1 of Inl e \<Rightarrow> Inl e | Inr (ks, st2) \<Rightarrow> Inr (mi_key mi # ks, st2)))"

lemma resolve_all_ok:
  assumes "methods_ok (lk_methods st)" and "length (lk_methods st) + length fs < 2 ^ 32"
  shows "\<exists>ks st'. resolve_all env fs st = Inr (ks, st') \<and> methods_ok (lk_methods st') \<and> map Some ks = map (\<lambda>f. key_of st' (method_id f)) fs \<and>
     (\<forall>k i. key_of st k = Some i \<longrightarrow> key_of st' k = Some i)"
  using assms
proof (induction fs arbitrary: st)
  case (Cons f fs)
  obtain mi st1 where 1: "resolveMethod env f st = Inr (mi, st1)" "resolved (method_id f) st mi st1"
    using resolveMethod_ok [OF Cons.prems(1)] Cons.prems(2) by fastforce
  have ok: "methods_ok (lk_methods st1)" using 1(2) by (simp add: resolved_def)
  have "length (lk_methods st1) + length fs < 2 ^ 32" using resolved_length [OF Cons.prems(1) 1(2)] Cons.prems(2) by simp
  from Cons.IH [OF ok this] obtain ks st' where 2: "resolve_all env fs st1 = Inr (ks, st')" "methods_ok (lk_methods st')"
    "map Some ks = map (\<lambda>f. key_of st' (method_id f)) fs" "\<forall>k i. key_of st1 k = Some i \<longrightarrow> key_of st' k = Some i" by blast
  have "key_of st1 (method_id f) = Some (mi_key mi)" using 1(2) by (simp add: resolved_def key_of_def)
  then show ?case using 1 2 resolved_keeps [OF 1(2)] by (intro exI [of _ "mi_key mi # ks"] exI [of _ st']) simp
qed simp

text \<open>
  C17. Numbers identify methods: resolving the frames of any stack traces succeeds, also when the VM or the demangler
  cannot name a method; two frames get the same number exactly when they have the same method; the numbers are not
  zero, and every number that was given out is in the method map at the end.
\<close>

theorem method_keys_identify:
  assumes "lk_methods st = []" and "length fs < 2 ^ 32"
  shows "\<exists>ks st'. resolve_all env fs st = Inr (ks, st') \<and> length ks = length fs \<and>
     (\<forall>a < length fs. \<forall>b < length fs. ks ! a = ks ! b \<longleftrightarrow> method_id (fs ! a) = method_id (fs ! b)) \<and>
     (\<forall>a < length fs. \<exists>mi. (method_id (fs ! a), mi) \<in> set (lk_methods st') \<and> mi_key mi = ks ! a \<and> 0 < ks ! a)"
proof -
  obtain ks st' where r: "resolve_all env fs st = Inr (ks, st')" "methods_ok (lk_methods st')"
    "map Some ks = map (\<lambda>f. key_of st' (method_id f)) fs"
    using resolve_all_ok [of st fs env] assms methods_ok_Nil by auto
  have len: "length ks = length fs" using r(3) by (metis length_map)
  have key: "\<exists>mi. mm_find (method_id (fs ! a)) (lk_methods st') = Some mi \<and> mi_key mi = ks ! a" if "a < length fs" for a
    using arg_cong [OF r(3), of "\<lambda>xs. xs ! a"] that len
    by (cases "mm_find (method_id (fs ! a)) (lk_methods st')") (simp_all add: key_of_def)
  have iff: "ks ! a = ks ! b \<longleftrightarrow> method_id (fs ! a) = method_id (fs ! b)" if "a < length fs" "b < length fs" for a b
    using key [OF that(1)] key [OF that(2)] r(2) by (fastforce simp: methods_ok_def)
  have "\<exists>mi. (method_id (fs ! a), mi) \<in> set (lk_methods st') \<and> mi_key mi = ks ! a \<and> 0 < ks ! a" if a: "a < length fs" for a
    using key [OF a] r(2) by (fastforce simp: methods_ok_def mm_find_map_of word_less_nat_alt dest: map_of_SomeD)
  with r(1) len iff show ?thesis by blast
qed

definition demo_env :: vm_env where
  "demo_env = \<lparr>vm_name_at = (\<lambda>_. ''do_syscall_64_[k]''), vm_cxa_demangle = (\<lambda>_. None), vm_push_ok = True, vm_phase = 4, vm_openj9 = False,
     vm_check = (\<lambda>_. True), vm_declaring_class = (\<lambda>_. Some 1), vm_class_signature = (\<lambda>_. Some ''LFoo;''),
     vm_method_name = (\<lambda>m. if m = 7 then Some (''run'', ''()V'') else None), vm_line_table = (\<lambda>_. None), vm_thread_class = 3,
     vm_superclasses = (\<lambda>_. [3])\<rparr>"

definition demo_lookup :: lookup_state where
  "demo_lookup = (let d = fst (new_dictionary 0 counters_init) in
     \<lparr>lk_methods = [], lk_classes = d, lk_packages = d, lk_symbols = d, lk_counters = counters_init\<rparr>)"

definition demo_frames :: "frame list" where
  "demo_frames = [\<lparr>bci = 3, padding = 0, method_id = 7\<rparr>, \<lparr>bci = BCI_NATIVE_FRAME, padding = 0, method_id = 9\<rparr>,
     \<lparr>bci = 5, padding = 0, method_id = 7\<rparr>]"

theorem method_keys_identify_witness:
  "\<exists>ks st'. resolve_all demo_env demo_frames demo_lookup = Inr (ks, st') \<and> ks ! 0 = ks ! 2 \<and> ks ! 0 \<noteq> ks ! 1"
proof -
  have "lk_methods demo_lookup = []" "length demo_frames < 2 ^ 32" by (simp_all add: demo_lookup_def demo_frames_def Let_def)
  from method_keys_identify [OF this, of demo_env] obtain ks st' where r: "resolve_all demo_env demo_frames demo_lookup = Inr (ks, st')"
    "\<forall>a < length demo_frames. \<forall>b < length demo_frames. ks ! a = ks ! b \<longleftrightarrow> method_id (demo_frames ! a) = method_id (demo_frames ! b)"
    by blast
  have "ks ! 0 = ks ! 2 \<longleftrightarrow> True" "ks ! 0 = ks ! 1 \<longleftrightarrow> False" using r(2) by (simp_all add: demo_frames_def)
  with r(1) show ?thesis by blast
qed

section \<open>Packages\<close>

lemma previous_slash_skip:
  assumes "CHR ''/'' \<notin> set t"
  shows "previous_slash (s @ CHR ''/'' # t @ u) (Suc (length s + length t)) = Some (length s)"
  using assms
proof (induction t arbitrary: u rule: rev_induct)
  case Nil
  show ?case by (subst previous_slash.simps) simp
next
  case (snoc c t)
  have "(s @ CHR ''/'' # (t @ [c]) @ u) ! (Suc (length s + length t)) = c" by (simp add: nth_append)
  moreover have "previous_slash (s @ CHR ''/'' # t @ (c # u)) (Suc (length s + length t)) = Some (length s)" using snoc by simp
  moreover have "c \<noteq> CHR ''/''" using snoc.prems by auto
  ultimately show ?case by (subst previous_slash.simps) simp
qed

lemma first_index_append: "c \<notin> set s \<Longrightarrow> first_index c (s @ c # t) = Some (length s)"
  by (induction s) auto

lemma package_end_plain:
  assumes "CHR ''/'' \<notin> set simple" and "simple = [] \<or> hd simple \<notin> set ''0123456789''"
  shows "package_end (pkg @ CHR ''/'' # simple) = Some (length pkg)"
proof -
  have "\<not> (Suc (length pkg) < length (pkg @ CHR ''/'' # simple) \<and> (pkg @ CHR ''/'' # simple) ! Suc (length pkg) \<in> set ''0123456789'')"
    using assms(2) by (cases simple) (auto simp: nth_append)
  then show ?thesis unfolding package_end_def last_index_append [OF assms(1)] option.case by (simp only: if_False)
qed

lemma package_end_hidden:
  assumes "CHR ''/'' \<notin> set simple" and "CHR ''/'' \<notin> set suffix" and "suffix \<noteq> []" and "hd suffix \<in> set ''0123456789''"
  shows "package_end (pkg @ CHR ''/'' # simple @ CHR ''/'' # suffix) = Some (length pkg)"
proof -
  let ?cn = "pkg @ CHR ''/'' # simple @ CHR ''/'' # suffix"
  have l: "last_index (CHR ''/'') ?cn = Some (Suc (length pkg + length simple))"
    using last_index_append [OF assms(2), of "pkg @ CHR ''/'' # simple"] by simp
  have "?cn ! Suc (Suc (length pkg + length simple)) = hd suffix" using assms(3) by (simp add: nth_append hd_conv_nth)
  then have "Suc (Suc (length pkg + length simple)) < length ?cn \<and> ?cn ! Suc (Suc (length pkg + length simple)) \<in> set ''0123456789''"
    using assms(3,4) by simp
  then show ?thesis unfolding package_end_def l option.case
    using previous_slash_skip [OF assms(1), of pkg "CHR ''/'' # suffix"] by (simp only: if_True simp_thms)
qed

text \<open>
  The package of a class is what precedes its last \<^verbatim>\<open>/\<close>, or the last but one when a hidden class ends in
  \<^verbatim>\<open>/0x...\<close>, without the prefix of an array type; a class outside of every package gets the number zero and
  leaves the packages alone.
\<close>

theorem getPackage_spec:
  assumes "CHR ''/'' \<notin> set simple" and "hd simple \<notin> set ''0123456789''" and "pkg = [] \<or> hd pkg \<noteq> CHR ''[''"
    and "CHR ''/'' \<notin> set suffix" and "suffix \<noteq> []" and "hd suffix \<in> set ''0123456789''"
    and "set brackets \<subseteq> {CHR ''[''}" and "brackets \<noteq> []" and "simple \<noteq> []"
  shows "getPackage (pkg @ ''/'' @ simple) st = Inr (lookup_package pkg st) \<and>
     getPackage (pkg @ ''/'' @ simple @ ''/'' @ suffix) st = Inr (lookup_package pkg st) \<and>
     getPackage (brackets @ ''L'' @ pkg @ ''/'' @ simple @ '';'') st = Inr (lookup_package pkg st) \<and>
     getPackage simple st = Inr (0, st)"
proof (intro conjI)
  have plain: "hd (pkg @ CHR ''/'' # r) \<noteq> CHR ''[''" for r using assms(3) by (cases pkg) auto
  show "getPackage (pkg @ ''/'' @ simple) st = Inr (lookup_package pkg st)"
    using package_end_plain [OF assms(1), of pkg] assms(2) plain by (simp add: getPackage_def)
  show "getPackage (pkg @ ''/'' @ simple @ ''/'' @ suffix) st = Inr (lookup_package pkg st)"
    using package_end_hidden [OF assms(1,4,5,6), of pkg] plain by (simp add: getPackage_def)
  show "getPackage simple st = Inr (0, st)"
    using assms(1) by (simp add: getPackage_def package_end_def last_index_None [THEN iffD2])
  have b: "hd brackets = CHR ''[''" "CHR ''L'' \<notin> set brackets" using assms(7,8) by (cases brackets; auto)+
  have e: "package_end ((brackets @ ''L'' @ pkg) @ CHR ''/'' # (simple @ '';'')) = Some (length (brackets @ ''L'' @ pkg))"
    by (rule package_end_plain) (use assms(1,2,9) in \<open>auto simp: hd_append\<close>)
  have i: "first_index (CHR ''L'') (brackets @ ''L'' @ pkg @ ''/'' @ simple @ '';'') = Some (length brackets)"
    using first_index_append [OF b(2), of "pkg @ ''/'' @ simple @ '';''"] by simp
  have h: "brackets @ ''L'' @ pkg @ ''/'' @ simple @ '';'' \<noteq> []" "hd (brackets @ ''L'' @ pkg @ ''/'' @ simple @ '';'') = CHR ''[''"
    using b(1) assms(8) by (simp_all add: hd_append)
  have e': "package_end (brackets @ ''L'' @ pkg @ ''/'' @ simple @ '';'') = Some (length brackets + 1 + length pkg)" using e by simp
  show "getPackage (brackets @ ''L'' @ pkg @ ''/'' @ simple @ '';'') st = Inr (lookup_package pkg st)"
    unfolding getPackage_def e' option.case i using h by simp
qed

theorem getPackage_spec_witness:
  "getPackage ''java/lang/String'' demo_lookup = Inr (lookup_package ''java/lang'' demo_lookup) \<and>
   getPackage ''com/example/Foo/0x0123'' demo_lookup = Inr (lookup_package ''com/example'' demo_lookup)"
  using getPackage_spec [of "''String''" "''java/lang''" "''0''" "''[''" demo_lookup]
    getPackage_spec [of "''Foo''" "''com/example''" "''0x0123''" "''[''" demo_lookup] by simp

text \<open>
  The class that is recorded for the generated method accessors of the JDK is spelled with a dot, so that its
  package comes out as \<^verbatim>\<open>jdk/internal\<close>; for the constructor accessors it is \<^verbatim>\<open>jdk/internal/reflect\<close>.
\<close>

theorem accessor_packages:
  "getPackage (fst (java_names (''Ljdk/internal/reflect/GeneratedMethodAccessor'' @ n) mn)) st = Inr (lookup_package ''jdk/internal'' st) \<and>
   getPackage (fst (java_names (''Ljdk/internal/reflect/GeneratedConstructorAccessor'' @ n) mn)) st = Inr (lookup_package ''jdk/internal/reflect'' st)"
proof -
  have "package_end (''jdk/internal'' @ CHR ''/'' # ''reflect.GeneratedMethodAccessor'') = Some (length ''jdk/internal'')"
    by (rule package_end_plain) simp_all
  moreover have "package_end (''jdk/internal/reflect'' @ CHR ''/'' # ''GeneratedConstructorAccessor'') = Some (length ''jdk/internal/reflect'')"
    by (rule package_end_plain) simp_all
  ultimately show ?thesis by (simp add: java_names_def has_prefix_def getPackage_def)
qed

end
