(* ===== verification/Threads.thy ===== *)
theory Threads
  imports Prelude Unwind_Stats "HOL-Library.AList"
begin

text \<open>
  Model of \<^verbatim>\<open>threadInfo.h/.cpp\<close> (names and Java ids of threads) and of \<^verbatim>\<open>thread.h/.cpp\<close> (the thread-local
  state of the profiler).

  A \<^verbatim>\<open>std::map\<close> is an association list with distinct keys. Thread-local objects live in a heap and are named
  by numbers; the thread-local slot of an operating system thread holds such a name. Operations of different
  threads are the steps of a transition system; the mutex of the registry makes its operations atomic. The
  once-only initialisation of the key and the waiting thread that restores the signal handler are not
  modelled: the key exists.
\<close>

section \<open>Names and identifiers\<close>

record thread_info =
  thread_names :: "(int \<times> string) list"
  thread_ids :: "(int \<times> u64) list"

definition new_ThreadInfo :: thread_info where
  "new_ThreadInfo = \<lparr>thread_names = [], thread_ids = []\<rparr>"

definition ti_set :: "int \<Rightarrow> string \<Rightarrow> u64 \<Rightarrow> thread_info \<Rightarrow> thread_info" where
  "ti_set tid name java_id t =
     t\<lparr>thread_names := AList.update tid name (thread_names t), thread_ids := AList.update tid java_id (thread_ids t)\<rparr>"

text \<open>\<^verbatim>\<open>_thread_ids[threadId]\<close> inserts a zero when there is no entry.\<close>

definition ti_get :: "int \<Rightarrow> thread_info \<Rightarrow> (string option \<times> u64) \<times> thread_info" where
  "ti_get tid t =
     (case map_of (thread_names t) tid of
        None \<Rightarrow> ((None, 0), t)
      | Some name \<Rightarrow>
          (case map_of (thread_ids t) tid of
             Some java_id \<Rightarrow> ((Some name, java_id), t)
           | None \<Rightarrow> ((Some name, 0), t\<lparr>thread_ids := AList.update tid 0 (thread_ids t)\<rparr>)))"

definition ti_getThreadId :: "int \<Rightarrow> thread_info \<Rightarrow> int" where
  "ti_getThreadId tid t = (case map_of (thread_ids t) tid of None \<Rightarrow> -1 | Some v \<Rightarrow> s32 (uint v))"

definition ti_clearAll :: "thread_info \<Rightarrow> thread_info" where
  "ti_clearAll t = new_ThreadInfo"

definition ti_clearAll_live :: "int set \<Rightarrow> thread_info \<Rightarrow> thread_info" where
  "ti_clearAll_live live t =
     (if live = {} then new_ThreadInfo
      else t\<lparr>thread_names := filter (\<lambda>(k, _). k \<in> live) (thread_names t),
             thread_ids := filter (\<lambda>(k, _). k \<in> live) (thread_ids t)\<rparr>)"

definition ti_size :: "thread_info \<Rightarrow> nat" where
  "ti_size t = length (thread_names t)"

definition updateThreadName :: "int \<Rightarrow> (int \<Rightarrow> string) \<Rightarrow> thread_info \<Rightarrow> thread_info" where
  "updateThreadName tid resolver t =
     (case map_of (thread_names t) tid of
        Some _ \<Rightarrow> t
      | None \<Rightarrow> if resolver tid \<noteq> [] then t\<lparr>thread_names := AList.update tid (resolver tid) (thread_names t)\<rparr> else t)"

text \<open>The values given to the counters of thread ids and thread names.\<close>

definition ti_reportCounters :: "thread_info \<Rightarrow> nat \<times> nat" where
  "ti_reportCounters t = (length (thread_ids t), length (thread_names t))"

section \<open>Thread-local state\<close>

definition CRASH_HANDLER_NESTING_LIMIT :: nat where "CRASH_HANDLER_NESTING_LIMIT = 5"

record profiled_thread =
  pt_pc :: u64
  span_id :: u64
  crash_depth :: nat
  buffer_pos :: int
  pt_tid :: int
  cpu_epoch :: u32
  wall_epoch :: u32
  call_trace_id :: u32
  recording_epoch :: u32
  unwind_failures_of :: unwind_failures

definition new_ProfiledThread :: "int \<Rightarrow> int \<Rightarrow> profiled_thread" where
  "new_ProfiledThread pos tid =
     \<lparr>pt_pc = 0, span_id = 0, crash_depth = 0, buffer_pos = pos, pt_tid = tid, cpu_epoch = 0, wall_epoch = 0,
      call_trace_id = 0, recording_epoch = 0, unwind_failures_of = new_UnwindFailures\<rparr>"

definition forTid :: "int \<Rightarrow> profiled_thread" where
  "forTid tid = new_ProfiledThread (-1) tid"

definition inBuffer :: "int \<Rightarrow> profiled_thread" where
  "inBuffer pos = new_ProfiledThread pos 0"

definition noteCPUSample :: "u32 \<Rightarrow> profiled_thread \<Rightarrow> u64 \<times> profiled_thread" where
  "noteCPUSample epoch t =
     (let t1 = t\<lparr>recording_epoch := epoch, cpu_epoch := cpu_epoch t + 1\<rparr> in (ucast (cpu_epoch t1), t1))"

definition lookupWallclockCallTraceId :: "u64 \<Rightarrow> u32 \<Rightarrow> u64 \<Rightarrow> profiled_thread \<Rightarrow> u32 \<times> profiled_thread" where
  "lookupWallclockCallTraceId addr epoch span t =
     (if wall_epoch t = cpu_epoch t \<and> pt_pc t = addr \<and> span_id t = span \<and> recording_epoch t = epoch \<and> call_trace_id t \<noteq> 0
      then (call_trace_id t, t)
      else (0, t\<lparr>wall_epoch := cpu_epoch t, pt_pc := addr, recording_epoch := epoch\<rparr>))"

definition recordCallTraceId :: "u32 \<Rightarrow> profiled_thread \<Rightarrow> profiled_thread" where
  "recordCallTraceId i t = t\<lparr>call_trace_id := i\<rparr>"

definition enterCrashHandler :: "profiled_thread \<Rightarrow> bool \<times> profiled_thread" where
  "enterCrashHandler t =
     (if crash_depth t < CRASH_HANDLER_NESTING_LIMIT then (True, t\<lparr>crash_depth := crash_depth t + 1\<rparr>) else (False, t))"

definition exitCrashHandler :: "profiled_thread \<Rightarrow> profiled_thread" where
  "exitCrashHandler t = (if crash_depth t > 0 then t\<lparr>crash_depth := crash_depth t - 1\<rparr> else t)"

definition resetCrashHandler :: "profiled_thread \<Rightarrow> profiled_thread" where
  "resetCrashHandler t = t\<lparr>crash_depth := 0\<rparr>"

definition isDeepCrashHandler :: "profiled_thread \<Rightarrow> bool" where
  "isDeepCrashHandler t \<longleftrightarrow> crash_depth t > CRASH_HANDLER_NESTING_LIMIT"

definition unwindFailures :: "bool \<Rightarrow> profiled_thread \<Rightarrow> unwind_failures \<times> profiled_thread" where
  "unwindFailures reset t =
     (let t1 = (if reset then t\<lparr>unwind_failures_of := clear_failures (unwind_failures_of t)\<rparr> else t)
      in (unwind_failures_of t1, t1))"

section \<open>The slots of all threads\<close>

record tls_state =
  tls :: "int \<Rightarrow> nat option"
  heap :: "nat \<Rightarrow> profiled_thread option"
  fresh :: nat
  slots :: "nat option list"
  running_buffer_pos :: nat

definition initial_tls :: tls_state where
  "initial_tls = \<lparr>tls = (\<lambda>_. None), heap = (\<lambda>_. None), fresh = 0, slots = [], running_buffer_pos = 0\<rparr>"

definition alloc :: "profiled_thread \<Rightarrow> tls_state \<Rightarrow> nat \<times> tls_state" where
  "alloc t s = (fresh s, s\<lparr>heap := (heap s)(fresh s \<mapsto> t), fresh := Suc (fresh s)\<rparr>)"

definition initCurrentThread :: "int \<Rightarrow> tls_state \<Rightarrow> tls_state" where
  "initCurrentThread tid s =
     (case tls s tid of
        Some _ \<Rightarrow> s
      | None \<Rightarrow> (case alloc (forTid tid) s of (ob, s1) \<Rightarrow> s1\<lparr>tls := (tls s1)(tid \<mapsto> ob)\<rparr>))"

text \<open>\<^verbatim>\<open>prepareBuffer\<close>, called once: one preallocated object per slot.\<close>

fun push_slots :: "nat \<Rightarrow> nat \<Rightarrow> tls_state \<Rightarrow> tls_state" where
  "push_slots i 0 s = s"
| "push_slots i (Suc n) s =
     (case alloc (inBuffer (int i)) s of (ob, s1) \<Rightarrow> push_slots (Suc i) n (s1\<lparr>slots := slots s1 @ [Some ob]\<rparr>))"

definition prepareBuffer :: "nat \<Rightarrow> tls_state \<Rightarrow> tls_state" where
  "prepareBuffer n s = push_slots 0 n (s\<lparr>running_buffer_pos := 0\<rparr>)"

text \<open>The size of the buffer is the number of slots; a slot that was released holds NULL.\<close>

definition initCurrentThreadWithBuffer :: "int \<Rightarrow> tls_state \<Rightarrow> tls_state" where
  "initCurrentThreadWithBuffer tid s =
     (case tls s tid of
        Some _ \<Rightarrow> s
      | None \<Rightarrow>
          (let pos = running_buffer_pos s; s1 = s\<lparr>running_buffer_pos := Suc pos\<rparr>
           in if pos < length (slots s1) then
                (case slots s1 ! pos of
                   None \<Rightarrow> s1
                 | Some ob \<Rightarrow>
                     (case heap s1 ob of
                        None \<Rightarrow> s1
                      | Some t \<Rightarrow> s1\<lparr>heap := (heap s1)(ob \<mapsto> t\<lparr>pt_tid := tid\<rparr>), tls := (tls s1)(tid \<mapsto> ob)\<rparr>))
              else s1))"

definition releaseFromBuffer :: "profiled_thread \<Rightarrow> tls_state \<Rightarrow> tls_state" where
  "releaseFromBuffer t s =
     (if buffer_pos t \<ge> 0 then s\<lparr>slots := (slots s)[nat (buffer_pos t) := None]\<rparr> else s)"

definition release :: "int \<Rightarrow> tls_state \<Rightarrow> tls_state" where
  "release tid s =
     (case tls s tid of
        None \<Rightarrow> s
      | Some ob \<Rightarrow>
          (case heap s ob of
             None \<Rightarrow> s
           | Some t \<Rightarrow>
               (let s1 = releaseFromBuffer t s
                in s1\<lparr>heap := (heap s1)(ob := None), tls := (tls s1)(tid := None)\<rparr>)))"

text \<open>The destructor of the key, run at the end of a thread that was not released.\<close>

definition freeKey :: "int \<Rightarrow> tls_state \<Rightarrow> tls_state" where
  "freeKey tid s =
     (case tls s tid of None \<Rightarrow> s | Some ob \<Rightarrow> s\<lparr>heap := (heap s)(ob := None), tls := (tls s)(tid := None)\<rparr>)"

definition current :: "int \<Rightarrow> tls_state \<Rightarrow> profiled_thread option" where
  "current tid s = Option.bind (tls s tid) (heap s)"

definition currentTid :: "int \<Rightarrow> tls_state \<Rightarrow> int" where
  "currentTid tid s = (case current tid s of Some t \<Rightarrow> pt_tid t | None \<Rightarrow> tid)"

definition signalHandler :: "bool \<Rightarrow> int \<Rightarrow> tls_state \<Rightarrow> tls_state" where
  "signalHandler is_usr1 tid s = (if is_usr1 then initCurrentThreadWithBuffer tid s else s)"

text \<open>What threads do with their slots, in any order; \<open>step_own\<close> is any use of the own object that keeps its
  identity.\<close>

inductive tls_step :: "tls_state \<Rightarrow> tls_state \<Rightarrow> bool" where
  step_init: "tls_step s (initCurrentThread tid s)"
| step_signal: "tls_step s (signalHandler usr1 tid s)"
| step_release: "tls_step s (release tid s)"
| step_exit: "tls_step s (freeKey tid s)"
| step_own: "tls s tid = Some ob \<Longrightarrow> heap s ob = Some t \<Longrightarrow> pt_tid t' = pt_tid t \<Longrightarrow> buffer_pos t' = buffer_pos t \<Longrightarrow>
    tls_step s (s\<lparr>heap := (heap s)(ob \<mapsto> t')\<rparr>)"

inductive tls_reachable :: "nat \<Rightarrow> tls_state \<Rightarrow> bool" for n where
  reach_init: "tls_reachable n (prepareBuffer n initial_tls)"
| reach_step: "tls_reachable n s \<Longrightarrow> tls_step s s' \<Longrightarrow> tls_reachable n s'"

section \<open>The registry\<close>

definition wf_info :: "thread_info \<Rightarrow> bool" where
  "wf_info t \<longleftrightarrow> distinct (map fst (thread_names t)) \<and> distinct (map fst (thread_ids t))"

lemma map_of_filter_keys: "map_of (filter (\<lambda>(k, _). k \<in> S) xs) k = (if k \<in> S then map_of xs k else None)"
  by (induction xs) auto

lemma wf_info_ops:
  "wf_info new_ThreadInfo"
  "wf_info t \<Longrightarrow> wf_info (ti_set tid name j t)"
  "wf_info t \<Longrightarrow> wf_info (snd (ti_get tid t))"
  "wf_info t \<Longrightarrow> wf_info (ti_clearAll_live live t)"
  "wf_info t \<Longrightarrow> wf_info (updateThreadName tid resolver t)"
  by (auto simp: wf_info_def new_ThreadInfo_def ti_set_def ti_get_def ti_clearAll_live_def updateThreadName_def
      distinct_update distinct_map_filter split: option.split)

lemma set_get:
  "fst (ti_get tid (ti_set tid' name j t)) = (if tid = tid' then (Some name, j) else fst (ti_get tid t))"
  by (auto simp: ti_get_def ti_set_def update_conv' split: option.split)

lemma clear_live_get:
  "fst (ti_get tid (ti_clearAll_live live t)) = (if tid \<in> live then fst (ti_get tid t) else (None, 0))"
  by (cases "live = {}")
     (auto simp: ti_get_def ti_clearAll_live_def new_ThreadInfo_def map_of_filter_keys split: option.split)

lemma update_name_get:
  "fst (fst (ti_get tid (updateThreadName tid' resolver t))) =
     (case fst (fst (ti_get tid t)) of
        Some n \<Rightarrow> Some n
      | None \<Rightarrow> if tid = tid' \<and> resolver tid \<noteq> [] then Some (resolver tid) else None)"
  by (auto simp: ti_get_def updateThreadName_def update_conv' split: option.split)

text \<open>
  The thread registry: after \<^verbatim>\<open>set\<close>, \<^verbatim>\<open>get\<close> returns the name and the Java id of that thread and what it
  returned before for the others; after \<^verbatim>\<open>clearAll\<close> with a set of live threads exactly these remain;
  \<^verbatim>\<open>updateThreadName\<close> never changes a known name and adds only non-empty ones; and \<^verbatim>\<open>get\<close> itself changes no
  later answer.
\<close>

theorem thread_info_laws:
  "fst (ti_get tid (ti_set tid' name j t)) = (if tid = tid' then (Some name, j) else fst (ti_get tid t))
   \<and> fst (ti_get tid (ti_clearAll_live live t)) = (if tid \<in> live then fst (ti_get tid t) else (None, 0))
   \<and> fst (fst (ti_get tid (updateThreadName tid' resolver t))) =
       (case fst (fst (ti_get tid t)) of
          Some n \<Rightarrow> Some n | None \<Rightarrow> if tid = tid' \<and> resolver tid \<noteq> [] then Some (resolver tid) else None)
   \<and> fst (ti_get tid (snd (ti_get tid' t))) = fst (ti_get tid t)"
proof -
  have "fst (ti_get tid (snd (ti_get tid' t))) = fst (ti_get tid t)"
    by (auto simp: ti_get_def update_conv' split: option.split)
  then show ?thesis using set_get clear_live_get update_name_get by blast
qed

section \<open>The slots\<close>

definition tls_ok :: "tls_state \<Rightarrow> bool" where
  "tls_ok s \<longleftrightarrow>
     (\<forall>tid ob. tls s tid = Some ob \<longrightarrow> (\<exists>t. heap s ob = Some t \<and> pt_tid t = tid \<and> buffer_pos t < int (running_buffer_pos s)))
     \<and> (\<forall>ob. heap s ob \<noteq> None \<longrightarrow> ob < fresh s)
     \<and> (\<forall>i. running_buffer_pos s \<le> i \<longrightarrow> i < length (slots s) \<longrightarrow>
          (\<exists>ob t. slots s ! i = Some ob \<and> heap s ob = Some t \<and> buffer_pos t = int i \<and> (\<forall>tid. tls s tid \<noteq> Some ob)))"

lemma tls_okD:
  assumes "tls_ok s" and "tls s tid = Some ob"
  obtains t where "heap s ob = Some t" and "pt_tid t = tid" and "buffer_pos t < int (running_buffer_pos s)" and "ob < fresh s"
proof -
  obtain t where "heap s ob = Some t" "pt_tid t = tid" "buffer_pos t < int (running_buffer_pos s)"
    using assms unfolding tls_ok_def by blast
  moreover then have "ob < fresh s" using assms(1) unfolding tls_ok_def by blast
  ultimately show ?thesis using that by blast
qed

lemma tls_ok_slotD:
  assumes "tls_ok s" and "running_buffer_pos s \<le> i" and "i < length (slots s)"
  obtains ob t where "slots s ! i = Some ob" and "heap s ob = Some t" and "buffer_pos t = int i" and "\<forall>tid. tls s tid \<noteq> Some ob"
    and "ob < fresh s"
proof -
  obtain ob t where "slots s ! i = Some ob" "heap s ob = Some t" "buffer_pos t = int i" "\<forall>tid. tls s tid \<noteq> Some ob"
    using assms unfolding tls_ok_def by blast
  moreover then have "ob < fresh s" using assms(1) unfolding tls_ok_def by blast
  ultimately show ?thesis using that by blast
qed

lemma tls_okI:
  assumes "\<And>tid ob. tls s tid = Some ob \<Longrightarrow> \<exists>t. heap s ob = Some t \<and> pt_tid t = tid \<and> buffer_pos t < int (running_buffer_pos s)"
    and "\<And>ob. heap s ob \<noteq> None \<Longrightarrow> ob < fresh s"
    and "\<And>i. running_buffer_pos s \<le> i \<Longrightarrow> i < length (slots s) \<Longrightarrow>
          \<exists>ob t. slots s ! i = Some ob \<and> heap s ob = Some t \<and> buffer_pos t = int i \<and> (\<forall>tid. tls s tid \<noteq> Some ob)"
  shows "tls_ok s"
  using assms unfolding tls_ok_def by blast

lemma tls_ok_init:
  assumes "tls_ok s"
  shows "tls_ok (initCurrentThread tid s)"
proof (cases "tls s tid")
  case None
  let ?s = "initCurrentThread tid s"
  have s: "tls ?s = (tls s)(tid \<mapsto> fresh s)" "heap ?s = (heap s)(fresh s \<mapsto> forTid tid)" "fresh ?s = Suc (fresh s)"
      "slots ?s = slots s" "running_buffer_pos ?s = running_buffer_pos s"
    using None by (simp_all add: initCurrentThread_def alloc_def)
  show ?thesis
  proof (rule tls_okI)
    fix a ob assume "tls ?s a = Some ob"
    then show "\<exists>t. heap ?s ob = Some t \<and> pt_tid t = a \<and> buffer_pos t < int (running_buffer_pos ?s)"
      using tls_okD [OF assms, of a ob] unfolding s
      by (cases "a = tid") (auto simp: forTid_def new_ProfiledThread_def)
  next
    fix ob assume "heap ?s ob \<noteq> None"
    then show "ob < fresh ?s" using assms unfolding s tls_ok_def by (cases "ob = fresh s") (auto intro: less_SucI)
  next
    fix i assume "running_buffer_pos ?s \<le> i" "i < length (slots ?s)"
    then obtain ob t where "slots s ! i = Some ob" "heap s ob = Some t" "buffer_pos t = int i" "\<forall>tid. tls s tid \<noteq> Some ob" "ob < fresh s"
      using tls_ok_slotD [OF assms, of i] unfolding s by blast
    then show "\<exists>ob t. slots ?s ! i = Some ob \<and> heap ?s ob = Some t \<and> buffer_pos t = int i \<and> (\<forall>tid. tls ?s tid \<noteq> Some ob)"
      unfolding s by (intro exI [of _ ob] exI [of _ t]) auto
  qed
qed (use assms in \<open>simp add: initCurrentThread_def\<close>)

lemma tls_ok_remove:
  assumes ok: "tls_ok s" and ob: "tls s tid = Some ob"
    and sl: "length sl = length (slots s)" "\<forall>i. running_buffer_pos s \<le> i \<longrightarrow> sl ! i = slots s ! i"
  shows "tls_ok (s\<lparr>slots := sl, heap := (heap s)(ob := None), tls := (tls s)(tid := None)\<rparr>)" (is "tls_ok ?s")
proof (rule tls_okI)
  have other: "a \<noteq> tid \<longrightarrow> ob' \<noteq> ob" if a: "tls s a = Some ob'" for a ob'
    using tls_okD [OF ok a] tls_okD [OF ok ob] by (metis option.inject)
  show "\<exists>t. heap ?s ob' = Some t \<and> pt_tid t = a \<and> buffer_pos t < int (running_buffer_pos ?s)"
    if a: "tls ?s a = Some ob'" for a ob'
    using a other [of a ob'] tls_okD [OF ok, of a ob'] by (cases "a = tid") auto
  show "ob' < fresh ?s" if "heap ?s ob' \<noteq> None" for ob'
    using that ok unfolding tls_ok_def by (cases "ob' = ob") auto
  fix i assume i: "running_buffer_pos ?s \<le> i" "i < length (slots ?s)"
  then obtain o' t where o': "slots s ! i = Some o'" "heap s o' = Some t" "buffer_pos t = int i" "\<forall>tid. tls s tid \<noteq> Some o'"
    using tls_ok_slotD [OF ok, of i] sl(1) by (metis select_convs(4) select_convs(5) surjective update_convs(1,2,4))
  moreover have "o' \<noteq> ob" using o'(4) ob by blast
  moreover have "sl ! i = slots s ! i" using sl(2) i by simp
  ultimately show "\<exists>o' t. slots ?s ! i = Some o' \<and> heap ?s o' = Some t \<and> buffer_pos t = int i \<and> (\<forall>a. tls ?s a \<noteq> Some o')"
    by (intro exI [of _ o'] exI [of _ t]) simp
qed

lemma tls_ok_exit:
  assumes "tls_ok s"
  shows "tls_ok (freeKey tid s)"
proof (cases "tls s tid")
  case (Some ob)
  from tls_ok_remove [OF assms Some, of "slots s"] Some show ?thesis by (simp add: freeKey_def)
qed (use assms in \<open>simp add: freeKey_def\<close>)

lemma tls_ok_release:
  assumes "tls_ok s"
  shows "tls_ok (release tid s)"
proof (cases "tls s tid")
  case (Some ob)
  obtain t where t: "heap s ob = Some t" "buffer_pos t < int (running_buffer_pos s)" using tls_okD [OF assms Some] by metis
  show ?thesis
  proof (cases "0 \<le> buffer_pos t")
    case True
    have "(slots s)[nat (buffer_pos t) := None] ! i = slots s ! i" if "running_buffer_pos s \<le> i" for i
      using that t(2) True by (intro nth_list_update_neq) linarith
    with tls_ok_remove [OF assms Some, of "(slots s)[nat (buffer_pos t) := None]"] Some t(1) True show ?thesis
      by (simp add: release_def releaseFromBuffer_def Let_def)
  next
    case False
    with tls_ok_remove [OF assms Some, of "slots s"] Some t(1) show ?thesis
      by (simp add: release_def releaseFromBuffer_def Let_def)
  qed
qed (use assms in \<open>simp add: release_def\<close>)

lemma tls_ok_buffer:
  assumes "tls_ok s"
  shows "tls_ok (initCurrentThreadWithBuffer tid s)"
proof (cases "tls s tid")
  case None
  let ?p = "running_buffer_pos s"
  have mono: "tls_ok (s\<lparr>running_buffer_pos := Suc ?p\<rparr>)"
    using assms unfolding tls_ok_def by (auto simp: less_Suc_eq) (metis Suc_leD of_nat_Suc less_add_one order_less_trans add.commute)+
  show ?thesis
  proof (cases "?p < length (slots s)")
    case False
    with None mono show ?thesis by (simp add: initCurrentThreadWithBuffer_def Let_def)
  next
    case True
    obtain ob t where ob: "slots s ! ?p = Some ob" "heap s ob = Some t" "buffer_pos t = int ?p" "\<forall>a. tls s a \<noteq> Some ob"
      using tls_ok_slotD [OF assms order_refl True] by blast
    let ?s = "initCurrentThreadWithBuffer tid s"
    have s: "tls ?s = (tls s)(tid \<mapsto> ob)" "heap ?s = (heap s)(ob \<mapsto> t\<lparr>pt_tid := tid\<rparr>)" "fresh ?s = fresh s"
        "slots ?s = slots s" "running_buffer_pos ?s = Suc ?p"
      using None True ob by (simp_all add: initCurrentThreadWithBuffer_def Let_def)
    show ?thesis
    proof (rule tls_okI)
      fix a ob' assume a: "tls ?s a = Some ob'"
      show "\<exists>t. heap ?s ob' = Some t \<and> pt_tid t = a \<and> buffer_pos t < int (running_buffer_pos ?s)"
      proof (cases "a = tid")
        case True
        then show ?thesis using a ob unfolding s by simp
      next
        case False
        then have a': "tls s a = Some ob'" using a unfolding s by simp
        then have "ob' \<noteq> ob" using ob(4) by blast
        with tls_okD [OF assms a'] show ?thesis unfolding s by force
      qed
    next
      fix ob' assume "heap ?s ob' \<noteq> None"
      then show "ob' < fresh ?s" using assms ob(2) unfolding s tls_ok_def by (cases "ob' = ob") auto
    next
      fix i assume "running_buffer_pos ?s \<le> i" "i < length (slots ?s)"
      then have i: "?p \<le> i" "i < length (slots s)" "i \<noteq> ?p" unfolding s by simp_all
      obtain o' t' where o': "slots s ! i = Some o'" "heap s o' = Some t'" "buffer_pos t' = int i" "\<forall>a. tls s a \<noteq> Some o'"
        using tls_ok_slotD [OF assms i(1,2)] by blast
      have "o' \<noteq> ob" using o' ob i(3) by auto
      then show "\<exists>ob t. slots ?s ! i = Some ob \<and> heap ?s ob = Some t \<and> buffer_pos t = int i \<and> (\<forall>tid. tls ?s tid \<noteq> Some ob)"
        unfolding s using o' by (intro exI [of _ o'] exI [of _ t']) simp
    qed
  qed
qed (use assms in \<open>simp add: initCurrentThreadWithBuffer_def\<close>)
lemma push_slots_state:
  "fresh s = i \<Longrightarrow> slots s = map Some [0..<i] \<Longrightarrow> heap s = (\<lambda>k. if k < i then Some (inBuffer (int k)) else None) \<Longrightarrow>
     push_slots i n s = s\<lparr>fresh := i + n, slots := map Some [0..<i + n],
       heap := (\<lambda>k. if k < i + n then Some (inBuffer (int k)) else None)\<rparr>"
proof (induction n arbitrary: i s)
  case (Suc n)
  let ?s = "s\<lparr>heap := (heap s)(i \<mapsto> inBuffer (int i)), fresh := Suc i, slots := slots s @ [Some i]\<rparr>"
  have "push_slots i (Suc n) s = push_slots (Suc i) n ?s" using Suc.prems(1) by (simp add: alloc_def)
  also have "\<dots> = ?s\<lparr>fresh := Suc i + n, slots := map Some [0..<Suc i + n],
      heap := (\<lambda>k. if k < Suc i + n then Some (inBuffer (int k)) else None)\<rparr>"
    by (rule Suc.IH) (use Suc.prems in \<open>auto simp: less_Suc_eq fun_eq_iff\<close>)
  finally show ?case by simp
qed simp

lemma prepare_state:
  "prepareBuffer n initial_tls = initial_tls\<lparr>fresh := n, slots := map Some [0..<n],
      heap := (\<lambda>k. if k < n then Some (inBuffer (int k)) else None)\<rparr>"
proof -
  have "prepareBuffer n initial_tls = initial_tls\<lparr>running_buffer_pos := 0, fresh := 0 + n, slots := map Some [0..<0 + n],
      heap := (\<lambda>k. if k < 0 + n then Some (inBuffer (int k)) else None)\<rparr>"
    unfolding prepareBuffer_def by (rule push_slots_state) (simp_all add: initial_tls_def)
  then show ?thesis by (simp add: initial_tls_def)
qed

lemma tls_ok_prepare: "tls_ok (prepareBuffer n initial_tls)"
  unfolding prepare_state by (simp add: tls_ok_def initial_tls_def inBuffer_def new_ProfiledThread_def)

lemma tls_ok_own:
  assumes ok: "tls_ok s" and own: "tls s tid = Some ob" "heap s ob = Some t" "pt_tid t' = pt_tid t" "buffer_pos t' = buffer_pos t"
  shows "tls_ok (s\<lparr>heap := (heap s)(ob \<mapsto> t')\<rparr>)" (is "tls_ok ?s")
proof (rule tls_okI)
  fix a ob' assume "tls ?s a = Some ob'"
  then have "tls s a = Some ob'" by simp
  then obtain u where "heap s ob' = Some u" "pt_tid u = a" "buffer_pos u < int (running_buffer_pos s)"
    using tls_okD [OF ok] by metis
  then show "\<exists>t. heap ?s ob' = Some t \<and> pt_tid t = a \<and> buffer_pos t < int (running_buffer_pos ?s)"
    using own by (cases "ob' = ob") auto
next
  fix ob' assume "heap ?s ob' \<noteq> None"
  then show "ob' < fresh ?s" using ok own(2) unfolding tls_ok_def by (cases "ob' = ob") auto
next
  fix i assume "running_buffer_pos ?s \<le> i" "i < length (slots ?s)"
  then have i: "running_buffer_pos s \<le> i" "i < length (slots s)" by simp_all
  obtain o' u where o': "slots s ! i = Some o'" "heap s o' = Some u" "buffer_pos u = int i" "\<forall>tid. tls s tid \<noteq> Some o'"
    using tls_ok_slotD [OF ok i] by blast
  then have "o' \<noteq> ob" using own(1) by blast
  then show "\<exists>ob t. slots ?s ! i = Some ob \<and> heap ?s ob = Some t \<and> buffer_pos t = int i \<and> (\<forall>tid. tls ?s tid \<noteq> Some ob)"
    using o' by (intro exI [of _ o'] exI [of _ u]) simp
qed

lemma tls_ok_step: "tls_step s s' \<Longrightarrow> tls_ok s \<Longrightarrow> tls_ok s'"
  by (induction rule: tls_step.induct)
     (auto simp: signalHandler_def intro: tls_ok_init tls_ok_buffer tls_ok_release tls_ok_exit tls_ok_own)

lemma tls_reachable_ok: "tls_reachable n s \<Longrightarrow> tls_ok s"
  by (induction rule: tls_reachable.induct) (auto intro: tls_ok_prepare tls_ok_step)



section \<open>The wall-clock cache and the crash handler\<close>

text \<open>Everything a thread does with its own object.\<close>

datatype thread_op = Note_CPU u32 | Lookup_Wall u64 u32 u64 | Record_Trace u32 | Enter_Crash | Exit_Crash | Reset_Crash

fun apply_op :: "thread_op \<Rightarrow> profiled_thread \<Rightarrow> profiled_thread" where
  "apply_op (Note_CPU e) t = snd (noteCPUSample e t)"
| "apply_op (Lookup_Wall a e sp) t = snd (lookupWallclockCallTraceId a e sp t)"
| "apply_op (Record_Trace i) t = recordCallTraceId i t"
| "apply_op Enter_Crash t = snd (enterCrashHandler t)"
| "apply_op Exit_Crash t = exitCrashHandler t"
| "apply_op Reset_Crash t = resetCrashHandler t"

lemma apply_op_span: "span_id (apply_op p t) = span_id t"
  by (cases p) (simp_all add: noteCPUSample_def lookupWallclockCallTraceId_def recordCallTraceId_def enterCrashHandler_def
      exitCrashHandler_def resetCrashHandler_def Let_def)

lemma apply_op_depth: "crash_depth t \<le> 5 \<Longrightarrow> crash_depth (apply_op p t) \<le> 5"
  by (cases p) (auto simp: noteCPUSample_def lookupWallclockCallTraceId_def recordCallTraceId_def enterCrashHandler_def
      exitCrashHandler_def resetCrashHandler_def CRASH_HANDLER_NESTING_LIMIT_def Let_def)

lemma apply_ops_keep:
  "span_id (fold apply_op ps t) = span_id t" "crash_depth t \<le> 5 \<Longrightarrow> crash_depth (fold apply_op ps t) \<le> 5"
  by (induction ps arbitrary: t) (simp_all add: apply_op_span apply_op_depth)

text \<open>
  Whatever a thread has done, a wall-clock lookup with a span id other than zero misses the cache of the
  last call trace, because no operation ever stores the span id; and the nesting of the crash handler never
  exceeds its limit, so \<^verbatim>\<open>isDeepCrashHandler\<close> is never true.
\<close>

theorem wallclock_cache_ignores_spans:
  assumes "span \<noteq> 0"
  shows "fst (lookupWallclockCallTraceId addr epoch span (fold apply_op ps (new_ProfiledThread pos tid))) = 0
     \<and> \<not> isDeepCrashHandler (fold apply_op ps (new_ProfiledThread pos tid))"
proof -
  let ?t = "fold apply_op ps (new_ProfiledThread pos tid)"
  have "span_id ?t = 0" "crash_depth ?t \<le> 5"
    by (simp_all add: apply_ops_keep new_ProfiledThread_def)
  then show ?thesis
    using assms by (simp add: lookupWallclockCallTraceId_def isDeepCrashHandler_def CRASH_HANDLER_NESTING_LIMIT_def)
qed

theorem wallclock_cache_ignores_spans_witness:
  "fst (lookupWallclockCallTraceId 7 1 5 (fold apply_op [Lookup_Wall 7 1 5, Record_Trace 3] (new_ProfiledThread 0 1))) = 0"
  using wallclock_cache_ignores_spans [of 5 7 1 "[Lookup_Wall 7 1 5, Record_Trace 3]" 0 1] by simp

end
