(* ===== verification/Constant_Pool.thy ===== *)
theory Constant_Pool
  imports Metadata_Event Method_Lookup Thread_Filter Threads
begin

text \<open>
  Model of \<^verbatim>\<open>Recording::writeCpool\<close> and of the sections it writes (\<^verbatim>\<open>flightRecorder.cpp\<close>): the constants that the
  events of a chunk refer to by number, from the frame types to the log levels.

  The stack traces are an argument, in the order of their numbers, as the call trace storage collects them; so are
  the dictionaries of the labels and of the context values. A \<^verbatim>\<open>Lookup\<close> with new dictionaries for the symbols and the
  packages exists while the pool is written.
\<close>

unbundle bit_operations_syntax

section \<open>State\<close>

datatype cpool_error = BufferError buffer_error | DemangleError demangle_error | PackageError package_error
  | FilterError filter_error

type_synonym lookup_op = "lookup_state \<times> sink \<Rightarrow> cpool_error + lookup_state \<times> sink"

definition in_sink :: "sink_op \<Rightarrow> lookup_op" where
  "in_sink op = (\<lambda>(lk, s). case op s of Inl e \<Rightarrow> Inl (BufferError e) | Inr s1 \<Rightarrow> Inr (lk, s1))"

text \<open>A \<^verbatim>\<open>std::map\<close> that a dictionary is collected into: in the order of the numbers.\<close>

definition collected_list :: "dictionary \<Rightarrow> (u32 \<times> string) list" where
  "collected_list d = map (\<lambda>i. (i, the (collect d i))) (sorted_list_of_set (set (map fst (collect_table (table d)))))"

section \<open>Sections with fixed contents\<close>

definition constant_ops :: "buffer_op \<Rightarrow> u8 list option \<Rightarrow> sink_op list" where
  "constant_ops key name = [on_buf key, on_buf (putUtf8 name)]"

definition frame_type_names :: "(nat \<times> string) list" where
  "frame_type_names =
     [(FRAME_INTERPRETED, ''Interpreted''), (FRAME_JIT_COMPILED, ''JIT compiled''), (FRAME_INLINED, ''Inlined''),
      (FRAME_NATIVE, ''Native''), (FRAME_CPP, ''C++''), (FRAME_KERNEL, ''Kernel''), (FRAME_C1_COMPILED, ''C1 compiled'')]"

definition writeFrameTypes :: "os_write \<Rightarrow> sink_op" where
  "writeFrameTypes w =
     run_ops ([on_buf (putVar32 (word_of_nat (jfr_id T_FRAME_TYPE))), on_buf (putVar32 7)]
       @ concat (map (\<lambda>(t, n). constant_ops (putVar32 (word_of_nat t)) (cstr n)) frame_type_names)
       @ [flush_op w JFR_EVENT_FLUSH_THRESHOLD])"

definition thread_state_names :: "(OSThreadState \<times> string) list" where
  "thread_state_names =
     [(OS_UNKNOWN, ''UNKNOWN''), (OS_NEW, ''NEW''), (OS_RUNNABLE, ''RUNNABLE''), (OS_MONITOR_WAIT, ''CONTENDED''),
      (OS_CONDVAR_WAIT, ''PARKED''), (OS_OBJECT_WAIT, ''WAITING''), (OS_BREAKPOINTED, ''BREAKPOINT''), (OS_SLEEPING, ''SLEEPING''),
      (OS_TERMINATED, ''TERMINATED''), (OS_SYSCALL, ''SYSCALL'')]"

definition writeThreadStates :: "os_write \<Rightarrow> sink_op" where
  "writeThreadStates w =
     run_ops ([on_buf (putType T_THREAD_STATE), on_buf (put8 10)]
       @ concat (map (\<lambda>(t, n). constant_ops (put8 (word_of_nat (os_state_code t))) (cstr n)) thread_state_names)
       @ [flush_op w JFR_EVENT_FLUSH_THRESHOLD])"

definition execution_mode_names :: "(ExecutionMode \<times> string) list" where
  "execution_mode_names =
     [(EM_UNKNOWN, ''UNKNOWN''), (EM_JAVA, ''JAVA''), (EM_JVM, ''JVM''), (EM_NATIVE, ''NATIVE''), (EM_SAFEPOINT, ''SAFEPOINT''),
      (EM_SYSCALL, ''SYSCALL'')]"

definition writeExecutionModes :: "os_write \<Rightarrow> sink_op" where
  "writeExecutionModes w =
     run_ops ([on_buf (putType T_EXECUTION_MODE), on_buf (put8 6)]
       @ concat (map (\<lambda>(t, n). constant_ops (put8 (word_of_nat (execution_mode_code t))) (cstr n)) execution_mode_names)
       @ [flush_op w JFR_EVENT_FLUSH_THRESHOLD])"

definition LEVEL_NAME :: "string list" where
  "LEVEL_NAME = [''TRACE'', ''DEBUG'', ''INFO'', ''WARN'', ''ERROR'', ''NONE'']"

definition writeLogLevels :: "os_write \<Rightarrow> sink_op" where
  "writeLogLevels w =
     run_ops ([on_buf (putType T_LOG_LEVEL), on_buf (putVar64 5)]
       @ concat (map (\<lambda>i. constant_ops (putVar32 (word_of_nat i)) (cstr (LEVEL_NAME ! i)) @ [flush_op w JFR_EVENT_FLUSH_THRESHOLD]) [0..<5]))"

section \<open>Threads\<close>

text \<open>The name and the Java identifier of a thread; one that is not known is named after its number.\<close>

definition thread_of :: "int \<Rightarrow> thread_info \<Rightarrow> (string \<times> u64) \<times> thread_info" where
  "thread_of tid ti =
     (case ti_get tid ti of
        ((Some name, java_id), ti1) \<Rightarrow> ((name, java_id), ti1)
      | ((None, _), ti1) \<Rightarrow> ((''[tid='' @ dec_int tid @ '']'', 0), ti1))"

definition thread_ops :: "os_write \<Rightarrow> int \<Rightarrow> string \<times> u64 \<Rightarrow> sink_op list" where
  "thread_ops w tid = (\<lambda>(name, java_id).
     let nm = cbytes name; len = length name in
     [flush_op w (int RECORDING_BUFFER_LIMIT - (if java_id = 0 then int len + 1 else 2 * int len) - 30),
      on_buf (run_ops [putVar64_int tid, putUtf8_len nm (word_of_nat len), putVar64_int tid,
               if java_id = 0 then put8 0 else putUtf8_len nm (word_of_nat len), putVar64 java_id]),
      flush_op w JFR_EVENT_FLUSH_THRESHOLD])"

fun threads_loop :: "os_write \<Rightarrow> int list \<Rightarrow> thread_info \<Rightarrow> sink_op list \<times> thread_info" where
  "threads_loop w [] ti = ([], ti)"
| "threads_loop w (tid # tids) ti =
     (case thread_of tid ti of (t, ti1) \<Rightarrow> case threads_loop w tids ti1 of (ops, ti2) \<Rightarrow> (thread_ops w tid t @ ops, ti2))"

definition writeThreads ::
  "os_write \<Rightarrow> bool \<Rightarrow> int \<Rightarrow> filter_st \<times> thread_info \<Rightarrow> sink \<Rightarrow> cpool_error + (filter_st \<times> thread_info) \<times> sink" where
  "writeThreads w grant tid = (\<lambda>(fst0, ti) s.
     case filter_add grant (word_of_int tid) fst0 of
       Inl e \<Rightarrow> Inl (FilterError e)
     | Inr (f, cs) \<Rightarrow>
         (let threads = filter_collect f; fst1 = (filter_clear f, cs) in
          case threads_loop w threads ti of (ops, ti1) \<Rightarrow>
            (case run_ops ([on_buf (putType T_THREAD), on_buf (putVar64 (word_of_nat (length threads)))] @ ops) s of
               Inl e \<Rightarrow> Inl (BufferError e)
             | Inr s1 \<Rightarrow> Inr ((fst1, ti1), s1))))"

section \<open>Stack traces\<close>

text \<open>The byte code index of a Java frame, and the bytes of a frame.\<close>

definition java_bci :: "u32 \<Rightarrow> u32" where
  "java_bci b = (if b AND 0x10000 \<noteq> 0 then 0 else b AND 0xffff)"

definition frame_puts :: "method_info \<Rightarrow> frame \<Rightarrow> buffer_op list" where
  "frame_puts mi f =
     putVar64_u32 (mi_key mi) #
     (if mi_type mi < FRAME_NATIVE
      then [putVar32 (word_of_int (getLineNumber mi (sint (java_bci (bci f))))), putVar32 (java_bci (bci f)),
            put8 (word_of_nat (decode_frame_type (bci f)))]
      else [putVar32 0, putVar32 (bci f), put8 (word_of_nat (mi_type mi))])"

fun write_frames :: "os_write \<Rightarrow> vm_env \<Rightarrow> frame list \<Rightarrow> lookup_op" where
  "write_frames w env [] st = Inr st"
| "write_frames w env (f # fs) (lk, s) =
     (case resolveMethod env f lk of
        Inl e \<Rightarrow> Inl (DemangleError e)
      | Inr (mi, lk1) \<Rightarrow>
          (case run_ops [on_buf (run_ops (frame_puts mi f)), flush_op w JFR_EVENT_FLUSH_THRESHOLD] s of
             Inl e \<Rightarrow> Inl (BufferError e)
           | Inr s1 \<Rightarrow> write_frames w env fs (lk1, s1)))"

definition trace_flag :: "method_info \<Rightarrow> call_trace \<Rightarrow> u8" where
  "trace_flag mi t =
     (if mi_type mi < FRAME_NATIVE then if mi_is_entry mi then 0 else 1 else if truncated t then 1 else 0)"

definition write_trace :: "os_write \<Rightarrow> vm_env \<Rightarrow> u32 \<times> call_trace \<Rightarrow> lookup_op" where
  "write_trace w env = (\<lambda>(i, t) (lk, s).
     (let count = on_buf (putVar64 (word_of_nat (length (frames t)))) in
      case (if frames t = [] then Inr (lk, [on_buf (putVar64_u32 i), count])
            else case resolveMethod env (last (frames t)) lk of
                   Inl e \<Rightarrow> Inl (DemangleError e)
                 | Inr (mi, lk1) \<Rightarrow> Inr (lk1, [on_buf (putVar64_u32 i), on_buf (put8 (trace_flag mi t)), count])) of
        Inl e \<Rightarrow> Inl e
      | Inr (lk1, ops) \<Rightarrow>
          run_ops [in_sink (run_ops ops), write_frames w env (frames t), in_sink (flush_op w JFR_EVENT_FLUSH_THRESHOLD)] (lk1, s)))"

definition writeStackTraces :: "os_write \<Rightarrow> vm_env \<Rightarrow> (u32 \<times> call_trace) list \<Rightarrow> lookup_op" where
  "writeStackTraces w env trs =
     run_ops ([in_sink (on_buf (putType T_STACK_TRACE)), in_sink (on_buf (putVar64 (word_of_nat (length trs))))]
       @ map (write_trace w env) trs)"

section \<open>Methods, classes and packages\<close>

definition method_puts :: "u64 \<Rightarrow> method_info \<Rightarrow> buffer_op list" where
  "method_puts base_id mi =
     [putVar64_u32 (mi_key mi), putVar64_u32 (mi_class mi), putVar64 (ucast (mi_name mi) OR base_id), putVar64 (ucast (mi_sig mi) OR base_id),
      putVar64_int (mi_modifiers mi), putVar64 (if isHidden mi then 1 else 0)]"

definition marked_methods :: "method_map \<Rightarrow> method_info list" where
  "marked_methods mm = filter mi_mark (map snd mm)"

definition unmark_methods :: "method_map \<Rightarrow> method_map" where
  "unmark_methods mm = map (\<lambda>(m, mi). (m, mi\<lparr>mi_mark := False\<rparr>)) mm"

definition writeMethods :: "os_write \<Rightarrow> u64 \<Rightarrow> lookup_op" where
  "writeMethods w base_id = (\<lambda>(lk, s).
     (let ms = marked_methods (lk_methods lk) in
      in_sink (run_ops ([on_buf (putType T_METHOD), on_buf (putVar64_u32 (word_of_nat (length ms)))]
          @ concat (map (\<lambda>mi. [on_buf (run_ops (method_puts base_id mi)), flush_op w JFR_EVENT_FLUSH_THRESHOLD]) ms)))
        (lk\<lparr>lk_methods := unmark_methods (lk_methods lk)\<rparr>, s)))"

definition write_class :: "os_write \<Rightarrow> u64 \<Rightarrow> u32 \<times> string \<Rightarrow> lookup_op" where
  "write_class w base_id = (\<lambda>(i, name) (lk, s).
     case getSymbol name lk of (sy, lk1) \<Rightarrow>
     case getPackage name lk1 of
       Inl e \<Rightarrow> Inl (PackageError e)
     | Inr (pkg, lk2) \<Rightarrow>
         in_sink (run_ops [on_buf (run_ops [putVar64_u32 i, putVar64 0, putVar64 (ucast sy OR base_id), putVar64 (ucast pkg OR base_id), putVar64 0]),
                    flush_op w JFR_EVENT_FLUSH_THRESHOLD]) (lk2, s))"

definition writeClasses :: "os_write \<Rightarrow> u64 \<Rightarrow> lookup_op" where
  "writeClasses w base_id = (\<lambda>(lk, s).
     (let classes = collected_list (lk_classes lk) in
      run_ops ([in_sink (on_buf (putType T_CLASS)), in_sink (on_buf (putVar64 (word_of_nat (length classes))))]
        @ map (write_class w base_id) classes) (lk, s)))"

definition write_package :: "os_write \<Rightarrow> u64 \<Rightarrow> u32 \<times> string \<Rightarrow> lookup_op" where
  "write_package w base_id = (\<lambda>(i, name) (lk, s).
     case getSymbol name lk of (sy, lk1) \<Rightarrow>
       in_sink (run_ops [on_buf (run_ops [putVar64 (ucast i OR base_id), putVar64 (ucast sy OR base_id)]),
                  flush_op w JFR_EVENT_FLUSH_THRESHOLD]) (lk1, s))"

definition writePackages :: "os_write \<Rightarrow> u64 \<Rightarrow> lookup_op" where
  "writePackages w base_id = (\<lambda>(lk, s).
     (let packages = collected_list (lk_packages lk) in
      run_ops ([in_sink (on_buf (putVar32 (word_of_nat (jfr_id T_PACKAGE)))), in_sink (on_buf (putVar32 (word_of_nat (length packages))))]
        @ map (write_package w base_id) packages) (lk, s)))"

section \<open>Sections of strings\<close>

definition string_constant_ops :: "os_write \<Rightarrow> u64 \<Rightarrow> u32 \<times> string \<Rightarrow> sink_op list" where
  "string_constant_ops w base_id = (\<lambda>(i, str).
     [flush_op w (int RECORDING_BUFFER_LIMIT - int (length str) - 5),
      on_buf (run_ops [putVar64 (ucast i OR base_id), putUtf8_len (cbytes str) (word_of_nat (length str))])])"

definition writeConstantPoolSection :: "os_write \<Rightarrow> u64 \<Rightarrow> JfrType \<Rightarrow> (u32 \<times> string) list \<Rightarrow> sink_op" where
  "writeConstantPoolSection w base_id t constants =
     run_ops ([flush_op w JFR_EVENT_FLUSH_THRESHOLD, on_buf (putType t), on_buf (putVar64 (word_of_nat (length constants)))]
       @ concat (map (string_constant_ops w base_id) constants))"

definition writeDictionarySection :: "os_write \<Rightarrow> u64 \<Rightarrow> JfrType \<Rightarrow> dictionary \<Rightarrow> sink_op" where
  "writeDictionarySection w base_id t d = writeConstantPoolSection w base_id t (collected_list d)"

section \<open>The constant pool\<close>

text \<open>What the recording and the profiler keep from one pool to the next, and what only this pool is written from.\<close>

record pool_state =
  ps_filter :: thread_filter
  ps_info :: thread_info
  ps_methods :: method_map
  ps_classes :: dictionary
  ps_counters :: counters

record pool_source =
  pl_grant :: bool
  pl_env :: vm_env
  pl_traces :: "(u32 \<times> call_trace) list"
  pl_labels :: dictionary
  pl_values :: dictionary
  pl_base_id :: u64

definition new_Lookup :: "pool_state \<Rightarrow> lookup_state" where
  "new_Lookup ps =
     (case new_dictionary 0 (ps_counters ps) of (pk, cs) \<Rightarrow> case new_dictionary 0 cs of (sy, cs1) \<Rightarrow>
        \<lparr>lk_methods = ps_methods ps, lk_classes = ps_classes ps, lk_packages = pk, lk_symbols = sy, lk_counters = cs1\<rparr>)"

definition delete_dictionary :: "dictionary \<Rightarrow> counters \<Rightarrow> counters" where
  "delete_dictionary d cs = counter_set DICTIONARY_PAGES 0 (dict_id d) (counter_set DICTIONARY_BYTES 0 (dict_id d) cs)"

definition writeCpool :: "os_write \<Rightarrow> rec_times \<Rightarrow> pool_source \<Rightarrow> pool_state \<times> sink \<Rightarrow> cpool_error + pool_state \<times> sink" where
  "writeCpool w rt pl = (\<lambda>(ps, s).
     case skip 5 (sk_buf s) of
       Inl e \<Rightarrow> Inl (BufferError e)
     | Inr (_, b) \<Rightarrow>
         (case run_ops ([on_buf (run_ops [putType T_CPOOL, putVar64 (rt_start_ticks rt), put8 0, put8 0, put8 1, put8 12])]
                 @ [writeFrameTypes w, writeThreadStates w, writeExecutionModes w]) (s\<lparr>sk_buf := b\<rparr>) of
            Inl e \<Rightarrow> Inl (BufferError e)
          | Inr s1 \<Rightarrow>
              (let lk0 = new_Lookup ps in
               case writeThreads w (pl_grant pl) (rt_tid rt) ((ps_filter ps, lk_counters lk0), ps_info ps) s1 of
                 Inl e \<Rightarrow> Inl e
               | Inr (((f, cs), ti), s2) \<Rightarrow>
                   (case run_ops [writeStackTraces w (pl_env pl) (pl_traces pl), writeMethods w (pl_base_id pl),
                                  writeClasses w (pl_base_id pl), writePackages w (pl_base_id pl)] (lk0\<lparr>lk_counters := cs\<rparr>, s2) of
                      Inl e \<Rightarrow> Inl e
                    | Inr (lk, s3) \<Rightarrow>
                        (case run_ops [writeDictionarySection w (pl_base_id pl) T_SYMBOL (lk_symbols lk),
                                       writeDictionarySection w (pl_base_id pl) T_STRING (pl_labels pl),
                                       writeDictionarySection w (pl_base_id pl) T_ATTRIBUTE_VALUE (pl_values pl),
                                       writeLogLevels w, flush_op w JFR_EVENT_FLUSH_THRESHOLD] s3 of
                           Inl e \<Rightarrow> Inl (BufferError e)
                         | Inr s4 \<Rightarrow>
                             Inr (\<lparr>ps_filter = f, ps_info = ti, ps_methods = lk_methods lk, ps_classes = lk_classes lk,
                                   ps_counters = delete_dictionary (lk_packages lk) (delete_dictionary (lk_symbols lk) (lk_counters lk))\<rparr>, s4))))))"


section \<open>Reading a section\<close>

definition read_constant :: "jfr_kind list \<Rightarrow> (nat \<times> jfr_value list) reader" where
  "read_constant ks = then_read jfr_read_long (\<lambda>k. then_read (read_fields ks) (\<lambda>vs. read_nothing (k, vs)))"

definition read_section :: "jfr_kind list \<Rightarrow> JfrType \<Rightarrow> (nat \<times> jfr_value list) list reader" where
  "read_section ks t =
     then_read jfr_read_long (\<lambda>i. if i \<noteq> jfr_id t then (\<lambda>bs. None) else then_read jfr_read_long (\<lambda>n. read_many n (read_constant ks)))"

lemma reads_constant:
  assumes "reads (KVar # ks) bs (VNum k # vs)"
  shows "reads_as (read_constant ks) bs (k, vs)"
  unfolding reads_as_def
proof
  fix rest
  have "read_fields (KVar # ks) (bs @ rest) = Some (VNum k # vs, rest)" using assms by (simp add: reads_def reads_as_def)
  then obtain r where "jfr_read_long (bs @ rest) = Some (k, r)" "read_fields ks r = Some (vs, rest)"
    unfolding read_fields_def by (auto split: option.splits)
  then show "read_constant ks (bs @ rest) = Some ((k, vs), rest)" by (simp add: read_constant_def then_read_def read_nothing_def)
qed

lemma fields_constant:
  assumes "fields_op n m (KVar # ks) (VNum k # vs) ops"
  shows "\<exists>bs. appends n bs (run_ops ops) \<and> reads_as (read_constant ks) bs (k, vs)"
  using assms reads_constant by (fastforce simp: fields_op_def)

text \<open>The beginning of a section, and a section of independent constants.\<close>

lemma reads_section:
  assumes "reads_as jfr_read_long ts (jfr_id t)" and "reads_as jfr_read_long ns (length xs)"
    and "reads_as (read_many (length xs) (read_constant ks)) bs xs"
  shows "reads_as (read_section ks t) ((ts @ ns) @ bs) xs"
proof -
  have "reads_as (read_section ks t) (ts @ ns @ bs) xs"
    unfolding read_section_def by (rule reads_then [OF assms(1)], simp only: simp_thms if_False, rule reads_then [OF assms(2)], rule assms(3))
  then show ?thesis by simp
qed

lemma section_emits:
  assumes type: "appends n ts tp" "reads_as jfr_read_long ts (jfr_id t)" and count: "appends n' ns cnt" "reads_as jfr_read_long ns (length xs)"
    and items: "\<And>x. x \<in> set xs \<Longrightarrow> \<exists>bs. emits_room m m bs (run_ops (g x)) \<and> reads_as (read_constant ks) bs (v x)"
    and room: "k + n + n' \<le> m" "m \<le> ROOM"
  shows "\<exists>bs. emits_room k m bs (run_ops ([on_buf tp, on_buf cnt] @ concat (map g xs))) \<and> reads_as (read_section ks t) bs (map v xs)"
proof -
  obtain bs where bs: "emits_room m m bs (run_ops (concat (map g xs)))" "reads_as (read_many (length xs) (read_constant ks)) bs (map v xs)"
    using many_emits [of xs m g "read_constant ks" v, OF items] by blast
  have c: "emits_room k (k + n) ts (on_buf tp)" "emits_room (k + n) m ns (on_buf cnt)"
    using emits_room_put [OF type(1), of k] emits_room_mono [OF emits_room_put [OF count(1), of "k + n"] order_refl, of m] room by simp_all
  have h: "emits_room k m (ts @ ns @ []) (run_ops [on_buf tp, on_buf cnt])" by (rule emits_room_Cons [OF c(1) emits_room_Cons [OF c(2) emits_room_Nil]])
  have "reads_as jfr_read_long ns (length (map v xs))" using count(2) by simp
  from reads_section [OF type(2) this] bs(2) have "reads_as (read_section ks t) ((ts @ ns) @ bs) (map v xs)" by simp
  moreover have "emits_room k m ((ts @ ns @ []) @ bs) (run_ops ([on_buf tp, on_buf cnt] @ concat (map g xs)))" by (rule emits_room_append [OF h bs(1)])
  ultimately show ?thesis by (intro exI [of _ "(ts @ ns) @ bs"] conjI) simp_all
qed

lemma type_var32: "jfr_id t < 128 \<Longrightarrow> \<exists>ts. appends 5 ts (putVar32 (word_of_nat (jfr_id t))) \<and> reads_as jfr_read_long ts (jfr_id t)"
  using appends_putVar32 [of "word_of_nat (jfr_id t)"] read_var32 [of "word_of_nat (jfr_id t)"]
  by (auto simp: reads_as_def unat_of_nat take_bit_nat_eq_self)

lemma type_var64: "jfr_id t < 128 \<Longrightarrow> \<exists>ts. appends 9 ts (putType t) \<and> reads_as jfr_read_long ts (jfr_id t)"
  using type_field by blast

lemma count_var64: "n < 2 ^ 64 \<Longrightarrow> appends 9 (num_bytes n) (putVar64 (word_of_nat n)) \<and> reads_as jfr_read_long (num_bytes n) n"
  using appends_putVar64 reads_num_bytes by blast

lemma count_byte: "n < 128 \<Longrightarrow> appends 1 [word_of_nat n] (put8 (word_of_nat n)) \<and> reads_as jfr_read_long [word_of_nat n] n"
  using appends_put8 read_small [of "word_of_nat n"] by (simp add: reads_as_def unat_of_nat take_bit_nat_eq_self)

text \<open>A constant that is written, followed by a flush, or preceded by one that makes room.\<close>

lemma item_flush:
  assumes w: "full_writes w" and ap: "appends n bs op" and room: "k + n \<le> ROOM"
  shows "emits_room k 0 bs (run_ops [on_buf op, flush_op w JFR_EVENT_FLUSH_THRESHOLD])"
proof -
  have "emits_room k 0 (bs @ [] @ []) (run_ops [on_buf op, flush_op w JFR_EVENT_FLUSH_THRESHOLD])"
    by (rule emits_room_Cons [OF emits_room_put [OF ap room] emits_room_Cons [OF emits_room_flush [OF w order_refl] emits_room_Nil]])
  then show ?thesis by simp
qed

lemma item_flush_same: "full_writes w \<Longrightarrow> appends n bs op \<Longrightarrow> k + n \<le> ROOM \<Longrightarrow>
    emits_room k k bs (run_ops [on_buf op, flush_op w JFR_EVENT_FLUSH_THRESHOLD])"
  using item_flush emits_room_mono by blast

section \<open>Strings, threads and log levels\<close>

lemma field_utf8_len:
  assumes "length s < 2 ^ 32"
  shows "field_op (6 + min (length s) MAX_STRING_LENGTH) (6 + min (length s) MAX_STRING_LENGTH) KStr
     (str_value (Some (cbytes s))) (putUtf8_len (cbytes s) (word_of_nat (length s)))"
proof -
  have "unat (word_of_nat (length s) :: u32) = length (cbytes s)" using assms by (subst unat_word_of_nat) (simp_all add: cbytes_def)
  from appends_putUtf8_len [OF this] have a: "appends (6 + min (length s) MAX_STRING_LENGTH) (utf8_bytes (cbytes s))
      (putUtf8_len (cbytes s) (word_of_nat (length s)))" using assms by (simp add: cbytes_def)
  show ?thesis using field_op_intro [OF a appends_length [OF a] reads_string [of "cbytes s"]] by (simp add: str_value_def)
qed

definition string_constant :: "u64 \<Rightarrow> u32 \<times> string \<Rightarrow> nat \<times> jfr_value list" where
  "string_constant base_id = (\<lambda>(i, str). (unat (ucast i OR base_id), [str_value (Some (cbytes str))]))"

lemma string_constant_emits:
  assumes w: "full_writes w" and len: "length str < 2 ^ 31"
  shows "\<exists>bs. emits_room k 10 bs (run_ops (string_constant_ops w base_id (i, str))) \<and>
     reads_as (read_constant [KStr]) bs (string_constant base_id (i, str))"
proof -
  let ?n = "6 + min (length str) MAX_STRING_LENGTH" and ?v = "ucast i OR base_id"
  have "fields_op (9 + (?n + 0)) (9 + (?n + 0)) [KVar, KStr] [VNum (unat ?v), str_value (Some (cbytes str))]
     [putVar64 ?v, putUtf8_len (cbytes str) (word_of_nat (length str))]"
    by (intro fields_op_Cons fields_op_Nil field_var64 field_utf8_len) (use len in simp)
  from fields_constant [OF this] obtain bs where bs:
    "appends (9 + (?n + 0)) bs (run_ops [putVar64 ?v, putUtf8_len (cbytes str) (word_of_nat (length str))])"
    "reads_as (read_constant [KStr]) bs (string_constant base_id (i, str))" by (auto simp: string_constant_def)
  have "emits_room k 10 bs (run_ops [flush_op w (int RECORDING_BUFFER_LIMIT - int (length str) - 5),
      on_buf (run_ops [putVar64 ?v, putUtf8_len (cbytes str) (word_of_nat (length str))])])"
    by (rule emits_room_big [OF w bs(1)]) (auto simp: JFR_EVENT_FLUSH_THRESHOLD_def buffer_consts max_def min_def)
  with bs(2) show ?thesis by (auto simp: string_constant_ops_def)
qed

lemma string_section:
  assumes w: "full_writes w" and "jfr_id t < 128" and few: "length cs < 2 ^ 64" and len: "\<forall>(i, str)\<in>set cs. length str < 2 ^ 31"
  shows "\<exists>bs. emits_room k 28 bs (writeConstantPoolSection w base_id t cs) \<and> reads_as (read_section [KStr] t) bs (map (string_constant base_id) cs)"
proof -
  obtain ts where t: "appends 9 ts (putType t)" "reads_as jfr_read_long ts (jfr_id t)" using type_var64 assms(2) by blast
  note n = count_var64 [OF few]
  have items: "\<exists>bs. emits_room 28 28 bs (run_ops (string_constant_ops w base_id x)) \<and> reads_as (read_constant [KStr]) bs (string_constant base_id x)"
    if x: "x \<in> set cs" for x
  proof -
    obtain i str where p: "x = (i, str)" by (cases x)
    with x len have "length str < 2 ^ 31" by auto
    from string_constant_emits [OF w this, of 28 base_id i] obtain bs where "emits_room 28 10 bs (run_ops (string_constant_ops w base_id x))"
      "reads_as (read_constant [KStr]) bs (string_constant base_id x)" unfolding p by blast
    then show ?thesis using emits_room_mono [of 28 10 bs _ 28 28] by auto
  qed
  obtain bs where bs: "emits_room 0 28 bs (run_ops ([on_buf (putType t), on_buf (putVar64 (word_of_nat (length cs)))]
      @ concat (map (string_constant_ops w base_id) cs)))" "reads_as (read_section [KStr] t) bs (map (string_constant base_id) cs)"
    using section_emits [of 9 ts "putType t" t 9 "num_bytes (length cs)" "putVar64 (word_of_nat (length cs))" cs 28 "string_constant_ops w base_id" "[KStr]"
        "string_constant base_id" 0, OF t conjunct1 [OF n] conjunct2 [OF n] items] by (auto simp: ROOM_eq)
  have "emits_room k 28 ([] @ bs) (run_ops (flush_op w JFR_EVENT_FLUSH_THRESHOLD # ([on_buf (putType t), on_buf (putVar64 (word_of_nat (length cs)))]
      @ concat (map (string_constant_ops w base_id) cs))))"
    by (rule emits_room_Cons [OF emits_room_flush [OF w order_refl] bs(1)])
  with bs(2) show ?thesis by (auto simp: writeConstantPoolSection_def)
qed


definition thread_values :: "int \<Rightarrow> string \<times> u64 \<Rightarrow> nat \<times> jfr_value list" where
  "thread_values tid = (\<lambda>(name, java_id).
     (unat (word_of_int tid :: u64), [str_value (Some (cbytes name)), VNum (unat (word_of_int tid :: u64)),
       if java_id = 0 then VStr None else str_value (Some (cbytes name)), VNum (unat java_id)]))"

lemma thread_of_keeps: "fst (thread_of t (snd (thread_of t' ti))) = fst (thread_of t ti)"
  by (auto simp: thread_of_def ti_get_def update_conv split: option.splits)

lemma threads_loop_eq:
  "fst (threads_loop w tids ti) = concat (map (\<lambda>tid. thread_ops w tid (fst (thread_of tid ti))) tids)"
proof (induction tids arbitrary: ti)
  case (Cons t tids)
  obtain d ti1 where d: "thread_of t ti = (d, ti1)" by (cases "thread_of t ti")
  have keep: "fst (thread_of x ti1) = fst (thread_of x ti)" for x using thread_of_keeps [of x t ti] d by simp
  show ?case using Cons.IH [of ti1] d keep by (simp add: case_prod_beta)
qed simp

lemma thread_emits:
  assumes w: "full_writes w" and len: "length name < 2 ^ 30"
  shows "\<exists>bs. emits_room k 0 bs (run_ops (thread_ops w tid (name, java_id))) \<and>
     reads_as (read_constant [KStr, KVar, KStr, KVar]) bs (thread_values tid (name, java_id))"
proof -
  let ?n = "6 + min (length name) MAX_STRING_LENGTH" and ?p = "putUtf8_len (cbytes name) (word_of_nat (length name))"
  let ?id = "if java_id = 0 then put8 0 else ?p"
  let ?m = "if java_id = 0 then 1 else ?n"
  let ?lm = "int RECORDING_BUFFER_LIMIT - (if java_id = 0 then int (length name) + 1 else 2 * int (length name)) - 30"
  let ?N = "9 + (?n + (9 + (?m + (9 + 0))))"
  have str: "field_op ?n ?n KStr (str_value (Some (cbytes name))) ?p" by (rule field_utf8_len) (use len in simp)
  have "field_op ?m ?m KStr (if java_id = 0 then VStr None else str_value (Some (cbytes name))) ?id"
    using str field_op_intro [OF appends_put8 [of 0] _ reads_null, of 1] by simp
  then have "fields_op ?N ?N [KVar, KStr, KVar, KStr, KVar]
     [VNum (unat (word_of_int tid :: u64)), str_value (Some (cbytes name)), VNum (unat (word_of_int tid :: u64)),
      if java_id = 0 then VStr None else str_value (Some (cbytes name)), VNum (unat java_id)]
     [putVar64_int tid, ?p, putVar64_int tid, ?id, putVar64 java_id]"
    by (intro fields_op_Cons fields_op_Nil field_var64_int field_var64 str)
  from fields_constant [OF this] obtain bs where bs: "appends ?N bs (run_ops [putVar64_int tid, ?p, putVar64_int tid, ?id, putVar64 java_id])"
    "reads_as (read_constant [KStr, KVar, KStr, KVar]) bs (thread_values tid (name, java_id))" by (auto simp: thread_values_def)
  have "emits_room k 100 bs (run_ops [flush_op w ?lm, on_buf (run_ops [putVar64_int tid, ?p, putVar64_int tid, ?id, putVar64 java_id])])"
    by (rule emits_room_big [OF w bs(1)]) (auto simp: JFR_EVENT_FLUSH_THRESHOLD_def buffer_consts max_def min_def)
  from emits_room_append [OF this emits_room_Cons [OF emits_room_flush [OF w order_refl] emits_room_Nil]]
  have "emits_room k 0 bs (run_ops (thread_ops w tid (name, java_id)))" by (simp add: thread_ops_def Let_def)
  with bs(2) show ?thesis by blast
qed

lemma threads_section:
  assumes w: "full_writes w" and few: "length tids < 2 ^ 64" and len: "\<forall>tid\<in>set tids. length (fst (fst (thread_of tid ti))) < 2 ^ 30"
    and room: "k + 18 \<le> ROOM"
  shows "\<exists>bs. emits_room k (k + 18) bs (run_ops ([on_buf (putType T_THREAD), on_buf (putVar64 (word_of_nat (length tids)))] @ fst (threads_loop w tids ti))) \<and>
     reads_as (read_section [KStr, KVar, KStr, KVar] T_THREAD) bs (map (\<lambda>tid. thread_values tid (fst (thread_of tid ti))) tids)"
proof -
  obtain ts where t: "appends 9 ts (putType T_THREAD)" "reads_as jfr_read_long ts (jfr_id T_THREAD)" using type_var64 [of T_THREAD] by auto
  note n = count_var64 [OF few]
  have items: "\<exists>bs. emits_room (k + 18) (k + 18) bs (run_ops (thread_ops w tid (fst (thread_of tid ti)))) \<and>
      reads_as (read_constant [KStr, KVar, KStr, KVar]) bs (thread_values tid (fst (thread_of tid ti)))" if x: "tid \<in> set tids" for tid
  proof -
    obtain name java_id where p: "fst (thread_of tid ti) = (name, java_id)" by (cases "fst (thread_of tid ti)")
    with x len have "length name < 2 ^ 30" by fastforce
    from thread_emits [OF w this, of "k + 18" tid java_id] p show ?thesis using emits_room_mono [of "k + 18" 0 _ _ "k + 18" "k + 18"] by fastforce
  qed
  show ?thesis
    using section_emits [of 9 ts "putType T_THREAD" T_THREAD 9 "num_bytes (length tids)" "putVar64 (word_of_nat (length tids))" tids "k + 18"
        "\<lambda>tid. thread_ops w tid (fst (thread_of tid ti))" "[KStr, KVar, KStr, KVar]" "\<lambda>tid. thread_values tid (fst (thread_of tid ti))" k,
        OF t conjunct1 [OF n] conjunct2 [OF n] items] room
    unfolding threads_loop_eq by auto
qed

section \<open>Stack traces and methods\<close>

text \<open>The contract of a writer with a lookup: what it does to the lookup and what it writes do not depend on the sink.\<close>

definition lemits :: "nat \<Rightarrow> nat \<Rightarrow> lookup_op \<Rightarrow> lookup_state \<Rightarrow> lookup_state \<Rightarrow> u8 list \<Rightarrow> bool" where
  "lemits k l op lk lk' bs \<longleftrightarrow> (\<forall>s. near k s \<longrightarrow> (\<exists>s'. op (lk, s) = Inr (lk', s') \<and> near l s' \<and> stream s' = stream s @ bs))"

lemma lemitsD: "lemits k l op lk lk' bs \<Longrightarrow> near k s \<Longrightarrow> \<exists>s'. op (lk, s) = Inr (lk', s') \<and> near l s' \<and> stream s' = stream s @ bs"
  by (simp add: lemits_def)

lemma lemits_Nil: "lemits k k (run_ops []) lk lk []"
  by (simp add: lemits_def)

lemma lemits_sink: "emits_room k l bs op \<Longrightarrow> lemits k l (in_sink op) lk lk bs"
  unfolding lemits_def using emits_roomD [of k l bs op] by (fastforce simp: in_sink_def)

lemma near_mono: "near k s \<Longrightarrow> k \<le> l \<Longrightarrow> near l s"
  by (simp add: near_def)

lemma lemits_mono: "lemits k l op lk lk' bs \<Longrightarrow> k' \<le> k \<Longrightarrow> l \<le> l' \<Longrightarrow> lemits k' l' op lk lk' bs"
  unfolding lemits_def using near_mono by blast

lemma lemits_Cons:
  assumes "lemits k l f lk lk1 as" and "lemits l m (run_ops fs) lk1 lk2 bs"
  shows "lemits k m (run_ops (f # fs)) lk lk2 (as @ bs)"
  unfolding lemits_def
proof (intro allI impI)
  fix s assume "near k s"
  from lemitsD [OF assms(1) this] obtain s1 where 1: "f (lk, s) = Inr (lk1, s1)" "near l s1" "stream s1 = stream s @ as" by blast
  from lemitsD [OF assms(2) 1(2)] obtain s2 where "run_ops fs (lk1, s1) = Inr (lk2, s2)" "near m s2" "stream s2 = stream s1 @ bs" by blast
  with 1 show "\<exists>s'. run_ops (f # fs) (lk, s) = Inr (lk2, s') \<and> near m s' \<and> stream s' = stream s @ as @ bs" by simp
qed

text \<open>Methods that are marked stay as they are while more frames are resolved.\<close>

definition lk_grows :: "nat \<Rightarrow> lookup_state \<Rightarrow> lookup_state \<Rightarrow> bool" where
  "lk_grows n lk lk' \<longleftrightarrow> methods_ok (lk_methods lk') \<and> length (lk_methods lk') \<le> length (lk_methods lk) + n \<and>
     (\<forall>m mi. mm_find m (lk_methods lk) = Some mi \<longrightarrow> mi_mark mi \<longrightarrow> mm_find m (lk_methods lk') = Some mi)"

definition marked_in :: "lookup_state \<Rightarrow> frame \<Rightarrow> bool" where
  "marked_in lk f \<longleftrightarrow> (\<exists>mi. mm_find (method_id f) (lk_methods lk) = Some mi \<and> mi_mark mi)"

definition method_of :: "lookup_state \<Rightarrow> frame \<Rightarrow> method_info" where
  "method_of lk f = the (mm_find (method_id f) (lk_methods lk))"

lemma lk_grows_trans: "lk_grows m lk lk1 \<Longrightarrow> lk_grows n lk1 lk2 \<Longrightarrow> lk_grows (m + n) lk lk2"
  by (auto simp: lk_grows_def)

lemma lk_grows_marked: "lk_grows n lk lk' \<Longrightarrow> marked_in lk f \<Longrightarrow> marked_in lk' f \<and> method_of lk' f = method_of lk f"
  by (auto simp: lk_grows_def marked_in_def method_of_def)

lemma resolve_grows:
  assumes "methods_ok (lk_methods lk)" and "Suc (length (lk_methods lk)) < 2 ^ 32"
  shows "\<exists>lk1. resolveMethod env f lk = Inr (method_of lk1 f, lk1) \<and> lk_grows 1 lk lk1 \<and> marked_in lk1 f \<and> mi_type (method_of lk1 f) < 7"
proof -
  obtain mi lk1 where r: "resolveMethod env f lk = Inr (mi, lk1)" "resolved (method_id f) lk mi lk1" using resolveMethod_ok [OF assms] by blast
  have mi: "mi = method_of lk1 f" using r(2) by (simp add: resolved_def method_of_def)
  have "lk_grows 1 lk lk1"
    unfolding lk_grows_def
  proof (intro conjI allI impI)
    show "methods_ok (lk_methods lk1)" using r(2) by (simp add: resolved_def)
    show "length (lk_methods lk1) \<le> length (lk_methods lk) + 1" using resolved_length [OF assms(1) r(2)] by simp
    fix m v assume "mm_find m (lk_methods lk) = Some v" "mi_mark v"
    then show "mm_find m (lk_methods lk1) = Some v" using r(2) by (cases "m = method_id f") (auto simp: resolved_def)
  qed
  moreover have "marked_in lk1 f" "mi_type mi < 7" using r(2) by (auto simp: resolved_def marked_in_def methods_ok_def)
  ultimately show ?thesis using r(1) mi by blast
qed


definition frame_values :: "method_info \<Rightarrow> frame \<Rightarrow> jfr_value list" where
  "frame_values mi f =
     VNum (unat (mi_key mi)) #
     (if mi_type mi < FRAME_NATIVE
      then [VNum (unat (word_of_int (getLineNumber mi (sint (java_bci (bci f)))) :: u32)), VNum (unat (java_bci (bci f))), VNum (decode_frame_type (bci f))]
      else [VNum 0, VNum (unat (bci f)), VNum (mi_type mi)])"

abbreviation frame_kinds :: "jfr_kind list" where "frame_kinds \<equiv> [KVar, KVar, KVar, KVar]"

lemma decode_small: "decode_frame_type b < 64"
proof -
  have "sint b < 2 ^ 31" using sint_lt [of b] by simp
  then have "sint b div 2 ^ 25 < 64" by simp
  then show ?thesis by (simp add: decode_frame_type_def frame_types nat_less_iff)
qed

lemma field_code: "n < 128 \<Longrightarrow> field_op 1 1 KVar (VNum n) (put8 (word_of_nat n))"
  using count_byte [of n] reads_num by (fastforce intro: field_op_intro)

lemma frame_op:
  assumes "mi_type mi < 7"
  shows "fields_op 20 20 frame_kinds (frame_values mi f) (frame_puts mi f)"
proof -
  note k = field_var64_u32 [of "mi_key mi"]
  have z: "field_op 5 5 KVar (VNum 0) (putVar32 0)" using field_var32 [of 0] by simp
  have "fields_op (9 + (5 + (5 + (1 + 0)))) (5 + (5 + (5 + (1 + 0)))) frame_kinds (frame_values mi f) (frame_puts mi f)"
  proof (cases "mi_type mi < FRAME_NATIVE")
    case True
    have "field_op 1 1 KVar (VNum (decode_frame_type (bci f))) (put8 (word_of_nat (decode_frame_type (bci f))))"
      by (rule field_code) (use decode_small [of "bci f"] in simp)
    then show ?thesis unfolding frame_values_def frame_puts_def if_P [OF True] by (intro fields_op_Cons fields_op_Nil k field_var32)
  next
    case False
    have "field_op 1 1 KVar (VNum (mi_type mi)) (put8 (word_of_nat (mi_type mi)))" by (rule field_code) (use assms in simp)
    then show ?thesis unfolding frame_values_def frame_puts_def if_not_P [OF False] by (intro fields_op_Cons fields_op_Nil k z field_var32)
  qed
  then show ?thesis by (rule fields_op_mono) simp_all
qed

lemma write_frames_emits:
  assumes w: "full_writes w" and room: "k + 20 \<le> ROOM"
  shows "methods_ok (lk_methods lk) \<Longrightarrow> length (lk_methods lk) + length fs < 2 ^ 32 \<Longrightarrow>
    \<exists>lk' bss. lemits k k (write_frames w env fs) lk lk' (concat bss) \<and> lk_grows (length fs) lk lk' \<and> (\<forall>f\<in>set fs. marked_in lk' f) \<and>
      list_all2 (reads frame_kinds) bss (map (\<lambda>f. frame_values (method_of lk' f) f) fs)"
proof (induction fs arbitrary: lk)
  case Nil
  then show ?case by (intro exI [of _ lk] exI [of _ "[]"]) (simp add: lemits_def lk_grows_def)
next
  case (Cons f fs)
  have few: "Suc (length (lk_methods lk)) < 2 ^ 32" using Cons.prems(2) by simp
  obtain lk1 where r: "resolveMethod env f lk = Inr (method_of lk1 f, lk1)" "lk_grows 1 lk lk1" "marked_in lk1 f" "mi_type (method_of lk1 f) < 7"
    using resolve_grows [OF Cons.prems(1) few] by blast
  let ?mi = "method_of lk1 f"
  obtain bs where bs: "appends 20 bs (run_ops (frame_puts ?mi f))" "reads frame_kinds bs (frame_values ?mi f)"
    using frame_op [OF r(4), of f] by (auto simp: fields_op_def)
  have e: "emits_room k k bs (run_ops [on_buf (run_ops (frame_puts ?mi f)), flush_op w JFR_EVENT_FLUSH_THRESHOLD])"
    by (rule item_flush_same [OF w bs(1) room])
  have ok1: "methods_ok (lk_methods lk1)" "length (lk_methods lk1) + length fs < 2 ^ 32" using r(2) Cons.prems(2) by (auto simp: lk_grows_def)
  obtain lk' bss where IH: "lemits k k (write_frames w env fs) lk1 lk' (concat bss)" "lk_grows (length fs) lk1 lk'" "\<forall>f\<in>set fs. marked_in lk' f"
    "list_all2 (reads frame_kinds) bss (map (\<lambda>f. frame_values (method_of lk' f) f) fs)" using Cons.IH [OF ok1] by blast
  have same: "marked_in lk' f" "method_of lk' f = ?mi" using lk_grows_marked [OF IH(2) r(3)] by auto
  have "lemits k k (write_frames w env (f # fs)) lk lk' (bs @ concat bss)"
    unfolding lemits_def
  proof (intro allI impI)
    fix s assume "near k s"
    from emits_roomD [OF e this] obtain s1 where 1: "run_ops [on_buf (run_ops (frame_puts ?mi f)), flush_op w JFR_EVENT_FLUSH_THRESHOLD] s = Inr s1"
      "near k s1" "stream s1 = stream s @ bs" by blast
    from lemitsD [OF IH(1) 1(2)] obtain s2 where 2: "write_frames w env fs (lk1, s1) = Inr (lk', s2)" "near k s2" "stream s2 = stream s1 @ concat bss" by blast
    show "\<exists>s'. write_frames w env (f # fs) (lk, s) = Inr (lk', s') \<and> near k s' \<and> stream s' = stream s @ bs @ concat bss"
      unfolding write_frames.simps r(1) sum.case prod.case 1(1) using 1 2 by simp
  qed
  moreover have "lk_grows (length (f # fs)) lk lk'" using lk_grows_trans [OF r(2) IH(2)] by simp
  ultimately show ?case using IH same bs(2) by (intro exI [of _ lk'] exI [of _ "bs # bss"]) simp
qed

definition trace_values :: "lookup_state \<Rightarrow> u32 \<times> call_trace \<Rightarrow> nat \<times> jfr_value list" where
  "trace_values lk = (\<lambda>(i, t). (unat i,
     [VByte (trace_flag (method_of lk (last (frames t))) t), VArr (map (\<lambda>f. frame_values (method_of lk f) f) (frames t))]))"

abbreviation trace_kinds :: "jfr_kind list" where "trace_kinds \<equiv> [KByte, KArray frame_kinds]"

lemma trace_head_emits:
  assumes "n < 2 ^ 64" and "k + 19 \<le> ROOM"
  shows "emits_room k (k + 19) (var64_loop 0 (ucast i) @ [flag] @ num_bytes n)
     (run_ops [on_buf (putVar64_u32 i), on_buf (put8 flag), on_buf (putVar64 (word_of_nat n))])"
proof -
  have a: "appends 9 (var64_loop 0 (ucast i)) (putVar64_u32 i)" unfolding putVar64_u32_def by (rule appends_putVar64)
  have 1: "emits_room k (k + 9) (var64_loop 0 (ucast i)) (on_buf (putVar64_u32 i))" by (rule emits_room_put [OF a]) (use assms(2) in simp)
  have 2: "emits_room (k + 9) (k + 9 + 1) [flag] (on_buf (put8 flag))" by (rule emits_room_put [OF appends_put8]) (use assms(2) in simp)
  have 3: "emits_room (k + 9 + 1) (k + 9 + 1 + 9) (num_bytes n) (on_buf (putVar64 (word_of_nat n)))"
    by (rule emits_room_put [OF appends_putVar64]) (use assms(2) in simp)
  have "emits_room k (k + 9 + 1 + 9) (var64_loop 0 (ucast i) @ [flag] @ num_bytes n @ [])
     (run_ops [on_buf (putVar64_u32 i), on_buf (put8 flag), on_buf (putVar64 (word_of_nat n))])"
    by (rule emits_room_Cons [OF 1 emits_room_Cons [OF 2 emits_room_Cons [OF 3 emits_room_Nil]]])
  moreover have "k + 9 + 1 + 9 = k + 19" by simp
  ultimately show ?thesis by (simp only: append_Nil2)
qed

lemma write_trace_emits:
  assumes w: "full_writes w" and room: "k + 39 \<le> ROOM" and ok: "methods_ok (lk_methods lk)"
    and few: "Suc (length (lk_methods lk) + length (frames t)) < 2 ^ 32" and fs: "frames t \<noteq> []"
  shows "\<exists>lk' bs. lemits k k (write_trace w env (i, t)) lk lk' bs \<and> lk_grows (Suc (length (frames t))) lk lk' \<and> (\<forall>f\<in>set (frames t). marked_in lk' f) \<and>
     reads_as (read_constant trace_kinds) bs (trace_values lk' (i, t))"
proof -
  let ?l = "last (frames t)" and ?n = "length (frames t)"
  obtain lk1 where r: "resolveMethod env ?l lk = Inr (method_of lk1 ?l, lk1)" "lk_grows 1 lk lk1" "marked_in lk1 ?l"
    using resolve_grows [OF ok, of env ?l] few by fastforce
  let ?flag = "trace_flag (method_of lk1 ?l) t"
  let ?head = "[on_buf (putVar64_u32 i), on_buf (put8 ?flag), on_buf (putVar64 (word_of_nat ?n))]"
  let ?hb = "var64_loop 0 (ucast i) @ [?flag] @ num_bytes ?n"
  have n: "?n < 2 ^ 64" using few by simp
  have h: "emits_room k (k + 19) ?hb (run_ops ?head)" by (rule trace_head_emits [OF n]) (use room in simp)
  have ok1: "methods_ok (lk_methods lk1)" "length (lk_methods lk1) + length (frames t) < 2 ^ 32" using r(2) few by (auto simp: lk_grows_def)
  have room2: "k + 19 + 20 \<le> ROOM" using room by simp
  obtain lk' bss where F: "lemits (k + 19) (k + 19) (write_frames w env (frames t)) lk1 lk' (concat bss)" "lk_grows ?n lk1 lk'"
    "\<forall>f\<in>set (frames t). marked_in lk' f" "list_all2 (reads frame_kinds) bss (map (\<lambda>f. frame_values (method_of lk' f) f) (frames t))"
    using write_frames_emits [OF w room2 ok1] by blast
  have "emits_room (k + 19) k [] (flush_op w JFR_EVENT_FLUSH_THRESHOLD)"
    using emits_room_mono [OF emits_room_flush [OF w order_refl, of "k + 19"], of "k + 19" k] by simp
  from lemits_Cons [OF lemits_sink [OF h] lemits_Cons [OF F(1) lemits_Cons [OF lemits_sink [OF this] lemits_Nil]]]
  have L: "lemits k k (run_ops [in_sink (run_ops ?head), write_frames w env (frames t), in_sink (flush_op w JFR_EVENT_FLUSH_THRESHOLD)]) lk1 lk'
      (?hb @ concat bss @ [] @ [])" .
  have op: "write_trace w env (i, t) (lk, s) =
      run_ops [in_sink (run_ops ?head), write_frames w env (frames t), in_sink (flush_op w JFR_EVENT_FLUSH_THRESHOLD)] (lk1, s)" for s
    unfolding write_trace_def prod.case Let_def if_not_P [OF fs] r(1) sum.case ..
  have e: "lemits k k (write_trace w env (i, t)) lk lk' (?hb @ concat bss)" using L unfolding lemits_def op append_Nil2 append_Nil .
  have same: "method_of lk' ?l = method_of lk1 ?l" using lk_grows_marked [OF F(2) r(3)] by blast
  have "reads_as (read_kind (KArray frame_kinds)) (num_bytes ?n @ concat bss) (VArr (map (\<lambda>f. frame_values (method_of lk' f) f) (frames t)))"
    by (rule reads_array [OF _ F(4)]) (use reads_num_bytes [OF n] in simp)
  then have "reads (KVar # trace_kinds) (var64_loop 0 (ucast i) @ [?flag] @ (num_bytes ?n @ concat bss) @ [])
     (VNum (unat i) # snd (trace_values lk' (i, t)))"
    unfolding trace_values_def same prod.case snd_conv
    using reads_var64 [of "ucast i"] by (intro reads_Cons reads_Nil reads_byte) simp_all
  then have "reads_as (read_constant trace_kinds) (?hb @ concat bss) (trace_values lk' (i, t))"
    using reads_constant [of trace_kinds "?hb @ concat bss" "unat i" "snd (trace_values lk' (i, t))"] by (simp add: trace_values_def)
  moreover have "lk_grows (Suc ?n) lk lk'" using lk_grows_trans [OF r(2) F(2)] by simp
  ultimately show ?thesis using e F(3) by blast
qed


lemma trace_values_grow:
  assumes "lk_grows n lk lk'" and "\<forall>f\<in>set (frames t). marked_in lk f" and "frames t \<noteq> []"
  shows "trace_values lk' (i, t) = trace_values lk (i, t)"
proof -
  have "method_of lk' f = method_of lk f" if "f \<in> set (frames t)" for f using lk_grows_marked [OF assms(1)] assms(2) that by blast
  then show ?thesis using assms(3) by (simp add: trace_values_def)
qed

definition resolutions :: "(u32 \<times> call_trace) list \<Rightarrow> nat" where
  "resolutions trs = sum_list (map (\<lambda>(i, t). Suc (length (frames t))) trs)"

lemma write_traces_emits:
  assumes w: "full_writes w" and room: "k + 39 \<le> ROOM"
  shows "methods_ok (lk_methods lk) \<Longrightarrow> length (lk_methods lk) + resolutions trs < 2 ^ 32 \<Longrightarrow> \<forall>(i, t)\<in>set trs. frames t \<noteq> [] \<Longrightarrow>
    \<exists>lk' bs. lemits k k (run_ops (map (write_trace w env) trs)) lk lk' bs \<and> lk_grows (resolutions trs) lk lk' \<and>
      (\<forall>(i, t)\<in>set trs. \<forall>f\<in>set (frames t). marked_in lk' f) \<and>
      reads_as (read_many (length trs) (read_constant trace_kinds)) bs (map (trace_values lk') trs)"
proof (induction trs arbitrary: lk)
  case Nil
  then have "lk_grows (resolutions []) lk lk" by (simp add: lk_grows_def)
  then show ?case unfolding list.map list.size using lemits_Nil reads_many_Nil by fastforce
next
  case (Cons x trs)
  obtain i t where x: "x = (i, t)" by (cases x)
  have fs: "frames t \<noteq> []" using Cons.prems(3) by (simp add: x)
  have few: "Suc (length (lk_methods lk) + length (frames t)) < 2 ^ 32" using Cons.prems(2) by (simp add: x resolutions_def)
  obtain lk1 as where 1: "lemits k k (write_trace w env x) lk lk1 as" "lk_grows (Suc (length (frames t))) lk lk1" "\<forall>f\<in>set (frames t). marked_in lk1 f"
    "reads_as (read_constant trace_kinds) as (trace_values lk1 x)"
    using write_trace_emits [OF w room Cons.prems(1) few fs, of env i] unfolding x by blast
  have ok1: "methods_ok (lk_methods lk1)" "length (lk_methods lk1) + resolutions trs < 2 ^ 32"
    using 1(2) Cons.prems(2) by (auto simp: lk_grows_def x resolutions_def)
  obtain lk' bs where 2: "lemits k k (run_ops (map (write_trace w env) trs)) lk1 lk' bs" "lk_grows (resolutions trs) lk1 lk'"
    "\<forall>(i, t)\<in>set trs. \<forall>f\<in>set (frames t). marked_in lk' f"
    "reads_as (read_many (length trs) (read_constant trace_kinds)) bs (map (trace_values lk') trs)"
    using Cons.IH [OF ok1] Cons.prems(3) by auto
  have same: "trace_values lk' x = trace_values lk1 x" unfolding x by (rule trace_values_grow [OF 2(2) 1(3) fs])
  have m: "\<forall>f\<in>set (frames t). marked_in lk' f" using 1(3) lk_grows_marked [OF 2(2)] by blast
  have r: "reads_as (read_many (length (x # trs)) (read_constant trace_kinds)) (as @ bs) (map (trace_values lk') (x # trs))"
    unfolding list.map length_Cons by (rule reads_many_Cons [OF _ 2(4)]) (use 1(4) same in simp)
  have g: "lk_grows (resolutions (x # trs)) lk lk'" using lk_grows_trans [OF 1(2) 2(2)] by (simp add: resolutions_def x)
  have l: "lemits k k (run_ops (map (write_trace w env) (x # trs))) lk lk' (as @ bs)" unfolding list.map by (rule lemits_Cons [OF 1(1) 2(1)])
  have "\<forall>(i, t)\<in>set (x # trs). \<forall>f\<in>set (frames t). marked_in lk' f" using m 2(3) by (auto simp: x)
  with r g l show ?case by blast
qed

lemma lemits_append:
  assumes "lemits k l (run_ops fs) lk lk1 as" and "lemits l m (run_ops gs) lk1 lk2 bs"
  shows "lemits k m (run_ops (fs @ gs)) lk lk2 (as @ bs)"
proof -
  have "lemits k m (run_ops (run_ops fs # gs)) lk lk2 (as @ bs)" by (rule lemits_Cons [OF assms])
  moreover have "run_ops (run_ops fs # gs) = run_ops (fs @ gs)" by (simp add: fun_eq_iff run_ops_append)
  ultimately show ?thesis by simp
qed

lemma stack_traces_section:
  assumes w: "full_writes w" and room: "k + 57 \<le> ROOM" and ok: "methods_ok (lk_methods lk)"
    and few: "length (lk_methods lk) + resolutions trs < 2 ^ 32" and fs: "\<forall>(i, t)\<in>set trs. frames t \<noteq> []"
  shows "\<exists>lk' bs. lemits k (k + 18) (writeStackTraces w env trs) lk lk' bs \<and> lk_grows (resolutions trs) lk lk' \<and>
     (\<forall>(i, t)\<in>set trs. \<forall>f\<in>set (frames t). marked_in lk' f) \<and> reads_as (read_section trace_kinds T_STACK_TRACE) bs (map (trace_values lk') trs)"
proof -
  obtain ts where t: "appends 9 ts (putType T_STACK_TRACE)" "reads_as jfr_read_long ts (jfr_id T_STACK_TRACE)" using type_var64 [of T_STACK_TRACE] by auto
  have "length trs \<le> resolutions trs" by (induction trs) (auto simp: resolutions_def)
  then have n: "length trs < 2 ^ 64" using few by simp
  have r1: "k + 18 + 39 \<le> ROOM" using room by simp
  obtain lk' bs where F: "lemits (k + 18) (k + 18) (run_ops (map (write_trace w env) trs)) lk lk' bs" "lk_grows (resolutions trs) lk lk'"
    "\<forall>(i, t)\<in>set trs. \<forall>f\<in>set (frames t). marked_in lk' f" "reads_as (read_many (length trs) (read_constant trace_kinds)) bs (map (trace_values lk') trs)"
    using write_traces_emits [OF w r1 ok few fs] by blast
  have 1: "emits_room k (k + 9) ts (on_buf (putType T_STACK_TRACE))" by (rule emits_room_put [OF t(1)]) (use room in simp)
  have 2: "emits_room (k + 9) (k + 9 + 9) (num_bytes (length trs)) (on_buf (putVar64 (word_of_nat (length trs))))"
    by (rule emits_room_put [OF appends_putVar64]) (use room in simp)
  have "k + 9 + 9 = k + 18" by simp
  note 2 = 2 [unfolded this]
  have "lemits k (k + 18) (writeStackTraces w env trs) lk lk' ((ts @ num_bytes (length trs) @ []) @ bs)"
    unfolding writeStackTraces_def
    by (rule lemits_append [OF lemits_Cons [OF lemits_sink [OF 1] lemits_Cons [OF lemits_sink [OF 2] lemits_Nil]] F(1)])
  moreover have "reads_as (read_section trace_kinds T_STACK_TRACE) ((ts @ num_bytes (length trs)) @ bs) (map (trace_values lk') trs)"
    by (rule reads_section [OF t(2)]) (use F(4) reads_num_bytes [OF n] in simp_all)
  ultimately show ?thesis using F(2,3) unfolding append_Nil2 by blast
qed

abbreviation method_kinds :: "jfr_kind list" where "method_kinds \<equiv> [KVar, KVar, KVar, KVar, KByte]"

definition method_values :: "u64 \<Rightarrow> method_info \<Rightarrow> nat \<times> jfr_value list" where
  "method_values base_id mi =
     (unat (mi_key mi), [VNum (unat (mi_class mi)), VNum (unat (ucast (mi_name mi) OR base_id)), VNum (unat (ucast (mi_sig mi) OR base_id)),
        VNum (unat (word_of_int (mi_modifiers mi) :: u64)), VByte (if isHidden mi then 1 else 0)])"

lemma method_emits:
  assumes w: "full_writes w" and room: "k + 54 \<le> ROOM"
  shows "\<exists>bs. emits_room k k bs (run_ops [on_buf (run_ops (method_puts base_id mi)), flush_op w JFR_EVENT_FLUSH_THRESHOLD]) \<and>
     reads_as (read_constant method_kinds) bs (method_values base_id mi)"
proof -
  have h: "field_op 9 9 KByte (VByte (if isHidden mi then 1 else 0)) (putVar64 (if isHidden mi then 1 else 0))"
  proof -
    have "var64_loop 0 (if isHidden mi then 1 else 0) = [if isHidden mi then 1 else 0]" using var64_one_byte [of 1] var64_one_byte [of 0] by simp
    then have "appends 9 [if isHidden mi then 1 else 0] (putVar64 (if isHidden mi then 1 else 0))"
      using appends_putVar64 [of "if isHidden mi then 1 else 0"] by simp
    from field_op_intro [OF this _ reads_byte, of 9] show ?thesis by simp
  qed
  have "fields_op (9 + (9 + (9 + (9 + (9 + (9 + 0)))))) (5 + (5 + (9 + (9 + (9 + (9 + 0)))))) (KVar # method_kinds)
     (VNum (unat (mi_key mi)) # snd (method_values base_id mi)) (method_puts base_id mi)"
    unfolding method_puts_def method_values_def snd_conv
    by (intro fields_op_Cons fields_op_Nil field_var64 field_var64_u32 field_var64_int h)
  from fields_constant [OF this] obtain bs where bs: "appends (9 + (9 + (9 + (9 + (9 + (9 + 0)))))) bs (run_ops (method_puts base_id mi))"
    "reads_as (read_constant method_kinds) bs (method_values base_id mi)" by (auto simp: method_values_def)
  have "emits_room k k bs (run_ops [on_buf (run_ops (method_puts base_id mi)), flush_op w JFR_EVENT_FLUSH_THRESHOLD])"
    by (rule item_flush_same [OF w bs(1)]) (use room in simp)
  with bs(2) show ?thesis by blast
qed

lemma methods_section:
  assumes w: "full_writes w" and room: "k + 72 \<le> ROOM" and few: "length (lk_methods lk) < 2 ^ 32"
  shows "\<exists>bs. lemits k (k + 18) (writeMethods w base_id) lk (lk\<lparr>lk_methods := unmark_methods (lk_methods lk)\<rparr>) bs \<and>
     reads_as (read_section method_kinds T_METHOD) bs (map (method_values base_id) (marked_methods (lk_methods lk)))"
proof -
  let ?ms = "marked_methods (lk_methods lk)"
  let ?g = "\<lambda>mi. [on_buf (run_ops (method_puts base_id mi)), flush_op w JFR_EVENT_FLUSH_THRESHOLD]"
  obtain ts where t: "appends 9 ts (putType T_METHOD)" "reads_as jfr_read_long ts (jfr_id T_METHOD)" using type_var64 [of T_METHOD] by auto
  have "length ?ms \<le> length (lk_methods lk)" unfolding marked_methods_def by (metis length_filter_le length_map)
  then have len: "length ?ms < 2 ^ 32" using few by linarith
  let ?c = "word_of_nat (length ?ms) :: u32"
  have u: "unat ?c = length ?ms" using len by (intro unat_word_of_nat) simp
  have c: "appends 9 (var64_loop 0 (ucast ?c)) (putVar64_u32 ?c)" "reads_as jfr_read_long (var64_loop 0 (ucast ?c)) (length ?ms)"
    using appends_putVar64 [of "ucast ?c"] read_var64 [of "ucast ?c"] u by (simp_all add: putVar64_u32_def reads_as_def)
  have room2: "k + 18 + 54 \<le> ROOM" using room by simp
  note items = method_emits [OF w room2, of base_id]
  obtain bs where bs: "emits_room k (k + 18) bs (run_ops ([on_buf (putType T_METHOD), on_buf (putVar64_u32 ?c)] @ concat (map ?g ?ms)))"
    "reads_as (read_section method_kinds T_METHOD) bs (map (method_values base_id) ?ms)"
    using section_emits [of 9 ts "putType T_METHOD" T_METHOD 9 _ "putVar64_u32 ?c" ?ms "k + 18" ?g method_kinds "method_values base_id" k, OF t c items] room
    by auto
  have "lemits k (k + 18) (writeMethods w base_id) lk (lk\<lparr>lk_methods := unmark_methods (lk_methods lk)\<rparr>) bs"
    using lemits_sink [OF bs(1), of "lk\<lparr>lk_methods := unmark_methods (lk_methods lk)\<rparr>"] unfolding lemits_def writeMethods_def prod.case Let_def .
  with bs(2) show ?thesis by blast
qed

section \<open>Properties\<close>

text \<open>The numbers of methods in a stack trace that was read.\<close>

definition method_ref :: "jfr_value list \<Rightarrow> nat" where
  "method_ref vs = (case vs of VNum n # _ \<Rightarrow> n | _ \<Rightarrow> 0)"

fun trace_refs :: "nat \<times> jfr_value list \<Rightarrow> nat list" where
  "trace_refs (i, [VByte b, VArr fss]) = map method_ref fss"
| "trace_refs (i, vs) = []"

lemma trace_refs_values: "trace_refs (trace_values lk (i, t)) = map (\<lambda>f. unat (mi_key (method_of lk f))) (frames t)"
  by (simp add: trace_values_def method_ref_def frame_values_def)

lemma methods_ok_distinct:
  assumes "methods_ok mm"
  shows "distinct (map mi_key (map snd mm))"
  unfolding distinct_conv_nth
proof (intro allI impI)
  fix i j assume ij: "i < length (map mi_key (map snd mm))" "j < length (map mi_key (map snd mm))" "i \<noteq> j"
  have d: "distinct (map fst mm)" using assms by (simp add: methods_ok_def mm_sorted_distinct)
  have find: "mm_find (fst (mm ! k)) mm = Some (snd (mm ! k))" if "k < length mm" for k
    using that d by (simp add: mm_find_map_of map_of_is_SomeI)
  have "fst (mm ! i) \<noteq> fst (mm ! j)" using d ij by (auto simp: distinct_conv_nth)
  then show "map mi_key (map snd mm) ! i \<noteq> map mi_key (map snd mm) ! j"
    using assms find [of i] find [of j] ij by (auto simp: methods_ok_def)
qed

lemma marked_keys:
  assumes "methods_ok (lk_methods lk)"
  shows "distinct (map fst (map (method_values base_id) (marked_methods (lk_methods lk))))"
    and "marked_in lk f \<Longrightarrow> unat (mi_key (method_of lk f)) \<in> set (map fst (map (method_values base_id) (marked_methods (lk_methods lk))))"
proof -
  have "distinct (map mi_key (marked_methods (lk_methods lk)))"
    using methods_ok_distinct [OF assms] unfolding marked_methods_def by (rule distinct_map_filter)
  then have "distinct (map unat (map mi_key (marked_methods (lk_methods lk))))"
    by (subst distinct_map) (simp add: inj_on_def word_unat_eq_iff)
  moreover have "map fst (map (method_values base_id) (marked_methods (lk_methods lk))) = map unat (map mi_key (marked_methods (lk_methods lk)))"
    by (simp add: method_values_def)
  ultimately show "distinct (map fst (map (method_values base_id) (marked_methods (lk_methods lk))))" by (simp only:)
next
  assume "marked_in lk f"
  then have "mm_find (method_id f) (lk_methods lk) = Some (method_of lk f)" "mi_mark (method_of lk f)"
    by (auto simp: marked_in_def method_of_def)
  then have "method_of lk f \<in> set (marked_methods (lk_methods lk))"
    by (auto simp: marked_methods_def mm_find_map_of dest!: map_of_SomeD intro!: rev_image_eqI)
  then show "unat (mi_key (method_of lk f)) \<in> set (map fst (map (method_values base_id) (marked_methods (lk_methods lk))))"
    by (force simp: method_values_def)
qed


definition demo_trace :: call_trace where
  "demo_trace = \<lparr>truncated = False, frames = demo_frames\<rparr>"



text \<open>What a dictionary is collected into.\<close>

lemma dom_fold_update: "dom (fold (\<lambda>(i, k) m. m(i \<mapsto> k)) es m0) = set (map fst es) \<union> dom m0"
  by (induction es arbitrary: m0) auto

lemma set_collected_list: "set (collected_list d) = {(i, k). collect d i = Some k}"
proof -
  have "dom (collect d) = set (map fst (collect_table (table d)))" by (simp add: collect_def dom_fold_update)
  then have "set (collected_list d) = (\<lambda>i. (i, the (collect d i))) ` dom (collect d)" by (simp add: collected_list_def)
  then show ?thesis by (auto simp: dom_def image_iff)
qed

lemma length_collected_list: "length (collected_list d) \<le> 2 ^ 32"
proof -
  have "card (set (map fst (collect_table (table d)))) \<le> card (UNIV :: u32 set)" by (rule card_mono) simp_all
  then show ?thesis by (simp add: collected_list_def card_word)
qed

lemma fst_collected_list: "sorted_wrt (<) (map fst (collected_list d))"
  by (simp add: collected_list_def o_def)

text \<open>
  C29. A section of symbols, labels or context values: writing a dictionary succeeds, and a reader finds one constant
  for every string of the dictionary, under the number that the dictionary gives it combined with the base number of
  the chunk, and no others.
\<close>

theorem dictionary_section_readable:
  assumes w: "full_writes w" and s: "ready s" and t: "jfr_id t < 128" and ok: "dict_ok d"
    and short: "\<forall>key\<in>dom (key_index d). length key < 2 ^ 31"
  shows "\<exists>s' bs cs. writeDictionarySection w base_id t d s = Inr s' \<and> stream s' = stream s @ bs \<and>
     reads_as (read_section [KStr] t) bs cs \<and>
     set cs = {(unat (ucast i OR base_id), [str_value (Some (cbytes key))]) | i key. key_index d key = Some i} \<and>
     length cs = card (dom (key_index d))"
proof -
  let ?l = "collected_list d"
  have mem: "(i, key) \<in> set ?l \<longleftrightarrow> key_index d key = Some i" for i key by (simp add: set_collected_list collect_iff [OF ok])
  have few: "length ?l < 2 ^ 64" using length_collected_list [of d] by simp
  have len: "\<forall>(i, str)\<in>set ?l. length str < 2 ^ 31" using short mem by auto
  obtain bs where bs: "emits_room 0 28 bs (writeConstantPoolSection w base_id t ?l)" "reads_as (read_section [KStr] t) bs (map (string_constant base_id) ?l)"
    using string_section [OF w t few len] by blast
  have "near 0 s" using s by (simp add: near_0)
  from emits_roomD [OF bs(1) this] obtain s' where run: "writeDictionarySection w base_id t d s = Inr s'" "stream s' = stream s @ bs"
    by (auto simp: writeDictionarySection_def)
  have "set (map (string_constant base_id) ?l) = {(unat (ucast i OR base_id), [str_value (Some (cbytes key))]) | i key. key_index d key = Some i}"
    using mem by (force simp: string_constant_def)
  moreover have "length (map (string_constant base_id) ?l) = card (dom (key_index d))"
  proof -
    have inj: "inj_on snd (set ?l)" using mem by (auto simp: inj_on_def)
    have "dom (key_index d) = snd ` set ?l" using mem by (force simp: dom_def)
    moreover have "distinct ?l" using fst_collected_list [of d] by (metis distinct_map strict_sorted_iff)
    ultimately show ?thesis using card_image [OF inj] distinct_card [of ?l] by simp
  qed
  ultimately show ?thesis using run bs(2) by blast
qed

theorem dictionary_section_readable_witness:
  "\<exists>s' bs cs. writeDictionarySection int 0x1000000 T_SYMBOL (fst (new_dictionary 0 counters_init)) demo_sink = Inr s' \<and>
     stream s' = stream demo_sink @ bs \<and> reads_as (read_section [KStr] T_SYMBOL) bs cs \<and> cs = []"
proof -
  let ?d = "fst (new_dictionary 0 counters_init)"
  have e: "key_index ?d = Map.empty" by (rule key_index_new)
  have "\<forall>key\<in>dom (key_index ?d). length key < 2 ^ 31" by (simp add: e)
  from dictionary_section_readable [OF demo_ready(2) demo_ready(1) _ dict_ok_new this, where t = T_SYMBOL and base_id = "0x1000000"]
  show ?thesis by (auto simp: e)
qed

lemma ids_cleared: "ids (filter_clear f) = {}"
proof -
  have "page_word (filter_clear f) i j = 0" if "j < 8192" for i j
    using that by (auto simp: page_word_def filter_clear_def bitmap_consts split: option.splits)
  moreover have "word_index t < 8192" for t by (simp add: word_index_def bitmap_consts less_mult_imp_div_less)
  ultimately show ?thesis by (simp add: ids_def testbit_def)
qed

text \<open>
  C28. The thread section: the recording's own thread joins the set, a reader finds exactly the threads of the set, each
  with its name and Java identifier, an unknown one under a name made from its number, and the set is empty afterwards.
\<close>

theorem threads_readable:
  assumes w: "full_writes w" and s: "ready s" and f: "wf_filter f" "length (bitmaps f) * BITMAP_CAPACITY \<le> 2 ^ 31"
    and tid: "word_of_int tid < max_thread_id f" and short: "\<forall>t. 0 \<le> t \<and> t < 2 ^ 32 \<longrightarrow> length (fst (fst (thread_of t ti))) < 2 ^ 30"
  shows "\<exists>f' cs' ti' s' bs tids. writeThreads w True tid ((f, cs), ti) s = Inr (((f', cs'), ti'), s') \<and> ids f' = {} \<and>
     stream s' = stream s @ bs \<and> set tids = (\<lambda>t. int (unat t)) ` insert (word_of_int tid) (ids f) \<and>
     reads_as (read_section (event_kinds (profiler_schema k v14) T_THREAD) T_THREAD) bs (map (\<lambda>t. thread_values t (fst (thread_of t ti))) tids)"
proof -
  have kinds: "event_kinds (profiler_schema k v14) T_THREAD = [KStr, KVar, KStr, KVar]" by (rule event_kinds_constants)
  obtain f1 cs1 where add: "filter_add True (word_of_int tid) (f, cs) = Inr (f1, cs1)" "wf_filter f1" "ids f1 = insert (word_of_int tid) (ids f)"
    using filter_add_ok [OF f(1) tid] by blast
  let ?tids = "filter_collect f1"
  have n: "length (bitmaps f1) * BITMAP_CAPACITY \<le> 2 ^ 31" using f(2) filter_add_length [OF add(1)] by simp
  have set: "set ?tids = (\<lambda>t. int (unat t)) ` insert (word_of_int tid) (ids f)" using set_filter_collect [OF add(2) n] add(3) by simp
  have "length ?tids \<le> length (bitmaps f1) * BITMAP_CAPACITY" unfolding filter_collect_eq [OF n]
    by (metis length_filter_le length_map length_upt minus_nat.diff_0)
  then have few: "length ?tids < 2 ^ 64" using n by simp
  obtain ops ti' where l: "threads_loop w ?tids ti = (ops, ti')" by (cases "threads_loop w ?tids ti")
  have z: "0 + 18 \<le> ROOM" by (simp add: ROOM_eq)
  have names: "\<forall>t\<in>set ?tids. length (fst (fst (thread_of t ti))) < 2 ^ 30"
  proof
    fix t assume "t \<in> set ?tids"
    then obtain u :: u32 where "t = int (unat u)" unfolding set by blast
    then have "0 \<le> t \<and> t < 2 ^ 32" using uint_lt2p [of u] by simp
    with short show "length (fst (fst (thread_of t ti))) < 2 ^ 30" by blast
  qed
  obtain bs where bs: "emits_room 0 (0 + 18) bs (run_ops ([on_buf (putType T_THREAD), on_buf (putVar64 (word_of_nat (length ?tids)))] @ ops))"
    "reads_as (read_section [KStr, KVar, KStr, KVar] T_THREAD) bs (map (\<lambda>t. thread_values t (fst (thread_of t ti))) ?tids)"
    using threads_section [OF w few names z] l by auto
  have "near 0 s" using s by (simp add: near_0)
  from emits_roomD [OF bs(1) this] obtain s' where r: "run_ops ([on_buf (putType T_THREAD), on_buf (putVar64 (word_of_nat (length ?tids)))] @ ops) s = Inr s'"
    "stream s' = stream s @ bs" by blast
  have "writeThreads w True tid ((f, cs), ti) s = Inr (((filter_clear f1, cs1), ti'), s')"
    unfolding writeThreads_def prod.case add(1) sum.case Let_def l r(1) ..
  then show ?thesis using r(2) bs(2) set ids_cleared [of f1] unfolding kinds by blast
qed

lemma length_dec_digits: "n < 10 ^ k \<Longrightarrow> length (dec n) \<le> max 1 k"
proof (induction k arbitrary: n)
  case (Suc k)
  show ?case
  proof (cases "n < 10")
    case False
    have "n div 10 < 10 ^ k" using Suc.prems by (simp add: less_mult_imp_div_less)
    moreover have "k \<noteq> 0" using False Suc.prems by (cases k) auto
    ultimately show ?thesis using False Suc.IH [of "n div 10"] by (simp add: dec.simps [of n])
  qed (simp add: dec.simps [of n])
qed (simp add: dec.simps)

theorem threads_readable_witness:
  "\<exists>f' cs' ti' s' bs tids. writeThreads int True 12 (new_ThreadFilter 131072 counters_init, new_ThreadInfo) demo_sink = Inr (((f', cs'), ti'), s') \<and>
     ids f' = {} \<and> stream s' = stream demo_sink @ bs \<and> set tids = {12} \<and>
     reads_as (read_section (event_kinds (profiler_schema 0 True) T_THREAD) T_THREAD) bs
       (map (\<lambda>t. thread_values t (fst (thread_of t new_ThreadInfo))) tids)"
proof -
  let ?f = "fst (new_ThreadFilter 131072 counters_init)"
  note wf = wf_new_filter [of 131072 counters_init]
  have b: "length (bitmaps ?f) * BITMAP_CAPACITY \<le> 2 ^ 31" "word_of_int 12 < max_thread_id ?f"
    by (simp_all add: new_ThreadFilter_def Let_def bitmap_consts)
  have "length (fst (fst (thread_of t new_ThreadInfo))) < 2 ^ 30" if "0 \<le> t" "t < 2 ^ 32" for t
  proof -
    have "nat t < 10 ^ 10" using that by simp
    from length_dec_digits [OF this] have "length (dec (nat t)) \<le> 10" by simp
    then show ?thesis using that(1) by (simp add: thread_of_def ti_get_def new_ThreadInfo_def dec_int_def)
  qed
  then have "\<forall>t. 0 \<le> t \<and> t < 2 ^ 32 \<longrightarrow> length (fst (fst (thread_of t new_ThreadInfo))) < 2 ^ 30" by blast
  from threads_readable [OF demo_ready(2) demo_ready(1) _ b this, of "snd (new_ThreadFilter 131072 counters_init)" 0 True] wf
  show ?thesis by (simp add: prod.collapse)
qed

end
