(* ===== verification/Chunk_Contracts.thy ===== *)
theory Chunk_Contracts
  imports Constant_Pool
begin

text \<open>
  That a whole chunk can be written: contracts without values for the writers of \<^verbatim>\<open>flightRecorder.cpp\<close> that a chunk
  begins and ends with, and for the constant pool as a whole. Under conditions on what the pool is written from, which
  the pool leaves true, \<^verbatim>\<open>writeCpool\<close> runs to its end, whatever the strings and however many the constants.

  \<open>writes k l op\<close> says that \<open>op\<close> takes a buffer that is at most \<open>k\<close> bytes above the flush threshold to one that is at
  most \<open>l\<close> bytes above it, and only appends.
\<close>

unbundle bit_operations_syntax

section \<open>Writers without values\<close>

definition writes :: "nat \<Rightarrow> nat \<Rightarrow> sink_op \<Rightarrow> bool" where
  "writes k l op \<longleftrightarrow> (\<exists>bs. emits_room k l bs op)"

lemma writes_mono: "writes k l op \<Longrightarrow> k' \<le> k \<Longrightarrow> l \<le> l' \<Longrightarrow> writes k' l' op"
  unfolding writes_def using emits_room_mono by blast

lemma writes_Nil: "writes k k (run_ops [])"
  unfolding writes_def using emits_room_Nil by blast

lemma writes_Cons: "writes k l f \<Longrightarrow> writes l m (run_ops fs) \<Longrightarrow> writes k m (run_ops (f # fs))"
  unfolding writes_def using emits_room_Cons by blast

lemma writes_append: "writes k l (run_ops fs) \<Longrightarrow> writes l m (run_ops gs) \<Longrightarrow> writes k m (run_ops (fs @ gs))"
  unfolding writes_def using emits_room_append by blast

lemma writes_concat:
  assumes "\<And>x. x \<in> set xs \<Longrightarrow> writes k k (run_ops (g x))"
  shows "writes k k (run_ops (concat (map g xs)))"
  using assms by (induction xs) (auto intro: writes_Nil writes_append simp del: run_ops.simps)

lemma writes_each: "(\<And>x. x \<in> set xs \<Longrightarrow> writes k k (f x)) \<Longrightarrow> writes k k (run_ops (map f xs))"
  using writes_concat [of xs k "\<lambda>x. [f x]"] writes_Cons [OF _ writes_Nil, of k k] by (simp add: concat_singletons)

lemma writes_flush: "full_writes w \<Longrightarrow> lm \<le> JFR_EVENT_FLUSH_THRESHOLD \<Longrightarrow> writes k 0 (flush_op w lm)"
  unfolding writes_def using emits_room_flush by blast

lemma writes_put: "appends n bs op \<Longrightarrow> k + n \<le> ROOM \<Longrightarrow> writes k (k + n) (on_buf op)"
  unfolding writes_def using emits_room_put by blast

lemma emits_writes: "emits bs op \<Longrightarrow> writes 0 0 op"
  unfolding writes_def emits_room_0 by blast

text \<open>Writes to the buffer only, as one write.\<close>

lemma run_ops_on_buf: "run_ops (map on_buf ops) = on_buf (run_ops ops)"
proof
  show "run_ops (map on_buf ops) s = on_buf (run_ops ops) s" for s
    by (induction ops arbitrary: s) (auto simp: on_buf_def split: sum.splits)
qed

lemma run_ops_single: "run_ops [f] = f"
  by (simp add: fun_eq_iff split: sum.split)

definition fits :: "nat \<Rightarrow> buffer_op \<Rightarrow> bool" where
  "fits n op \<longleftrightarrow> (\<exists>bs. appends n bs op)"

lemma fits_mono: "fits n op \<Longrightarrow> n \<le> m \<Longrightarrow> fits m op"
  unfolding fits_def using appends_mono by blast

lemma fits_Nil: "fits 0 (run_ops [])"
  unfolding fits_def using appends_Nil by blast

lemma fits_Cons: "fits n f \<Longrightarrow> fits m (run_ops fs) \<Longrightarrow> fits (n + m) (run_ops (f # fs))"
  unfolding fits_def using appends_Cons by blast

lemma fits_append: "fits n (run_ops fs) \<Longrightarrow> fits m (run_ops gs) \<Longrightarrow> fits (n + m) (run_ops (fs @ gs))"
  unfolding fits_def using appends_append by blast

lemma fits_concat:
  assumes "\<And>x. x \<in> set xs \<Longrightarrow> fits n (run_ops (g x))"
  shows "fits (length xs * n) (run_ops (concat (map g xs)))"
  using assms
proof (induction xs)
  case Nil
  show ?case using fits_Nil by (simp del: run_ops.simps)
next
  case (Cons x xs)
  have "fits (n + length xs * n) (run_ops (g x @ concat (map g xs)))" using Cons by (intro fits_append) simp_all
  then show ?case by (simp del: run_ops.simps)
qed

lemma event5_fits: "fits n (run_ops fs) \<Longrightarrow> fits (5 + n) (event5 fs)"
  unfolding fits_def using event5_appends by blast

lemma event1_fits: "fits n (run_ops fs) \<Longrightarrow> n < 255 \<Longrightarrow> fits (Suc n) (event1 fs)"
  unfolding fits_def using event1_appends by blast

lemma fits_utf8_len: "fits (6 + min (length v) MAX_STRING_LENGTH) (putUtf8_len v (word_of_nat (length v)))"
proof -
  let ?len = "word_of_nat (length v) :: u32"
  have le: "unat ?len \<le> length v" by (simp add: unat_of_nat take_bit_nat_less_eq_self)
  define l where "l = (if unat ?len < MAX_STRING_LENGTH then ?len else word_of_nat MAX_STRING_LENGTH)"
  have l: "unat l \<le> length v" "unat l \<le> min (length v) MAX_STRING_LENGTH" "unat l < 2 ^ 30"
    using le by (auto simp: l_def MAX_STRING_LENGTH_def)
  have "appends (1 + (5 + (unat l + 0))) ([3] @ var_loop l @ take (unat l) v @ []) (run_ops [put8 3, putVar32 l, Buffers.put v l])"
    by (intro appends_Cons appends_Nil appends_put8 appends_putVar32 appends_put l)
  then have "fits (6 + unat l) (putUtf8_len v ?len)" unfolding fits_def putUtf8_len_def Let_def l_def [symmetric] by auto
  then show ?thesis by (rule fits_mono) (use l in simp)
qed

lemma fits_putUtf8: "fits (6 + (case s of None \<Rightarrow> 0 | Some v \<Rightarrow> min (length v) MAX_STRING_LENGTH)) (putUtf8 s)"
proof (cases s)
  case None
  have "fits 1 (putUtf8 s)" unfolding None fits_def using appends_putUtf8_None by blast
  then show ?thesis by (rule fits_mono) (simp add: None)
next
  case (Some v)
  then show ?thesis using fits_utf8_len [of v] by (simp add: putUtf8_def)
qed

lemma fits_field:
  "fits 1 (put8 b)" "fits 9 (putVar64 x)" "fits 9 (putVar64_int i)" "fits 9 (putVar64_u32 u)" "fits 9 (putType t)" "fits 5 (putVar32 u)"
  "fits 5 (putVar32_int i)" "fits 8 (put64 x)"
  unfolding fits_def putVar64_int_def putVar64_u32_def putType_def putVar32_int_def
  using appends_put8 appends_putVar64 appends_putVar32 appends_put64 by blast+

lemma fits_str: "fits 8197 (putUtf8 s)"
  by (rule fits_mono [OF fits_putUtf8]) (auto simp: MAX_STRING_LENGTH_def split: option.split)

lemma fits_short_str: "length v \<le> n \<Longrightarrow> fits (6 + n) (putUtf8 (cstr v))"
  by (rule fits_mono [OF fits_putUtf8]) (simp add: cstr_def cbytes_def)

lemma writes_big:
  assumes "full_writes w" and "fits n ev" and "lm \<le> JFR_EVENT_FLUSH_THRESHOLD" and "max 0 (lm - 1) + int n < int RecordingBuffer_limit"
  shows "writes 0 0 (write_big w lm ev)"
  using assms write_big_emits emits_writes unfolding fits_def by blast

lemma writes_event: "full_writes w \<Longrightarrow> fits n ev \<Longrightarrow> n \<le> ROOM \<Longrightarrow> writes 0 0 (write_event w ev)"
  using write_event_emits emits_writes unfolding fits_def by blast

lemma writes_item: "full_writes w \<Longrightarrow> fits n op \<Longrightarrow> k + n \<le> ROOM \<Longrightarrow> writes k 0 (run_ops [on_buf op, flush_op w JFR_EVENT_FLUSH_THRESHOLD])"
  unfolding fits_def writes_def using item_flush by blast

lemma writes_fits: "fits n op \<Longrightarrow> k + n \<le> ROOM \<Longrightarrow> writes k (k + n) (on_buf op)"
  unfolding fits_def using writes_put by blast

section \<open>The names of classes\<close>

text \<open>A property of all strings of a dictionary survives lookups of strings that have it.\<close>

definition dict_holds :: "(string \<Rightarrow> bool) \<Rightarrow> dictionary \<Rightarrow> bool" where
  "dict_holds P d \<longleftrightarrow> wf_table (table d) \<and> (\<forall>(i, k)\<in>set (collect_table (table d)). P k)"

lemma dict_holds_new: "dict_holds P (fst (new_dictionary i cs))"
  by (simp add: dict_holds_def new_dictionary_def wf_new_table collect_new del: collect_table.simps)

lemma dict_holds_lookup:
  assumes "dict_holds P d" and "P k"
  shows "dict_holds P (fst (snd (lookup k d cs)))"
proof (cases "find_key k (hash k) (table d)")
  case (Some i)
  have "walk True 0 k (base_idx d) (hash k) (table d) = \<lparr>ret = i, tab = table d, base' = base_idx d, stored = False, added = False\<rparr>"
    by (rule walk_found [OF Some]) (use assms in \<open>simp add: dict_holds_def\<close>)
  then show ?thesis using assms by (simp add: lookup_def lookup4_def Let_def)
next
  case None
  have wf: "wf_table (table d)" using assms by (simp add: dict_holds_def)
  have "table (fst (snd (lookup k d cs))) = tab (walk True 0 k (base_idx d) (hash k) (table d))"
    by (simp add: lookup_def lookup4_def Let_def)
  then show ?thesis
    using collect_walk [OF None wf, of 0 "base_idx d"] walk_stores [OF None wf, of "base_idx d" 0] assms
    by (auto simp: dict_holds_def stores_def simp del: collect_table.simps)
qed

lemma dict_holds_collected: "dict_holds P d \<Longrightarrow> \<forall>(i, k)\<in>set (collected_list d). P k"
proof -
  assume d: "dict_holds P d"
  have "P k" if "collect d i = Some k" for i k
  proof -
    have "map_of (rev (collect_table (table d))) i = Some k" using that by (simp add: collect_def fold_upd_map_of)
    then have "(i, k) \<in> set (collect_table (table d))" using map_of_SomeD by fastforce
    then show ?thesis using d by (auto simp: dict_holds_def)
  qed
  then show ?thesis by (auto simp: set_collected_list)
qed

text \<open>Class names from which a package can be cut: an array has an element class before its last slash.\<close>

definition package_ok :: "string \<Rightarrow> bool" where
  "package_ok cn \<longleftrightarrow>
     (case package_end cn of
        None \<Rightarrow> True
      | Some p \<Rightarrow> (cn \<noteq> [] \<and> hd cn = CHR ''['') \<longrightarrow> (case first_index (CHR ''L'') cn of None \<Rightarrow> False | Some l \<Rightarrow> Suc l \<le> p))"

lemma getPackage_ok: "package_ok cn \<Longrightarrow> \<exists>i st'. getPackage cn st = Inr (i, st') \<and> lk_classes st' = lk_classes st \<and> lk_methods st' = lk_methods st"
  by (auto simp: package_ok_def getPackage_def lookup_package_def split: option.splits prod.splits)

text \<open>The classes that frames are resolved to.\<close>

definition env_classes_ok :: "vm_env \<Rightarrow> bool" where
  "env_classes_ok env \<longleftrightarrow> (\<forall>cls cn mn. vm_class_signature env cls = Some cn \<longrightarrow> package_ok (fst (java_names cn mn)))"

lemma package_ok_Nil: "package_ok []"
  by (simp add: package_ok_def package_end_def)

lemma getSymbol_classes: "lk_classes (snd (getSymbol s lk)) = lk_classes lk"
  by (simp add: getSymbol_def split: prod.split)

lemma getSymbol_classes': "getSymbol s lk = (i, lk') \<Longrightarrow> lk_classes lk' = lk_classes lk \<and> lk_methods lk' = lk_methods lk \<and> lk_packages lk' = lk_packages lk"
  by (auto simp: getSymbol_def split: prod.splits)

lemma lookup_class_holds: "lookup_class c lk = (i, lk') \<Longrightarrow> dict_holds P (lk_classes lk) \<Longrightarrow> P c \<Longrightarrow> dict_holds P (lk_classes lk')"
  using dict_holds_lookup [of P "lk_classes lk" c "lk_counters lk"] by (auto simp: lookup_class_def split: prod.splits)

lemma fill_native_classes:
  assumes "fillNativeMethodInfo env name mi lk = Inr (mi', lk')" and "dict_holds P (lk_classes lk)" and "P []"
  shows "dict_holds P (lk_classes lk')"
proof -
  obtain c lk1 where l: "lookup_class [] lk = (c, lk1)" by (cases "lookup_class [] lk")
  have "dict_holds P (lk_classes lk1)" by (rule lookup_class_holds [OF l assms(2,3)])
  moreover have "lk_classes lk' = lk_classes lk1"
    using assms(1) l by (auto simp: fillNativeMethodInfo_def Let_def dest!: getSymbol_classes' split: prod.splits option.splits if_splits sum.splits)
  ultimately show ?thesis by simp
qed

lemma fill_java_classes:
  assumes "fillJavaMethodInfo env m ft mi lk = (mi', lk')" and "dict_holds package_ok (lk_classes lk)" and env: "env_classes_ok env"
  shows "dict_holds package_ok (lk_classes lk')"
proof (cases "\<not> vm_push_ok env \<or> vm_phase env AND 6 = 0")
  case True
  then show ?thesis using assms by (auto simp: fillJavaMethodInfo_def)
next
  case False
  show ?thesis
  proof (cases "describe_method env m")
    case None
    obtain ci lk1 where l: "lookup_class [] (lk\<lparr>lk_counters := increment JMETHODID_SKIPPED 1 0 (lk_counters lk)\<rparr>) = (ci, lk1)" by fastforce
    have "dict_holds package_ok (lk_classes lk1)" by (rule lookup_class_holds [OF l]) (use assms(2) package_ok_Nil in simp_all)
    then show ?thesis using assms(1) False None l
      by (auto simp: fillJavaMethodInfo_def dest!: getSymbol_classes' split: prod.splits)
  next
    case (Some d)
    obtain cls cn mn sg where d: "d = (cls, cn, mn, sg)" by (cases d)
    obtain c n where j: "java_names cn mn = (c, n)" by fastforce
    obtain ci lk1 where l: "lookup_class c lk = (ci, lk1)" by fastforce
    have "vm_class_signature env cls = Some cn"
      using Some d by (auto simp: describe_method_def split: if_splits option.splits)
    then have "package_ok c" using env j unfolding env_classes_ok_def by (metis fst_conv)
    then have "dict_holds package_ok (lk_classes lk1)" by (intro lookup_class_holds [OF l assms(2)])
    then show ?thesis using assms(1) False Some d j l
      by (auto simp: fillJavaMethodInfo_def dest!: getSymbol_classes' split: prod.splits)
  qed
qed

lemma resolve_classes:
  assumes "resolveMethod env f lk = Inr (mi, lk')" and "dict_holds package_ok (lk_classes lk)" and "env_classes_ok env"
  shows "dict_holds package_ok (lk_classes lk')"
  using assms fill_native_classes [where P = package_ok] package_ok_Nil fill_java_classes
  by (fastforce simp: resolveMethod_def Let_def split: prod.splits if_splits sum.splits)


lemma write_frames_classes:
  "write_frames w env fs (lk, s) = Inr (lk', s') \<Longrightarrow> dict_holds package_ok (lk_classes lk) \<Longrightarrow> env_classes_ok env \<Longrightarrow>
   dict_holds package_ok (lk_classes lk')"
proof (induction fs arbitrary: lk s)
  case (Cons f fs)
  then obtain mi lk1 s1 where r: "resolveMethod env f lk = Inr (mi, lk1)" "write_frames w env fs (lk1, s1) = Inr (lk', s')"
    by (auto simp del: run_ops.simps split: sum.splits)
  from Cons.IH [OF r(2) resolve_classes [OF r(1) Cons.prems(2,3)] Cons.prems(3)] show ?case .
qed simp

lemma write_trace_classes:
  assumes "write_trace w env it (lk, s) = Inr (lk', s')" and "dict_holds package_ok (lk_classes lk)" and "env_classes_ok env"
  shows "dict_holds package_ok (lk_classes lk')"
proof -
  obtain i t where it: "it = (i, t)" by (cases it)
  obtain lk1 ops where 1: "run_ops [in_sink (run_ops ops), write_frames w env (frames t), in_sink (flush_op w JFR_EVENT_FLUSH_THRESHOLD)] (lk1, s) = Inr (lk', s')"
    "dict_holds package_ok (lk_classes lk1)"
  proof (cases "frames t = []")
    case True
    then show ?thesis using that [of _ lk] assms(1,2) unfolding it write_trace_def prod.case Let_def by (simp del: run_ops.simps)
  next
    case False
    obtain mi lk1 where r: "resolveMethod env (last (frames t)) lk = Inr (mi, lk1)"
      using assms(1) False unfolding it write_trace_def prod.case Let_def by (auto simp del: run_ops.simps split: sum.splits)
    show ?thesis using that [of _ lk1] assms(1) resolve_classes [OF r assms(2,3)] False r
      unfolding it write_trace_def prod.case Let_def by (simp del: run_ops.simps)
  qed
  then show ?thesis using write_frames_classes [OF _ _ assms(3)]
    by (auto simp: in_sink_def split: sum.splits)
qed

lemma write_traces_classes:
  "run_ops (map (write_trace w env) trs) (lk, s) = Inr (lk', s') \<Longrightarrow> dict_holds package_ok (lk_classes lk) \<Longrightarrow> env_classes_ok env \<Longrightarrow>
   dict_holds package_ok (lk_classes lk')"
proof (induction trs arbitrary: lk s)
  case (Cons t trs)
  then obtain lk1 s1 where 1: "write_trace w env t (lk, s) = Inr (lk1, s1)" "run_ops (map (write_trace w env) trs) (lk1, s1) = Inr (lk', s')"
    by (auto split: sum.splits)
  from Cons.IH [OF 1(2) write_trace_classes [OF 1(1) Cons.prems(2,3)] Cons.prems(3)] show ?case .
qed simp

lemma stack_traces_classes:
  assumes "writeStackTraces w env trs (lk, s) = Inr (lk', s')" and "dict_holds package_ok (lk_classes lk)" and "env_classes_ok env"
  shows "dict_holds package_ok (lk_classes lk')"
proof -
  obtain s1 where "run_ops (map (write_trace w env) trs) (lk, s1) = Inr (lk', s')"
    using assms(1) unfolding writeStackTraces_def by (auto simp: in_sink_def split: sum.splits)
  from write_traces_classes [OF this assms(2,3)] show ?thesis .
qed

section \<open>The sections of the constant pool\<close>

text \<open>Sections of a fixed number of constants.\<close>

lemma fixed_section:
  assumes w: "full_writes w" and head: "fits n a" "fits n' b" and items: "\<And>x. x \<in> set xs \<Longrightarrow> \<exists>ops. g x = map on_buf ops \<and> fits m (run_ops ops)"
    and room: "k + n + n' + length xs * m \<le> ROOM"
  shows "writes k 0 (run_ops ([on_buf a, on_buf b] @ concat (map g xs) @ [flush_op w JFR_EVENT_FLUSH_THRESHOLD]))"
proof -
  obtain f where f: "\<And>x. x \<in> set xs \<Longrightarrow> g x = map on_buf (f x) \<and> fits m (run_ops (f x))" using items by metis
  then have "concat (map g xs) = map on_buf (concat (map f xs))" by (induction xs) auto
  then have "run_ops (concat (map g xs)) = on_buf (run_ops (concat (map f xs)))" by (simp only: run_ops_on_buf)
  moreover have "fits (length xs * m) (run_ops (concat (map f xs)))" using f by (intro fits_concat) blast
  ultimately have c: "writes (k + n + n') (k + n + n' + length xs * m) (run_ops (concat (map g xs)))" using writes_fits room by simp
  have "writes k (k + n + n') (run_ops [on_buf a, on_buf b])"
    by (rule writes_Cons [OF writes_fits [OF head(1)] writes_Cons [OF writes_fits [OF head(2)] writes_Nil]]) (use room in simp_all)
  then show ?thesis by (rule writes_append [OF _ writes_append [OF c writes_Cons [OF writes_flush [OF w order_refl] writes_Nil]]])
qed

lemma constant_fits: "fits n key \<Longrightarrow> length name \<le> m \<Longrightarrow> \<exists>ops. constant_ops key (cstr name) = map on_buf ops \<and> fits (n + (6 + m)) (run_ops ops)"
  unfolding constant_ops_def
  by (intro exI [of _ "[key, putUtf8 (cstr name)]"]) (use fits_Cons [OF _ fits_Cons [OF fits_short_str fits_Nil], of n key name m] in simp)

lemma constant32_fits: "length name \<le> 20 \<Longrightarrow> \<exists>ops. constant_ops (putVar32 v) (cstr name) = map on_buf ops \<and> fits 31 (run_ops ops)"
  using constant_fits [OF fits_field(6), of name 20 v] by simp

lemma constant8_fits: "length name \<le> 20 \<Longrightarrow> \<exists>ops. constant_ops (put8 v) (cstr name) = map on_buf ops \<and> fits 27 (run_ops ops)"
  using constant_fits [OF fits_field(1), of name 20 v] by simp

lemmas fixed_section_intros = fits_field fits_field(1) [unfolded One_nat_def] constant32_fits constant8_fits

lemma writes_frame_types: "full_writes w \<Longrightarrow> k \<le> 1000 \<Longrightarrow> writes k 0 (writeFrameTypes w)"
  unfolding writeFrameTypes_def
  by (rule fixed_section [where n = 5 and n' = 5 and m = 31])
    (auto simp: ROOM_eq frame_type_names_def intro: fixed_section_intros)

lemma writes_thread_states: "full_writes w \<Longrightarrow> k \<le> 1000 \<Longrightarrow> writes k 0 (writeThreadStates w)"
  unfolding writeThreadStates_def
  by (rule fixed_section [where n = 9 and n' = 1 and m = 27])
    (auto simp: ROOM_eq thread_state_names_def intro: fixed_section_intros)

lemma writes_execution_modes: "full_writes w \<Longrightarrow> k \<le> 1000 \<Longrightarrow> writes k 0 (writeExecutionModes w)"
  unfolding writeExecutionModes_def
  by (rule fixed_section [where n = 9 and n' = 1 and m = 27])
    (auto simp: ROOM_eq execution_mode_names_def intro: fixed_section_intros)

lemma writes_log_levels:
  assumes w: "full_writes w" and k: "k \<le> 1000"
  shows "writes k (k + 18) (writeLogLevels w)"
proof -
  have item: "writes (k + 18) (k + 18) (run_ops (constant_ops (putVar32 (word_of_nat i)) (cstr (LEVEL_NAME ! i)) @ [flush_op w JFR_EVENT_FLUSH_THRESHOLD]))"
    if "i \<in> set [0..<5]" for i
  proof -
    have "length n \<le> 20" if "n \<in> set LEVEL_NAME" for n using that by (auto simp: LEVEL_NAME_def)
    moreover have "LEVEL_NAME ! i \<in> set LEVEL_NAME" using that by (intro nth_mem) (simp add: LEVEL_NAME_def)
    ultimately have "length (LEVEL_NAME ! i) \<le> 20" by blast
    from constant32_fits [OF this] obtain ops where ops: "constant_ops (putVar32 (word_of_nat i)) (cstr (LEVEL_NAME ! i)) = map on_buf ops"
      "fits 31 (run_ops ops)" by auto
    have "writes (k + 18) (k + 18 + 31) (run_ops (map on_buf ops))" unfolding run_ops_on_buf by (rule writes_fits [OF ops(2)]) (use k in \<open>simp add: ROOM_eq\<close>)
    from writes_append [OF this writes_Cons [OF writes_flush [OF w order_refl] writes_Nil]]
    show ?thesis unfolding ops(1) by (rule writes_mono) simp_all
  qed
  have h: "writes k (k + 18) (run_ops [on_buf (putType T_LOG_LEVEL), on_buf (putVar64 5)])"
    using writes_Cons [OF writes_fits [OF fits_field(5)] writes_Cons [OF writes_fits [OF fits_field(2)] writes_Nil], of k T_LOG_LEVEL 5] k
    by (simp add: ROOM_eq add.assoc)
  show ?thesis unfolding writeLogLevels_def by (rule writes_append [OF h writes_concat [OF item]])
qed


text \<open>Threads and strings, whatever their names.\<close>

lemma writes_room_big:
  assumes "full_writes w" and "fits n op" and "lm \<le> JFR_EVENT_FLUSH_THRESHOLD"
    and "max 0 (lm - 1) + int n < int RecordingBuffer_limit" and "max 0 (lm - 1) + int n < int RECORDING_BUFFER_LIMIT + int l"
  shows "writes k l (run_ops [flush_op w lm, on_buf op])"
  using assms emits_room_big unfolding fits_def writes_def by blast

lemma writes_thread:
  assumes w: "full_writes w"
  shows "writes k 0 (run_ops (thread_ops w tid t))"
proof -
  obtain name java_id where t: "t = (name, java_id)" by (cases t)
  let ?p = "putUtf8_len (cbytes name) (word_of_nat (length name))"
  let ?n = "6 + min (length name) MAX_STRING_LENGTH"
  let ?lm = "int RECORDING_BUFFER_LIMIT - (if java_id = 0 then int (length name) + 1 else 2 * int (length name)) - 30"
  have p: "fits ?n ?p" using fits_utf8_len [of "cbytes name"] by (simp add: cbytes_def)
  have id: "fits (if java_id = 0 then 1 else ?n) (if java_id = 0 then put8 0 else ?p)" using p fits_field(1) by simp
  have "fits (9 + (?n + (9 + ((if java_id = 0 then 1 else ?n) + (9 + 0)))))
      (run_ops [putVar64_int tid, ?p, putVar64_int tid, if java_id = 0 then put8 0 else ?p, putVar64 java_id])"
    by (intro fits_Cons fits_Nil fits_field p id)
  from writes_room_big [OF w this, of ?lm 100 k]
  have "writes k 100 (run_ops [flush_op w ?lm, on_buf (run_ops [putVar64_int tid, ?p, putVar64_int tid, if java_id = 0 then put8 0 else ?p, putVar64 java_id])])"
    by (auto simp: JFR_EVENT_FLUSH_THRESHOLD_def buffer_consts max_def min_def simp del: run_ops.simps)
  from writes_append [OF this writes_Cons [OF writes_flush [OF w order_refl] writes_Nil]] show ?thesis
    by (simp add: t thread_ops_def Let_def del: run_ops.simps)
qed

lemma writes_threads_loop:
  assumes "full_writes w"
  shows "writes k k (run_ops (fst (threads_loop w tids ti)))"
  unfolding threads_loop_eq by (rule writes_concat, rule writes_mono [OF writes_thread [OF assms, of k]]) simp_all

lemma wf_filter_clear:
  assumes "wf_filter f"
  shows "wf_filter (filter_clear f)"
proof -
  have "\<not> testbit (filter_clear f) t" for t using ids_cleared [of f] by (auto simp: ids_def)
  then show ?thesis using assms ids_cleared [of f] by (simp add: wf_filter_def filter_clear_def)
qed

lemma writes_threads:
  assumes w: "full_writes w" and s: "near k s" and room: "k + 18 \<le> ROOM" and f: "wf_filter f" "word_of_int tid < max_thread_id f"
  shows "\<exists>f' cs' ti' s' bs. writeThreads w True tid ((f, cs), ti) s = Inr (((f', cs'), ti'), s') \<and> near (k + 18) s' \<and> stream s' = stream s @ bs \<and>
     wf_filter f' \<and> max_thread_id f' = max_thread_id f"
proof -
  obtain f1 cs1 where add: "filter_add True (word_of_int tid) (f, cs) = Inr (f1, cs1)" "wf_filter f1" "max_thread_id f1 = max_thread_id f"
    using filter_add_ok [OF f] by blast
  let ?tids = "filter_collect f1"
  obtain ops ti' where l: "threads_loop w ?tids ti = (ops, ti')" by (cases "threads_loop w ?tids ti")
  have "writes k (k + 9 + 9) (run_ops [on_buf (putType T_THREAD), on_buf (putVar64 (word_of_nat (length ?tids)))])"
    by (rule writes_Cons [OF writes_fits [OF fits_field(5)] writes_Cons [OF writes_fits [OF fits_field(2)] writes_Nil]]) (use room in simp_all)
  moreover have "k + 9 + 9 = k + 18" by simp
  ultimately have "writes k (k + 18) (run_ops [on_buf (putType T_THREAD), on_buf (putVar64 (word_of_nat (length ?tids)))])" by (simp only:)
  from writes_append [OF this writes_threads_loop [OF w, of "k + 18" ?tids ti]]
  obtain bs where "emits_room k (k + 18) bs (run_ops ([on_buf (putType T_THREAD), on_buf (putVar64 (word_of_nat (length ?tids)))] @ ops))"
    unfolding writes_def l fst_conv by blast
  from emits_roomD [OF this s] obtain s' where
    r: "run_ops ([on_buf (putType T_THREAD), on_buf (putVar64 (word_of_nat (length ?tids)))] @ ops) s = Inr s'" "near (k + 18) s'" "stream s' = stream s @ bs" by blast
  have "writeThreads w True tid ((f, cs), ti) s = Inr (((filter_clear f1, cs1), ti'), s')"
    unfolding writeThreads_def prod.case add(1) sum.case Let_def l r(1) ..
  moreover have "max_thread_id (filter_clear f1) = max_thread_id f" by (simp add: filter_clear_def add(3))
  ultimately show ?thesis using r wf_filter_clear [OF add(2)] by blast
qed

lemma writes_string_constant:
  assumes w: "full_writes w"
  shows "writes k 10 (run_ops (string_constant_ops w base_id (i, str)))"
proof -
  have p: "fits (6 + min (length str) MAX_STRING_LENGTH) (putUtf8_len (cbytes str) (word_of_nat (length str)))"
    using fits_utf8_len [of "cbytes str"] by (simp add: cbytes_def)
  have "fits (9 + ((6 + min (length str) MAX_STRING_LENGTH) + 0))
      (run_ops [putVar64 (ucast i OR base_id), putUtf8_len (cbytes str) (word_of_nat (length str))])"
    by (intro fits_Cons fits_Nil fits_field p)
  from writes_room_big [OF w this, of "int RECORDING_BUFFER_LIMIT - int (length str) - 5" 10 k] show ?thesis
    unfolding string_constant_ops_def prod.case
    by (auto simp: JFR_EVENT_FLUSH_THRESHOLD_def buffer_consts max_def min_def simp del: run_ops.simps)
qed

lemma writes_dictionary:
  assumes w: "full_writes w"
  shows "writes k 28 (writeDictionarySection w base_id t d)"
proof -
  let ?cs = "collected_list d"
  have "writes 28 28 (run_ops (string_constant_ops w base_id x))" for x
    by (cases x) (auto intro: writes_mono [OF writes_string_constant [OF w]] simp del: run_ops.simps)
  then have c: "writes 28 28 (run_ops (concat (map (string_constant_ops w base_id) ?cs)))" by (rule writes_concat)
  have "writes 0 (0 + 9 + 9) (run_ops [on_buf (putType t), on_buf (putVar64 (word_of_nat (length ?cs)))])"
    by (rule writes_Cons [OF writes_fits [OF fits_field(5)] writes_Cons [OF writes_fits [OF fits_field(2)] writes_Nil]]) (simp_all add: ROOM_eq)
  then have "writes 0 28 (run_ops [on_buf (putType t), on_buf (putVar64 (word_of_nat (length ?cs)))])" by (rule writes_mono) simp_all
  from writes_Cons [OF writes_flush [OF w order_refl] writes_append [OF this c], of k] show ?thesis
    unfolding writeDictionarySection_def writeConstantPoolSection_def by simp
qed

text \<open>Classes and packages: they change only the symbols and the packages of the lookup.\<close>

definition same_tables :: "lookup_state \<Rightarrow> lookup_state \<Rightarrow> bool" where
  "same_tables lk lk' \<longleftrightarrow> lk_methods lk' = lk_methods lk \<and> lk_classes lk' = lk_classes lk"

definition lwrites :: "nat \<Rightarrow> nat \<Rightarrow> lookup_op \<Rightarrow> lookup_state \<Rightarrow> bool" where
  "lwrites k l op lk \<longleftrightarrow> (\<exists>lk' bs. lemits k l op lk lk' bs \<and> same_tables lk lk')"

lemma lwrites_Nil: "lwrites k k (run_ops []) lk"
  unfolding lwrites_def same_tables_def using lemits_Nil by blast

lemma lwrites_sink: "writes k l op \<Longrightarrow> lwrites k l (in_sink op) lk"
  unfolding lwrites_def writes_def same_tables_def using lemits_sink by blast

lemma lwrites_mono: "lwrites k l op lk \<Longrightarrow> k' \<le> k \<Longrightarrow> l \<le> l' \<Longrightarrow> lwrites k' l' op lk"
  unfolding lwrites_def using lemits_mono by blast

lemma lwrites_Cons:
  assumes "lwrites k l f lk" and "\<And>lk1. same_tables lk lk1 \<Longrightarrow> lwrites l m (run_ops fs) lk1"
  shows "lwrites k m (run_ops (f # fs)) lk"
proof -
  obtain lk1 as where 1: "lemits k l f lk lk1 as" "same_tables lk lk1" using assms(1) by (auto simp: lwrites_def)
  obtain lk2 bs where 2: "lemits l m (run_ops fs) lk1 lk2 bs" "same_tables lk1 lk2" using assms(2) [OF 1(2)] by (auto simp: lwrites_def)
  from lemits_Cons [OF 1(1) 2(1)] 1(2) 2(2) show ?thesis by (auto simp: lwrites_def same_tables_def)
qed

lemma lwrites_each:
  assumes one: "\<And>x lk. x \<in> set xs \<Longrightarrow> lwrites k k (f x) lk"
  shows "lwrites k k (run_ops (map f xs)) lk"
  using one
proof (induction xs arbitrary: lk)
  case Nil
  show ?case using lwrites_Nil by (simp del: run_ops.simps)
next
  case (Cons y ys lk0)
  have "lwrites k k (f y) lk0" by (rule Cons.prems) simp
  then show ?case unfolding list.map by (rule lwrites_Cons) (rule Cons.IH, use Cons.prems in simp)
qed

lemma lwrites_class:
  assumes w: "full_writes w" and room: "k + 45 \<le> ROOM" and name: "package_ok name"
  shows "lwrites k k (write_class w base_id (i, name)) lk"
proof -
  obtain sy lk1 where s: "getSymbol name lk = (sy, lk1)" by fastforce
  obtain pkg lk2 where p: "getPackage name lk1 = Inr (pkg, lk2)" "same_tables lk1 lk2" using getPackage_ok [OF name, of lk1] by (auto simp: same_tables_def)
  let ?op = "run_ops [putVar64_u32 i, putVar64 0, putVar64 (ucast sy OR base_id), putVar64 (ucast pkg OR base_id), putVar64 0]"
  have "fits (9 + (9 + (9 + (9 + (9 + 0))))) ?op" by (intro fits_Cons fits_Nil fits_field)
  from writes_item [OF w this, of k] room have "writes k 0 (run_ops [on_buf ?op, flush_op w JFR_EVENT_FLUSH_THRESHOLD])" by (simp del: run_ops.simps)
  then have "writes k k (run_ops [on_buf ?op, flush_op w JFR_EVENT_FLUSH_THRESHOLD])" by (rule writes_mono) simp_all
  from lwrites_sink [OF this, of lk2] obtain lk' bs where
    l: "lemits k k (in_sink (run_ops [on_buf ?op, flush_op w JFR_EVENT_FLUSH_THRESHOLD])) lk2 lk' bs" "same_tables lk2 lk'" by (auto simp: lwrites_def)
  have "write_class w base_id (i, name) (lk, x) = in_sink (run_ops [on_buf ?op, flush_op w JFR_EVENT_FLUSH_THRESHOLD]) (lk2, x)" for x
    unfolding write_class_def prod.case s p(1) sum.case ..
  then have "lemits k k (write_class w base_id (i, name)) lk lk' bs" using l(1) unfolding lemits_def by simp
  then show ?thesis using p(2) l(2) getSymbol_classes' [OF s] by (auto simp: lwrites_def same_tables_def)
qed

lemma lwrites_package:
  assumes w: "full_writes w" and room: "k + 18 \<le> ROOM"
  shows "lwrites k k (write_package w base_id (i, name)) lk"
proof -
  obtain sy lk1 where s: "getSymbol name lk = (sy, lk1)" by fastforce
  let ?op = "run_ops [putVar64 (ucast i OR base_id), putVar64 (ucast sy OR base_id)]"
  have "fits (9 + (9 + 0)) ?op" by (intro fits_Cons fits_Nil fits_field)
  from writes_item [OF w this, of k] room have "writes k 0 (run_ops [on_buf ?op, flush_op w JFR_EVENT_FLUSH_THRESHOLD])" by (simp del: run_ops.simps)
  then have "writes k k (run_ops [on_buf ?op, flush_op w JFR_EVENT_FLUSH_THRESHOLD])" by (rule writes_mono) simp_all
  from lwrites_sink [OF this, of lk1] obtain lk' bs where
    l: "lemits k k (in_sink (run_ops [on_buf ?op, flush_op w JFR_EVENT_FLUSH_THRESHOLD])) lk1 lk' bs" "same_tables lk1 lk'" by (auto simp: lwrites_def)
  have "write_package w base_id (i, name) (lk, x) = in_sink (run_ops [on_buf ?op, flush_op w JFR_EVENT_FLUSH_THRESHOLD]) (lk1, x)" for x
    unfolding write_package_def prod.case s ..
  then have "lemits k k (write_package w base_id (i, name)) lk lk' bs" using l(1) unfolding lemits_def by simp
  then show ?thesis using l(2) getSymbol_classes' [OF s] by (auto simp: lwrites_def same_tables_def)
qed


lemma lwrites_head:
  assumes "fits n a" and "fits n' b" and "k + n + n' \<le> ROOM" and "\<And>lk1. same_tables lk lk1 \<Longrightarrow> lwrites (k + n + n') m (run_ops fs) lk1"
  shows "lwrites k m (run_ops ([in_sink (on_buf a), in_sink (on_buf b)] @ fs)) lk"
  unfolding append_Cons append_Nil
proof (rule lwrites_Cons [OF lwrites_sink [OF writes_fits [OF assms(1)]]])
  show "k + n \<le> ROOM" using assms(3) by simp
  fix lk1 assume 1: "same_tables lk lk1"
  show "lwrites (k + n) m (run_ops (in_sink (on_buf b) # fs)) lk1"
    by (rule lwrites_Cons [OF lwrites_sink [OF writes_fits [OF assms(2,3)]]])
      (rule assms(4), use 1 in \<open>simp add: same_tables_def\<close>)
qed

lemma lwrites_classes:
  assumes w: "full_writes w" and room: "k + 63 \<le> ROOM" and ok: "dict_holds package_ok (lk_classes lk)"
  shows "lwrites k (k + 9 + 9) (writeClasses w base_id) lk"
proof -
  let ?cs = "collected_list (lk_classes lk)"
  have one: "lwrites (k + 9 + 9) (k + 9 + 9) (write_class w base_id x) lk1" if "x \<in> set ?cs" for x lk1
    using dict_holds_collected [OF ok] that room by (cases x) (auto intro!: lwrites_class [OF w])
  have "lwrites k (k + 9 + 9) (run_ops ([in_sink (on_buf (putType T_CLASS)), in_sink (on_buf (putVar64 (word_of_nat (length ?cs))))]
      @ map (write_class w base_id) ?cs)) lk"
    by (rule lwrites_head [OF fits_field(5) fits_field(2)]) (use room lwrites_each [OF one] in simp_all)
  then show ?thesis unfolding lwrites_def lemits_def writeClasses_def prod.case Let_def .
qed

lemma lwrites_packages:
  assumes w: "full_writes w" and room: "k + 28 \<le> ROOM"
  shows "lwrites k (k + 5 + 5) (writePackages w base_id) lk"
proof -
  let ?ps = "collected_list (lk_packages lk)"
  have one: "lwrites (k + 5 + 5) (k + 5 + 5) (write_package w base_id x) lk1" for x lk1
    using room by (cases x) (auto intro!: lwrites_package [OF w])
  have "lwrites k (k + 5 + 5) (run_ops ([in_sink (on_buf (putVar32 (word_of_nat (jfr_id T_PACKAGE)))),
      in_sink (on_buf (putVar32 (word_of_nat (length ?ps))))] @ map (write_package w base_id) ?ps)) lk"
    by (rule lwrites_head [OF fits_field(6) fits_field(6)]) (use room lwrites_each [OF one] in simp_all)
  then show ?thesis unfolding lwrites_def lemits_def writePackages_def prod.case Let_def .
qed

section \<open>The constant pool\<close>

text \<open>What stays true of the tables of a recording, and what a pool needs besides.\<close>

definition pool_inv :: "int \<Rightarrow> pool_state \<Rightarrow> bool" where
  "pool_inv tid ps \<longleftrightarrow> wf_filter (ps_filter ps) \<and> word_of_int tid < max_thread_id (ps_filter ps) \<and> methods_ok (ps_methods ps) \<and>
     dict_holds package_ok (ps_classes ps)"

definition source_ok :: "pool_state \<Rightarrow> pool_source \<Rightarrow> bool" where
  "source_ok ps pl \<longleftrightarrow> pl_grant pl \<and> env_classes_ok (pl_env pl) \<and> length (ps_methods ps) + resolutions (pl_traces pl) < 2 ^ 32 \<and>
     (\<forall>(i, t)\<in>set (pl_traces pl). frames t \<noteq> [])"

lemma mm_find_unmark: "mm_find m (unmark_methods mm) = map_option (\<lambda>mi. mi\<lparr>mi_mark := False\<rparr>) (mm_find m mm)"
  by (induction m mm rule: mm_find.induct) (auto simp: unmark_methods_def)

lemma methods_ok_unmark:
  assumes "methods_ok mm"
  shows "methods_ok (unmark_methods mm)"
proof -
  have s: "mm_sorted (unmark_methods mm)" using assms by (simp add: methods_ok_def mm_sorted_def unmark_methods_def o_def case_prod_beta)
  have l: "length (unmark_methods mm) = length mm" by (simp add: unmark_methods_def)
  show ?thesis using assms s unfolding methods_ok_def l mm_find_unmark by (auto simp: map_option_case split: option.splits)
qed

lemma cpool_head: "fits 31 (run_ops [putType T_CPOOL, putVar64 x, put8 0, put8 0, put8 1, put8 12])"
proof -
  have "fits (9 + (9 + (1 + (1 + (1 + (1 + 0)))))) (run_ops [putType T_CPOOL, putVar64 x, put8 0, put8 0, put8 1, put8 12])"
    by (intro fits_Cons fits_Nil fits_field)
  then show ?thesis by (rule fits_mono) simp
qed


lemma lookup_sections:
  assumes w: "full_writes w" and ok: "methods_ok (lk_methods lk)" "length (lk_methods lk) + resolutions trs < 2 ^ 32" "\<forall>(i, t)\<in>set trs. frames t \<noteq> []"
    and classes: "dict_holds package_ok (lk_classes lk)" "env_classes_ok env"
  shows "\<exists>lk' bs. lemits 18 82 (run_ops [writeStackTraces w env trs, writeMethods w base_id, writeClasses w base_id, writePackages w base_id]) lk lk' bs \<and>
     methods_ok (lk_methods lk') \<and> length (lk_methods lk') \<le> length (lk_methods lk) + resolutions trs \<and> dict_holds package_ok (lk_classes lk')"
proof -
  have r: "18 + 57 \<le> ROOM" "36 + 72 \<le> ROOM" "54 + 63 \<le> ROOM" "72 + 28 \<le> ROOM" by (simp_all add: ROOM_eq)
  obtain lk1 as where 1: "lemits 18 36 (writeStackTraces w env trs) lk lk1 as" "lk_grows (resolutions trs) lk lk1"
    using stack_traces_section [OF w r(1) ok, of env] by auto
  have "near 18 demo_sink" using demo_ready(1) near_mono [of 0 demo_sink 18] by (simp add: near_0)
  from lemitsD [OF 1(1) this] obtain s1 where "writeStackTraces w env trs (lk, demo_sink) = Inr (lk1, s1)" by blast
  from stack_traces_classes [OF this classes] have c1: "dict_holds package_ok (lk_classes lk1)" .
  have m1: "methods_ok (lk_methods lk1)" "length (lk_methods lk1) \<le> length (lk_methods lk) + resolutions trs" using 1(2) by (auto simp: lk_grows_def)
  let ?lk2 = "lk1\<lparr>lk_methods := unmark_methods (lk_methods lk1)\<rparr>"
  obtain bs where 2: "lemits 36 54 (writeMethods w base_id) lk1 ?lk2 bs" using methods_section [OF w r(2), of lk1 base_id] m1(2) ok(2) by auto
  have "lwrites 54 82 (run_ops [writeClasses w base_id, writePackages w base_id]) ?lk2"
  proof (rule lwrites_Cons [OF lwrites_classes [OF w r(3)]])
    show "dict_holds package_ok (lk_classes ?lk2)" using c1 by simp
    fix lk3 show "lwrites (54 + 9 + 9) 82 (run_ops [writePackages w base_id]) lk3"
      using lwrites_Cons [OF lwrites_packages [OF w r(4), of base_id lk3] lwrites_Nil] by simp
  qed
  then obtain lk' cs where 3: "lemits 54 82 (run_ops [writeClasses w base_id, writePackages w base_id]) ?lk2 lk' cs" "same_tables ?lk2 lk'"
    by (auto simp: lwrites_def)
  have "lemits 18 82 (run_ops [writeStackTraces w env trs, writeMethods w base_id, writeClasses w base_id, writePackages w base_id]) lk lk' (as @ bs @ cs)"
    by (rule lemits_Cons [OF 1(1) lemits_Cons [OF 2 3(1)]])
  moreover have "methods_ok (lk_methods lk')" "length (lk_methods lk') \<le> length (lk_methods lk) + resolutions trs" "dict_holds package_ok (lk_classes lk')"
    using 3(2) methods_ok_unmark [OF m1(1)] m1(2) c1 by (auto simp: same_tables_def unmark_methods_def)
  ultimately show ?thesis by blast
qed

lemma skip_near:
  assumes "near k s" and "k + n \<le> ROOM"
  shows "\<exists>stale. length stale = n \<and> skip n (sk_buf s) = Inr (offset (sk_buf s), append_bytes stale (sk_buf s)) \<and>
     near (k + n) (s\<lparr>sk_buf := append_bytes stale (sk_buf s)\<rparr>) \<and> stream (s\<lparr>sk_buf := append_bytes stale (sk_buf s)\<rparr>) = stream s @ stale"
proof -
  have wf: "wf_buffer (sk_buf s)" using assms by (simp add: near_def)
  have room: "offset (sk_buf s) + n < limit (sk_buf s)" using assms by (simp add: near_def ROOM_def buffer_consts)
  from skip_eq [OF wf room] obtain stale where "length stale = n" "skip n (sk_buf s) = Inr (offset (sk_buf s), append_bytes stale (sk_buf s))" by blast
  then show ?thesis using assms wf room by (intro exI [of _ stale]) (auto simp: near_def stream_def contents_append_bytes)
qed

lemma pool_tail:
  assumes "full_writes w"
  shows "writes k 0 (run_ops [writeDictionarySection w b t1 d1, writeDictionarySection w b t2 d2, writeDictionarySection w b t3 d3,
     writeLogLevels w, flush_op w JFR_EVENT_FLUSH_THRESHOLD])"
proof -
  have "writes 28 (28 + 18) (writeLogLevels w)" by (rule writes_log_levels [OF assms]) simp
  then show ?thesis
    by (rule writes_Cons [OF writes_dictionary [OF assms] writes_Cons [OF writes_dictionary [OF assms] writes_Cons [OF writes_dictionary [OF assms]
      writes_Cons [OF _ writes_Cons [OF writes_flush [OF assms order_refl] writes_Nil]]]]])
qed

lemma pool_start:
  assumes "full_writes w"
  shows "writes 5 0 (run_ops ([on_buf (run_ops [putType T_CPOOL, putVar64 x, put8 0, put8 0, put8 1, put8 12])]
     @ [writeFrameTypes w, writeThreadStates w, writeExecutionModes w]))"
proof -
  have "writes 5 (5 + 31) (on_buf (run_ops [putType T_CPOOL, putVar64 x, put8 0, put8 0, put8 1, put8 12]))"
    by (rule writes_fits [OF cpool_head]) (simp add: ROOM_eq)
  then show ?thesis unfolding append_Cons append_Nil
    by (rule writes_Cons [OF _ writes_Cons [OF writes_frame_types [OF assms] writes_Cons [OF writes_thread_states [OF assms]
      writes_Cons [OF writes_execution_modes [OF assms] writes_Nil]]]]) simp_all
qed

lemma writesD: "writes k l op \<Longrightarrow> near k s \<Longrightarrow> \<exists>s' bs. op s = Inr s' \<and> near l s' \<and> stream s' = stream s @ bs"
  unfolding writes_def using emits_roomD by blast

text \<open>The whole pool: five bytes for the size, which is not known yet, and the rest.\<close>

lemma cpool_writes:
  assumes w: "full_writes w" and s: "ready s" and inv: "pool_inv (rt_tid rt) ps" and src: "source_ok ps pl"
  shows "\<exists>ps' s' stale bs. writeCpool w rt pl (ps, s) = Inr (ps', s') \<and> ready s' \<and> length stale = 5 \<and> stream s' = stream s @ stale @ bs \<and>
     pool_inv (rt_tid rt) ps' \<and> length (ps_methods ps') \<le> length (ps_methods ps) + resolutions (pl_traces pl)"
proof -
  let ?b = "pl_base_id pl"
  have "near 0 s" using s by (simp add: near_0)
  from skip_near [OF this, of 5] obtain stale where 0: "length stale = 5" "skip 5 (sk_buf s) = Inr (offset (sk_buf s), append_bytes stale (sk_buf s))"
    "near 5 (s\<lparr>sk_buf := append_bytes stale (sk_buf s)\<rparr>)" "stream (s\<lparr>sk_buf := append_bytes stale (sk_buf s)\<rparr>) = stream s @ stale"
    by (auto simp: ROOM_eq)
  from writesD [OF pool_start [OF w, of "rt_start_ticks rt"] 0(3)] obtain s1 b1 where
    1: "run_ops ([on_buf (run_ops [putType T_CPOOL, putVar64 (rt_start_ticks rt), put8 0, put8 0, put8 1, put8 12])]
       @ [writeFrameTypes w, writeThreadStates w, writeExecutionModes w]) (s\<lparr>sk_buf := append_bytes stale (sk_buf s)\<rparr>) = Inr s1"
    "near 0 s1" "stream s1 = (stream s @ stale) @ b1" unfolding 0(4) by blast
  define lk0 where "lk0 = new_Lookup ps"
  have lk0: "lk_methods lk0 = ps_methods ps" "lk_classes lk0 = ps_classes ps" by (simp_all add: lk0_def new_Lookup_def split: prod.split)
  have inv': "wf_filter (ps_filter ps)" "word_of_int (rt_tid rt) < max_thread_id (ps_filter ps)" "methods_ok (ps_methods ps)"
    "dict_holds package_ok (ps_classes ps)" using inv by (simp_all add: pool_inv_def)
  have src': "pl_grant pl" "env_classes_ok (pl_env pl)" "length (ps_methods ps) + resolutions (pl_traces pl) < 2 ^ 32"
    "\<forall>(i, t)\<in>set (pl_traces pl). frames t \<noteq> []" using src by (simp_all add: source_ok_def)
  have z: "0 + 18 \<le> ROOM" by (simp add: ROOM_eq)
  from writes_threads [OF w 1(2) z inv'(1,2), of "lk_counters lk0" "ps_info ps"] obtain f cs ti s2 b2 where
    2: "writeThreads w True (rt_tid rt) ((ps_filter ps, lk_counters lk0), ps_info ps) s1 = Inr (((f, cs), ti), s2)" "near 18 s2" "stream s2 = stream s1 @ b2"
    "wf_filter f" "max_thread_id f = max_thread_id (ps_filter ps)" by auto
  have "\<exists>lk' bs. lemits 18 82 (run_ops [writeStackTraces w (pl_env pl) (pl_traces pl), writeMethods w ?b, writeClasses w ?b, writePackages w ?b])
      (lk0\<lparr>lk_counters := cs\<rparr>) lk' bs \<and> methods_ok (lk_methods lk') \<and>
      length (lk_methods lk') \<le> length (lk_methods (lk0\<lparr>lk_counters := cs\<rparr>)) + resolutions (pl_traces pl) \<and> dict_holds package_ok (lk_classes lk')"
    by (rule lookup_sections [OF w]) (use inv'(3,4) src'(2,3,4) lk0 in simp_all)
  then obtain lk b3 where 3: "lemits 18 82 (run_ops [writeStackTraces w (pl_env pl) (pl_traces pl), writeMethods w ?b, writeClasses w ?b, writePackages w ?b])
      (lk0\<lparr>lk_counters := cs\<rparr>) lk b3" "methods_ok (lk_methods lk)" "length (lk_methods lk) \<le> length (ps_methods ps) + resolutions (pl_traces pl)"
      "dict_holds package_ok (lk_classes lk)" by (auto simp: lk0)
  from lemitsD [OF 3(1) 2(2)] obtain s3 where r3: "run_ops [writeStackTraces w (pl_env pl) (pl_traces pl), writeMethods w ?b, writeClasses w ?b, writePackages w ?b]
      (lk0\<lparr>lk_counters := cs\<rparr>, s2) = Inr (lk, s3)" "near 82 s3" "stream s3 = stream s2 @ b3" by blast
  from writesD [OF pool_tail [OF w] r3(2)] obtain s4 b4 where 4: "run_ops [writeDictionarySection w ?b T_SYMBOL (lk_symbols lk),
      writeDictionarySection w ?b T_STRING (pl_labels pl), writeDictionarySection w ?b T_ATTRIBUTE_VALUE (pl_values pl),
      writeLogLevels w, flush_op w JFR_EVENT_FLUSH_THRESHOLD] s3 = Inr s4" "near 0 s4" "stream s4 = stream s3 @ b4" by blast
  let ?ps = "\<lparr>ps_filter = f, ps_info = ti, ps_methods = lk_methods lk, ps_classes = lk_classes lk,
      ps_counters = delete_dictionary (lk_packages lk) (delete_dictionary (lk_symbols lk) (lk_counters lk))\<rparr>"
  have g: "pl_grant pl = True" using src'(1) by simp
  have "writeCpool w rt pl (ps, s) = Inr (?ps, s4)"
    unfolding writeCpool_def prod.case 0(2) sum.case 1(1) Let_def lk0_def [symmetric] g 2(1) r3(1) 4(1) ..
  moreover have "stream s4 = stream s @ stale @ (b1 @ b2 @ b3 @ b4)" using 1(3) 2(3) r3(3) 4(3) by simp
  moreover have "ready s4" using 4(2) by (simp add: near_0)
  moreover have "pool_inv (rt_tid rt) ?ps" using 2(4,5) 3(2,4) inv'(2) by (simp add: pool_inv_def)
  ultimately show ?thesis using 0(1) 3(3) by (intro exI [of _ ?ps] exI [of _ s4] exI [of _ stale] exI [of _ "b1 @ b2 @ b3 @ b4"]) simp
qed


section \<open>The writers around the samples\<close>

lemmas limits = JFR_EVENT_FLUSH_THRESHOLD_def buffer_consts MAX_JFR_EVENT_SIZE_def MAX_VAR64_LENGTH_def MAX_VAR32_LENGTH_def

lemma writes_setting: "full_writes w \<Longrightarrow> writes 0 0 (writeStringSetting w rt cat key v)"
proof -
  assume w: "full_writes w"
  have "fits (5 + (9 + (9 + (1 + (9 + (1 + (9 + (8197 + (8197 + 0)))))))))
      (setting_event rt cat (cstr key) v)"
    unfolding setting_event_def by (intro event5_fits fits_Cons fits_Nil fits_field fits_str)
  from writes_big [OF w this, of "int RECORDING_BUFFER_LIMIT - (2 * int MAX_STRING_LENGTH + int MAX_JFR_EVENT_SIZE)"] show ?thesis
    by (simp add: writeStringSetting_def limits)
qed

lemma writes_settings: "full_writes w \<Longrightarrow> writes 0 0 (writeSettings w rt se args)"
  unfolding writeSettings_eq
  by (rule writes_append [OF writes_each writes_Cons [OF writes_flush [OF _ order_refl] writes_Nil]])
    (auto intro: writes_setting)

lemma writes_int_setting: "full_writes w \<Longrightarrow> writes 0 0 (writeIntSetting w rt cat key v)"
  unfolding writeIntSetting_def by (rule writes_setting)

lemma writes_os_cpu:
  assumes w: "full_writes w" and "\<And>u. uname = Some u \<Longrightarrow> length (un_machine u) \<le> 64" and "\<And>d. description = Some d \<Longrightarrow> length d \<le> 511"
  shows "writes 0 0 (writeOsCpuInfo w rt uname description)"
proof (cases uname)
  case None
  then show ?thesis using emits_room_Inr by (auto simp: writeOsCpuInfo_def writes_def)
next
  case (Some u)
  let ?str = "uname_string u" and ?d = "case description of Some d \<Rightarrow> d | None \<Rightarrow> []"
  let ?lm = "int RECORDING_BUFFER_LIMIT - (2 * int (length ?str) + int (length (un_machine u)))"
  have len: "length ?str \<le> 510" "length (un_machine u) \<le> 64" "length ?d \<le> 511"
    using assms(2) [OF Some] assms(3) by (auto simp: uname_string_def split: option.split)
  have a: "fits 539 (os_event rt ?str)"
    unfolding os_event_def
    by (rule fits_mono [OF event5_fits [OF fits_Cons [OF fits_field(5) fits_Cons [OF fits_field(2) fits_Cons [OF fits_short_str [OF len(1)] fits_Nil]]]]]) simp
  have "fits (5 + (9 + (9 + ((6 + 64) + ((6 + 511) + (1 + (9 + (9 + 0)))))))) (cpu_event rt (un_machine u) description)"
    unfolding cpu_event_def by (intro event5_fits fits_Cons fits_Nil fits_field fits_short_str len)
  then have b: "fits 629 (cpu_event rt (un_machine u) description)" by (rule fits_mono) simp
  have "fits (539 + (629 + 0)) (run_ops [os_event rt ?str, cpu_event rt (un_machine u) description])" by (intro fits_Cons fits_Nil a b)
  from writes_room_big [OF w this, of ?lm 1200 0]
  have "writes 0 1200 (run_ops [flush_op w ?lm, on_buf (run_ops [os_event rt ?str, cpu_event rt (un_machine u) description])])"
    by (auto simp: limits max_def simp del: run_ops.simps)
  from writes_append [OF this writes_Cons [OF writes_flush [OF w order_refl] writes_Nil]]
  have "writes 0 0 (run_ops ([flush_op w ?lm] @ [on_buf (run_ops [os_event rt ?str, cpu_event rt (un_machine u) description])] @ [flush_op w JFR_EVENT_FLUSH_THRESHOLD]))"
    by (simp del: run_ops.simps)
  moreover have "run_ops ([flush_op w ?lm] @ [on_buf (run_ops [os_event rt ?str, cpu_event rt (un_machine u) description])] @ [flush_op w JFR_EVENT_FLUSH_THRESHOLD]) s =
      run_ops ([flush_op w ?lm] @ map on_buf [os_event rt ?str, cpu_event rt (un_machine u) description] @ [flush_op w JFR_EVENT_FLUSH_THRESHOLD]) s" for s
    unfolding run_ops_append run_ops_on_buf run_ops_single ..
  ultimately show ?thesis unfolding writes_def emits_room_def Some writeOsCpuInfo_def option.case Let_def by (simp del: run_ops.simps)
qed

lemma writes_jvm:
  assumes w: "full_writes w"
  shows "writes 0 0 (writeJvmInfo w rt props name version st process_id)"
proof (cases "parseAgentProperties props")
  case None
  then show ?thesis using emits_room_Inr by (auto simp: writeJvmInfo_def writes_def)
next
  case (Some ap)
  have "fits (5 + (9 + (9 + (8197 + (8197 + (8197 + (8197 + (8197 + (9 + (9 + 0)))))))))) (jvm_event rt name version ap st process_id)"
    unfolding jvm_event_def by (intro event5_fits fits_Cons fits_Nil fits_field fits_str)
  from writes_big [OF w this, of "int RECORDING_BUFFER_LIMIT - 5 * int MAX_STRING_LENGTH"] show ?thesis
    by (simp add: writeJvmInfo_def Some limits)
qed

lemma writes_properties:
  assumes w: "full_writes w"
  shows "writes 0 0 (writeSystemProperties w rt props)"
proof (cases props)
  case None
  then show ?thesis using emits_room_Inr by (auto simp: writeSystemProperties_def writes_def)
next
  case (Some kvs)
  have one: "writes 60 60 (run_ops (property_ops w rt kv))" for kv
  proof -
    obtain key v where kv: "kv = (key, v)" by (cases kv)
    show ?thesis
    proof (cases v)
      case None
      then show ?thesis using writes_Nil by (simp add: kv property_ops_def del: run_ops.simps)
    next
      case (Some x)
      have "fits (5 + (9 + (9 + (8197 + (8197 + 0))))) (property_event rt key x)"
        unfolding property_event_def by (intro event5_fits fits_Cons fits_Nil fits_field fits_str)
      from writes_room_big [OF w this, of "int RECORDING_BUFFER_LIMIT - 2 * int MAX_STRING_LENGTH" 60 60] show ?thesis
        by (simp add: kv Some property_ops_def limits del: run_ops.simps)
    qed
  qed
  have "writes 0 60 (run_ops (concat (map (property_ops w rt) kvs)))" by (rule writes_mono [OF writes_concat [OF one]]) simp_all
  from writes_append [OF this writes_Cons [OF writes_flush [OF w order_refl] writes_Nil]] show ?thesis
    by (simp add: writeSystemProperties_def Some del: run_ops.simps)
qed

lemma writes_library: "full_writes w \<Longrightarrow> writes 0 0 (write_big w (int RECORDING_BUFFER_LIMIT - int MAX_STRING_LENGTH) (library_event rt l))"
proof -
  assume w: "full_writes w"
  obtain name lo hi where l: "l = (name, lo, hi)" by (cases l)
  have "fits (5 + (9 + (9 + (8197 + (9 + (9 + 0)))))) (library_event rt l)"
    unfolding library_event_def l prod.case by (intro event5_fits fits_Cons fits_Nil fits_field fits_str)
  from writes_big [OF w this, of "int RECORDING_BUFFER_LIMIT - int MAX_STRING_LENGTH"] show ?thesis by (simp add: limits)
qed

lemma writes_config:
  assumes w: "full_writes w" and "length version \<le> 40" and "length (pc_cpuEngine cfg) \<le> 40"
  shows "writes 0 0 (writeDatadogProfilerConfig w rt version cfg)"
proof -
  have "fits (9 + (9 + (1 + (9 + (9 + (9 + (9 + (9 + (9 + (1 + (1 + (5 + ((6 + 40) + ((6 + 40) + 0))))))))))))))
      (run_ops [putType T_DATADOG_PROFILER_CONFIG, putVar64 (rt_start_ticks rt), put8 0, putVar64_int (rt_tid rt),
             putVar64_int (pc_cpuInterval cfg), putVar64_int (pc_wallInterval cfg), putVar64_int (pc_allocInterval cfg),
             putVar64_int (pc_memleakInterval cfg), putVar64_int (pc_memleakCapacity cfg), put8 (word_of_int (pc_percent cfg)),
             put8 (if pc_gcGenerations cfg then 1 else 0), putVar32_int (pc_modeMask cfg), putUtf8 (cstr version),
             putUtf8 (cstr (pc_cpuEngine cfg))])"
    by (intro fits_Cons fits_Nil fits_field fits_short_str assms)
  from event1_fits [OF this] have "fits 250 (profiler_config_event rt version cfg)" unfolding profiler_config_event_def
    by (rule fits_mono) simp_all
  from writes_big [OF w this] show ?thesis by (simp add: writeDatadogProfilerConfig_def limits)
qed

lemma writes_recording_info:
  assumes w: "full_writes w" and "length version \<le> 40"
  shows "writes 0 0 (writeRecordingInfo w v14 rt version)"
proof -
  obtain bs where "appends 2000 bs (recording_event v14 rt version)" using recording_op [of version 0 v14 rt] assms(2) by (auto simp: event_op_def)
  then have "fits 2000 (recording_event v14 rt version)" by (auto simp: fits_def)
  from writes_event [OF w this] show ?thesis by (simp add: writeRecordingInfo_def ROOM_eq)
qed

lemma counter_names: "list_all (\<lambda>n. length n \<le> 64) describeCounters"
  by (simp add: describeCounters_def DD_COUNTER_TABLE_def)

lemma writes_counters:
  assumes w: "full_writes w"
  shows "writes 0 0 (writeCounters w rt cs)"
  unfolding writeCounters_def
proof (rule writes_each)
  fix i assume "i \<in> set [0..<length describeCounters]"
  then have "length (describeCounters ! i) \<le> 64" using counter_names by (simp add: list_all_length)
  then have "fits (9 + (9 + ((6 + 64) + (9 + 0)))) (run_ops [putType T_DATADOG_COUNTER, putVar64 (rt_start_ticks rt), putUtf8 (cstr (describeCounters ! i)),
      putVar64_int (cs ! address i)])" by (intro fits_Cons fits_Nil fits_field fits_short_str)
  from event1_fits [OF this] have "fits 100 (counter_event rt (describeCounters ! i) (cs ! address i))" unfolding counter_event_def
    by (rule fits_mono) simp_all
  from writes_event [OF w this] show "writes 0 0 (write_event w (counter_event rt (describeCounters ! i) (cs ! address i)))" by (simp add: ROOM_eq)
qed

end
