(* ===== verification/Flight_Recorder.thy ===== *)
theory Flight_Recorder
  imports Chunk_Contracts Locks
begin

text \<open>
  Model of the life of a recording (\<^verbatim>\<open>flightRecorder.cpp\<close>, classes \<^verbatim>\<open>Recording\<close> and \<^verbatim>\<open>FlightRecorder\<close>): the
  constructor, the chunks of the file with their headers, \<^verbatim>\<open>finishChunk\<close>, \<^verbatim>\<open>switchChunk\<close>, and the recorder that
  starts, flushes, dumps and stops a recording under its lock.

  A recording has one buffer for every lock of the profiler, one for the load of the processor, and the file. The
  offset of the file descriptor is always at the end of the file, since nothing but \<^verbatim>\<open>pwrite\<close> writes anywhere else.
  The tables of the profiler that the constant pool is written from are kept with the recording. The local references
  to classes that \<^verbatim>\<open>finishChunk\<close> holds meanwhile, and the hints to the page cache, are left out.
\<close>

unbundle bit_operations_syntax

section \<open>State\<close>

definition CONCURRENCY_LEVEL :: nat where "CONCURRENCY_LEVEL = 16"

record recording =
  rc_bufs :: "buffer list"
  rc_cpu_buf :: buffer
  rc_file :: "u8 list"
  rc_written :: u64
  rc_chunk_start :: nat
  rc_args :: arguments
  rc_times :: rec_times
  rc_base_id :: u64
  rc_lib_count :: int
  rc_cpu_monitor :: bool
  rc_pool :: pool_state
  rc_failures :: failure_state

text \<open>What can stop an operation: an assertion or an access out of bounds, a table, a lock that is never free.\<close>

datatype rec_error = PoolFailure cpool_error | NameFailure names_error | WaitsForever | NullPointer

type_synonym rec_op = "recording \<Rightarrow> rec_error + recording"

definition sink_at :: "nat \<Rightarrow> recording \<Rightarrow> sink" where
  "sink_at i rc = \<lparr>sk_buf = rc_bufs rc ! i, sk_file = rc_file rc, sk_written = rc_written rc\<rparr>"

definition put_sink :: "nat \<Rightarrow> recording \<Rightarrow> sink \<Rightarrow> recording" where
  "put_sink i rc s = rc\<lparr>rc_bufs := (rc_bufs rc)[i := sk_buf s], rc_file := sk_file s, rc_written := sk_written s\<rparr>"

definition at_buf :: "nat \<Rightarrow> sink_op \<Rightarrow> rec_op" where
  "at_buf i op rc = (case op (sink_at i rc) of Inl e \<Rightarrow> Inl (PoolFailure (BufferError e)) | Inr s \<Rightarrow> Inr (put_sink i rc s))"

definition flush_buf :: "os_write \<Rightarrow> nat \<Rightarrow> rec_op" where
  "flush_buf w i rc = Inr (put_sink i rc (flush_sink w (sink_at i rc)))"

text \<open>\<^verbatim>\<open>flush(&_cpu_monitor_buf)\<close>.\<close>

definition flush_cpu :: "os_write \<Rightarrow> rec_op" where
  "flush_cpu w rc =
     (let s = flush_sink w \<lparr>sk_buf = rc_cpu_buf rc, sk_file = rc_file rc, sk_written = rc_written rc\<rparr> in
      Inr (rc\<lparr>rc_cpu_buf := sk_buf s, rc_file := sk_file s, rc_written := sk_written s\<rparr>))"

text \<open>\<^verbatim>\<open>pwrite\<close>: the bytes that are accepted replace those at an offset inside the file.\<close>

definition pwrite :: "os_write \<Rightarrow> u8 list \<Rightarrow> nat \<Rightarrow> u8 list \<Rightarrow> u8 list" where
  "pwrite w bs off file = overwrite off (take (nat (w (length bs))) bs) file"

section \<open>The beginning of a chunk\<close>

text \<open>What the writers ask of the machine, the virtual machine and the profiler when a chunk begins.\<close>

record chunk_info =
  ci_metadata :: jfr_metadata
  ci_settings :: settings_env
  ci_uname :: "uname_info option"
  ci_cpu :: "string option"
  ci_agent_props :: "string option"
  ci_jvm_name :: "u8 list option"
  ci_jvm_version :: "u8 list option"
  ci_process_start :: int
  ci_process_id :: int
  ci_system_props :: "(u8 list \<times> u8 list option) list option"
  ci_libs :: "(u8 list \<times> u64 \<times> u64) list"
  ci_tsc_frequency :: u64

definition write_libraries :: "os_write \<Rightarrow> (u8 list \<times> u64 \<times> u64) list \<Rightarrow> rec_op" where
  "write_libraries w libs rc =
     (case writeNativeLibraries w (rc_times rc) libs (rc_lib_count rc) (sink_at 0 rc) of
        Inl e \<Rightarrow> Inl (PoolFailure (BufferError e))
      | Inr (n, s) \<Rightarrow> Inr ((put_sink 0 rc s)\<lparr>rc_lib_count := n\<rparr>))"

definition write_info :: "os_write \<Rightarrow> chunk_info \<Rightarrow> arguments \<Rightarrow> rec_op" where
  "write_info w ci args =
     run_ops
       ([\<lambda>rc. at_buf 0 (writeSettings w (rc_times rc) (ci_settings ci) args) rc]
        @ (if \<not> hasOption args NO_SYSTEM_INFO
           then [\<lambda>rc. at_buf 0 (writeOsCpuInfo w (rc_times rc) (ci_uname ci) (ci_cpu ci)) rc,
                 \<lambda>rc. at_buf 0 (writeJvmInfo w (rc_times rc) (ci_agent_props ci) (ci_jvm_name ci) (ci_jvm_version ci)
                                  (ci_process_start ci) (ci_process_id ci)) rc]
           else [])
        @ (if \<not> hasOption args NO_SYSTEM_PROPS
           then [\<lambda>rc. at_buf 0 (writeSystemProperties w (rc_times rc) (ci_system_props ci)) rc]
           else [])
        @ (if \<not> hasOption args NO_NATIVE_LIBS
           then [\<lambda>rc. write_libraries w (ci_libs ci) (rc\<lparr>rc_lib_count := 0\<rparr>)]
           else [\<lambda>rc. Inr (rc\<lparr>rc_lib_count := - 1\<rparr>)]))"

definition write_header_and_metadata :: "os_write \<Rightarrow> chunk_info \<Rightarrow> rec_op" where
  "write_header_and_metadata w ci =
     run_ops [\<lambda>rc. at_buf 0 (writeHeader w (rc_times rc) (ci_tsc_frequency ci)) rc,
              \<lambda>rc. at_buf 0 (writeMetadata w (rc_times rc) (ci_metadata ci)) rc]"

text \<open>
  The constructor. \<open>file\<close> is what the opened file already holds; \<open>birth\<close> is what the clocks and the machine answer, and
  what the memory of the buffers held.
\<close>

record birth =
  bi_micros :: u64
  bi_ticks :: u64
  bi_tid :: int
  bi_processors :: int
  bi_max_thread_id :: u32
  bi_junk :: "u8 list"

definition new_Recording ::
  "os_write \<Rightarrow> chunk_info \<Rightarrow> birth \<Rightarrow> u8 list \<Rightarrow> arguments \<Rightarrow> pool_state \<times> failure_state \<Rightarrow> rec_error + recording" where
  "new_Recording w ci bi file args = (\<lambda>(pool, failures).
     (let (f, cs) = new_ThreadFilter (bi_max_thread_id bi) (ps_counters pool);
          rt = \<lparr>rt_start_time = bi_micros bi, rt_start_ticks = bi_ticks bi, rt_recording_start_time = bi_micros bi,
                rt_recording_start_ticks = bi_ticks bi, rt_stop_time = 0, rt_stop_ticks = 0,
                rt_tid = bi_tid bi, rt_available_processors = bi_processors bi\<rparr>;
          rc = \<lparr>rc_bufs = replicate CONCURRENCY_LEVEL (new_RecordingBuffer (bi_junk bi)), rc_cpu_buf = new_Buffer, rc_file = file,
                rc_written = 0, rc_chunk_start = length file, rc_args = save args, rc_times = rt, rc_base_id = 0,
                rc_lib_count = 0, rc_cpu_monitor = \<not> hasOption args NO_CPU_LOAD,
                rc_pool = pool\<lparr>ps_filter := f, ps_methods := [], ps_counters := cs\<rparr>, rc_failures = failures\<rparr>
      in run_ops [write_header_and_metadata w ci, write_info w ci args, flush_buf w 0] rc))"

section \<open>The end of a chunk\<close>

text \<open>What the writers ask when a chunk ends; \<open>percent\<close> is the subsampling ratio in percent.\<close>

record chunk_end =
  ce_libs :: "(u8 list \<times> u64 \<times> u64) list"
  ce_record_allocations :: bool
  ce_record_liveness :: bool
  ce_interval :: int
  ce_table_cap :: int
  ce_table_max_cap :: int
  ce_cpu_interval :: int
  ce_wall_interval :: int
  ce_percent :: int
  ce_gc_generations :: bool
  ce_event_mask :: int
  ce_cpu_engine :: string
  ce_version :: string
  ce_v14 :: bool
  ce_stop_time :: u64
  ce_stop_ticks :: u64
  ce_tsc_frequency :: u64
  ce_source :: pool_source

definition to_millis :: "int \<Rightarrow> int" where
  "to_millis ns = sgn ns * (\<bar>ns\<bar> div 1000000)"

definition chunk_config :: "chunk_end \<Rightarrow> profiler_config" where
  "chunk_config ce =
     \<lparr>pc_cpuInterval = to_millis (ce_cpu_interval ce), pc_wallInterval = to_millis (ce_wall_interval ce),
      pc_allocInterval = (if ce_record_allocations ce then ce_interval ce else 0),
      pc_memleakInterval = (if ce_record_liveness ce then ce_interval ce else 0),
      pc_memleakCapacity = (if ce_record_liveness ce then ce_table_cap ce else 0),
      pc_percent = (if ce_record_liveness ce then ce_percent ce else 0),
      pc_gcGenerations = ce_gc_generations ce, pc_modeMask = ce_event_mask ce, pc_cpuEngine = ce_cpu_engine ce\<rparr>"

definition write_failures :: "os_write \<Rightarrow> rec_op" where
  "write_failures w rc =
     (case writeUnwindFailures w (rc_times rc) (rc_failures rc) (sink_at 0 rc) of
        None \<Rightarrow> Inl WaitsForever
      | Some (Inl (Inl e)) \<Rightarrow> Inl (NameFailure e)
      | Some (Inl (Inr e)) \<Rightarrow> Inl (PoolFailure (BufferError e))
      | Some (Inr (failures, s)) \<Rightarrow> Inr ((put_sink 0 rc s)\<lparr>rc_failures := failures\<rparr>))"

text \<open>The writers that need the times or the counters of the recording.\<close>

definition timed :: "(rec_times \<Rightarrow> sink_op) \<Rightarrow> rec_op" where
  "timed op rc = at_buf 0 (op (rc_times rc)) rc"

definition set_stop :: "chunk_end \<Rightarrow> rec_op" where
  "set_stop ce rc = Inr (rc\<lparr>rc_times := (rc_times rc)\<lparr>rt_stop_time := ce_stop_time ce, rt_stop_ticks := ce_stop_ticks ce\<rparr>\<rparr>)"

definition write_tail :: "os_write \<Rightarrow> chunk_end \<Rightarrow> bool \<Rightarrow> rec_op" where
  "write_tail w ce end_recording =
     run_ops
       ([flush_cpu w, write_libraries w (ce_libs ce)]
        @ (if ce_record_allocations ce then [timed (\<lambda>rt. writeIntSetting w rt T_ALLOC ''interval'' (ce_interval ce))] else [])
        @ (if ce_record_liveness ce
           then [timed (\<lambda>rt. writeIntSetting w rt T_HEAP_LIVE_OBJECT ''interval'' (ce_interval ce)),
                 timed (\<lambda>rt. writeIntSetting w rt T_HEAP_LIVE_OBJECT ''capacity'' (ce_table_cap ce)),
                 timed (\<lambda>rt. writeIntSetting w rt T_HEAP_LIVE_OBJECT ''maximum capacity'' (ce_table_max_cap ce))]
           else [])
        @ [timed (\<lambda>rt. writeDatadogProfilerConfig w rt (ce_version ce) (chunk_config ce)), set_stop ce]
        @ (if end_recording then [timed (\<lambda>rt. writeRecordingInfo w (ce_v14 ce) rt (ce_version ce))] else [])
        @ [\<lambda>rc. timed (\<lambda>rt. writeCounters w rt (ps_counters (rc_pool rc))) rc, write_failures w]
        @ map (flush_buf w) [0..<CONCURRENCY_LEVEL])"

definition write_pool :: "os_write \<Rightarrow> pool_source \<Rightarrow> rec_op" where
  "write_pool w pl rc =
     (case writeCpool w (rc_times rc) (pl\<lparr>pl_base_id := rc_base_id rc\<rparr>) (rc_pool rc, sink_at 0 rc) of
        Inl e \<Rightarrow> Inl (PoolFailure e)
      | Inr (ps, s) \<Rightarrow> Inr ((put_sink 0 rc s)\<lparr>rc_pool := ps\<rparr>))"

text \<open>The bytes are put into the first buffer, which is empty, and written over the file from there.\<close>

definition patch_file :: "os_write \<Rightarrow> buffer_op \<Rightarrow> nat \<Rightarrow> nat \<Rightarrow> rec_op" where
  "patch_file w op n off rc =
     (case op (rc_bufs rc ! 0) of
        Inl e \<Rightarrow> Inl (PoolFailure (BufferError e))
      | Inr b \<Rightarrow> Inr (rc\<lparr>rc_bufs := (rc_bufs rc)[0 := b], rc_file := pwrite w (take n (data b)) off (rc_file rc)\<rparr>))"

definition header_fields :: "nat \<Rightarrow> nat \<Rightarrow> nat \<Rightarrow> rec_times \<Rightarrow> u64 \<Rightarrow> u64 list" where
  "header_fields chunk_end cpool_offset chunk_start rt tsc_frequency =
     [word_of_nat (chunk_end - chunk_start), word_of_nat (cpool_offset - chunk_start), 68, rt_start_time rt * 1000,
      (rt_stop_time rt - rt_start_time rt) * 1000, rt_start_ticks rt, tsc_frequency]"

definition reset_buf :: "nat \<Rightarrow> rec_op" where
  "reset_buf i rc = Inr (rc\<lparr>rc_bufs := (rc_bufs rc)[i := reset (rc_bufs rc ! i)]\<rparr>)"

definition finishChunk :: "os_write \<Rightarrow> chunk_end \<Rightarrow> bool \<Rightarrow> recording \<Rightarrow> rec_error + nat \<times> recording" where
  "finishChunk w ce end_recording rc =
     (case write_tail w ce end_recording rc of
        Inl e \<Rightarrow> Inl e
      | Inr rc1 \<Rightarrow>
          (let cpool_offset = length (rc_file rc1) in
           case run_ops [write_pool w (ce_source ce), flush_buf w 0] rc1 of
             Inl e \<Rightarrow> Inl e
           | Inr rc2 \<Rightarrow>
               (let cpool_end = length (rc_file rc2) in
                case patch_file w (putVar32_at 0 (word_of_nat (cpool_end - cpool_offset))) 5 cpool_offset rc2 of
                  Inl e \<Rightarrow> Inl e
                | Inr rc3 \<Rightarrow>
                    (let chunk_end = length (rc_file rc3) in
                     case run_ops
                       [patch_file w (run_ops (map put64 (header_fields chunk_end cpool_offset (rc_chunk_start rc3) (rc_times rc3) (ce_tsc_frequency ce))))
                          56 (rc_chunk_start rc3 + 8), reset_buf 0] rc3 of
                       Inl e \<Rightarrow> Inl e
                     | Inr rc4 \<Rightarrow> Inr (chunk_end, rc4)))))"

section \<open>From one chunk to the next\<close>

text \<open>
  \<^verbatim>\<open>OS::copyFile\<close>: \<open>sf\<close> is the number of bytes \<^verbatim>\<open>sendfile\<close> transfers when it is asked for a number of bytes, never more than
  that. The result is the number of bytes copied.
\<close>

function copyFile :: "(nat \<Rightarrow> int) \<Rightarrow> nat \<Rightarrow> nat" where
  "copyFile sf sz =
     (if sz = 0 then 0
      else let n = min (nat (sf sz)) sz in if n = 0 then 0 else n + copyFile sf (sz - n))"
  by pat_completeness auto
termination
  by (relation "measure snd") auto

declare copyFile.simps [simp del]

text \<open>\<^verbatim>\<open>fd > -1\<close> is \<open>copy\<close>; then the result has the bytes of the other file. \<open>truncates\<close> tells whether \<^verbatim>\<open>ftruncate\<close> succeeds.\<close>

definition next_chunk :: "nat \<Rightarrow> rec_op" where
  "next_chunk chunk_end rc =
     Inr (rc\<lparr>rc_chunk_start := chunk_end,
             rc_times := (rc_times rc)\<lparr>rt_start_time := rt_stop_time (rc_times rc), rt_start_ticks := rt_stop_ticks (rc_times rc)\<rparr>,
             rc_written := 0\<rparr>)"

definition move_chunk :: "bool \<Rightarrow> rec_op" where
  "move_chunk truncates rc =
     Inr (rc\<lparr>rc_file := (if truncates then [] else rc_file rc), rc_chunk_start := 0, rc_base_id := 0\<rparr>)"

definition switchChunk ::
  "os_write \<Rightarrow> (nat \<Rightarrow> int) \<Rightarrow> bool \<Rightarrow> chunk_end \<Rightarrow> chunk_info \<Rightarrow> bool \<Rightarrow> recording \<Rightarrow> rec_error + u8 list \<times> recording" where
  "switchChunk w sf truncates ce ci copy rc =
     (case finishChunk w ce copy rc of
        Inl e \<Rightarrow> Inl e
      | Inr (chunk_end, rc1) \<Rightarrow>
          map_sum id (Pair (if copy then take (copyFile sf chunk_end) (rc_file rc1) else []))
            (run_ops
              ([next_chunk chunk_end,
                if copy then move_chunk truncates else (\<lambda>rc. Inr (rc\<lparr>rc_base_id := rc_base_id rc + 0x1000000\<rparr>)),
                write_header_and_metadata w ci]
               @ (if copy then [\<lambda>rc. write_info w ci (rc_args rc) rc] else [])
               @ [flush_buf w 0]) rc1))"

section \<open>The recorder\<close>

text \<open>
  The recorder with the lock \<^verbatim>\<open>_rec_lock\<close>, which is held as long as there is no recording. \<open>tables\<close> are the tables of the
  profiler while there is none.
\<close>

record flight_recorder =
  fr_filename :: string
  fr_args :: arguments
  fr_rec :: "recording option"
  fr_lock :: int
  fr_tables :: "pool_state \<times> failure_state"

definition new_FlightRecorder :: "arguments \<Rightarrow> pool_state \<times> failure_state \<Rightarrow> flight_recorder" where
  "new_FlightRecorder args tb = \<lparr>fr_filename = [], fr_args = args, fr_rec = None, fr_lock = 1, fr_tables = tb\<rparr>"

text \<open>An operation returns the message of its error, if any. Waiting for a lock that is not free never ends.\<close>

type_synonym 'a fr_result = "rec_error + 'a \<times> flight_recorder"

definition with_lock :: "(flight_recorder \<Rightarrow> 'a fr_result) \<Rightarrow> flight_recorder \<Rightarrow> 'a fr_result" where
  "with_lock op fr = (case tryLock (fr_lock fr) of (False, _) \<Rightarrow> Inl WaitsForever | (True, l) \<Rightarrow> op (fr\<lparr>fr_lock := l\<rparr>))"

definition release :: "flight_recorder \<Rightarrow> flight_recorder" where
  "release fr = fr\<lparr>fr_lock := unlock (fr_lock fr)\<rparr>"

text \<open>\<open>opened\<close> is what the opened file holds, \<open>None\<close> when it cannot be opened.\<close>

definition newRecording ::
  "os_write \<Rightarrow> chunk_info \<Rightarrow> birth \<Rightarrow> u8 list option \<Rightarrow> bool \<Rightarrow> flight_recorder \<Rightarrow> string option fr_result" where
  "newRecording w ci bi opened resets fr =
     (case opened of
        None \<Rightarrow> Inr (Some ''Could not open Flight Recorder output file'', fr)
      | Some old \<Rightarrow>
          (case new_Recording w ci bi (if resets then [] else old) (fr_args fr) (fr_tables fr) of
             Inl e \<Rightarrow> Inl e
           | Inr rc \<Rightarrow> Inr (None, fr\<lparr>fr_rec := Some rc\<rparr>)))"

definition fr_start ::
  "os_write \<Rightarrow> chunk_info \<Rightarrow> birth \<Rightarrow> u8 list option \<Rightarrow> bool \<Rightarrow> string option \<Rightarrow> arguments \<Rightarrow> flight_recorder \<Rightarrow> string option fr_result" where
  "fr_start w ci bi opened resets file args fr =
     (case file of
        None \<Rightarrow> Inr (Some ''Flight Recorder output file is not specified'', fr\<lparr>fr_filename := []\<rparr>)
      | Some [] \<Rightarrow> Inr (Some ''Flight Recorder output file is not specified'', fr\<lparr>fr_filename := []\<rparr>)
      | Some name \<Rightarrow>
          map_sum id (map_prod id release) (newRecording w ci bi opened resets (fr\<lparr>fr_filename := name, fr_args := args\<rparr>)))"

text \<open>The destructor finishes the last chunk; the result is the file that is closed. The lock stays held.\<close>

definition fr_stop :: "os_write \<Rightarrow> chunk_end \<Rightarrow> flight_recorder \<Rightarrow> u8 list option fr_result" where
  "fr_stop w ce fr =
     (case fr_rec fr of
        None \<Rightarrow> Inr (None, fr)
      | Some rc \<Rightarrow>
          with_lock (\<lambda>fr. case finishChunk w ce True rc of
               Inl e \<Rightarrow> Inl e
             | Inr (_, rc1) \<Rightarrow> Inr (Some (rc_file rc1), fr\<lparr>fr_rec := None, fr_tables := (rc_pool rc1, rc_failures rc1)\<rparr>)) fr)"

text \<open>
  \<^verbatim>\<open>dump\<close>: \<open>length\<close> is the length the caller gives for the name, of which as many characters are compared. \<open>opened\<close> tells
  whether the file can be opened; if not, \<^verbatim>\<open>switchChunk\<close> gets the descriptor -1.
\<close>

definition same_file :: "string \<Rightarrow> nat \<Rightarrow> string \<Rightarrow> bool" where
  "same_file name len cur \<longleftrightarrow> length cur = len \<and> take len name = take len cur"

definition fr_dump ::
  "os_write \<Rightarrow> (nat \<Rightarrow> int) \<Rightarrow> bool \<Rightarrow> chunk_end \<Rightarrow> chunk_info \<Rightarrow> bool \<Rightarrow> string \<Rightarrow> nat \<Rightarrow> flight_recorder \<Rightarrow>
   (string option \<times> u8 list) fr_result" where
  "fr_dump w sf truncates ce ci opened name len fr =
     (case fr_rec fr of
        None \<Rightarrow> Inr ((Some ''No active recording'', []), fr)
      | Some rc \<Rightarrow>
          with_lock (\<lambda>fr.
            if \<not> same_file name len (fr_filename fr)
            then case switchChunk w sf truncates ce ci opened rc of
                   Inl e \<Rightarrow> Inl e
                 | Inr (out, rc1) \<Rightarrow> Inr ((None, out), release (fr\<lparr>fr_rec := Some rc1\<rparr>))
            else Inr ((Some ''Can not dump recording to itself. Provide a different file name!'', []), release fr)) fr)"

definition fr_flush :: "os_write \<Rightarrow> (nat \<Rightarrow> int) \<Rightarrow> chunk_end \<Rightarrow> chunk_info \<Rightarrow> flight_recorder \<Rightarrow> unit fr_result" where
  "fr_flush w sf ce ci fr =
     (case fr_rec fr of
        None \<Rightarrow> Inr ((), fr)
      | Some rc \<Rightarrow>
          with_lock (\<lambda>fr. case switchChunk w sf True ce ci False rc of
               Inl e \<Rightarrow> Inl e
             | Inr (_, rc1) \<Rightarrow> Inr ((), release (fr\<lparr>fr_rec := Some rc1\<rparr>))) fr)"

text \<open>The operations of the engines: none of them takes the lock of the recorder.\<close>

definition on_recording :: "rec_op \<Rightarrow> flight_recorder \<Rightarrow> unit fr_result" where
  "on_recording op fr =
     (case fr_rec fr of
        None \<Rightarrow> Inr ((), fr)
      | Some rc \<Rightarrow> (case op rc of Inl e \<Rightarrow> Inl e | Inr rc1 \<Rightarrow> Inr ((), fr\<lparr>fr_rec := Some rc1\<rparr>)))"

definition addThread :: "bool \<Rightarrow> int \<Rightarrow> rec_op" where
  "addThread grant tid rc =
     (case filter_add grant (word_of_int tid) (ps_filter (rc_pool rc), ps_counters (rc_pool rc)) of
        Inl e \<Rightarrow> Inl (PoolFailure (FilterError e))
      | Inr (f, cs) \<Rightarrow> Inr (rc\<lparr>rc_pool := (rc_pool rc)\<lparr>ps_filter := f, ps_counters := cs\<rparr>\<rparr>))"

definition recordEvent :: "os_write \<Rightarrow> bool \<Rightarrow> clock_ctx \<Rightarrow> nat \<Rightarrow> int \<Rightarrow> u32 \<Rightarrow> sample_event \<Rightarrow> flight_recorder \<Rightarrow> unit fr_result" where
  "recordEvent w grant cc lock_index tid ctid ev =
     on_recording (run_ops [at_buf lock_index (record_sample w cc tid ctid ev), addThread grant tid])"

definition wallClockEpoch :: "os_write \<Rightarrow> nat \<Rightarrow> wall_clock_epoch_event \<Rightarrow> flight_recorder \<Rightarrow> unit fr_result" where
  "wallClockEpoch w lock_index ev = on_recording (at_buf lock_index (write_event w (recordWallClockEpoch ev)))"

definition fr_recordTraceRoot :: "os_write \<Rightarrow> u64 \<Rightarrow> nat \<Rightarrow> int \<Rightarrow> trace_root_event \<Rightarrow> flight_recorder \<Rightarrow> unit fr_result" where
  "fr_recordTraceRoot w ticks lock_index tid ev = on_recording (at_buf lock_index (write_event w (recordTraceRoot ticks tid ev)))"

definition fr_recordQueueTime :: "os_write \<Rightarrow> nat \<Rightarrow> ctx \<Rightarrow> nat \<Rightarrow> int \<Rightarrow> queue_time_event \<Rightarrow> flight_recorder \<Rightarrow> unit fr_result" where
  "fr_recordQueueTime w n c lock_index tid ev = on_recording (at_buf lock_index (write_event w (recordQueueTime n c tid ev)))"

definition recordDatadogSetting ::
  "os_write \<Rightarrow> nat \<Rightarrow> int \<Rightarrow> u8 list option \<Rightarrow> u8 list option \<Rightarrow> u8 list option \<Rightarrow> flight_recorder \<Rightarrow> unit fr_result" where
  "recordDatadogSetting w lock_index len name v unit =
     on_recording (\<lambda>rc. at_buf lock_index (writeDatadogSetting w (rc_times rc) len name v unit) rc)"

definition recordHeapUsage :: "os_write \<Rightarrow> u64 \<Rightarrow> nat \<Rightarrow> int \<Rightarrow> bool \<Rightarrow> flight_recorder \<Rightarrow> unit fr_result" where
  "recordHeapUsage w ticks lock_index v live = on_recording (at_buf lock_index (write_event w (writeHeapUsage ticks v live)))"

text \<open>
  \<^verbatim>\<open>recordLog\<close>, with a buffer of its own on the stack: of the \<open>len + 40\<close> bytes, twelve are the header of a \<^verbatim>\<open>Buffer\<close> that is
  never constructed, so that its assertions, which ask a virtual function for the limit, must be compiled out. A message
  that comes between a failed start and the next one meets a free lock and no recording.
\<close>

definition log_buffer :: "nat \<Rightarrow> buffer" where
  "log_buffer len = \<lparr>offset = 0, data = replicate (len + 40 - 12) 0, limit = 2 ^ 29\<rparr>"

definition recordLog :: "os_write \<Rightarrow> u64 \<Rightarrow> nat \<Rightarrow> u8 list \<Rightarrow> flight_recorder \<Rightarrow> unit fr_result" where
  "recordLog w ticks level message fr =
     (case tryLockShared (fr_lock fr) of
        (False, _) \<Rightarrow> Inr ((), fr)
      | (True, l) \<Rightarrow>
          (case event5 (log_fields ticks level message) (log_buffer (min (length message) MAX_STRING_LENGTH)) of
             Inl e \<Rightarrow> Inl (PoolFailure (BufferError e))
           | Inr b \<Rightarrow>
               (case fr_rec fr of
                  None \<Rightarrow> Inl NullPointer
                | Some rc \<Rightarrow>
                    (let s = flush_sink w \<lparr>sk_buf = b, sk_file = rc_file rc, sk_written = rc_written rc\<rparr> in
                     Inr ((), fr\<lparr>fr_rec := Some (rc\<lparr>rc_file := sk_file s, rc_written := sk_written s\<rparr>), fr_lock := unlockShared l\<rparr>)))))"

section \<open>Writing into the first buffer\<close>

definition buf_ready :: "buffer \<Rightarrow> bool" where
  "buf_ready b \<longleftrightarrow> wf_buffer b \<and> limit b = RecordingBuffer_limit \<and> offset b < RECORDING_BUFFER_LIMIT"

definition rec_ready :: "recording \<Rightarrow> bool" where
  "rec_ready rc \<longleftrightarrow> length (rc_bufs rc) = CONCURRENCY_LEVEL \<and> (\<forall>b\<in>set (rc_bufs rc). buf_ready b) \<and> wf_buffer (rc_cpu_buf rc)"

definition first_stream :: "recording \<Rightarrow> u8 list" where
  "first_stream rc = rc_file rc @ contents (rc_bufs rc ! 0)"

text \<open>From \<open>rc\<close> to \<open>rc'\<close> the bytes \<open>bs\<close> were written through the first buffer, and nothing else happened.\<close>

definition wrote :: "u8 list \<Rightarrow> recording \<Rightarrow> recording \<Rightarrow> bool" where
  "wrote bs rc rc' \<longleftrightarrow> rec_ready rc' \<and> first_stream rc' = first_stream rc @ bs \<and> tl (rc_bufs rc') = tl (rc_bufs rc) \<and>
     rc_cpu_buf rc' = rc_cpu_buf rc \<and> rc_chunk_start rc' = rc_chunk_start rc \<and> rc_args rc' = rc_args rc \<and>
     rc_times rc' = rc_times rc \<and> rc_base_id rc' = rc_base_id rc \<and> rc_pool rc' = rc_pool rc \<and> rc_failures rc' = rc_failures rc"

definition extends :: "rec_op \<Rightarrow> bool" where
  "extends op \<longleftrightarrow> (\<forall>rc. rec_ready rc \<longrightarrow> (\<exists>rc' bs. op rc = Inr rc' \<and> wrote bs rc rc'))"

lemma extendsD: "extends op \<Longrightarrow> rec_ready rc \<Longrightarrow> \<exists>rc' bs. op rc = Inr rc' \<and> wrote bs rc rc'"
  by (simp add: extends_def)

lemma wrote_ready: "wrote bs rc rc' \<Longrightarrow> rec_ready rc'"
  by (simp add: wrote_def)

lemma wrote_refl: "rec_ready rc \<Longrightarrow> wrote [] rc rc"
  by (simp add: wrote_def)

lemma wrote_trans: "wrote as rc rc1 \<Longrightarrow> wrote bs rc1 rc2 \<Longrightarrow> wrote (as @ bs) rc rc2"
  by (simp add: wrote_def)

lemma rec_ready_frame [simp]:
  "rec_ready (rc\<lparr>rc_times := t\<rparr>) = rec_ready rc" "rec_ready (rc\<lparr>rc_failures := f\<rparr>) = rec_ready rc"
  "rec_ready (rc\<lparr>rc_lib_count := n\<rparr>) = rec_ready rc" "rec_ready (rc\<lparr>rc_pool := p\<rparr>) = rec_ready rc"
  "rec_ready (rc\<lparr>rc_file := x\<rparr>) = rec_ready rc" "rec_ready (rc\<lparr>rc_base_id := i\<rparr>) = rec_ready rc"
  by (simp_all add: rec_ready_def)

lemma wrote_frame: "wrote bs rc rc' \<Longrightarrow> wrote bs (rc\<lparr>rc_times := t\<rparr>) (rc'\<lparr>rc_times := t\<rparr>)"
  "wrote bs rc rc' \<Longrightarrow> wrote bs (rc\<lparr>rc_failures := f\<rparr>) (rc'\<lparr>rc_failures := f\<rparr>)"
  "wrote bs rc rc' \<Longrightarrow> wrote bs (rc\<lparr>rc_lib_count := n\<rparr>) rc'" "wrote bs rc rc' \<Longrightarrow> wrote bs rc (rc'\<lparr>rc_lib_count := n\<rparr>)"
  by (simp_all add: wrote_def first_stream_def)

lemma extends_Nil: "extends (run_ops [])"
  using wrote_refl by (auto simp: extends_def)

lemma extends_Cons:
  assumes "extends f" and "extends (run_ops fs)"
  shows "extends (run_ops (f # fs))"
  unfolding extends_def
proof (intro allI impI)
  fix rc assume "rec_ready rc"
  from extendsD [OF assms(1) this] obtain rc1 as where 1: "f rc = Inr rc1" "wrote as rc rc1" by blast
  from extendsD [OF assms(2) wrote_ready [OF 1(2)]] obtain rc2 bs where 2: "run_ops fs rc1 = Inr rc2" "wrote bs rc1 rc2" by blast
  from wrote_trans [OF 1(2) 2(2)] 1(1) 2(1) show "\<exists>rc' bs. run_ops (f # fs) rc = Inr rc' \<and> wrote bs rc rc'" by auto
qed

lemma extends_append: "extends (run_ops fs) \<Longrightarrow> extends (run_ops gs) \<Longrightarrow> extends (run_ops (fs @ gs))"
proof -
  assume "extends (run_ops fs)" "extends (run_ops gs)"
  then have "extends (run_ops (run_ops fs # gs))" by (rule extends_Cons)
  moreover have "run_ops (run_ops fs # gs) = run_ops (fs @ gs)" by (simp add: fun_eq_iff run_ops_append)
  ultimately show ?thesis by simp
qed

lemma ready_sink_at: "rec_ready rc \<Longrightarrow> i < CONCURRENCY_LEVEL \<Longrightarrow> ready (sink_at i rc)"
  by (simp add: rec_ready_def buf_ready_def ready_def sink_at_def)

lemma nth_0_bufs: "rec_ready rc \<Longrightarrow> rc_bufs rc \<noteq> [] \<and> rc_bufs rc = (rc_bufs rc ! 0) # tl (rc_bufs rc)"
  by (cases "rc_bufs rc") (auto simp: rec_ready_def CONCURRENCY_LEVEL_def)

lemma put_first:
  assumes rc: "rec_ready rc" and s: "ready s" "stream s = stream (sink_at 0 rc) @ bs"
  shows "wrote bs rc (put_sink 0 rc s)"
proof -
  obtain b bufs where b: "rc_bufs rc = b # bufs" using nth_0_bufs [OF rc] by blast
  have "stream (sink_at 0 rc) = first_stream rc" by (simp add: stream_def sink_at_def first_stream_def)
  then show ?thesis using rc s b
    by (auto simp: wrote_def put_sink_def first_stream_def stream_def rec_ready_def buf_ready_def ready_def)
qed

lemma extends_at_buf:
  assumes "writes 0 0 op"
  shows "extends (at_buf 0 op)"
  unfolding extends_def
proof (intro allI impI)
  fix rc assume rc: "rec_ready rc"
  then have "near 0 (sink_at 0 rc)" using ready_sink_at [OF rc, of 0] by (simp add: near_0 CONCURRENCY_LEVEL_def)
  from writesD [OF assms this] obtain s bs where s: "op (sink_at 0 rc) = Inr s" "near 0 s" "stream s = stream (sink_at 0 rc) @ bs" by blast
  then show "\<exists>rc' bs. at_buf 0 op rc = Inr rc' \<and> wrote bs rc rc'"
    using put_first [OF rc, of s bs] by (auto simp: at_buf_def near_0)
qed

lemma extends_timed: "(\<And>rt. writes 0 0 (op rt)) \<Longrightarrow> extends (timed op)"
  using extends_at_buf [of "op rt" for rt] unfolding extends_def timed_def by blast

lemma flush_stream:
  assumes w: "full_writes w"
  shows "sk_file (flush_sink w s) = sk_file s @ contents (sk_buf s)" "sk_buf (flush_sink w s) = reset (sk_buf s)"
  using w by (simp_all add: flush_sink_def Let_def full_writes_def contents_def)

lemma contents_reset [simp]: "contents (reset b) = []"
  by (simp add: contents_def reset_def)

lemma buf_ready_reset: "buf_ready b \<Longrightarrow> buf_ready (reset b)"
  by (simp add: buf_ready_def wf_reset) (simp add: reset_def buffer_consts)

lemma flush_buf_ready:
  assumes "full_writes w" and "rec_ready rc" and "i < CONCURRENCY_LEVEL"
  shows "flush_buf w i rc = Inr (put_sink i rc (flush_sink w (sink_at i rc)))" and "rec_ready (put_sink i rc (flush_sink w (sink_at i rc)))"
proof -
  have "buf_ready (reset (rc_bufs rc ! i))" using assms by (intro buf_ready_reset) (simp add: rec_ready_def)
  then show "rec_ready (put_sink i rc (flush_sink w (sink_at i rc)))"
    using assms set_update_subset_insert [of "rc_bufs rc" i "reset (rc_bufs rc ! i)"]
    by (auto simp: rec_ready_def put_sink_def flush_stream sink_at_def)
qed (simp add: flush_buf_def)

lemma extends_flush: "full_writes w \<Longrightarrow> extends (flush_buf w 0)"
  unfolding extends_def
proof (intro allI impI)
  fix rc assume w: "full_writes w" and rc: "rec_ready rc"
  have "ready (flush_sink w (sink_at 0 rc))"
    using ready_sink_at [OF rc, of 0] by (simp add: ready_def flush_stream [OF w] wf_reset CONCURRENCY_LEVEL_def) (simp add: reset_def buffer_consts)
  moreover have "stream (flush_sink w (sink_at 0 rc)) = stream (sink_at 0 rc) @ []" by (simp add: stream_def flush_stream [OF w])
  ultimately have "wrote [] rc (put_sink 0 rc (flush_sink w (sink_at 0 rc)))" by (rule put_first [OF rc])
  then show "\<exists>rc' bs. flush_buf w 0 rc = Inr rc' \<and> wrote bs rc rc'" unfolding flush_buf_def by blast
qed

lemma extends_libraries:
  assumes w: "full_writes w"
  shows "extends (write_libraries w libs)"
  unfolding extends_def
proof (intro allI impI)
  fix rc assume rc: "rec_ready rc"
  let ?ops = "map (\<lambda>l. write_big w (int RECORDING_BUFFER_LIMIT - int MAX_STRING_LENGTH) (library_event (rc_times rc) l)) (drop (nat (rc_lib_count rc)) libs)"
  have r: "ready (sink_at 0 rc)" using ready_sink_at [OF rc] by (simp add: CONCURRENCY_LEVEL_def)
  show "\<exists>rc' bs. write_libraries w libs rc = Inr rc' \<and> wrote bs rc rc'"
  proof (cases "rc_lib_count rc < 0")
    case True
    have "wrote [] rc (put_sink 0 rc (sink_at 0 rc))" by (rule put_first [OF rc r]) simp
    from wrote_frame(4) [OF this] show ?thesis using True by (fastforce simp: write_libraries_def writeNativeLibraries_def)
  next
    case False
    have "writes 0 0 (run_ops ?ops)" by (rule writes_each) (rule writes_library [OF w])
    moreover have "near 0 (sink_at 0 rc)" using r by (simp add: near_0)
    ultimately obtain s bs where s: "run_ops ?ops (sink_at 0 rc) = Inr s" "near 0 s" "stream s = stream (sink_at 0 rc) @ bs" using writesD by blast
    have "wrote bs rc ((put_sink 0 rc s)\<lparr>rc_lib_count := int (length libs)\<rparr>)" by (rule wrote_frame(4), rule put_first [OF rc]) (use s in \<open>simp_all add: near_0\<close>)
    moreover have "write_libraries w libs rc = Inr ((put_sink 0 rc s)\<lparr>rc_lib_count := int (length libs)\<rparr>)"
      using False s(1) by (simp add: write_libraries_def writeNativeLibraries_def)
    ultimately show ?thesis by blast
  qed
qed

text \<open>All buffers, one after the other.\<close>

lemma flush_upto:
  assumes w: "full_writes w" and rc: "rec_ready rc"
  shows "k \<le> CONCURRENCY_LEVEL \<Longrightarrow> \<exists>n. run_ops (map (flush_buf w) [0..<k]) rc =
     Inr (rc\<lparr>rc_bufs := map reset (take k (rc_bufs rc)) @ drop k (rc_bufs rc), rc_file := rc_file rc @ concat (map contents (take k (rc_bufs rc))), rc_written := n\<rparr>)"
proof (induction k)
  case 0
  show ?case by (intro exI [of _ "rc_written rc"]) simp
next
  case (Suc k)
  let ?rc = "\<lambda>n. rc\<lparr>rc_bufs := map reset (take k (rc_bufs rc)) @ drop k (rc_bufs rc), rc_file := rc_file rc @ concat (map contents (take k (rc_bufs rc))), rc_written := n\<rparr>"
  obtain n where IH: "run_ops (map (flush_buf w) [0..<k]) rc = Inr (?rc n)" using Suc by auto
  have len: "k < length (rc_bufs rc)" using Suc.prems rc by (simp add: rec_ready_def)
  define b where "b = rc_bufs rc ! k"
  have d: "drop k (rc_bufs rc) = b # drop (Suc k) (rc_bufs rc)" "take (Suc k) (rc_bufs rc) = take k (rc_bufs rc) @ [b]"
    using len by (simp_all add: Cons_nth_drop_Suc b_def take_Suc_conv_app_nth)
  have nth: "(map reset (take k (rc_bufs rc)) @ drop k (rc_bufs rc)) ! k = b" using len by (simp add: nth_append b_def)
  have upd: "(map reset (take k (rc_bufs rc)) @ drop k (rc_bufs rc))[k := x] = map reset (take k (rc_bufs rc)) @ x # drop (Suc k) (rc_bufs rc)" for x
    using len by (simp add: list_update_append d(1))
  let ?n = "sk_written (flush_sink w (sink_at k (?rc n)))"
  have "flush_buf w k (?rc n) = Inr (rc\<lparr>rc_bufs := map reset (take (Suc k) (rc_bufs rc)) @ drop (Suc k) (rc_bufs rc),
      rc_file := rc_file rc @ concat (map contents (take (Suc k) (rc_bufs rc))), rc_written := ?n\<rparr>)"
    using nth upd by (simp add: flush_buf_def put_sink_def flush_stream [OF w] sink_at_def [of k "?rc n"] d(2))
  then show ?case using IH by (intro exI [of _ ?n]) (simp add: run_ops_append)
qed

lemma flush_all:
  assumes w: "full_writes w" and rc: "rec_ready rc"
  shows "\<exists>rc'. run_ops (map (flush_buf w) [0..<CONCURRENCY_LEVEL]) rc = Inr rc' \<and> rec_ready rc' \<and> (\<forall>b\<in>set (rc_bufs rc'). offset b = 0) \<and>
     rc_file rc' = first_stream rc @ concat (map contents (tl (rc_bufs rc))) \<and> rc_cpu_buf rc' = rc_cpu_buf rc \<and>
     rc_chunk_start rc' = rc_chunk_start rc \<and> rc_args rc' = rc_args rc \<and> rc_times rc' = rc_times rc \<and> rc_base_id rc' = rc_base_id rc \<and>
     rc_pool rc' = rc_pool rc \<and> rc_failures rc' = rc_failures rc"
proof -
  have t: "take CONCURRENCY_LEVEL (rc_bufs rc) = rc_bufs rc" "drop CONCURRENCY_LEVEL (rc_bufs rc) = []" using rc by (simp_all add: rec_ready_def)
  from flush_upto [OF w rc order_refl] obtain n where
    n: "run_ops (map (flush_buf w) [0..<CONCURRENCY_LEVEL]) rc = Inr (rc\<lparr>rc_bufs := map reset (rc_bufs rc), rc_file := rc_file rc @ concat (map contents (rc_bufs rc)), rc_written := n\<rparr>)"
    unfolding t by auto
  obtain b bufs where b: "rc_bufs rc = b # bufs" using nth_0_bufs [OF rc] by blast
  have "\<forall>b\<in>set (map reset (rc_bufs rc)). buf_ready b" using rc buf_ready_reset by (auto simp: rec_ready_def)
  then show ?thesis using n rc b by (auto simp: rec_ready_def first_stream_def) (simp_all add: reset_def)
qed

section \<open>Finishing a chunk\<close>

text \<open>The tables of unwind failures can be written, now and when they have been swapped.\<close>

definition failures_ok :: "failure_state \<Rightarrow> bool" where
  "failures_ok = (\<lambda>(old, l, recent). l = 0 \<and>
     (\<forall>t\<in>{old, recent}. \<exists>fs. forEach t = Inr fs \<and> (\<forall>(kind, name, count)\<in>set fs. length name \<le> 90)))"

definition swap_failures :: "failure_state \<Rightarrow> failure_state" where
  "swap_failures = (\<lambda>(old, l, recent). (recent, l, old))"

lemma failures_ok_swap: "failures_ok fs \<Longrightarrow> failures_ok (swap_failures fs)"
  by (auto simp: failures_ok_def swap_failures_def)

lemma failures_written:
  assumes w: "full_writes w" and rc: "rec_ready rc" and ok: "failures_ok (rc_failures rc)"
  shows "\<exists>rc' bs. write_failures w rc = Inr rc' \<and> wrote bs (rc\<lparr>rc_failures := swap_failures (rc_failures rc)\<rparr>) rc'"
proof -
  obtain old l recent where f: "rc_failures rc = (old, l, recent)" by (cases "rc_failures rc")
  with ok obtain fs where fs: "l = 0" "forEach recent = Inr fs" "\<forall>(kind, name, count)\<in>set fs. length name \<le> 90"
    by (auto simp: failures_ok_def)
  obtain bs where "emits bs (failure_events w (rc_times rc) fs)" using failure_events_emit [OF w fs(3), of "rc_times rc" 0 True] by blast
  moreover have "ready (sink_at 0 rc)" using ready_sink_at [OF rc] by (simp add: CONCURRENCY_LEVEL_def)
  ultimately obtain s where s: "failure_events w (rc_times rc) fs (sink_at 0 rc) = Inr s" "ready s" "stream s = stream (sink_at 0 rc) @ bs"
    using emitsD by blast
  have "collectAndReset old (0, recent) = Some (recent, 0, old)" by (simp add: collectAndReset_def tryLock_def unlock_def swap_def)
  then have "write_failures w rc = Inr ((put_sink 0 rc s)\<lparr>rc_failures := swap_failures (rc_failures rc)\<rparr>)"
    using s(1) fs by (simp add: write_failures_def writeUnwindFailures_def f swap_failures_def)
  moreover have "wrote bs (rc\<lparr>rc_failures := swap_failures (rc_failures rc)\<rparr>) ((put_sink 0 rc s)\<lparr>rc_failures := swap_failures (rc_failures rc)\<rparr>)"
    by (rule wrote_frame(2), rule put_first [OF rc s(2,3)])
  ultimately show ?thesis by blast
qed

text \<open>What the last chunk of events is written with.\<close>

definition end_ok :: "chunk_end \<Rightarrow> bool" where
  "end_ok ce \<longleftrightarrow> length (ce_version ce) \<le> 40 \<and> length (ce_cpu_engine ce) \<le> 40"

definition stop_at :: "chunk_end \<Rightarrow> rec_times \<Rightarrow> rec_times" where
  "stop_at ce rt = rt\<lparr>rt_stop_time := ce_stop_time ce, rt_stop_ticks := ce_stop_ticks ce\<rparr>"

lemma extends_before_stop:
  assumes w: "full_writes w" and ok: "end_ok ce"
  shows "extends (run_ops ([write_libraries w (ce_libs ce)]
        @ (if ce_record_allocations ce then [timed (\<lambda>rt. writeIntSetting w rt T_ALLOC ''interval'' (ce_interval ce))] else [])
        @ (if ce_record_liveness ce
           then [timed (\<lambda>rt. writeIntSetting w rt T_HEAP_LIVE_OBJECT ''interval'' (ce_interval ce)),
                 timed (\<lambda>rt. writeIntSetting w rt T_HEAP_LIVE_OBJECT ''capacity'' (ce_table_cap ce)),
                 timed (\<lambda>rt. writeIntSetting w rt T_HEAP_LIVE_OBJECT ''maximum capacity'' (ce_table_max_cap ce))]
           else [])
        @ [timed (\<lambda>rt. writeDatadogProfilerConfig w rt (ce_version ce) (chunk_config ce))]))"
proof -
  have cfg: "extends (timed (\<lambda>rt. writeDatadogProfilerConfig w rt (ce_version ce) (chunk_config ce)))"
    by (rule extends_timed, rule writes_config [OF w]) (use ok in \<open>simp_all add: end_ok_def chunk_config_def\<close>)
  have int: "extends (timed (\<lambda>rt. writeIntSetting w rt c k v))" for c k v by (rule extends_timed, rule writes_int_setting [OF w])
  show ?thesis
    by (cases "ce_record_allocations ce"; cases "ce_record_liveness ce";
        simp only: if_True if_False append_Cons append_Nil; intro extends_Cons extends_Nil extends_libraries [OF w] int cfg)
qed

lemma extends_after_stop:
  assumes w: "full_writes w" and ok: "end_ok ce"
  shows "extends (run_ops ((if e then [timed (\<lambda>rt. writeRecordingInfo w (ce_v14 ce) rt (ce_version ce))] else [])
     @ [\<lambda>rc. timed (\<lambda>rt. writeCounters w rt (ps_counters (rc_pool rc))) rc]))"
proof -
  have i: "extends (timed (\<lambda>rt. writeRecordingInfo w (ce_v14 ce) rt (ce_version ce)))"
    by (rule extends_timed, rule writes_recording_info [OF w]) (use ok in \<open>simp add: end_ok_def\<close>)
  have "extends (timed (\<lambda>rt. writeCounters w rt cs))" for cs by (rule extends_timed, rule writes_counters [OF w])
  then have c: "extends (\<lambda>rc. timed (\<lambda>rt. writeCounters w rt (ps_counters (rc_pool rc))) rc)" unfolding extends_def by blast
  show ?thesis by (cases e) (simp_all only: if_True if_False append_Cons append_Nil; intro extends_Cons extends_Nil i c)+
qed

lemma tail_written:
  assumes w: "full_writes w" and rc: "rec_ready rc" and ok: "end_ok ce" "failures_ok (rc_failures rc)"
  shows "\<exists>rc' mid. write_tail w ce e rc = Inr rc' \<and> rec_ready rc' \<and> (\<forall>b\<in>set (rc_bufs rc'). offset b = 0) \<and>
     rc_file rc' = rc_file rc @ contents (rc_cpu_buf rc) @ contents (rc_bufs rc ! 0) @ mid @ concat (map contents (tl (rc_bufs rc))) \<and>
     rc_cpu_buf rc' = reset (rc_cpu_buf rc) \<and> rc_chunk_start rc' = rc_chunk_start rc \<and> rc_args rc' = rc_args rc \<and>
     rc_times rc' = stop_at ce (rc_times rc) \<and> rc_base_id rc' = rc_base_id rc \<and> rc_pool rc' = rc_pool rc \<and>
     rc_failures rc' = swap_failures (rc_failures rc)"
proof -
  define A where "A = [write_libraries w (ce_libs ce)]
        @ (if ce_record_allocations ce then [timed (\<lambda>rt. writeIntSetting w rt T_ALLOC ''interval'' (ce_interval ce))] else [])
        @ (if ce_record_liveness ce
           then [timed (\<lambda>rt. writeIntSetting w rt T_HEAP_LIVE_OBJECT ''interval'' (ce_interval ce)),
                 timed (\<lambda>rt. writeIntSetting w rt T_HEAP_LIVE_OBJECT ''capacity'' (ce_table_cap ce)),
                 timed (\<lambda>rt. writeIntSetting w rt T_HEAP_LIVE_OBJECT ''maximum capacity'' (ce_table_max_cap ce))]
           else [])
        @ [timed (\<lambda>rt. writeDatadogProfilerConfig w rt (ce_version ce) (chunk_config ce))]"
  define B where "B = (if e then [timed (\<lambda>rt. writeRecordingInfo w (ce_v14 ce) rt (ce_version ce))] else [])
     @ [\<lambda>rc. timed (\<lambda>rt. writeCounters w rt (ps_counters (rc_pool rc))) rc]"
  define rc0 where "rc0 = rc\<lparr>rc_cpu_buf := reset (rc_cpu_buf rc), rc_file := rc_file rc @ contents (rc_cpu_buf rc),
     rc_written := sk_written (flush_sink w \<lparr>sk_buf = rc_cpu_buf rc, sk_file = rc_file rc, sk_written = rc_written rc\<rparr>)\<rparr>"
  have 0: "flush_cpu w rc = Inr rc0" by (simp add: flush_cpu_def Let_def flush_stream [OF w] rc0_def)
  have r0: "rec_ready rc0" using rc by (simp add: rec_ready_def rc0_def wf_reset)
  obtain rc1 as where 1: "run_ops A rc0 = Inr rc1" "wrote as rc0 rc1" using extendsD [OF extends_before_stop [OF w ok(1), folded A_def] r0] by blast
  define rc1s where "rc1s = rc1\<lparr>rc_times := stop_at ce (rc_times rc)\<rparr>"
  have t1: "rc_times rc1 = rc_times rc" using 1(2) by (simp add: wrote_def rc0_def)
  have s1: "set_stop ce rc1 = Inr rc1s" by (simp add: set_stop_def rc1s_def stop_at_def t1)
  have "rec_ready rc1s" using wrote_ready [OF 1(2)] by (simp add: rc1s_def)
  from extendsD [OF extends_after_stop [OF w ok(1), of e, folded B_def] this] obtain rc2 bs where 2: "run_ops B rc1s = Inr rc2" "wrote bs rc1s rc2" by blast
  have f2: "rc_failures rc2 = rc_failures rc" using 1(2) 2(2) by (simp add: wrote_def rc1s_def rc0_def)
  from failures_written [OF w wrote_ready [OF 2(2)]] ok(2) obtain rc3 cs where
    3: "write_failures w rc2 = Inr rc3" "wrote cs (rc2\<lparr>rc_failures := swap_failures (rc_failures rc)\<rparr>) rc3" unfolding f2 by blast
  from flush_all [OF w wrote_ready [OF 3(2)]] obtain rc4 where
    4: "run_ops (map (flush_buf w) [0..<CONCURRENCY_LEVEL]) rc3 = Inr rc4" "rec_ready rc4" "\<forall>b\<in>set (rc_bufs rc4). offset b = 0"
      "rc_file rc4 = first_stream rc3 @ concat (map contents (tl (rc_bufs rc3)))" "rc_cpu_buf rc4 = rc_cpu_buf rc3"
      "rc_chunk_start rc4 = rc_chunk_start rc3" "rc_args rc4 = rc_args rc3" "rc_times rc4 = rc_times rc3" "rc_base_id rc4 = rc_base_id rc3"
      "rc_pool rc4 = rc_pool rc3" "rc_failures rc4 = rc_failures rc3" by blast
  have split: "write_tail w ce e = run_ops ([flush_cpu w] @ A @ [set_stop ce] @ B @ [write_failures w] @ map (flush_buf w) [0..<CONCURRENCY_LEVEL])"
    by (simp add: write_tail_def A_def B_def del: run_ops.simps upt_Suc)
  have "write_tail w ce e rc = Inr rc4"
    unfolding split run_ops_append run_ops_single 0 sum.case 1(1) s1 2(1) 3(1) 4(1) ..
  moreover have "first_stream rc3 = rc_file rc @ contents (rc_cpu_buf rc) @ contents (rc_bufs rc ! 0) @ (as @ bs @ cs)"
    using 1(2) 2(2) 3(2) by (simp add: wrote_def first_stream_def rc1s_def rc0_def)
  moreover have "tl (rc_bufs rc3) = tl (rc_bufs rc)" using 1(2) 2(2) 3(2) by (simp add: wrote_def rc1s_def rc0_def)
  moreover have "rc_cpu_buf rc3 = reset (rc_cpu_buf rc)" "rc_chunk_start rc3 = rc_chunk_start rc" "rc_args rc3 = rc_args rc"
    "rc_times rc3 = stop_at ce (rc_times rc)" "rc_base_id rc3 = rc_base_id rc" "rc_pool rc3 = rc_pool rc" "rc_failures rc3 = swap_failures (rc_failures rc)"
    using 1(2) 2(2) 3(2) by (simp_all add: wrote_def rc1s_def rc0_def)
  ultimately show ?thesis using 4(2-) by (intro exI [of _ rc4] exI [of _ "as @ bs @ cs"]) simp
qed

text \<open>Between chunks all buffers of samples are empty.\<close>

definition drained :: "recording \<Rightarrow> bool" where
  "drained rc \<longleftrightarrow> rec_ready rc \<and> (\<forall>b\<in>set (rc_bufs rc). offset b = 0)"

lemma drained_first: "drained rc \<Longrightarrow> first_stream rc = rc_file rc" "drained rc \<Longrightarrow> contents (rc_bufs rc ! 0) = []"
  "drained rc \<Longrightarrow> buf_ready (rc_bufs rc ! 0) \<and> offset (rc_bufs rc ! 0) = 0"
  by (auto simp: drained_def rec_ready_def first_stream_def contents_def CONCURRENCY_LEVEL_def)

lemma drained_others: "drained rc \<Longrightarrow> concat (map contents (tl (rc_bufs rc))) = []"
  by (cases "rc_bufs rc") (auto simp: drained_def contents_def)

lemma drained_update:
  assumes "drained rc" and "buf_ready b" and "offset b = 0"
  shows "drained (rc\<lparr>rc_bufs := (rc_bufs rc)[0 := b], rc_file := x, rc_written := n, rc_pool := p\<rparr>)"
  using assms by (auto simp: drained_def rec_ready_def dest!: set_update_subset_insert [THEN subsetD])

lemma pool_written:
  assumes w: "full_writes w" and rc: "drained rc" and inv: "pool_inv (rt_tid (rc_times rc)) (rc_pool rc)" and src: "source_ok (rc_pool rc) pl"
  shows "\<exists>b n ps stale bs. run_ops [write_pool w pl, flush_buf w 0] rc =
       Inr (rc\<lparr>rc_bufs := (rc_bufs rc)[0 := b], rc_file := rc_file rc @ stale @ bs, rc_written := n, rc_pool := ps\<rparr>) \<and>
     buf_ready b \<and> offset b = 0 \<and> length stale = 5 \<and> pool_inv (rt_tid (rc_times rc)) ps \<and>
     length (ps_methods ps) \<le> length (ps_methods (rc_pool rc)) + resolutions (pl_traces pl)"
proof -
  have ready: "ready (sink_at 0 rc)" using ready_sink_at [of rc 0] rc by (simp add: drained_def CONCURRENCY_LEVEL_def)
  have "source_ok (rc_pool rc) (pl\<lparr>pl_base_id := rc_base_id rc\<rparr>)" using src by (simp add: source_ok_def)
  from cpool_writes [OF w ready inv this] obtain ps s stale bs where
    p: "writeCpool w (rc_times rc) (pl\<lparr>pl_base_id := rc_base_id rc\<rparr>) (rc_pool rc, sink_at 0 rc) = Inr (ps, s)" "ready s" "length stale = 5"
      "stream s = stream (sink_at 0 rc) @ stale @ bs" "pool_inv (rt_tid (rc_times rc)) ps"
      "length (ps_methods ps) \<le> length (ps_methods (rc_pool rc)) + resolutions (pl_traces pl)" by auto
  have st: "sk_file s @ contents (sk_buf s) = rc_file rc @ stale @ bs"
    using p(4) drained_first(1) [OF rc] by (simp add: stream_def sink_at_def first_stream_def)
  have "buf_ready (sk_buf s)" using p(2) by (simp add: ready_def buf_ready_def)
  then have b: "buf_ready (reset (sk_buf s))" "offset (reset (sk_buf s)) = 0" using buf_ready_reset by (auto simp: reset_def)
  let ?n = "sk_written (flush_sink w (sink_at 0 ((put_sink 0 rc s)\<lparr>rc_pool := ps\<rparr>)))"
  have len: "0 < length (rc_bufs rc)" using rc by (simp add: drained_def rec_ready_def CONCURRENCY_LEVEL_def)
  have sink: "sink_at 0 ((put_sink 0 rc s)\<lparr>rc_pool := ps\<rparr>) = s" using len by (simp add: sink_at_def put_sink_def)
  have "run_ops [write_pool w pl, flush_buf w 0] rc =
      Inr (rc\<lparr>rc_bufs := (rc_bufs rc)[0 := reset (sk_buf s)], rc_file := rc_file rc @ stale @ bs, rc_written := ?n, rc_pool := ps\<rparr>)"
    using st by (simp add: write_pool_def p(1) flush_buf_def sink flush_stream [OF w]) (simp add: put_sink_def flush_stream [OF w])
  then show ?thesis using b p(3,5,6) by blast
qed

lemma pwrite_full: "full_writes w \<Longrightarrow> pwrite w bs off file = overwrite off bs file"
  by (simp add: pwrite_def full_writes_def)

lemma patch_size_field:
  assumes w: "full_writes w" and b: "buf_ready (rc_bufs rc ! 0)"
  shows "\<exists>b. patch_file w (putVar32_at 0 v) 5 off rc = Inr (rc\<lparr>rc_bufs := (rc_bufs rc)[0 := b], rc_file := overwrite off (var32_padded v) (rc_file rc)\<rparr>) \<and>
     buf_ready b \<and> offset b = offset (rc_bufs rc ! 0)"
proof -
  let ?b = "rc_bufs rc ! 0"
  let ?b' = "?b\<lparr>data := overwrite 0 (var32_padded v) (data ?b)\<rparr>"
  have len: "5 \<le> length (data ?b)" using b by (simp add: buf_ready_def wf_buffer_def buffer_consts)
  have l5: "length (var32_padded v) = 5" by (simp add: var32_padded_def)
  have "length (overwrite 0 (var32_padded v) (data ?b)) = length (data ?b)" using len l5 by simp
  then have "buf_ready ?b'" using b by (simp add: buf_ready_def wf_buffer_def)
  moreover have "take 5 (data ?b') = var32_padded v" using l5 by (simp add: overwrite_def)
  ultimately show ?thesis using len by (intro exI [of _ ?b']) (simp add: patch_file_def putVar32_at_def pwrite_full [OF w])
qed

lemma fields64:
  "\<exists>bs. length fs * 8 = length bs \<and> bs = concat (map be64 fs) \<and> appends (length fs * 8) bs (run_ops (map put64 fs))"
proof (induction fs)
  case (Cons x fs)
  then have "appends (8 + length fs * 8) (be64 x @ concat (map be64 fs)) (run_ops (put64 x # map put64 fs))"
    by (intro appends_Cons appends_put64) auto
  then show ?case using Cons by (simp del: run_ops.simps)
qed (use appends_Nil in \<open>simp del: run_ops.simps\<close>)

lemma patch_header_fields:
  assumes w: "full_writes w" and b: "buf_ready (rc_bufs rc ! 0)" "offset (rc_bufs rc ! 0) = 0" and n: "length fs = 7" and rc: "rc_bufs rc \<noteq> []"
  shows "\<exists>b. run_ops [patch_file w (run_ops (map put64 fs)) 56 off, reset_buf 0] rc =
       Inr (rc\<lparr>rc_bufs := (rc_bufs rc)[0 := b], rc_file := overwrite off (concat (map be64 fs)) (rc_file rc)\<rparr>) \<and> buf_ready b \<and> offset b = 0"
proof -
  let ?b = "rc_bufs rc ! 0" and ?bs = "concat (map be64 fs)"
  have bs: "length ?bs = 56" "appends 56 ?bs (run_ops (map put64 fs))" using fields64 [of fs] n by auto
  have wf: "wf_buffer ?b" "offset ?b + 56 < limit ?b" using b by (simp_all add: buf_ready_def buffer_consts)
  have a: "run_ops (map put64 fs) ?b = Inr (append_bytes ?bs ?b)" by (rule appendsD [OF bs(2) wf])
  have "take 56 (data (append_bytes ?bs ?b)) = ?bs"
    using contents_append_bytes [OF wf(1), of ?bs] b(2) bs(1) by (simp add: contents_def)
  moreover have "buf_ready (reset (append_bytes ?bs ?b))"
    by (rule buf_ready_reset) (use b wf bs(1) in \<open>simp add: buf_ready_def buffer_consts\<close>)
  ultimately show ?thesis using a rc by (intro exI [of _ "reset (append_bytes ?bs ?b)"])
      (simp add: patch_file_def reset_buf_def pwrite_full [OF w], simp add: reset_def)
qed

text \<open>
  The whole of \<^verbatim>\<open>finishChunk\<close>: the load of the processor, the events of the first buffer, what is added to them, the events of
  the other buffers and the constant pool follow what the file held, then the header is patched.
\<close>

lemma finishChunk_spec:
  assumes w: "full_writes w" and rc: "rec_ready rc" and ok: "end_ok ce" "failures_ok (rc_failures rc)"
    and pool: "pool_inv (rt_tid (rc_times rc)) (rc_pool rc)" "source_ok (rc_pool rc) (ce_source ce)"
    and start: "rc_chunk_start rc + 68 \<le> length (rc_file rc)"
  shows "\<exists>rc' body mid pl cpool chunk_end.
     body = rc_file rc @ contents (rc_cpu_buf rc) @ contents (rc_bufs rc ! 0) @ mid @ concat (map contents (tl (rc_bufs rc))) \<and>
     cpool = length body \<and> chunk_end = cpool + 5 + length pl \<and>
     finishChunk w ce e rc = Inr (chunk_end, rc') \<and> drained rc' \<and>
     rc_file rc' = overwrite (rc_chunk_start rc + 8)
       (concat (map be64 (header_fields chunk_end cpool (rc_chunk_start rc) (stop_at ce (rc_times rc)) (ce_tsc_frequency ce))))
       (body @ var32_padded (word_of_nat (5 + length pl)) @ pl) \<and>
     rc_cpu_buf rc' = reset (rc_cpu_buf rc) \<and> rc_chunk_start rc' = rc_chunk_start rc \<and> rc_args rc' = rc_args rc \<and>
     rc_times rc' = stop_at ce (rc_times rc) \<and> rc_base_id rc' = rc_base_id rc \<and> rc_failures rc' = swap_failures (rc_failures rc) \<and>
     pool_inv (rt_tid (rc_times rc)) (rc_pool rc') \<and>
     length (ps_methods (rc_pool rc')) \<le> length (ps_methods (rc_pool rc)) + resolutions (pl_traces (ce_source ce))"
proof -
  from tail_written [OF w rc ok, of e] obtain rc1 mid where
    1: "write_tail w ce e rc = Inr rc1" "rec_ready rc1" "\<forall>b\<in>set (rc_bufs rc1). offset b = 0"
      "rc_file rc1 = rc_file rc @ contents (rc_cpu_buf rc) @ contents (rc_bufs rc ! 0) @ mid @ concat (map contents (tl (rc_bufs rc)))"
      "rc_cpu_buf rc1 = reset (rc_cpu_buf rc)" "rc_chunk_start rc1 = rc_chunk_start rc" "rc_args rc1 = rc_args rc"
      "rc_times rc1 = stop_at ce (rc_times rc)" "rc_base_id rc1 = rc_base_id rc" "rc_pool rc1 = rc_pool rc"
      "rc_failures rc1 = swap_failures (rc_failures rc)" by blast
  have d1: "drained rc1" using 1(2,3) by (simp add: drained_def)
  have tid: "rt_tid (rc_times rc1) = rt_tid (rc_times rc)" by (simp add: 1(8) stop_at_def)
  from pool_written [OF w d1, of "ce_source ce"] pool obtain b2 n2 ps stale pl where
    2: "run_ops [write_pool w (ce_source ce), flush_buf w 0] rc1 =
        Inr (rc1\<lparr>rc_bufs := (rc_bufs rc1)[0 := b2], rc_file := rc_file rc1 @ stale @ pl, rc_written := n2, rc_pool := ps\<rparr>)"
      "buf_ready b2" "offset b2 = 0" "length stale = 5" "pool_inv (rt_tid (rc_times rc)) ps"
      "length (ps_methods ps) \<le> length (ps_methods (rc_pool rc)) + resolutions (pl_traces (ce_source ce))" by (auto simp: 1(10) tid)
  let ?rc2 = "rc1\<lparr>rc_bufs := (rc_bufs rc1)[0 := b2], rc_file := rc_file rc1 @ stale @ pl, rc_written := n2, rc_pool := ps\<rparr>"
  have ne: "rc_bufs rc1 \<noteq> []" using nth_0_bufs [OF 1(2)] by blast
  have b2: "rc_bufs ?rc2 ! 0 = b2" using ne by simp
  let ?off = "length (rc_file rc1)" and ?v = "word_of_nat (5 + length pl) :: u32"
  have sz: "length (rc_file ?rc2) - ?off = 5 + length pl" by (simp add: 2(4))
  from patch_size_field [OF w, of ?rc2 ?v ?off] obtain b3 where
    3: "patch_file w (putVar32_at 0 ?v) 5 ?off ?rc2 = Inr (?rc2\<lparr>rc_bufs := (rc_bufs ?rc2)[0 := b3], rc_file := overwrite ?off (var32_padded ?v) (rc_file ?rc2)\<rparr>)"
      "buf_ready b3" "offset b3 = 0" unfolding b2 using 2(2,3) by auto
  have ow: "overwrite ?off (var32_padded ?v) (rc_file ?rc2) = rc_file rc1 @ var32_padded ?v @ pl"
    using 2(4) by (simp add: overwrite_def var32_padded_def)
  let ?rc3 = "?rc2\<lparr>rc_bufs := (rc_bufs ?rc2)[0 := b3], rc_file := rc_file rc1 @ var32_padded ?v @ pl\<rparr>"
  let ?fin = "?off + 5 + length pl"
  let ?fs = "header_fields ?fin ?off (rc_chunk_start rc) (stop_at ce (rc_times rc)) (ce_tsc_frequency ce)"
  have e3: "length (rc_file ?rc3) = ?fin" by (simp add: var32_padded_def)
  have b3: "rc_bufs ?rc3 ! 0 = b3" "rc_bufs ?rc3 \<noteq> []" using ne by simp_all
  have n7: "length ?fs = 7" by (simp add: header_fields_def)
  have "\<exists>b. run_ops [patch_file w (run_ops (map put64 ?fs)) 56 (rc_chunk_start rc + 8), reset_buf 0] ?rc3 =
      Inr (?rc3\<lparr>rc_bufs := (rc_bufs ?rc3)[0 := b], rc_file := overwrite (rc_chunk_start rc + 8) (concat (map be64 ?fs)) (rc_file ?rc3)\<rparr>) \<and> buf_ready b \<and> offset b = 0"
    by (rule patch_header_fields [OF w _ _ n7 b3(2)]) (simp_all only: b3(1) 3(2,3))
  then obtain b4 where
    4: "run_ops [patch_file w (run_ops (map put64 ?fs)) 56 (rc_chunk_start rc + 8), reset_buf 0] ?rc3 =
      Inr (?rc3\<lparr>rc_bufs := (rc_bufs ?rc3)[0 := b4], rc_file := overwrite (rc_chunk_start rc + 8) (concat (map be64 ?fs)) (rc_file ?rc3)\<rparr>)"
      "buf_ready b4" "offset b4 = 0" by blast
  let ?rc4 = "?rc3\<lparr>rc_bufs := (rc_bufs ?rc3)[0 := b4], rc_file := overwrite (rc_chunk_start rc + 8) (concat (map be64 ?fs)) (rc_file ?rc3)\<rparr>"
  have cs: "rc_chunk_start ?rc3 = rc_chunk_start rc" "rc_times ?rc3 = stop_at ce (rc_times rc)" by (simp_all add: 1(6,8))
  have "finishChunk w ce e rc = Inr (?fin, ?rc4)"
    unfolding finishChunk_def 1(1) sum.case Let_def 2(1) sz 3(1) ow e3 cs 4(1) ..
  moreover have "drained ?rc4" using drained_update [OF d1 4(2,3)]
    by (simp add: drained_def rec_ready_def)
  ultimately show ?thesis
    by (intro exI [of _ ?rc4] exI [of _ "rc_file rc1"] exI [of _ mid] exI [of _ pl] exI [of _ ?off] exI [of _ ?fin])
      (simp add: 1(4-11) 2(5,6))
qed

section \<open>Reading chunks\<close>

text \<open>
  What a reader of the file format knows: a chunk begins with its magic bytes and its version, followed by seven numbers of
  eight bytes, of which the first is the size of the chunk, the second the offset of the constant pool and the third that of
  the metadata. A chunk is complete when its size is its length, the constant pool begins with a size that reaches to the end
  of the chunk, and the metadata can be read.
\<close>

definition be_value :: "u8 list \<Rightarrow> nat" where
  "be_value bs = foldl (\<lambda>n b. 256 * n + unat b) 0 bs"

definition magic :: "u8 list" where
  "magic = cbytes ''FLR'' @ [0] @ be16 2 @ be16 0"

definition read_header :: "u8 list \<Rightarrow> nat list option" where
  "read_header c = (if 68 \<le> length c \<and> take 8 c = magic then Some (map (\<lambda>i. be_value (take 8 (drop (8 + 8 * i) c))) [0..<7]) else None)"

definition complete_chunk :: "u8 list \<Rightarrow> bool" where
  "complete_chunk c \<longleftrightarrow>
     (case read_header c of
        None \<Rightarrow> False
      | Some hs \<Rightarrow>
          hs ! 0 = length c \<and> hs ! 2 = 68 \<and> 68 \<le> hs ! 1 \<and> hs ! 1 + 5 \<le> length c \<and>
          (case jfr_read_long (drop (hs ! 1) c) of None \<Rightarrow> False | Some (n, _) \<Rightarrow> n = length c - hs ! 1) \<and>
          read_metadata (drop 68 c) \<noteq> None)"

function split_chunks :: "u8 list \<Rightarrow> u8 list list option" where
  "split_chunks bs =
     (if bs = [] then Some []
      else case read_header bs of
             None \<Rightarrow> None
           | Some hs \<Rightarrow> if hs ! 0 = 0 \<or> length bs < hs ! 0 then None
                        else map_option (Cons (take (hs ! 0) bs)) (split_chunks (drop (hs ! 0) bs)))"
  by pat_completeness auto
termination
  by (relation "measure length") auto

declare split_chunks.simps [simp del]

lemma be_value_be64: "be_value (be64 v) = unat v"
proof -
  have q: "foldl (\<lambda>n b. 256 * n + unat b) m (be32 x) = m * 2 ^ 32 + unat x" for m and x :: u32
  proof -
    define a where "a = unat x"
    have "a div 2 ^ 24 < 256" using u32_less [of x] by (simp add: a_def less_mult_imp_div_less)
    then have "foldl (\<lambda>n b. 256 * n + unat b) m (be32 x) =
        2 ^ 32 * m + (256 * (256 * (256 * (a div 256 div 256 div 256) + a div 256 div 256 mod 256) + a div 256 mod 256) + a mod 256)"
      by (simp add: be32_def unat_ucast_u8 a_def div_mult2_eq [symmetric])
    then show ?thesis unfolding base256_digits by (simp add: a_def)
  qed
  have "unat v div 2 ^ 32 < 2 ^ 32" using u64_less [of v] by (simp add: less_mult_imp_div_less)
  then have "unat (ucast (drop_bit 32 v) :: u32) = unat v div 2 ^ 32" "unat (ucast v :: u32) = unat v mod 2 ^ 32"
    by (simp_all add: unsigned_ucast_eq take_bit_eq_mod)
  then show ?thesis using q [of 0 "ucast (drop_bit 32 v)"] q [of "unat (ucast (drop_bit 32 v) :: u32)" "ucast v"]
    by (simp add: be_value_def be64_def foldl_append mult.commute)
qed

text \<open>A chunk that has been begun: the header without its sizes, the metadata, and events.\<close>

definition begun :: "u8 list \<Rightarrow> bool" where
  "begun c \<longleftrightarrow> (\<exists>hdr meta rest v. c = hdr @ meta @ rest \<and> length hdr = 68 \<and> take 8 hdr = magic \<and> reads_as read_metadata meta v)"

definition open_chunk :: "recording \<Rightarrow> bool" where
  "open_chunk rc \<longleftrightarrow> rc_chunk_start rc \<le> length (rc_file rc) \<and> begun (drop (rc_chunk_start rc) (rc_file rc))"

lemma begun_length: "begun c \<Longrightarrow> 68 \<le> length c"
  by (auto simp: begun_def)

lemma begun_append: "begun c \<Longrightarrow> begun (c @ d)"
  unfolding begun_def by (metis append_assoc)

lemma length_be64s: "length (concat (map be64 fs)) = 8 * length fs"
  by (induction fs) simp_all

lemma header_read:
  assumes "length hdr = 68" and "take 8 hdr = magic" and "length fs = 7"
  shows "read_header (overwrite 8 (concat (map be64 fs)) (hdr @ rest)) = Some (map unat fs)"
proof -
  let ?H = "concat (map be64 fs)" and ?c = "overwrite 8 (concat (map be64 fs)) (hdr @ rest)"
  have c: "?c = magic @ ?H @ drop 64 (hdr @ rest)" using assms(1) by (simp add: overwrite_def length_be64s assms(2,3))
  have len: "length magic = 8" by (simp add: magic_def cbytes_def be16_def)
  have "take 8 (drop (8 * i) ?H) = be64 (fs ! i)" if "i < length fs" for i
    using that
  proof (induction fs arbitrary: i)
    case (Cons x fs)
    then show ?case by (cases i) simp_all
  qed simp
  then have "take 8 (drop (8 + 8 * i) ?c) = be64 (fs ! i)" if "i < 7" for i
    using that assms(3) len by (simp add: c length_be64s)
  then have "map (\<lambda>i. be_value (take 8 (drop (8 + 8 * i) ?c))) [0..<7] = map (\<lambda>i. unat (fs ! i)) [0..<7]" by (simp add: be_value_be64)
  also have "\<dots> = map unat (map (\<lambda>i. fs ! i) [0..<length fs])" by (simp only: assms(3) map_map comp_def)
  finally have v: "map (\<lambda>i. be_value (take 8 (drop (8 + 8 * i) ?c))) [0..<7] = map unat fs" by (simp only: map_nth)
  have l: "68 \<le> length ?c" "take 8 ?c = magic" using len assms(1,3) by (simp_all add: c length_be64s)
  show ?thesis unfolding read_header_def v using l by simp
qed

lemma chunk_completed:
  assumes c: "begun c" and small: "length c + 5 + length pl < 2 ^ 32"
    and fs: "fs = [word_of_nat (length c + 5 + length pl), word_of_nat (length c), 68, a, b, d, e]"
  shows "complete_chunk (overwrite 8 (concat (map be64 fs)) (c @ var32_padded (word_of_nat (5 + length pl)) @ pl))"
proof -
  let ?p = "var32_padded (word_of_nat (5 + length pl)) @ pl"
  obtain hdr meta rest v where m: "c = hdr @ meta @ rest" "length hdr = 68" "take 8 hdr = magic" "reads_as read_metadata meta v"
    using c by (auto simp: begun_def)
  let ?o = "overwrite 8 (concat (map be64 fs)) (c @ ?p)"
  have n7: "length fs = 7" by (simp add: fs)
  have h: "read_header ?o = Some (map unat fs)" using header_read [OF m(2,3) n7, of "meta @ rest @ ?p"] by (simp add: m(1))
  have len: "length ?o = length c + 5 + length pl" using m(1,2) by (simp add: length_be64s n7)
  have d: "drop k ?o = drop k (c @ ?p)" if "64 \<le> k" for k
    using that m(2) by (simp add: overwrite_def length_be64s n7 m(1))
  have u: "unat (word_of_nat (length c + 5 + length pl) :: u64) = length c + 5 + length pl" "unat (word_of_nat (length c) :: u64) = length c"
    by (rule unat_word_of_nat, use small in simp)+
  have c64: "64 \<le> length c" using m(1,2) by simp
  have "unat (word_of_nat (5 + length pl) :: u32) = 5 + length pl" by (rule unat_word_of_nat) (use small in simp)
  from read_var32_padded [of "word_of_nat (5 + length pl)" pl, unfolded this] d [OF c64]
  have "jfr_read_long (drop (length c) ?o) = Some (5 + length pl, pl)" by (simp add: jfr_read_long_def)
  moreover have "read_metadata (drop 68 ?o) = Some (v, rest @ ?p)" using d [of 68] m by (simp add: reads_as_def)
  moreover have "map unat fs ! 0 = length c + 5 + length pl" "map unat fs ! 1 = length c" "map unat fs ! 2 = 68"
    unfolding fs list.map u by simp_all
  ultimately show ?thesis using begun_length [OF c] unfolding complete_chunk_def h option.case len by simp
qed

lemma split_append:
  "split_chunks xs = Some cs \<Longrightarrow> complete_chunk c \<Longrightarrow> split_chunks (xs @ c) = Some (cs @ [c])"
proof (induction xs arbitrary: cs rule: split_chunks.induct)
  case (1 xs)
  have c: "read_header c = Some hs \<Longrightarrow> hs ! 0 = length c \<and> 68 \<le> length c" for hs
    using "1.prems"(2) by (auto simp: complete_chunk_def read_header_def split: if_splits)
  show ?case
  proof (cases "xs = []")
    case True
    obtain hs where hs: "read_header c = Some hs" using "1.prems"(2) by (auto simp: complete_chunk_def split: option.splits)
    have "split_chunks [] = Some []" by (simp add: split_chunks.simps)
    then have "split_chunks c = Some [c]" using c [OF hs] hs by (subst split_chunks.simps) auto
    with True "1.prems"(1) show ?thesis by (simp add: split_chunks.simps [of "[]"])
  next
    case False
    then obtain hs ds where hs: "read_header xs = Some hs" "hs ! 0 \<noteq> 0" "hs ! 0 \<le> length xs" "split_chunks (drop (hs ! 0) xs) = Some ds"
      "cs = take (hs ! 0) xs # ds"
      using "1.prems"(1) by (subst (asm) split_chunks.simps) (auto split: option.splits if_splits)
    have len: "68 \<le> length xs" using hs(1) by (simp add: read_header_def split: if_splits)
    then have "take 8 (drop (8 + 8 * i) (xs @ c)) = take 8 (drop (8 + 8 * i) xs)" if "i < 7" for i using that by simp
    then have h: "read_header (xs @ c) = Some hs" using hs(1) len by (auto simp: read_header_def split: if_splits)
    have "split_chunks (drop (hs ! 0) xs @ c) = Some (ds @ [c])" using "1.IH" [OF False hs(1) _ hs(4) "1.prems"(2)] hs(2,3) by simp
    then show ?thesis using h hs False by (subst split_chunks.simps) simp
  qed
qed

section \<open>Beginning a chunk\<close>

definition info_ok :: "chunk_info \<Rightarrow> bool" where
  "info_ok ci \<longleftrightarrow> (\<exists>attrs v14. usual_attributes attrs \<and> ci_metadata ci = initialize_metadata attrs v14 new_JfrMetadata) \<and>
     (\<forall>u. ci_uname ci = Some u \<longrightarrow> length (un_machine u) \<le> 64) \<and> (\<forall>d. ci_cpu ci = Some d \<longrightarrow> length d \<le> 511)"

definition header_bytes :: "rec_times \<Rightarrow> u64 \<Rightarrow> u8 list" where
  "header_bytes rt freq = magic @ concat (map be64 [1024 * 1024 * 1024, 0, 0, rt_start_time rt * 1000, 0, rt_start_ticks rt, freq]) @ be32 1"

lemma header_appends:
  "appends 68 (header_bytes rt freq) (run_ops [Buffers.put (cbytes ''FLR'' @ [0]) 4, put16 2, put16 0, put64 (1024 * 1024 * 1024), put64 0, put64 0,
     put64 (rt_start_time rt * 1000), put64 0, put64 (rt_start_ticks rt), put64 freq, put32 1])"
proof -
  have "appends (unat (4 :: u32)) (take (unat (4 :: u32)) (cbytes ''FLR'' @ [0])) (Buffers.put (cbytes ''FLR'' @ [0]) 4)"
    by (rule appends_put) (simp_all add: cbytes_def)
  then have p: "appends 4 (cbytes ''FLR'' @ [0]) (Buffers.put (cbytes ''FLR'' @ [0]) 4)" by (simp add: cbytes_def)
  have "appends (4 + (2 + (2 + (8 + (8 + (8 + (8 + (8 + (8 + (8 + (4 + 0)))))))))))
      ((cbytes ''FLR'' @ [0]) @ be16 2 @ be16 0 @ be64 (1024 * 1024 * 1024) @ be64 0 @ be64 0 @ be64 (rt_start_time rt * 1000) @ be64 0 @
        be64 (rt_start_ticks rt) @ be64 freq @ be32 1 @ [])
      (run_ops [Buffers.put (cbytes ''FLR'' @ [0]) 4, put16 2, put16 0, put64 (1024 * 1024 * 1024), put64 0, put64 0,
        put64 (rt_start_time rt * 1000), put64 0, put64 (rt_start_ticks rt), put64 freq, put32 1])"
    by (intro appends_Cons appends_Nil p appends_put16 appends_put64 appends_put32)
  then show ?thesis by (simp add: header_bytes_def magic_def del: run_ops.simps)
qed

lemma header_length: "length (header_bytes rt freq) = 68" "take 8 (header_bytes rt freq) = magic"
  by (simp_all add: header_bytes_def magic_def cbytes_def be16_def)

lemma begin_written:
  assumes w: "full_writes w" and rc: "drained rc" and ok: "info_ok ci"
  shows "\<exists>rc' meta v. write_header_and_metadata w ci rc = Inr rc' \<and> wrote (header_bytes (rc_times rc) (ci_tsc_frequency ci) @ meta) rc rc' \<and>
     reads_as read_metadata meta v"
proof -
  let ?h = "header_bytes (rc_times rc) (ci_tsc_frequency ci)" and ?s = "sink_at 0 rc"
  obtain attrs v14 where m: "usual_attributes attrs" "ci_metadata ci = initialize_metadata attrs v14 new_JfrMetadata" using ok by (auto simp: info_ok_def)
  have r: "rec_ready rc" using rc by (simp add: drained_def)
  have ready: "ready ?s" "offset (sk_buf ?s) = 0" using ready_sink_at [OF r, of 0] drained_first(3) [OF rc] by (simp_all add: CONCURRENCY_LEVEL_def sink_at_def)
  let ?s1 = "?s\<lparr>sk_buf := append_bytes ?h (sk_buf ?s)\<rparr>"
  have a: "run_ops [Buffers.put (cbytes ''FLR'' @ [0]) 4, put16 2, put16 0, put64 (1024 * 1024 * 1024), put64 0, put64 0,
     put64 (rt_start_time (rc_times rc) * 1000), put64 0, put64 (rt_start_ticks (rc_times rc)), put64 (ci_tsc_frequency ci), put32 1] (sk_buf ?s) = Inr (append_bytes ?h (sk_buf ?s))"
    by (rule appendsD [OF header_appends]) (use ready in \<open>simp_all add: ready_def buffer_consts\<close>)
  have o1: "offset (sk_buf ?s1) = 68" by (simp add: ready(2) header_length)
  have r1: "ready ?s1" by (rule ready_append [OF ready(1)]) (simp add: ready(2) header_length buffer_consts)
  have st1: "stream ?s1 = stream ?s @ ?h" using ready(1) by (simp add: stream_def contents_append_bytes ready_def)
  have nf: "flush_op w JFR_EVENT_FLUSH_THRESHOLD ?s1 = Inr ?s1" using o1 by (simp add: flush_op_def flushIfNeeded_def JFR_EVENT_FLUSH_THRESHOLD_def buffer_consts)
  have wh: "writeHeader w (rc_times rc) (ci_tsc_frequency ci) ?s = Inr ?s1"
    unfolding writeHeader_def run_ops_append run_ops_on_buf on_buf_def a run_ops_single map_sum.simps sum.case by (rule nf)
  have w1: "wrote ?h rc (put_sink 0 rc ?s1)" by (rule put_first [OF r r1 st1])
  have sink1: "sink_at 0 (put_sink 0 rc ?s1) = ?s1" using nth_0_bufs [OF r] by (simp add: sink_at_def put_sink_def)
  have t1: "rc_times (put_sink 0 rc ?s1) = rc_times rc" by (simp add: put_sink_def)
  obtain s2 meta where 2: "writeMetadata w (rc_times rc) (ci_metadata ci) ?s1 = Inr s2" "ready s2" "stream s2 = stream ?s1 @ meta"
    "reads_as read_metadata meta (length meta, unat (rt_start_ticks (rc_times rc)), map (\<lambda>s. Some (cbytes s)) (strings (meta_table (ci_metadata ci))), meta_root (ci_metadata ci))"
    using metadata_roundtrip [OF m(1) r1, of w "rc_times rc" v14] o1 unfolding m(2) by auto
  have w2: "wrote meta (put_sink 0 rc ?s1) (put_sink 0 (put_sink 0 rc ?s1) s2)"
    by (rule put_first [OF wrote_ready [OF w1] 2(2)]) (simp only: sink1 2(3))
  have "write_header_and_metadata w ci rc = Inr (put_sink 0 (put_sink 0 rc ?s1) s2)"
    by (simp add: write_header_and_metadata_def at_buf_def wh sink1 t1 2(1))
  then show ?thesis using wrote_trans [OF w1 w2] 2(4) by blast
qed

lemma extends_info:
  assumes w: "full_writes w" and ok: "info_ok ci"
  shows "extends (write_info w ci args)"
proof -
  have t: "extends (\<lambda>rc. at_buf 0 (op (rc_times rc)) rc)" if "\<And>rt. writes 0 0 (op rt)" for op
    using extends_timed [of op, OF that] unfolding timed_def [abs_def] .
  have l: "extends (\<lambda>rc. write_libraries w (ci_libs ci) (rc\<lparr>rc_lib_count := 0\<rparr>))"
    unfolding extends_def
  proof (intro allI impI)
    fix rc assume "rec_ready rc"
    then have "rec_ready (rc\<lparr>rc_lib_count := 0\<rparr>)" by simp
    from extendsD [OF extends_libraries [OF w] this, of "ci_libs ci"] obtain rc' bs where
      "write_libraries w (ci_libs ci) (rc\<lparr>rc_lib_count := 0\<rparr>) = Inr rc'" "wrote bs (rc\<lparr>rc_lib_count := 0\<rparr>) rc'" by blast
    moreover from this(2) have "wrote bs rc rc'" by (simp add: wrote_def first_stream_def)
    ultimately show "\<exists>rc' bs. write_libraries w (ci_libs ci) (rc\<lparr>rc_lib_count := 0\<rparr>) = Inr rc' \<and> wrote bs rc rc'" by blast
  qed
  have n: "extends (\<lambda>rc. Inr (rc\<lparr>rc_lib_count := - 1\<rparr>))" unfolding extends_def using wrote_frame(4) [OF wrote_refl] by blast
  have oc: "writes 0 0 (writeOsCpuInfo w rt (ci_uname ci) (ci_cpu ci))" for rt by (rule writes_os_cpu [OF w]) (use ok in \<open>auto simp: info_ok_def\<close>)
  have o: "extends (\<lambda>rc. at_buf 0 (writeOsCpuInfo w (rc_times rc) (ci_uname ci) (ci_cpu ci)) rc)" by (rule t [OF oc])
  have j: "extends (\<lambda>rc. at_buf 0 (writeJvmInfo w (rc_times rc) a b c d e) rc)" for a b c d e by (rule t, rule writes_jvm [OF w])
  have p: "extends (\<lambda>rc. at_buf 0 (writeSystemProperties w (rc_times rc) x) rc)" for x by (rule t, rule writes_properties [OF w])
  have s: "extends (\<lambda>rc. at_buf 0 (writeSettings w (rc_times rc) se args) rc)" for se by (rule t, rule writes_settings [OF w])
  show ?thesis
    unfolding write_info_def
    by (cases "hasOption args NO_SYSTEM_INFO"; cases "hasOption args NO_SYSTEM_PROPS"; cases "hasOption args NO_NATIVE_LIBS")
      (simp_all only: if_True if_False not_True_eq_False not_False_eq_True append_Cons append_Nil, (intro extends_Cons extends_Nil s o j p l n)+)
qed

end
