(* ===== verification/Recording_Life.thy ===== *)
theory Recording_Life
  imports Flight_Recorder
begin

text \<open>
  The invariant of a recording and of the recorder (\<^verbatim>\<open>flightRecorder.cpp\<close>): what the file holds at every moment, that every
  operation keeps it, and what a reader finds in the files that are handed out. No operation of the code is defined here.
\<close>

section \<open>The invariant of a recording\<close>

text \<open>The chunks before the one that is being written.\<close>

definition recorded_chunks :: "recording \<Rightarrow> u8 list list option" where
  "recorded_chunks rc = split_chunks (take (rc_chunk_start rc) (rc_file rc))"

definition rec_inv :: "recording \<Rightarrow> bool" where
  "rec_inv rc \<longleftrightarrow> rec_ready rc \<and> open_chunk rc \<and> failures_ok (rc_failures rc) \<and> pool_inv (rt_tid (rc_times rc)) (rc_pool rc) \<and>
     (\<exists>cs. recorded_chunks rc = Some cs \<and> list_all complete_chunk cs)"

text \<open>The events that wait in the buffers, in the order in which the end of a chunk writes them; \<open>mid\<close> is what it adds itself.\<close>

definition pending :: "recording \<Rightarrow> u8 list \<Rightarrow> u8 list" where
  "pending rc mid = contents (rc_cpu_buf rc) @ contents (rc_bufs rc ! 0) @ mid @ concat (map contents (tl (rc_bufs rc)))"

lemma overwrite_suffix: "length xs = n \<Longrightarrow> overwrite (n + k) bs (xs @ ys) = xs @ overwrite k bs ys"
  by (auto simp: overwrite_def)

text \<open>
  The end of a chunk, from the invariant: the earlier chunks stay, the header is completed, everything else of the chunk stays
  and is followed by the pending events and the constant pool, and the chunk is complete unless it has four gigabytes or more.
\<close>

lemma finish_chunk:
  assumes w: "full_writes w" and rc: "rec_inv rc" and ok: "end_ok ce" "source_ok (rc_pool rc) (ce_source ce)"
  shows "\<exists>rc' mid cpool. finishChunk w ce e rc = Inr (length (rc_file rc'), rc') \<and> drained rc' \<and>
     take (rc_chunk_start rc) (rc_file rc') = take (rc_chunk_start rc) (rc_file rc) \<and>
     drop (rc_chunk_start rc + 64) (rc_file rc') = drop (rc_chunk_start rc + 64) (rc_file rc) @ pending rc mid @ cpool \<and>
     (length (rc_file rc') < 2 ^ 32 \<longrightarrow> complete_chunk (drop (rc_chunk_start rc) (rc_file rc'))) \<and>
     rc_chunk_start rc' = rc_chunk_start rc \<and> rc_chunk_start rc \<le> length (rc_file rc') \<and> rc_args rc' = rc_args rc \<and>
     rc_times rc' = stop_at ce (rc_times rc) \<and> rc_base_id rc' = rc_base_id rc \<and> failures_ok (rc_failures rc') \<and>
     pool_inv (rt_tid (rc_times rc')) (rc_pool rc')"
proof -
  let ?st = "rc_chunk_start rc" and ?F = "rc_file rc"
  have r: "rec_ready rc" "failures_ok (rc_failures rc)" "pool_inv (rt_tid (rc_times rc)) (rc_pool rc)" and op: "?st \<le> length ?F" "begun (drop ?st ?F)"
    using rc by (auto simp: rec_inv_def open_chunk_def)
  have st: "?st + 68 \<le> length ?F" using begun_length [OF op(2)] by simp
  from finishChunk_spec [OF w r(1) ok(1) r(2,3) ok(2) st, of e] obtain rc' mid pl where
    f: "finishChunk w ce e rc = Inr (length (?F @ pending rc mid) + 5 + length pl, rc')" "drained rc'"
      "rc_file rc' = overwrite (?st + 8)
        (concat (map be64 (header_fields (length (?F @ pending rc mid) + 5 + length pl) (length (?F @ pending rc mid)) ?st (stop_at ce (rc_times rc)) (ce_tsc_frequency ce))))
        ((?F @ pending rc mid) @ var32_padded (word_of_nat (5 + length pl)) @ pl)"
      "rc_chunk_start rc' = ?st" "rc_args rc' = rc_args rc" "rc_times rc' = stop_at ce (rc_times rc)" "rc_base_id rc' = rc_base_id rc"
      "rc_failures rc' = swap_failures (rc_failures rc)" "pool_inv (rt_tid (rc_times rc)) (rc_pool rc')"
    unfolding pending_def by auto
  define c where "c = drop ?st ?F @ pending rc mid"
  define P where "P = var32_padded (word_of_nat (5 + length pl)) @ pl"
  define fs where "fs = header_fields (length (?F @ pending rc mid) + 5 + length pl) (length (?F @ pending rc mid)) ?st (stop_at ce (rc_times rc)) (ce_tsc_frequency ce)"
  have "(?F @ pending rc mid) @ P = take ?st ?F @ (c @ P)" unfolding c_def by (metis append_assoc append_take_drop_id)
  then have fl: "rc_file rc' = take ?st ?F @ overwrite 8 (concat (map be64 fs)) (c @ P)"
    unfolding f(3) fs_def [symmetric] P_def [symmetric] using overwrite_suffix [of "take ?st ?F" ?st 8] op(1) by simp
  have c: "begun c" unfolding c_def by (rule begun_append [OF op(2)])
  have n: "length (?F @ pending rc mid) = ?st + length c" using op(1) by (simp add: c_def)
  have fs: "fs = [word_of_nat (length c + 5 + length pl), word_of_nat (length c), 68, rt_start_time (stop_at ce (rc_times rc)) * 1000,
      (rt_stop_time (stop_at ce (rc_times rc)) - rt_start_time (stop_at ce (rc_times rc))) * 1000, rt_start_ticks (stop_at ce (rc_times rc)), ce_tsc_frequency ce]"
    unfolding fs_def header_fields_def n by (simp add: add.assoc)
  have lc: "68 \<le> length c" "length P = 5 + length pl" using begun_length [OF c] by (simp_all add: P_def var32_padded_def)
  have h: "length (concat (map be64 fs)) = 56" by (simp add: length_be64s fs)
  have len: "length (rc_file rc') = ?st + length c + 5 + length pl" using lc h op(1) by (simp add: fl)
  have t: "take ?st (rc_file rc') = take ?st ?F" "drop ?st (rc_file rc') = overwrite 8 (concat (map be64 fs)) (c @ P)"
    using op(1) by (simp_all add: fl)
  have "complete_chunk (overwrite 8 (concat (map be64 fs)) (c @ P))" if "length (rc_file rc') < 2 ^ 32"
    unfolding P_def by (rule chunk_completed [OF c _ fs]) (use that len in simp)
  moreover have "drop (?st + 64) (rc_file rc') = drop 64 (drop ?st (rc_file rc'))" by (simp add: add.commute)
  then have "drop (?st + 64) (rc_file rc') = drop (?st + 64) ?F @ pending rc mid @ P"
    unfolding t(2) using lc h st by (simp add: overwrite_def c_def add.commute)
  moreover have "length (?F @ pending rc mid) + 5 + length pl = length (rc_file rc')" unfolding n len ..
  ultimately show ?thesis using f(1,2,4-9) t len failures_ok_swap [OF r(2)]
    by (intro exI [of _ rc'] exI [of _ mid] exI [of _ P]) (simp add: stop_at_def)
qed

section \<open>A new chunk\<close>

lemma drained_flush:
  assumes w: "full_writes w" and a: "drained rc" and b: "wrote bs rc rc1"
  shows "\<exists>rc'. flush_buf w 0 rc1 = Inr rc' \<and> drained rc' \<and> rc_file rc' = rc_file rc @ bs \<and> rc_cpu_buf rc' = rc_cpu_buf rc \<and>
     rc_chunk_start rc' = rc_chunk_start rc \<and> rc_args rc' = rc_args rc \<and> rc_times rc' = rc_times rc \<and> rc_base_id rc' = rc_base_id rc \<and>
     rc_pool rc' = rc_pool rc \<and> rc_failures rc' = rc_failures rc"
proof -
  note r = wrote_ready [OF b]
  let ?rc' = "put_sink 0 rc1 (flush_sink w (sink_at 0 rc1))"
  obtain x xs where x: "rc_bufs rc1 = x # xs" using nth_0_bufs [OF r] by blast
  have "flush_buf w 0 rc1 = Inr ?rc'" "rec_ready ?rc'" using flush_buf_ready [OF w r, of 0] by (simp_all add: CONCURRENCY_LEVEL_def)
  moreover have "xs = tl (rc_bufs rc)" using b x by (simp add: wrote_def)
  then have "\<forall>y\<in>set xs. offset y = 0" using a by (cases "rc_bufs rc") (auto simp: drained_def)
  then have "\<forall>y\<in>set (rc_bufs ?rc'). offset y = 0" using x by (auto simp: put_sink_def flush_stream [OF w] sink_at_def) (simp add: reset_def)
  moreover have "rc_file ?rc' = first_stream rc1" by (simp add: put_sink_def flush_stream [OF w] sink_at_def first_stream_def)
  then have "rc_file ?rc' = rc_file rc @ bs" using b drained_first(1) [OF a] by (simp add: wrote_def)
  ultimately show ?thesis using b by (intro exI [of _ ?rc']) (simp add: drained_def wrote_def put_sink_def)
qed

lemma fresh_chunk:
  assumes w: "full_writes w" and rc: "drained rc" and ok: "info_ok ci" and ii: "extends io"
  shows "\<exists>rc' bs. run_ops [write_header_and_metadata w ci, io, flush_buf w 0] rc = Inr rc' \<and> drained rc' \<and> rc_file rc' = rc_file rc @ bs \<and> begun bs \<and>
     rc_cpu_buf rc' = rc_cpu_buf rc \<and> rc_chunk_start rc' = rc_chunk_start rc \<and> rc_args rc' = rc_args rc \<and> rc_times rc' = rc_times rc \<and>
     rc_base_id rc' = rc_base_id rc \<and> rc_pool rc' = rc_pool rc \<and> rc_failures rc' = rc_failures rc"
proof -
  from begin_written [OF w rc ok] obtain rc1 meta v where 1: "write_header_and_metadata w ci rc = Inr rc1"
    "wrote (header_bytes (rc_times rc) (ci_tsc_frequency ci) @ meta) rc rc1" "reads_as read_metadata meta v" by blast
  from extendsD [OF ii wrote_ready [OF 1(2)]] obtain rc2 us where 2: "io rc1 = Inr rc2" "wrote us rc1 rc2" by blast
  from drained_flush [OF w rc wrote_trans [OF 1(2) 2(2)]] obtain rc3 where 3: "flush_buf w 0 rc2 = Inr rc3" "drained rc3"
    "rc_file rc3 = rc_file rc @ ((header_bytes (rc_times rc) (ci_tsc_frequency ci) @ meta) @ us)" "rc_cpu_buf rc3 = rc_cpu_buf rc"
    "rc_chunk_start rc3 = rc_chunk_start rc" "rc_args rc3 = rc_args rc" "rc_times rc3 = rc_times rc" "rc_base_id rc3 = rc_base_id rc"
    "rc_pool rc3 = rc_pool rc" "rc_failures rc3 = rc_failures rc" by blast
  have "begun ((header_bytes (rc_times rc) (ci_tsc_frequency ci) @ meta) @ us)" unfolding begun_def
    by (intro exI [of _ "header_bytes (rc_times rc) (ci_tsc_frequency ci)"] exI [of _ meta] exI [of _ us] exI [of _ v])
      (simp add: header_length 1(3))
  with 1(1) 2(1) 3 show ?thesis by auto
qed

lemma extends_skip: "extends Inr"
  using wrote_refl by (auto simp: extends_def)

lemma extends_info_args:
  assumes "full_writes w" and "info_ok ci"
  shows "extends (\<lambda>rc. write_info w ci (rc_args rc) rc)"
  using extends_info [OF assms] unfolding extends_def by blast

text \<open>What a recording is when a chunk has just been begun, and that this is the invariant.\<close>

lemma begun_inv:
  assumes "drained rc" and "rc_chunk_start rc \<le> length (rc_file rc)" and "begun (drop (rc_chunk_start rc) (rc_file rc))"
    and "failures_ok (rc_failures rc)" and "pool_inv (rt_tid (rc_times rc)) (rc_pool rc)"
    and "split_chunks (take (rc_chunk_start rc) (rc_file rc)) = Some cs" and "list_all complete_chunk cs"
  shows "rec_inv rc"
  using assms by (simp add: rec_inv_def open_chunk_def drained_def recorded_chunks_def)

text \<open>Switching to the next chunk in the same file.\<close>

lemma switch_same_file:
  assumes w: "full_writes w" and rc: "rec_inv rc" and ok: "end_ok ce" "source_ok (rc_pool rc) (ce_source ce)" "info_ok ci"
  shows "\<exists>rc' c. switchChunk w sf truncates ce ci False rc = Inr ([], rc') \<and> rc_base_id rc' = rc_base_id rc + 0x1000000 \<and>
     rt_start_time (rc_times rc') = ce_stop_time ce \<and> take (rc_chunk_start rc) (rc_file rc') = take (rc_chunk_start rc) (rc_file rc) \<and>
     rc_chunk_start rc' = rc_chunk_start rc + length c \<and>
     (rc_chunk_start rc' < 2 ^ 32 \<longrightarrow> rec_inv rc' \<and> complete_chunk c \<and> recorded_chunks rc' = map_option (\<lambda>cs. cs @ [c]) (recorded_chunks rc))"
proof -
  let ?st = "rc_chunk_start rc"
  from finish_chunk [OF w rc ok(1,2), of False] obtain rc1 where
    f: "finishChunk w ce False rc = Inr (length (rc_file rc1), rc1)" "drained rc1" "take ?st (rc_file rc1) = take ?st (rc_file rc)"
      "length (rc_file rc1) < 2 ^ 32 \<longrightarrow> complete_chunk (drop ?st (rc_file rc1))" "?st \<le> length (rc_file rc1)"
      "rc_times rc1 = stop_at ce (rc_times rc)" "rc_base_id rc1 = rc_base_id rc" "failures_ok (rc_failures rc1)"
      "pool_inv (rt_tid (rc_times rc1)) (rc_pool rc1)" by blast
  let ?n = "length (rc_file rc1)"
  let ?t = "(rc_times rc1)\<lparr>rt_start_time := rt_stop_time (rc_times rc1), rt_start_ticks := rt_stop_ticks (rc_times rc1)\<rparr>"
  let ?rc2 = "rc1\<lparr>rc_chunk_start := ?n, rc_times := ?t, rc_written := 0, rc_base_id := rc_base_id rc1 + 0x1000000\<rparr>"
  have d2: "drained ?rc2" using f(2) by (simp add: drained_def rec_ready_def)
  from fresh_chunk [OF w d2 ok(3) extends_skip] obtain rc3 bs where
    3: "run_ops [write_header_and_metadata w ci, Inr, flush_buf w 0] ?rc2 = Inr rc3" "drained rc3" "rc_file rc3 = rc_file rc1 @ bs" "begun bs"
      "rc_chunk_start rc3 = ?n" "rc_times rc3 = ?t" "rc_base_id rc3 = rc_base_id rc + 0x1000000" "rc_pool rc3 = rc_pool rc1" "rc_failures rc3 = rc_failures rc1"
    using f(7) by auto
  have s: "switchChunk w sf truncates ce ci False rc = Inr ([], rc3)"
    using 3(1) by (auto simp: switchChunk_def f(1) next_chunk_def split: sum.splits)
  let ?c = "drop ?st (rc_file rc1)"
  have n: "?n = ?st + length ?c" "rc_file rc1 = take ?st (rc_file rc) @ ?c" using f(5) append_take_drop_id [of ?st "rc_file rc1"] unfolding f(3) by simp_all
  have "rec_inv rc3 \<and> complete_chunk ?c \<and> recorded_chunks rc3 = map_option (\<lambda>cs. cs @ [?c]) (recorded_chunks rc)" if small: "?n < 2 ^ 32"
  proof -
    obtain cs where cs: "recorded_chunks rc = Some cs" "list_all complete_chunk cs" using rc by (auto simp: rec_inv_def)
    have c: "complete_chunk ?c" using f(4) small by blast
    have sp: "split_chunks (rc_file rc1) = Some (cs @ [?c])" using split_append [OF cs(1) [unfolded recorded_chunks_def] c] n(2) by simp
    have "rec_inv rc3"
      using 3(2,4) f(8,9) sp cs(2) c by (intro begun_inv [of _ "cs @ [?c]"]) (simp_all add: 3(3,5,6,8,9))
    then show ?thesis using c cs(1) sp 3(3,5) by (simp add: recorded_chunks_def)
  qed
  then show ?thesis using s f(5) by (intro exI [of _ rc3] exI [of _ ?c]) (simp add: 3(3,5,6,7) f(3,6) stop_at_def)
qed

text \<open>Moving the chunks to another file: \<^verbatim>\<open>sendfile\<close> and \<^verbatim>\<open>ftruncate\<close> do all that they are asked for.\<close>

lemma copyFile_full: "(\<And>n. sf n = int n) \<Longrightarrow> copyFile sf n = n"
  by (simp add: copyFile.simps [of sf n] copyFile.simps [of sf 0] Let_def)

lemma switch_to_file:
  assumes w: "full_writes w" and rc: "rec_inv rc" and ok: "end_ok ce" "source_ok (rc_pool rc) (ce_source ce)" "info_ok ci"
    and sf: "\<And>n. sf n = int n"
  shows "\<exists>rc' c. switchChunk w sf True ce ci True rc = Inr (take (rc_chunk_start rc) (rc_file rc) @ c, rc') \<and> rec_inv rc' \<and>
     rc_base_id rc' = 0 \<and> recorded_chunks rc' = Some [] \<and>
     (rc_chunk_start rc + length c < 2 ^ 32 \<longrightarrow> complete_chunk c \<and>
        split_chunks (take (rc_chunk_start rc) (rc_file rc) @ c) = map_option (\<lambda>cs. cs @ [c]) (recorded_chunks rc))"
proof -
  let ?st = "rc_chunk_start rc"
  from finish_chunk [OF w rc ok(1,2), of True] obtain rc1 where
    f: "finishChunk w ce True rc = Inr (length (rc_file rc1), rc1)" "drained rc1" "take ?st (rc_file rc1) = take ?st (rc_file rc)"
      "length (rc_file rc1) < 2 ^ 32 \<longrightarrow> complete_chunk (drop ?st (rc_file rc1))" "?st \<le> length (rc_file rc1)"
      "failures_ok (rc_failures rc1)" "pool_inv (rt_tid (rc_times rc1)) (rc_pool rc1)" by blast
  let ?t = "(rc_times rc1)\<lparr>rt_start_time := rt_stop_time (rc_times rc1), rt_start_ticks := rt_stop_ticks (rc_times rc1)\<rparr>"
  let ?rc2 = "rc1\<lparr>rc_times := ?t, rc_written := 0, rc_file := [], rc_chunk_start := 0, rc_base_id := 0\<rparr>"
  have d2: "drained ?rc2" using f(2) by (simp add: drained_def rec_ready_def)
  from fresh_chunk [OF w d2 ok(3) extends_info_args [OF w ok(3)]] obtain rc3 bs where
    3: "run_ops [write_header_and_metadata w ci, \<lambda>rc. write_info w ci (rc_args rc) rc, flush_buf w 0] ?rc2 = Inr rc3" "drained rc3" "rc_file rc3 = bs" "begun bs"
      "rc_chunk_start rc3 = 0" "rc_times rc3 = ?t" "rc_base_id rc3 = 0" "rc_pool rc3 = rc_pool rc1" "rc_failures rc3 = rc_failures rc1" by auto
  have s: "switchChunk w sf True ce ci True rc = Inr (rc_file rc1, rc3)"
    using 3(1) by (auto simp: switchChunk_def f(1) next_chunk_def move_chunk_def copyFile_full [OF sf] split: sum.splits)
  have e: "split_chunks [] = Some []" by (simp add: split_chunks.simps)
  have "rec_inv rc3" by (rule begun_inv [of _ "[]"]) (use 3(2-6,8,9) f(6,7) e in simp_all)
  moreover have "recorded_chunks rc3 = Some []" by (simp add: recorded_chunks_def 3(5) e)
  moreover let ?c = "drop ?st (rc_file rc1)"
  have n: "rc_file rc1 = take ?st (rc_file rc) @ ?c" using append_take_drop_id [of ?st "rc_file rc1"] unfolding f(3) by simp
  moreover have "complete_chunk ?c \<and> split_chunks (take ?st (rc_file rc) @ ?c) = map_option (\<lambda>cs. cs @ [?c]) (recorded_chunks rc)" if "?st + length ?c < 2 ^ 32"
    using that f(4,5) split_append rc by (auto simp: rec_inv_def recorded_chunks_def)
  ultimately show ?thesis using s 3(7) by (intro exI [of _ rc3] exI [of _ ?c]) simp
qed

text \<open>A new recording.\<close>

definition tables_ok :: "pool_state \<times> failure_state \<Rightarrow> bool" where
  "tables_ok = (\<lambda>(pool, failures). dict_holds package_ok (ps_classes pool) \<and> failures_ok failures)"

definition birth_ok :: "birth \<Rightarrow> bool" where
  "birth_ok bi \<longleftrightarrow> unat (bi_max_thread_id bi) < 2 ^ 31 \<and> word_of_int (bi_tid bi) < bi_max_thread_id bi"

lemma new_recording:
  assumes w: "full_writes w" and ok: "info_ok ci" "birth_ok bi" "tables_ok tb"
    and old: "split_chunks file = Some cs" "list_all complete_chunk cs"
  shows "\<exists>rc. new_Recording w ci bi file args tb = Inr rc \<and> rec_inv rc \<and> recorded_chunks rc = Some cs \<and> rc_base_id rc = 0 \<and> ps_methods (rc_pool rc) = []"
proof -
  obtain pool failures where tb: "tb = (pool, failures)" by (cases tb)
  obtain f cs1 where f: "new_ThreadFilter (bi_max_thread_id bi) (ps_counters pool) = (f, cs1)" by (cases "new_ThreadFilter (bi_max_thread_id bi) (ps_counters pool)")
  define rt where "rt = \<lparr>rt_start_time = bi_micros bi, rt_start_ticks = bi_ticks bi, rt_recording_start_time = bi_micros bi,
                rt_recording_start_ticks = bi_ticks bi, rt_stop_time = 0, rt_stop_ticks = 0,
                rt_tid = bi_tid bi, rt_available_processors = bi_processors bi\<rparr>"
  define rc where "rc = \<lparr>rc_bufs = replicate CONCURRENCY_LEVEL (new_RecordingBuffer (bi_junk bi)), rc_cpu_buf = new_Buffer, rc_file = file,
                rc_written = 0, rc_chunk_start = length file, rc_args = save args, rc_times = rt, rc_base_id = 0,
                rc_lib_count = 0, rc_cpu_monitor = \<not> hasOption args NO_CPU_LOAD,
                rc_pool = pool\<lparr>ps_filter := f, ps_methods := [], ps_counters := cs1\<rparr>, rc_failures = failures\<rparr>"
  have new: "new_Recording w ci bi file args tb = run_ops [write_header_and_metadata w ci, write_info w ci args, flush_buf w 0] rc"
    by (simp add: new_Recording_def tb f rc_def rt_def Let_def del: run_ops.simps)
  have b: "buf_ready (new_RecordingBuffer (bi_junk bi))" "offset (new_RecordingBuffer (bi_junk bi)) = 0" "wf_buffer new_Buffer"
    by (simp_all add: buf_ready_def wf_new_RecordingBuffer wf_new_Buffer) (simp_all add: new_RecordingBuffer_def buffer_consts)
  then have d: "drained rc" by (simp add: drained_def rec_ready_def rc_def)
  have "wf_filter f" "max_thread_id f = bi_max_thread_id bi"
    using wf_new_filter(1) [of "bi_max_thread_id bi" "ps_counters pool"] ok(2) f by (auto simp: birth_ok_def new_ThreadFilter_def Let_def)
  then have p: "pool_inv (rt_tid (rc_times rc)) (rc_pool rc)" "failures_ok (rc_failures rc)"
    using ok(2,3) by (simp_all add: pool_inv_def rc_def rt_def methods_ok_Nil birth_ok_def tables_ok_def tb)
  have rcf: "rc_file rc = file" "rc_chunk_start rc = length file" "rc_base_id rc = 0" by (simp_all add: rc_def)
  from fresh_chunk [OF w d ok(1) extends_info [OF w ok(1)], of args] obtain rc' bs where
    3: "run_ops [write_header_and_metadata w ci, write_info w ci args, flush_buf w 0] rc = Inr rc'" "drained rc'" "rc_file rc' = file @ bs" "begun bs"
      "rc_chunk_start rc' = length file" "rc_times rc' = rc_times rc" "rc_base_id rc' = 0" "rc_pool rc' = rc_pool rc" "rc_failures rc' = rc_failures rc"
    unfolding rcf by blast
  have "rec_inv rc'" by (rule begun_inv [of _ cs]) (use 3(2-6,8,9) p old in simp_all)
  moreover have "ps_methods (rc_pool rc') = []" by (simp add: 3(8) rc_def)
  ultimately show ?thesis using 3(1,3,5,7) old by (simp add: new recorded_chunks_def del: run_ops.simps)
qed

section \<open>Events\<close>

text \<open>An event that a writer adds to one of the buffers only makes the file longer.\<close>

lemma inv_grows:
  assumes rc: "rec_inv rc" and i: "i < CONCURRENCY_LEVEL" and s: "ready s" "sk_file s = rc_file rc @ bs"
  shows "rec_inv (put_sink i rc s)"
proof -
  have "rec_ready (put_sink i rc s)"
    using rc i s(1) set_update_subset_insert [of "rc_bufs rc" i "sk_buf s"]
    by (auto simp: rec_inv_def rec_ready_def put_sink_def buf_ready_def ready_def)
  then show ?thesis using rc s(2) begun_append
    by (auto simp: rec_inv_def open_chunk_def put_sink_def recorded_chunks_def)
qed

lemma flush_grows: "\<exists>bs. sk_file (flushIfNeeded w lm s) = sk_file s @ bs"
  by (simp add: flushIfNeeded_def flush_sink_def Let_def)

lemma write_event_grows: "write_event w op s = Inr s' \<Longrightarrow> \<exists>bs. sk_file s' = sk_file s @ bs"
proof -
  assume "write_event w op s = Inr s'"
  then obtain b where "s' = flushIfNeeded w JFR_EVENT_FLUSH_THRESHOLD (s\<lparr>sk_buf := b\<rparr>)"
    by (cases "op (sk_buf s)") (auto simp: write_event_def on_buf_def flush_op_def)
  then show ?thesis using flush_grows [of w JFR_EVENT_FLUSH_THRESHOLD "s\<lparr>sk_buf := b\<rparr>"] by simp
qed

lemma record_sample_grows: "record_sample w cc tid ct ev s = Inr s' \<Longrightarrow> \<exists>bs. sk_file s' = sk_file s @ bs"
proof -
  assume a: "record_sample w cc tid ct ev s = Inr s'"
  then obtain s1 where s1: "(case sample_op cc tid ct ev of None \<Rightarrow> Inr | Some op \<Rightarrow> write_event w op) s = Inr s1"
    "s' = flushIfNeeded w JFR_EVENT_FLUSH_THRESHOLD s1" by (auto simp: record_sample_def flush_op_def split: sum.splits)
  have "\<exists>bs. sk_file s1 = sk_file s @ bs" using s1(1) write_event_grows by (cases "sample_op cc tid ct ev") auto
  with flush_grows [of w JFR_EVENT_FLUSH_THRESHOLD s1] s1(2) show ?thesis by auto
qed

lemma recorded_inv:
  assumes rc: "rec_inv rc" and i: "i < CONCURRENCY_LEVEL" and r: "\<And>s. ready s \<Longrightarrow> records sch t vs op s"
    and g: "\<And>s s'. op s = Inr s' \<Longrightarrow> \<exists>bs. sk_file s' = sk_file s @ bs"
  shows "\<exists>rc'. at_buf i op rc = Inr rc' \<and> rec_inv rc' \<and> rc_pool rc' = rc_pool rc \<and> rc_times rc' = rc_times rc"
proof -
  have "ready (sink_at i rc)" using rc i by (intro ready_sink_at) (simp_all add: rec_inv_def)
  with r obtain s where s: "op (sink_at i rc) = Inr s" "ready s" by (auto simp: records_def)
  with g obtain bs where "sk_file s = rc_file rc @ bs" by (fastforce simp: sink_at_def)
  from inv_grows [OF rc i s(2) this] show ?thesis by (simp add: at_buf_def s(1) put_sink_def)
qed

lemma add_thread_inv:
  assumes rc: "rec_inv rc" and tid: "word_of_int tid < max_thread_id (ps_filter (rc_pool rc))"
  shows "\<exists>rc'. addThread True tid rc = Inr rc' \<and> rec_inv rc' \<and> ids (ps_filter (rc_pool rc')) = insert (word_of_int tid) (ids (ps_filter (rc_pool rc)))"
proof -
  have wf: "wf_filter (ps_filter (rc_pool rc))" using rc by (simp add: rec_inv_def pool_inv_def)
  from filter_add_ok [OF wf tid, of "ps_counters (rc_pool rc)"] obtain f cs where
    f: "filter_add True (word_of_int tid) (ps_filter (rc_pool rc), ps_counters (rc_pool rc)) = Inr (f, cs)" "wf_filter f"
      "ids f = insert (word_of_int tid) (ids (ps_filter (rc_pool rc)))" "max_thread_id f = max_thread_id (ps_filter (rc_pool rc))" by auto
  then show ?thesis using rc by (simp add: addThread_def rec_inv_def pool_inv_def open_chunk_def recorded_chunks_def)
qed

text \<open>A sample is recorded in the buffer of the lock the thread holds, and the thread becomes known to the recording.\<close>

definition sample_fits :: "clock_ctx \<Rightarrow> nat \<Rightarrow> int \<Rightarrow> sample_event \<Rightarrow> recording \<Rightarrow> bool" where
  "sample_fits cc i tid ev rc \<longleftrightarrow> i < CONCURRENCY_LEVEL \<and> cc_attributes cc \<le> 10 \<and> declared (cc_attributes cc) (cc_context cc) ev \<and>
     word_of_int tid < max_thread_id (ps_filter (rc_pool rc))"

lemma sample_inv:
  assumes w: "full_writes w" and rc: "rec_inv rc" and ok: "sample_fits cc i tid ev rc"
  shows "\<exists>rc'. run_ops [at_buf i (record_sample w cc tid ctid ev), addThread True tid] rc = Inr rc' \<and> rec_inv rc' \<and>
     word_of_int tid \<in> ids (ps_filter (rc_pool rc'))"
proof -
  obtain op where op: "sample_op cc tid ctid ev = Some op"
    "event_op 254 (profiler_schema (cc_attributes cc) True) (sample_type ev) (sample_values cc tid ctid ev) op"
    using sample_event_op [of cc ev tid ctid True] ok by (auto simp: sample_fits_def)
  have rm: "254 \<le> ROOM" by (simp add: ROOM_eq)
  have "records (profiler_schema (cc_attributes cc) True) (sample_type ev) (sample_values cc tid ctid ev) (record_sample w cc tid ctid ev) s" if "ready s" for s
    using records_flush [OF event_op_recorded [OF op(2) rm w that] w] by (simp only: record_sample_def op(1) option.case)
  from recorded_inv [OF rc _ this, of i] record_sample_grows ok obtain rc1 where
    1: "at_buf i (record_sample w cc tid ctid ev) rc = Inr rc1" "rec_inv rc1" "rc_pool rc1 = rc_pool rc" by (auto simp: sample_fits_def)
  from add_thread_inv [OF 1(2), of tid] ok 1 show ?thesis by (auto simp: sample_fits_def)
qed

text \<open>The message of a log fits into the memory \<^verbatim>\<open>alloca\<close> gives, whatever it is.\<close>

lemma store_fits:
  "offset b \<le> k \<Longrightarrow> length bs \<le> l \<Longrightarrow> k + l \<le> length (data b) \<Longrightarrow>
     \<exists>b'. store bs b = Inr b' \<and> offset b' \<le> k + l \<and> length (data b') = length (data b) \<and> limit b' = limit b"
  by (simp add: store_def)

lemma log_event_written:
  assumes level: "level < 128"
  shows "\<exists>b. event5 (log_fields ticks level message) (log_buffer (min (length message) MAX_STRING_LENGTH)) = Inr b \<and>
     offset b \<le> min (length message) MAX_STRING_LENGTH + 22"
proof -
  define n where "n = min (length message) MAX_STRING_LENGTH"
  have n: "n \<le> 8191" "n \<le> length message" by (simp_all add: n_def MAX_STRING_LENGTH_def)
  let ?b0 = "(log_buffer n)\<lparr>offset := 5\<rparr>"
  have d0: "offset ?b0 \<le> 5" "length (data ?b0) = n + 28" "limit ?b0 = 2 ^ 29" by (simp_all add: log_buffer_def)
  have t: "var64_loop 0 (word_of_nat (jfr_id T_LOG)) = [117]" by (simp add: var64_loop.simps var_loop.simps)
  have lv: "length (var64_loop 0 (word_of_nat level)) = 1" using level by (simp add: var64_loop.simps var_loop.simps unat_word_of_nat)
  obtain b1 where 1: "putType T_LOG ?b0 = Inr b1" "offset b1 \<le> 5 + 1" "length (data b1) = n + 28" "limit b1 = 2 ^ 29"
    using store_fits [OF d0(1), of "[117]" 1] d0(2,3) unfolding putType_def putVar64_def t by auto
  obtain b2 where 2: "putVar64 ticks b1 = Inr b2" "offset b2 \<le> 6 + 9" "length (data b2) = n + 28" "limit b2 = 2 ^ 29"
    using store_fits [of b1 6 "var64_loop 0 ticks" 9] 1 length_var64 [of ticks] unfolding putVar64_def by auto
  obtain b3 where 3: "putVar64 (word_of_nat level) b2 = Inr b3" "offset b3 \<le> 15 + 1" "length (data b3) = n + 28" "limit b3 = 2 ^ 29"
    using store_fits [of b2 15 "var64_loop 0 (word_of_nat level)" 1] 2 lv unfolding putVar64_def by auto
  obtain b4 where 4: "put8 3 b3 = Inr b4" "offset b4 \<le> 16 + 1" "length (data b4) = n + 28" "limit b4 = 2 ^ 29"
    using store_fits [of b3 16 "[3]" 1] 3 unfolding put8_def by auto
  obtain b5 where 5: "putVar32 (word_of_nat n) b4 = Inr b5" "offset b5 \<le> 17 + 5" "length (data b5) = n + 28" "limit b5 = 2 ^ 29"
    using store_fits [of b4 17 "var_loop (word_of_nat n :: u32)" 5] 4 length_var32 [of "word_of_nat n"] unfolding putVar32_def by auto
  have u: "unat (word_of_nat n :: u32) = n" by (rule unat_word_of_nat) (use n in simp)
  have "sint (word_of_nat (offset b5) + word_of_nat n :: u32) < int (limit b5)"
  proof -
    have "word_of_nat (offset b5) + word_of_nat n = (word_of_nat (offset b5 + n) :: u32)" by simp
    moreover have "sint (word_of_nat (offset b5 + n) :: u32) = int (offset b5 + n)"
      using 5(2) n by (simp only: signed_of_nat) (simp add: signed_take_bit_int_eq_self)
    ultimately show ?thesis using 5(2,4) n by simp
  qed
  then obtain b6 where 6: "Buffers.put message (word_of_nat n) b5 = Inr b6" "offset b6 \<le> 22 + n" "length (data b6) = n + 28"
    using store_fits [of b5 22 "take n message" n] 5 n unfolding Buffers.put_def u by auto
  have ul: "unat (word_of_nat (min (length message) MAX_STRING_LENGTH) :: u32) = n" using u by (simp add: n_def)
  have l: "(if n < MAX_STRING_LENGTH then word_of_nat n else word_of_nat MAX_STRING_LENGTH :: u32) = word_of_nat n" by (simp add: n_def)
  have "run_ops (log_fields ticks level message) ?b0 = Inr b6"
    unfolding log_fields_def n_def [symmetric] putUtf8_len_def u l Let_def by (simp add: 1(1) 2(1) 3(1) 4(1) 5(1) 6(1))
  moreover have "patch_size 0 b6 = Inr (b6\<lparr>data := overwrite 0 (var32_padded (word_of_nat (offset b6))) (data b6)\<rparr>)"
    by (simp add: patch_size_def putVar32_at_def 6(3))
  moreover have "skip 5 (log_buffer n) = Inr (0, ?b0)" by (simp add: skip_def log_buffer_def)
  ultimately show ?thesis using 6(2) unfolding n_def [symmetric] event5_def run_ops_append run_ops_single by simp
qed

section \<open>The recorder\<close>

text \<open>The lock is held exactly while there is no recording.\<close>

definition recorder_inv :: "flight_recorder \<Rightarrow> bool" where
  "recorder_inv fr \<longleftrightarrow>
     (case fr_rec fr of
        None \<Rightarrow> fr_lock fr = 1 \<and> tables_ok (fr_tables fr)
      | Some rc \<Rightarrow> fr_lock fr = 0 \<and> rec_inv rc)"

definition readable_file :: "u8 list \<Rightarrow> bool" where
  "readable_file f \<longleftrightarrow> (\<exists>cs. split_chunks f = Some cs \<and> list_all complete_chunk cs)"

definition ending_ok :: "chunk_end \<Rightarrow> flight_recorder \<Rightarrow> bool" where
  "ending_ok ce fr \<longleftrightarrow> end_ok ce \<and> (\<forall>rc. fr_rec fr = Some rc \<longrightarrow> source_ok (rc_pool rc) (ce_source ce))"

lemma readable_Nil: "readable_file []"
  by (simp add: readable_file_def split_chunks.simps)

lemma recorder_inv_cases:
  assumes "recorder_inv fr"
  obtains "fr_rec fr = None" "fr_lock fr = 1" "tables_ok (fr_tables fr)" | rc where "fr_rec fr = Some rc" "fr_lock fr = 0" "rec_inv rc"
  using assms by (auto simp: recorder_inv_def split: option.splits)

text \<open>Starting: the file is what is already there, or empty.\<close>

lemma start_inv:
  assumes w: "full_writes w" and fr: "recorder_inv fr" "fr_rec fr = None" and ok: "info_ok ci" "birth_ok bi" "readable_file old"
  shows "\<exists>e fr'. fr_start w ci bi (Some old) resets name args fr = Inr (e, fr') \<and> recorder_inv fr' \<and>
     (e = None \<longleftrightarrow> fr_rec fr' \<noteq> None) \<and> (e = None \<longleftrightarrow> name \<notin> {None, Some []})"
proof (cases "name \<in> {None, Some []}")
  case True
  then show ?thesis using fr by (auto simp: fr_start_def recorder_inv_def)
next
  case False
  then obtain c cs where name: "name = Some (c # cs)" by (cases name) (auto simp: neq_Nil_conv)
  have "readable_file (if resets then [] else old)" using ok(3) readable_Nil by simp
  then obtain ds where ds: "split_chunks (if resets then [] else old) = Some ds" "list_all complete_chunk ds" by (auto simp: readable_file_def)
  have t: "tables_ok (fr_tables fr)" "fr_lock fr = 1" using fr by (simp_all add: recorder_inv_def)
  from new_recording [OF w ok(1,2) t(1) ds, of args] obtain rc where
    "new_Recording w ci bi (if resets then [] else old) args (fr_tables fr) = Inr rc" "rec_inv rc" by blast
  then show ?thesis using t(2) by (simp add: fr_start_def name newRecording_def release_def unlock_def recorder_inv_def)
qed

lemma flush_inv:
  assumes w: "full_writes w" and fr: "recorder_inv fr" and ok: "ending_ok ce fr" "info_ok ci"
  shows "\<exists>fr'. fr_flush w sf ce ci fr = Inr ((), fr') \<and> ((\<forall>rc. fr_rec fr' = Some rc \<longrightarrow> rc_chunk_start rc < 2 ^ 32) \<longrightarrow> recorder_inv fr')"
  using fr
proof (cases rule: recorder_inv_cases)
  case 1
  then show ?thesis using fr by (simp add: fr_flush_def)
next
  case (2 rc)
  from switch_same_file [OF w 2(3), of ce ci sf True] ok 2(1) obtain rc' where
    "switchChunk w sf True ce ci False rc = Inr ([], rc')" "rc_chunk_start rc' < 2 ^ 32 \<longrightarrow> rec_inv rc'" by (auto simp: ending_ok_def)
  then show ?thesis using 2 by (simp add: fr_flush_def with_lock_def tryLock_def release_def unlock_def recorder_inv_def)
qed

lemma dump_inv:
  assumes w: "full_writes w" and fr: "recorder_inv fr" and ok: "ending_ok ce fr" "info_ok ci" and sf: "\<And>n. sf n = int n"
  shows "\<exists>e out fr'. fr_dump w sf True ce ci opened name len fr = Inr ((e, out), fr') \<and>
     ((\<forall>rc. fr_rec fr' = Some rc \<longrightarrow> rc_chunk_start rc < 2 ^ 32) \<longrightarrow> length out < 2 ^ 32 \<longrightarrow> recorder_inv fr' \<and> readable_file out)"
  using fr
proof (cases rule: recorder_inv_cases)
  case 1
  then show ?thesis using fr readable_Nil by (simp add: fr_dump_def)
next
  case (2 rc)
  have src: "end_ok ce" "source_ok (rc_pool rc) (ce_source ce)" using ok(1) 2(1) by (simp_all add: ending_ok_def)
  note defs = fr_dump_def with_lock_def tryLock_def release_def unlock_def recorder_inv_def
  consider "same_file name len (fr_filename fr)" | "\<not> same_file name len (fr_filename fr)" "opened" | "\<not> same_file name len (fr_filename fr)" "\<not> opened" by blast
  then show ?thesis
  proof cases
    case 1
    then show ?thesis using 2 readable_Nil by (simp add: defs)
  next
    case other: 2
    from switch_to_file [OF w 2(3) src ok(2) sf] obtain rc' c where
      "switchChunk w sf True ce ci True rc = Inr (take (rc_chunk_start rc) (rc_file rc) @ c, rc')" "rec_inv rc'"
      "rc_chunk_start rc + length c < 2 ^ 32 \<longrightarrow> complete_chunk c \<and>
        split_chunks (take (rc_chunk_start rc) (rc_file rc) @ c) = map_option (\<lambda>cs. cs @ [c]) (recorded_chunks rc)" by blast
    moreover have "rc_chunk_start rc \<le> length (rc_file rc)" "\<exists>cs. recorded_chunks rc = Some cs \<and> list_all complete_chunk cs"
      using 2(3) by (simp_all add: rec_inv_def open_chunk_def)
    ultimately show ?thesis using 2 other by (auto simp: defs readable_file_def)
  next
    case 3
    from switch_same_file [OF w 2(3) src ok(2), of sf True] obtain rc' where
      "switchChunk w sf True ce ci False rc = Inr ([], rc')" "rc_chunk_start rc' < 2 ^ 32 \<longrightarrow> rec_inv rc'" by auto
    then show ?thesis using 2 3 readable_Nil by (simp add: defs)
  qed
qed

lemma stop_inv:
  assumes w: "full_writes w" and fr: "recorder_inv fr" and ok: "ending_ok ce fr"
  shows "\<exists>f fr'. fr_stop w ce fr = Inr (f, fr') \<and> recorder_inv fr' \<and> fr_rec fr' = None \<and>
     (\<forall>bs. f = Some bs \<longrightarrow> length bs < 2 ^ 32 \<longrightarrow> readable_file bs)"
  using fr
proof (cases rule: recorder_inv_cases)
  case 1
  then show ?thesis using fr by (simp add: fr_stop_def)
next
  case (2 rc)
  let ?st = "rc_chunk_start rc"
  have src: "end_ok ce" "source_ok (rc_pool rc) (ce_source ce)" using ok 2(1) by (simp_all add: ending_ok_def)
  from finish_chunk [OF w 2(3) src, of True] obtain rc1 where
    f: "finishChunk w ce True rc = Inr (length (rc_file rc1), rc1)" "take ?st (rc_file rc1) = take ?st (rc_file rc)"
      "length (rc_file rc1) < 2 ^ 32 \<longrightarrow> complete_chunk (drop ?st (rc_file rc1))" "failures_ok (rc_failures rc1)"
      "pool_inv (rt_tid (rc_times rc1)) (rc_pool rc1)" by blast
  have n: "rc_file rc1 = take ?st (rc_file rc) @ drop ?st (rc_file rc1)" using append_take_drop_id [of ?st "rc_file rc1"] unfolding f(2) by simp
  obtain cs where cs: "split_chunks (take ?st (rc_file rc)) = Some cs" "list_all complete_chunk cs"
    using 2(3) by (auto simp: rec_inv_def recorded_chunks_def)
  have "readable_file (rc_file rc1)" if "length (rc_file rc1) < 2 ^ 32"
  proof -
    have c: "complete_chunk (drop ?st (rc_file rc1))" using f(3) that by blast
    from split_append [OF cs(1) this] n have "split_chunks (rc_file rc1) = Some (cs @ [drop ?st (rc_file rc1)])" by simp
    then show ?thesis using cs(2) c by (simp add: readable_file_def)
  qed
  moreover have "tables_ok (rc_pool rc1, rc_failures rc1)" using f(4,5) by (simp add: tables_ok_def pool_inv_def)
  ultimately show ?thesis using 2 f(1) by (simp add: fr_stop_def with_lock_def tryLock_def recorder_inv_def)
qed

text \<open>The events of the engines.\<close>

lemma on_recording_inv:
  assumes fr: "recorder_inv fr" and op: "\<And>rc. fr_rec fr = Some rc \<Longrightarrow> rec_inv rc \<Longrightarrow> \<exists>rc'. op rc = Inr rc' \<and> rec_inv rc'"
  shows "\<exists>fr'. on_recording op fr = Inr ((), fr') \<and> recorder_inv fr'"
  using fr
proof (cases rule: recorder_inv_cases)
  case 1
  then show ?thesis using fr by (simp add: on_recording_def)
next
  case (2 rc)
  with op obtain rc' where "op rc = Inr rc'" "rec_inv rc'" by blast
  then show ?thesis using 2 by (simp add: on_recording_def recorder_inv_def)
qed

lemma measurement_inv:
  assumes w: "full_writes w" and i: "i < CONCURRENCY_LEVEL" and fr: "recorder_inv fr" and op: "event_op 254 (profiler_schema k True) t vs op"
  shows "\<exists>fr'. on_recording (at_buf i (write_event w op)) fr = Inr ((), fr') \<and> recorder_inv fr'"
proof (rule on_recording_inv [OF fr])
  fix rc assume rc: "rec_inv rc"
  have "254 \<le> ROOM" by (simp add: ROOM_eq)
  from recorded_inv [OF rc i event_op_recorded [OF op this w] write_event_grows [of w op]] show "\<exists>rc'. at_buf i (write_event w op) rc = Inr rc' \<and> rec_inv rc'" by auto
qed

lemma record_event_inv:
  assumes w: "full_writes w" and fr: "recorder_inv fr" and ok: "\<And>rc. fr_rec fr = Some rc \<Longrightarrow> sample_fits cc i tid ev rc"
  shows "\<exists>fr'. recordEvent w True cc i tid ctid ev fr = Inr ((), fr') \<and> recorder_inv fr'"
  unfolding recordEvent_def
proof (rule on_recording_inv [OF fr])
  fix rc assume "fr_rec fr = Some rc" "rec_inv rc"
  from sample_inv [OF w this(2) ok [OF this(1)], of ctid]
  show "\<exists>rc'. run_ops [at_buf i (record_sample w cc tid ctid ev), addThread True tid] rc = Inr rc' \<and> rec_inv rc'" by blast
qed

lemma log_inv:
  assumes fr: "recorder_inv fr" and level: "level < 128"
  shows "\<exists>fr'. recordLog w ticks level message fr = Inr ((), fr') \<and> recorder_inv fr'"
  using fr
proof (cases rule: recorder_inv_cases)
  case 1
  then show ?thesis using fr by (simp add: recordLog_def tryLockShared_def)
next
  case (2 rc)
  from log_event_written [OF level, of ticks message] obtain b where
    b: "event5 (log_fields ticks level message) (log_buffer (min (length message) MAX_STRING_LENGTH)) = Inr b" by blast
  let ?s = "flush_sink w \<lparr>sk_buf = b, sk_file = rc_file rc, sk_written = rc_written rc\<rparr>"
  have "\<exists>bs. sk_file ?s = rc_file rc @ bs" by (simp add: flush_sink_def Let_def)
  then have "rec_inv (rc\<lparr>rc_file := sk_file ?s, rc_written := sk_written ?s\<rparr>)"
    using 2(3) begun_append by (auto simp: rec_inv_def rec_ready_def open_chunk_def recorded_chunks_def)
  then show ?thesis using 2 b by (simp add: recordLog_def tryLockShared_def unlockShared_def Let_def recorder_inv_def)
qed

section \<open>Runs of the recorder\<close>

text \<open>
  What happens to a recorder, and the files it has handed out: those of \<^verbatim>\<open>dump\<close> and of \<^verbatim>\<open>stop\<close>. A recording is started only
  when there is none and its file can be opened, as \<^verbatim>\<open>Profiler::start\<close> does; the offset of a chunk is below four gigabytes.
\<close>

inductive recorder_run :: "os_write \<Rightarrow> flight_recorder \<Rightarrow> u8 list list \<Rightarrow> bool" for w where
  run_new: "tables_ok tb \<Longrightarrow> recorder_run w (new_FlightRecorder args tb) []"
| run_start: "recorder_run w fr outs \<Longrightarrow> fr_rec fr = None \<Longrightarrow> info_ok ci \<Longrightarrow> birth_ok bi \<Longrightarrow> readable_file old \<Longrightarrow>
    fr_start w ci bi (Some old) resets name args fr = Inr (e, fr') \<Longrightarrow> recorder_run w fr' outs"
| run_sample: "recorder_run w fr outs \<Longrightarrow> (\<And>rc. fr_rec fr = Some rc \<Longrightarrow> sample_fits cc i tid ev rc) \<Longrightarrow>
    recordEvent w True cc i tid ctid ev fr = Inr ((), fr') \<Longrightarrow> recorder_run w fr' outs"
| run_epoch: "recorder_run w fr outs \<Longrightarrow> i < CONCURRENCY_LEVEL \<Longrightarrow> wallClockEpoch w i ep fr = Inr ((), fr') \<Longrightarrow> recorder_run w fr' outs"
| run_trace_root: "recorder_run w fr outs \<Longrightarrow> i < CONCURRENCY_LEVEL \<Longrightarrow> fr_recordTraceRoot w ticks i tid tr fr = Inr ((), fr') \<Longrightarrow> recorder_run w fr' outs"
| run_queue_time: "recorder_run w fr outs \<Longrightarrow> i < CONCURRENCY_LEVEL \<Longrightarrow> n \<le> length (tags c) \<Longrightarrow> n \<le> 10 \<Longrightarrow>
    fr_recordQueueTime w n c i tid q fr = Inr ((), fr') \<Longrightarrow> recorder_run w fr' outs"
| run_heap_usage: "recorder_run w fr outs \<Longrightarrow> i < CONCURRENCY_LEVEL \<Longrightarrow> recordHeapUsage w ticks i v live fr = Inr ((), fr') \<Longrightarrow> recorder_run w fr' outs"
| run_log: "recorder_run w fr outs \<Longrightarrow> level < 128 \<Longrightarrow> recordLog w ticks level message fr = Inr ((), fr') \<Longrightarrow> recorder_run w fr' outs"
| run_flush: "recorder_run w fr outs \<Longrightarrow> ending_ok ce fr \<Longrightarrow> info_ok ci \<Longrightarrow> fr_flush w sf ce ci fr = Inr ((), fr') \<Longrightarrow>
    (\<And>rc. fr_rec fr' = Some rc \<Longrightarrow> rc_chunk_start rc < 2 ^ 32) \<Longrightarrow> recorder_run w fr' outs"
| run_dump: "recorder_run w fr outs \<Longrightarrow> ending_ok ce fr \<Longrightarrow> info_ok ci \<Longrightarrow> (\<And>n. sf n = int n) \<Longrightarrow>
    fr_dump w sf True ce ci opened name len fr = Inr ((e, out), fr') \<Longrightarrow> length out < 2 ^ 32 \<Longrightarrow>
    (\<And>rc. fr_rec fr' = Some rc \<Longrightarrow> rc_chunk_start rc < 2 ^ 32) \<Longrightarrow> recorder_run w fr' (outs @ [out])"
| run_stop: "recorder_run w fr outs \<Longrightarrow> ending_ok ce fr \<Longrightarrow> fr_stop w ce fr = Inr (f, fr') \<Longrightarrow> (\<And>bs. f = Some bs \<Longrightarrow> length bs < 2 ^ 32) \<Longrightarrow>
    recorder_run w fr' (outs @ (case f of None \<Rightarrow> [] | Some bs \<Rightarrow> [bs]))"

lemma run_inv:
  assumes "recorder_run w fr outs" and w: "full_writes w"
  shows "recorder_inv fr \<and> list_all readable_file outs"
  using assms(1)
proof induction
  case (run_new tb args)
  then show ?case by (simp add: new_FlightRecorder_def recorder_inv_def)
next
  case (run_start fr outs ci bi old resets name args e fr')
  then show ?case using start_inv [OF w, of fr ci bi old resets name args] by auto
next
  case (run_sample fr outs cc i tid ev ctid fr')
  then show ?case using record_event_inv [OF w, of fr cc i tid ev ctid] by auto
next
  case (run_epoch fr outs i ep fr')
  then show ?case using measurement_inv [OF w _ _ wall_clock_epoch_op, of i fr ep] by (auto simp: wallClockEpoch_def)
next
  case (run_trace_root fr outs i ticks tid tr fr')
  then show ?case using measurement_inv [OF w _ _ trace_root_op, of i fr ticks tid tr] by (auto simp: fr_recordTraceRoot_def)
next
  case (run_queue_time fr outs i n c tid q fr')
  then show ?case using measurement_inv [OF w _ _ queue_time_op, of i fr n c tid q] by (auto simp: fr_recordQueueTime_def)
next
  case (run_heap_usage fr outs i ticks v live fr')
  then show ?case using measurement_inv [OF w _ _ heap_usage_op, of i fr ticks v live] by (auto simp: recordHeapUsage_def)
next
  case (run_log fr outs level ticks message fr')
  then show ?case using log_inv [of fr level w ticks message] by auto
next
  case (run_flush fr outs ce ci sf fr')
  then show ?case using flush_inv [OF w, of fr ce ci sf] by auto
next
  case (run_dump fr outs ce ci sf opened name len e out fr')
  then show ?case using dump_inv [OF w, of fr ce ci sf opened name len] by auto
next
  case (run_stop fr outs ce f fr')
  then show ?case using stop_inv [OF w, of fr ce] by (auto split: option.splits)
qed

section \<open>Properties\<close>

text \<open>A recorder to apply the properties to.\<close>

definition demo_info :: chunk_info where
  "demo_info = \<lparr>ci_metadata = demo_metadata, ci_settings = demo_settings, ci_uname = None, ci_cpu = None, ci_agent_props = None, ci_jvm_name = None,
     ci_jvm_version = None, ci_process_start = 0, ci_process_id = 1, ci_system_props = None, ci_libs = [], ci_tsc_frequency = 1000000000\<rparr>"

definition demo_birth :: birth where
  "demo_birth = \<lparr>bi_micros = 1000, bi_ticks = 5, bi_tid = 12, bi_processors = 4, bi_max_thread_id = 131072, bi_junk = []\<rparr>"

definition demo_tables :: "pool_state \<times> failure_state" where
  "demo_tables = (\<lparr>ps_filter = fst (new_ThreadFilter 131072 counters_init), ps_info = new_ThreadInfo, ps_methods = [],
     ps_classes = fst (new_dictionary 0 counters_init), ps_counters = counters_init\<rparr>, (new_UnwindFailures, 0, new_UnwindFailures))"

definition demo_end :: chunk_end where
  "demo_end = \<lparr>ce_libs = [], ce_record_allocations = True, ce_record_liveness = False, ce_interval = 524288, ce_table_cap = 0, ce_table_max_cap = 0,
     ce_cpu_interval = 10000000, ce_wall_interval = 0, ce_percent = 0, ce_gc_generations = False, ce_event_mask = 1, ce_cpu_engine = ''PerfEvents'',
     ce_version = ''1.0'', ce_v14 = True, ce_stop_time = 2000, ce_stop_ticks = 9, ce_tsc_frequency = 1000000000,
     ce_source = \<lparr>pl_grant = True, pl_env = demo_env\<lparr>vm_class_signature := \<lambda>_. None\<rparr>, pl_traces = [(5, demo_trace)],
       pl_labels = fst (new_dictionary 0 counters_init), pl_values = fst (new_dictionary 0 counters_init), pl_base_id = 0\<rparr>\<rparr>"

definition demo_recorder :: flight_recorder where
  "demo_recorder = new_FlightRecorder (new_Arguments True) demo_tables"

lemma demo_recorder_ok: "info_ok demo_info" "birth_ok demo_birth" "tables_ok demo_tables" "end_ok demo_end" "recorder_inv demo_recorder" "fr_rec demo_recorder = None"
proof -
  have "usual_attributes [''user'', ''tenant'']" by (simp add: usual_attributes_def)
  then show "info_ok demo_info" unfolding info_ok_def by (auto simp: demo_info_def demo_metadata_def)
  show "birth_ok demo_birth" "end_ok demo_end" by (simp_all add: birth_ok_def demo_birth_def end_ok_def demo_end_def)
  have "forEach new_UnwindFailures = Inr []" by (simp add: forEach_def new_UnwindFailures_def entries_def)
  then show t: "tables_ok demo_tables" by (simp add: tables_ok_def demo_tables_def failures_ok_def dict_holds_new)
  then show "recorder_inv demo_recorder" "fr_rec demo_recorder = None" by (simp_all add: recorder_inv_def demo_recorder_def new_FlightRecorder_def)
qed

lemma demo_recording:
  obtains rc where "new_Recording int demo_info demo_birth [] (new_Arguments True) demo_tables = Inr rc" "rec_inv rc" "source_ok (rc_pool rc) (ce_source demo_end)"
    "recorded_chunks rc = Some []"
proof -
  have e: "split_chunks [] = Some []" by (simp add: split_chunks.simps)
  from new_recording [OF demo_ready(2) demo_recorder_ok(1,2,3) e, of "new_Arguments True"] obtain rc where
    rc: "new_Recording int demo_info demo_birth [] (new_Arguments True) demo_tables = Inr rc" "rec_inv rc" "recorded_chunks rc = Some []" "ps_methods (rc_pool rc) = []"
    by auto
  then have "source_ok (rc_pool rc) (ce_source demo_end)"
    by (simp add: source_ok_def demo_end_def env_classes_ok_def resolutions_def demo_trace_def demo_frames_def)
  with rc that show ?thesis by blast
qed

text \<open>
  C2. Ending a chunk succeeds and loses nothing: what earlier chunks hold is unchanged, everything that was written of this chunk
  after its header stays, and is followed by the load of the processor, the events of all buffers in their order, and the
  constant pool; the buffers are empty afterwards. As long as the file has less than four gigabytes the chunk is complete for a
  reader: its header gives its true size and the true offset of a constant pool that reaches to the end of the chunk, and its
  metadata can be read.
\<close>

theorem chunk_finished:
  assumes "full_writes w" and "rec_inv rc" and "end_ok ce" and "source_ok (rc_pool rc) (ce_source ce)"
  shows "\<exists>rc' mid cpool. finishChunk w ce e rc = Inr (length (rc_file rc'), rc') \<and>
     take (rc_chunk_start rc) (rc_file rc') = take (rc_chunk_start rc) (rc_file rc) \<and>
     drop (rc_chunk_start rc + 64) (rc_file rc') =
       drop (rc_chunk_start rc + 64) (rc_file rc) @ contents (rc_cpu_buf rc) @ contents (rc_bufs rc ! 0) @ mid @
       concat (map contents (tl (rc_bufs rc))) @ cpool \<and>
     (\<forall>b\<in>set (rc_bufs rc'). offset b = 0) \<and>
     (length (rc_file rc') < 2 ^ 32 \<longrightarrow> complete_chunk (drop (rc_chunk_start rc) (rc_file rc')))"
  using finish_chunk [OF assms, of e] by (fastforce simp: drained_def pending_def)

theorem chunk_finished_witness:
  "\<exists>rc rc'. new_Recording int demo_info demo_birth [] (new_Arguments True) demo_tables = Inr rc \<and>
     finishChunk int demo_end True rc = Inr (length (rc_file rc'), rc') \<and>
     (length (rc_file rc') < 2 ^ 32 \<longrightarrow> complete_chunk (drop (rc_chunk_start rc) (rc_file rc')))"
proof -
  obtain rc where rc: "new_Recording int demo_info demo_birth [] (new_Arguments True) demo_tables = Inr rc" "rec_inv rc"
    "source_ok (rc_pool rc) (ce_source demo_end)" by (rule demo_recording)
  from chunk_finished [OF demo_ready(2) rc(2) demo_recorder_ok(4) rc(3), of True] rc(1) show ?thesis by blast
qed

text \<open>
  C25. Flushing a recording ends exactly one chunk: the chunks before stay as they are, one complete chunk is added to them, and
  the recording goes on in the same file with a new chunk that begins where the last one ended, in place and in time. The
  identifiers in the constant pool of the new chunk start \<^verbatim>\<open>0x1000000\<close> above those of the last.
\<close>

theorem flush_adds_chunk:
  assumes "full_writes w" and "rec_inv rc" and "end_ok ce" and "source_ok (rc_pool rc) (ce_source ce)" and "info_ok ci"
  shows "\<exists>rc' c. switchChunk w sf truncates ce ci False rc = Inr ([], rc') \<and> rc_base_id rc' = rc_base_id rc + 0x1000000 \<and>
     rt_start_time (rc_times rc') = ce_stop_time ce \<and> rc_chunk_start rc' = rc_chunk_start rc + length c \<and>
     (rc_chunk_start rc' < 2 ^ 32 \<longrightarrow>
        rec_inv rc' \<and> complete_chunk c \<and> recorded_chunks rc' = map_option (\<lambda>cs. cs @ [c]) (recorded_chunks rc))"
  using switch_same_file [OF assms, of sf truncates] by blast

theorem flush_adds_chunk_witness:
  "\<exists>rc rc' c. new_Recording int demo_info demo_birth [] (new_Arguments True) demo_tables = Inr rc \<and>
     switchChunk int int True demo_end demo_info False rc = Inr ([], rc') \<and>
     (rc_chunk_start rc' < 2 ^ 32 \<longrightarrow> complete_chunk c \<and> recorded_chunks rc' = Some [c])"
proof -
  obtain rc where rc: "new_Recording int demo_info demo_birth [] (new_Arguments True) demo_tables = Inr rc" "rec_inv rc"
    "source_ok (rc_pool rc) (ce_source demo_end)" "recorded_chunks rc = Some []" by (rule demo_recording)
  from flush_adds_chunk [OF demo_ready(2) rc(2) demo_recorder_ok(4) rc(3) demo_recorder_ok(1), of int True] rc(1,4) show ?thesis by auto
qed

lemma split_chunks_concat: "split_chunks f = Some cs \<Longrightarrow> concat cs = f"
proof (induction f arbitrary: cs rule: split_chunks.induct)
  case (1 f)
  then show ?case by (subst (asm) (2) split_chunks.simps) (auto split: if_splits option.splits)
qed


lemma demo_started:
  obtains rc fr where "fr_start int demo_info demo_birth (Some []) True (Some ''a.jfr'') (new_Arguments True) demo_recorder = Inr (None, fr)" "fr_rec fr = Some rc"
    "new_Recording int demo_info demo_birth [] (new_Arguments True) demo_tables = Inr rc" "rec_inv rc" "ending_ok demo_end fr" "recorder_inv fr"
    "recorder_run int fr []"
proof -
  obtain rc where rc: "new_Recording int demo_info demo_birth [] (new_Arguments True) demo_tables = Inr rc" "rec_inv rc"
    "source_ok (rc_pool rc) (ce_source demo_end)" by (rule demo_recording)
  let ?fr = "demo_recorder\<lparr>fr_filename := ''a.jfr'', fr_args := new_Arguments True, fr_rec := Some rc, fr_lock := 0\<rparr>"
  have s: "fr_start int demo_info demo_birth (Some []) True (Some ''a.jfr'') (new_Arguments True) demo_recorder = Inr (None, ?fr)"
    using rc(1) by (simp add: fr_start_def newRecording_def demo_recorder_def new_FlightRecorder_def release_def unlock_def)
  have "recorder_run int demo_recorder []" unfolding demo_recorder_def by (rule run_new [OF demo_recorder_ok(3)])
  from run_start [OF this demo_recorder_ok(6) demo_recorder_ok(1,2) readable_Nil s]
  show ?thesis using s rc demo_recorder_ok(4) by (intro that) (simp_all add: ending_ok_def recorder_inv_def)
qed




text \<open>
  C35. The memory that a log message gets on the stack is enough for any message: of its \<^verbatim>\<open>len + 40\<close> bytes the twelve of the header of
  the buffer and the event are all that is used, since the event takes at most \<^verbatim>\<open>len + 22\<close> bytes, with \<^verbatim>\<open>len\<close> cut to \<^verbatim>\<open>MAX_STRING_LENGTH\<close>.
\<close>

theorem log_event_fits:
  assumes "level < 128"
  shows "\<exists>b. event5 (log_fields ticks level message) (log_buffer (min (length message) MAX_STRING_LENGTH)) = Inr b \<and>
     offset b + 12 \<le> min (length message) MAX_STRING_LENGTH + 40"
  using log_event_written [OF assms, of ticks message] by fastforce

theorem log_event_fits_witness:
  "\<exists>b. event5 (log_fields 0xffffffffffffffff 3 (replicate 9000 65)) (log_buffer (min (length (replicate 9000 (65 :: u8))) MAX_STRING_LENGTH)) = Inr b \<and>
     offset b + 12 \<le> min (length (replicate 9000 (65 :: u8))) MAX_STRING_LENGTH + 40"
  by (rule log_event_fits) simp

text \<open>
  C36. A dump whose file cannot be opened does the same as a flush, and reports success: \<^verbatim>\<open>dump\<close> passes the descriptor -1 on to
  \<^verbatim>\<open>switchChunk\<close>, which takes it for a flush.
\<close>

theorem dump_unopened_is_flush:
  assumes "full_writes w" and "recorder_inv fr" and "fr_rec fr = Some rc" and "ending_ok ce fr" and "info_ok ci" and "\<not> same_file name len (fr_filename fr)"
  shows "\<exists>fr'. fr_dump w sf True ce ci False name len fr = Inr ((None, []), fr') \<and> fr_flush w sf ce ci fr = Inr ((), fr')"
proof -
  have rc: "rec_inv rc" "fr_lock fr = 0" using assms(2,3) by (simp_all add: recorder_inv_def)
  have src: "end_ok ce" "source_ok (rc_pool rc) (ce_source ce)" using assms(3,4) by (simp_all add: ending_ok_def)
  from switch_same_file [OF assms(1) rc(1) src assms(5), of sf True] obtain rc' where "switchChunk w sf True ce ci False rc = Inr ([], rc')" by blast
  then show ?thesis using assms(3,6) rc(2) by (simp add: fr_dump_def fr_flush_def with_lock_def tryLock_def)
qed

theorem dump_unopened_is_flush_witness:
  "\<exists>fr fr'. fr_start int demo_info demo_birth (Some []) True (Some ''a.jfr'') (new_Arguments True) demo_recorder = Inr (None, fr) \<and>
     fr_dump int int True demo_end demo_info False ''b.jfr'' 5 fr = Inr ((None, []), fr') \<and> fr_flush int int demo_end demo_info fr = Inr ((), fr')"
proof -
  obtain rc fr where fr: "fr_start int demo_info demo_birth (Some []) True (Some ''a.jfr'') (new_Arguments True) demo_recorder = Inr (None, fr)"
    "fr_rec fr = Some rc" "ending_ok demo_end fr" "recorder_inv fr" by (rule demo_started)
  have "fr_filename fr = ''a.jfr''"
    using fr(1) by (auto simp: fr_start_def newRecording_def release_def split: sum.splits)
  then have "\<not> same_file ''b.jfr'' 5 (fr_filename fr)" by (simp add: same_file_def)
  from dump_unopened_is_flush [OF demo_ready(2) fr(4,2,3) demo_recorder_ok(1) this, of int] fr(1) show ?thesis by blast
qed

text \<open>
  C26. A start that cannot open its file ruins the recorder, because \<^verbatim>\<open>start\<close> releases the lock whether there is a recording or not:
  the next log message dereferences the missing recording, and when a recording is started later on, the lock is left as if a
  reader held it, so that flushing, dumping and stopping all wait for ever.
\<close>

theorem failed_start_ruins_recorder:
  assumes "full_writes w" and "recorder_inv fr" and "fr_rec fr = None" and "info_ok ci" and "birth_ok bi" and "level < 128"
  shows "\<exists>fr1 fr2. fr_start w ci bi None resets (Some (c # cs)) args fr = Inr (Some ''Could not open Flight Recorder output file'', fr1) \<and>
     recordLog w ticks level message fr1 = Inl NullPointer \<and>
     fr_start w ci bi (Some []) resets (Some (c # cs)) args fr1 = Inr (None, fr2) \<and>
     fr_flush w sf ce ci fr2 = Inl WaitsForever \<and> fr_dump w sf truncates ce ci opened name len fr2 = Inl WaitsForever \<and>
     fr_stop w ce fr2 = Inl WaitsForever"
proof -
  let ?fr1 = "fr\<lparr>fr_filename := c # cs, fr_args := args, fr_lock := 0\<rparr>"
  have fr: "fr_lock fr = 1" "tables_ok (fr_tables fr)" using assms(2,3) by (simp_all add: recorder_inv_def)
  have e: "split_chunks [] = Some []" by (simp add: split_chunks.simps)
  from new_recording [OF assms(1,4,5) fr(2) e, of args] obtain rc where rc: "new_Recording w ci bi [] args (fr_tables fr) = Inr rc" by auto
  let ?fr2 = "fr\<lparr>fr_filename := c # cs, fr_args := args, fr_rec := Some rc, fr_lock := - 1\<rparr>"
  have "fr_start w ci bi None resets (Some (c # cs)) args fr = Inr (Some ''Could not open Flight Recorder output file'', ?fr1)"
    using fr(1) by (simp add: fr_start_def newRecording_def release_def unlock_def)
  moreover have "recordLog w ticks level message ?fr1 = Inl NullPointer"
    using log_event_written [OF assms(6), of ticks message] assms(3) by (auto simp: recordLog_def tryLockShared_def)
  moreover have "fr_start w ci bi (Some []) resets (Some (c # cs)) args ?fr1 = Inr (None, ?fr2)"
    using rc by (simp add: fr_start_def newRecording_def release_def unlock_def)
  moreover have "fr_flush w sf ce ci ?fr2 = Inl WaitsForever" "fr_dump w sf truncates ce ci opened name len ?fr2 = Inl WaitsForever"
    "fr_stop w ce ?fr2 = Inl WaitsForever" by (simp_all add: fr_flush_def fr_dump_def fr_stop_def with_lock_def tryLock_def)
  ultimately show ?thesis by blast
qed

theorem failed_start_ruins_recorder_witness:
  "\<exists>fr1 fr2. fr_start int demo_info demo_birth None True (Some ''/x/a.jfr'') (new_Arguments True) demo_recorder =
       Inr (Some ''Could not open Flight Recorder output file'', fr1) \<and>
     recordLog int 7 4 (cbytes ''error'') fr1 = Inl NullPointer \<and>
     fr_start int demo_info demo_birth (Some []) True (Some ''/x/a.jfr'') (new_Arguments True) fr1 = Inr (None, fr2) \<and>
     fr_stop int demo_end fr2 = Inl WaitsForever"
  using failed_start_ruins_recorder [OF demo_ready(2) demo_recorder_ok(5,6,1,2), of 4 True "CHR ''/''" "''x/a.jfr''" "new_Arguments True" 7 "cbytes ''error''" int demo_end True True "[]" 0]
  by auto

end
