(* ===== verification/Dwarf.thy ===== *)
theory Dwarf
  imports Prelude Buffers
begin

text \<open>
  Model of \<^verbatim>\<open>dwarf.h\<close> and \<^verbatim>\<open>dwarf.cpp\<close> for x86-64: the parser that turns the \<^verbatim>\<open>.eh_frame_hdr\<close> and
  \<^verbatim>\<open>.eh_frame\<close> sections of a library into a table of frame descriptions.

  The mapped image is a list of bytes and a pointer is an offset into it; reading outside is the error
  \<open>Bad_Read\<close>, a shift by 32 or more is \<open>Shift_Overflow\<close>, a failed \<^verbatim>\<open>assert\<close> is \<open>Assertion_Failed\<close>. The
  \<^verbatim>\<open>int\<close> fields of a frame description are 32-bit words read as two's complement. \<^verbatim>\<open>_ptr += getLeb()\<close>
  evaluates the call first. The size of an instruction comes from a header outside the repository and is a
  parameter, as is whether \<^verbatim>\<open>realloc\<close> succeeds for a given capacity.

  The loops of \<^verbatim>\<open>parseInstructions\<close> and \<^verbatim>\<open>parseExpression\<close> carry fuel, the distance to their end; since
  every round consumes a byte, that is enough, and no parse ends with \<open>Out_Of_Fuel\<close>.
\<close>

section \<open>Constants and data\<close>

definition DW_REG_PLT :: u32 where "DW_REG_PLT = 128"
definition DW_REG_INVALID :: u32 where "DW_REG_INVALID = 255"
definition DW_PC_OFFSET :: u32 where "DW_PC_OFFSET = 1"
definition DW_SAME_FP :: u32 where "DW_SAME_FP = 0x80000000"
definition DW_STACK_SLOT :: u32 where "DW_STACK_SLOT = 8"
definition DW_REG_FP :: u32 where "DW_REG_FP = 6"
definition DW_REG_SP :: u32 where "DW_REG_SP = 7"
definition DW_REG_PC :: u32 where "DW_REG_PC = 16"
definition EMPTY_FRAME_SIZE :: u32 where "EMPTY_FRAME_SIZE = DW_STACK_SLOT"
definition LINKED_FRAME_SIZE :: u32 where "LINKED_FRAME_SIZE = 2 * DW_STACK_SLOT"
definition LINKED_FRAME_CLANG_SIZE :: u32 where "LINKED_FRAME_CLANG_SIZE = LINKED_FRAME_SIZE"

lemmas dw_consts = DW_REG_PLT_def DW_REG_INVALID_def DW_PC_OFFSET_def DW_SAME_FP_def DW_STACK_SLOT_def
  DW_REG_FP_def DW_REG_SP_def DW_REG_PC_def EMPTY_FRAME_SIZE_def LINKED_FRAME_SIZE_def LINKED_FRAME_CLANG_SIZE_def

record frame_desc =
  fd_loc :: u32
  fd_cfa :: u32
  fd_fp_off :: u32
  fd_pc_off :: u32

definition empty_frame :: frame_desc where
  "empty_frame = \<lparr>fd_loc = 0, fd_cfa = DW_REG_SP OR push_bit 8 EMPTY_FRAME_SIZE, fd_fp_off = DW_SAME_FP,
                  fd_pc_off = - EMPTY_FRAME_SIZE\<rparr>"

definition default_frame :: frame_desc where
  "default_frame = \<lparr>fd_loc = 0, fd_cfa = DW_REG_FP OR push_bit 8 LINKED_FRAME_SIZE, fd_fp_off = - LINKED_FRAME_SIZE,
                    fd_pc_off = - LINKED_FRAME_SIZE + DW_STACK_SLOT\<rparr>"

definition default_clang_frame :: frame_desc where
  "default_clang_frame = \<lparr>fd_loc = 0, fd_cfa = DW_REG_FP OR push_bit 8 LINKED_FRAME_CLANG_SIZE,
                          fd_fp_off = - LINKED_FRAME_CLANG_SIZE, fd_pc_off = - LINKED_FRAME_CLANG_SIZE + DW_STACK_SLOT\<rparr>"

definition fd_comparator :: "frame_desc \<Rightarrow> frame_desc \<Rightarrow> int" where
  "fd_comparator f1 f2 = sint (fd_loc f1 - fd_loc f2)"

datatype dwarf_error = Bad_Read | Shift_Overflow | Assertion_Failed | Out_Of_Fuel

text \<open>The growing table; \<open>prev\<close> is the index of the entry \<^verbatim>\<open>_prev\<close> points to.\<close>

record frame_table =
  capacity :: nat
  count :: nat
  table :: "frame_desc list"
  prev :: "nat option"

text \<open>The four rule registers of \<^verbatim>\<open>parseInstructions\<close>.\<close>

record cfi =
  cfa_reg :: u32
  cfa_off :: u32
  fp_off :: u32
  pc_off :: u32

section \<open>Recording a row\<close>

definition addRecordRaw ::
  "(nat \<Rightarrow> bool) \<Rightarrow> u32 \<Rightarrow> u32 \<Rightarrow> u32 \<Rightarrow> u32 \<Rightarrow> frame_table \<Rightarrow> nat option \<times> frame_table" where
  "addRecordRaw realloc_ok loc cfa fp pc t =
     (if count t \<ge> capacity t \<and> \<not> realloc_ok (capacity t) then (None, t)
      else
        (let cap = (if count t \<ge> capacity t then capacity t * 2 else capacity t);
             f = \<lparr>fd_loc = loc, fd_cfa = cfa, fd_fp_off = fp, fd_pc_off = pc\<rparr>
         in (Some (count t), t\<lparr>capacity := cap, count := Suc (count t), table := take (count t) (table t) @ [f]\<rparr>)))"

definition pack_cfa :: "u32 \<Rightarrow> u32 \<Rightarrow> u32" where
  "pack_cfa reg off = push_bit 8 off OR (reg AND 0xff)"

definition addRecord :: "(nat \<Rightarrow> bool) \<Rightarrow> u32 \<Rightarrow> cfi \<Rightarrow> frame_table \<Rightarrow> dwarf_error + frame_table" where
  "addRecord realloc_ok loc r t =
     (if \<not> (cfa_reg r \<le> 0xff) \<or> \<not> (-8388608 \<le> sint (cfa_off r) \<and> sint (cfa_off r) \<le> 8388607)
      then Inl Assertion_Failed
      else
        (let cfa = pack_cfa (cfa_reg r) (cfa_off r);
             raw = (\<lambda>t. case addRecordRaw realloc_ok loc cfa (fp_off r) (pc_off r) t of (p, t1) \<Rightarrow> Inr (t1\<lparr>prev := p\<rparr>))
         in case prev t of
              None \<Rightarrow> raw t
            | Some i \<Rightarrow>
                (let f = table t ! i in
                 if fd_loc f = loc then raw (t\<lparr>count := count t - 1\<rparr>)
                 else if fd_cfa f \<noteq> cfa \<or> fd_fp_off f \<noteq> fp_off r \<or> fd_pc_off f \<noteq> pc_off r then raw t
                 else Inr t)))"

section \<open>Reading\<close>

type_synonym 'a reader = "int \<Rightarrow> dwarf_error + 'a \<times> int"

definition byte_at :: "u8 list \<Rightarrow> int \<Rightarrow> dwarf_error + u8" where
  "byte_at mem p = (if 0 \<le> p \<and> nat p < length mem then Inr (mem ! nat p) else Inl Bad_Read)"

definition get8 :: "u8 list \<Rightarrow> u8 reader" where
  "get8 mem p = (case byte_at mem p of Inl e \<Rightarrow> Inl e | Inr b \<Rightarrow> Inr (b, p + 1))"

definition get16 :: "u8 list \<Rightarrow> u16 reader" where
  "get16 mem p =
     (case (byte_at mem p, byte_at mem (p + 1)) of
        (Inr a, Inr b) \<Rightarrow> Inr (ucast a OR push_bit 8 (ucast b), p + 2)
      | _ \<Rightarrow> Inl Bad_Read)"

definition get32 :: "u8 list \<Rightarrow> u32 reader" where
  "get32 mem p =
     (case (get16 mem p, get16 mem (p + 2)) of
        (Inr (a, _), Inr (b, _)) \<Rightarrow> Inr (ucast a OR push_bit 16 (ucast b), p + 4)
      | _ \<Rightarrow> Inl Bad_Read)"

function leb_from :: "u8 list \<Rightarrow> nat \<Rightarrow> u32 \<Rightarrow> (u32 \<times> nat \<times> u8) reader" where
  "leb_from mem shift result p =
     (case byte_at mem p of
        Inl e \<Rightarrow> Inl e
      | Inr b \<Rightarrow>
          if shift \<ge> 32 then Inl Shift_Overflow
          else
            (let result' = result OR push_bit shift (ucast (b AND 0x7f))
             in if b AND 0x80 = 0 then Inr ((result', shift, b), p + 1) else leb_from mem (shift + 7) result' (p + 1)))"
  by pat_completeness auto
termination by (relation "measure (\<lambda>(_, shift, _, _). 40 - shift)") auto

declare leb_from.simps [simp del]

definition getLeb :: "u8 list \<Rightarrow> u32 reader" where
  "getLeb mem p = (case leb_from mem 0 0 p of Inl e \<Rightarrow> Inl e | Inr ((r, _, _), q) \<Rightarrow> Inr (r, q))"

definition getSLeb :: "u8 list \<Rightarrow> u32 reader" where
  "getSLeb mem p =
     (case leb_from mem 0 0 p of
        Inl e \<Rightarrow> Inl e
      | Inr ((r, shift, b), q) \<Rightarrow>
          Inr (if b AND 0x40 \<noteq> 0 \<and> shift + 7 < 32 then r OR push_bit (shift + 7) (-1) else r, q))"

text \<open>The loops \<^verbatim>\<open>while (*_ptr++ & mask)\<close>.\<close>

function skip_while :: "(u8 \<Rightarrow> bool) \<Rightarrow> u8 list \<Rightarrow> unit reader" where
  "skip_while go_on mem p =
     (case byte_at mem p of
        Inl e \<Rightarrow> Inl e
      | Inr b \<Rightarrow> if go_on b then skip_while go_on mem (p + 1) else Inr ((), p + 1))"
  by pat_completeness auto
termination
  by (relation "measure (\<lambda>(_, mem, p). length mem - nat p)")
    (auto simp: byte_at_def nat_add_distrib split: if_splits)

declare skip_while.simps [simp del]

definition skipLeb :: "u8 list \<Rightarrow> unit reader" where
  "skipLeb mem = skip_while (\<lambda>b. b AND 0x80 \<noteq> 0) mem"

definition getPtr :: "u8 list \<Rightarrow> int reader" where
  "getPtr mem p = (case get32 mem p of Inl e \<Rightarrow> Inl e | Inr (v, q) \<Rightarrow> Inr (p + sint v, q))"

section \<open>Expressions\<close>

definition DW_OP_breg_pc :: u8 where "DW_OP_breg_pc = 0x70 + 16"

text \<open>One operation on the offset and the top of the stack; \<open>None\<close> is an unknown opcode.\<close>

definition exec_expr :: "u8 list \<Rightarrow> u8 \<Rightarrow> u32 \<Rightarrow> u32 \<Rightarrow> (u32 \<times> u32) option reader" where
  "exec_expr mem opcode pc tos p =
     (if opcode = DW_OP_breg_pc then (case getSLeb mem p of Inl e \<Rightarrow> Inl e | Inr (v, q) \<Rightarrow> Inr (Some (v, tos), q))
      else if opcode = 0x08 then (case get8 mem p of Inl e \<Rightarrow> Inl e | Inr (v, q) \<Rightarrow> Inr (Some (pc, ucast v), q))
      else if opcode = 0x09 then (case get8 mem p of Inl e \<Rightarrow> Inl e | Inr (v, q) \<Rightarrow> Inr (Some (pc, scast v), q))
      else if opcode = 0x0a then (case get16 mem p of Inl e \<Rightarrow> Inl e | Inr (v, q) \<Rightarrow> Inr (Some (pc, ucast v), q))
      else if opcode = 0x0b then (case get16 mem p of Inl e \<Rightarrow> Inl e | Inr (v, q) \<Rightarrow> Inr (Some (pc, scast v), q))
      else if opcode = 0x0c \<or> opcode = 0x0d then
        (case get32 mem p of Inl e \<Rightarrow> Inl e | Inr (v, q) \<Rightarrow> Inr (Some (pc, v), q))
      else if opcode = 0x10 then (case getLeb mem p of Inl e \<Rightarrow> Inl e | Inr (v, q) \<Rightarrow> Inr (Some (pc, v), q))
      else if opcode = 0x11 then (case getSLeb mem p of Inl e \<Rightarrow> Inl e | Inr (v, q) \<Rightarrow> Inr (Some (pc, v), q))
      else if opcode = 0x1c then Inr (Some (pc - tos, tos), p)
      else if opcode = 0x22 then Inr (Some (pc + tos, tos), p)
      else Inr (None, p))"

fun expr_loop :: "nat \<Rightarrow> u8 list \<Rightarrow> int \<Rightarrow> u32 \<Rightarrow> u32 \<Rightarrow> u32 reader" where
  "expr_loop fuel mem end pc tos p =
     (if p < end then
        (case fuel of
           0 \<Rightarrow> Inl Out_Of_Fuel
         | Suc fuel' \<Rightarrow>
             (case get8 mem p of
                Inl e \<Rightarrow> Inl e
              | Inr (opcode, q) \<Rightarrow>
                  (case exec_expr mem opcode pc tos q of
                     Inl e \<Rightarrow> Inl e
                   | Inr (None, _) \<Rightarrow> Inr (0, end)
                   | Inr (Some (pc', tos'), q') \<Rightarrow> expr_loop fuel' mem end pc' tos' q')))
      else Inr (pc, p))"

declare expr_loop.simps [simp del]

definition parseExpression :: "u8 list \<Rightarrow> u32 reader" where
  "parseExpression mem p =
     (case getLeb mem p of Inl e \<Rightarrow> Inl e | Inr (len, q) \<Rightarrow> expr_loop (unat len) mem (q + int (unat len)) 0 0 q)"

section \<open>Instructions\<close>

record cfi_state =
  ip :: int
  loc :: u32
  cur :: cfi
  rem :: cfi
  tbl :: frame_table

definition entry_cfi :: cfi where
  "entry_cfi = \<lparr>cfa_reg = DW_REG_SP, cfa_off = EMPTY_FRAME_SIZE, fp_off = DW_SAME_FP, pc_off = - EMPTY_FRAME_SIZE\<rparr>"

text \<open>The outcome of one instruction: the new state, and whether the loop goes on or the function returns.\<close>

type_synonym exec_result = "dwarf_error + bool \<times> cfi_state"

definition go :: "cfi_state \<Rightarrow> exec_result" where
  "go s = Inr (True, s)"

definition read_with :: "'a reader \<Rightarrow> ('a \<Rightarrow> cfi_state \<Rightarrow> exec_result) \<Rightarrow> cfi_state \<Rightarrow> exec_result" where
  "read_with r k s = (case r (ip s) of Inl e \<Rightarrow> Inl e | Inr (x, p) \<Rightarrow> k x (s\<lparr>ip := p\<rparr>))"

definition record_then :: "(nat \<Rightarrow> bool) \<Rightarrow> (cfi_state \<Rightarrow> exec_result) \<Rightarrow> cfi_state \<Rightarrow> exec_result" where
  "record_then realloc_ok k s =
     (case addRecord realloc_ok (loc s) (cur s) (tbl s) of Inl e \<Rightarrow> Inl e | Inr t \<Rightarrow> k (s\<lparr>tbl := t\<rparr>))"

definition advance :: "u32 \<Rightarrow> cfi_state \<Rightarrow> exec_result" where
  "advance delta s = go (s\<lparr>loc := loc s + delta\<rparr>)"

definition set_cur :: "(cfi \<Rightarrow> cfi) \<Rightarrow> cfi_state \<Rightarrow> exec_result" where
  "set_cur f s = go (s\<lparr>cur := f (cur s)\<rparr>)"

definition jump :: "u32 \<Rightarrow> cfi_state \<Rightarrow> exec_result" where
  "jump n s = go (s\<lparr>ip := ip s + int (unat n)\<rparr>)"

text \<open>The rule for a register offset: \<^verbatim>\<open>DW_CFA_offset\<close> and its extended forms.\<close>

definition set_offset :: "u8 list \<Rightarrow> u32 reader \<Rightarrow> u32 \<Rightarrow> u32 \<Rightarrow> cfi_state \<Rightarrow> exec_result" where
  "set_offset mem r da reg =
     (if reg = DW_REG_FP then read_with r (\<lambda>v. set_cur (\<lambda>c. c\<lparr>fp_off := v * da\<rparr>))
      else if reg = DW_REG_PC then read_with r (\<lambda>v. set_cur (\<lambda>c. c\<lparr>pc_off := v * da\<rparr>))
      else read_with (skipLeb mem) (\<lambda>_. go))"

text \<open>The instructions with the two high bits clear.\<close>

definition exec_low ::
  "u8 list \<Rightarrow> (nat \<Rightarrow> bool) \<Rightarrow> u32 \<Rightarrow> u32 \<Rightarrow> int \<Rightarrow> u8 \<Rightarrow> cfi_state \<Rightarrow> exec_result" where
  "exec_low mem realloc_ok ca da end opcode =
     (if opcode = 0x0 \<or> opcode = 0x1 then (\<lambda>s. go (s\<lparr>ip := end\<rparr>))
      else if opcode = 0x2 then record_then realloc_ok (read_with (get8 mem) (\<lambda>v. advance (ucast v * ca)))
      else if opcode = 0x3 then record_then realloc_ok (read_with (get16 mem) (\<lambda>v. advance (ucast v * ca)))
      else if opcode = 0x4 then record_then realloc_ok (read_with (get32 mem) (\<lambda>v. advance (v * ca)))
      else if opcode = 0x5 then read_with (getLeb mem) (set_offset mem (getLeb mem) da)
      else if opcode = 0x6 \<or> opcode = 0x7 \<or> opcode = 0x8 then
        read_with (getLeb mem) (\<lambda>r. if r = DW_REG_FP then set_cur (\<lambda>c. c\<lparr>fp_off := DW_SAME_FP\<rparr>) else go)
      else if opcode = 0x9 then read_with (skipLeb mem) (\<lambda>_. read_with (skipLeb mem) (\<lambda>_. go))
      else if opcode = 0xa then (\<lambda>s. go (s\<lparr>rem := cur s\<rparr>))
      else if opcode = 0xb then (\<lambda>s. go (s\<lparr>cur := rem s\<rparr>))
      else if opcode = 0xc then
        read_with (getLeb mem) (\<lambda>r. read_with (getLeb mem) (\<lambda>v. set_cur (\<lambda>c. c\<lparr>cfa_reg := r, cfa_off := v\<rparr>)))
      else if opcode = 0xd then read_with (getLeb mem) (\<lambda>r. set_cur (\<lambda>c. c\<lparr>cfa_reg := r\<rparr>))
      else if opcode = 0xe then read_with (getLeb mem) (\<lambda>v. set_cur (\<lambda>c. c\<lparr>cfa_off := v\<rparr>))
      else if opcode = 0xf then
        read_with (getLeb mem) (\<lambda>len s.
          jump len (s\<lparr>cur := (cur s)\<lparr>cfa_reg := (if len = 11 then DW_REG_PLT else DW_REG_INVALID),
                                      cfa_off := DW_STACK_SLOT\<rparr>\<rparr>))
      else if opcode = 0x10 then read_with (skipLeb mem) (\<lambda>_. read_with (getLeb mem) jump)
      else if opcode = 0x11 then read_with (getLeb mem) (set_offset mem (getSLeb mem) da)
      else if opcode = 0x12 then
        read_with (getLeb mem) (\<lambda>r. read_with (getSLeb mem) (\<lambda>v. set_cur (\<lambda>c. c\<lparr>cfa_reg := r, cfa_off := v * da\<rparr>)))
      else if opcode = 0x13 then read_with (getSLeb mem) (\<lambda>v. set_cur (\<lambda>c. c\<lparr>cfa_off := v * da\<rparr>))
      else if opcode = 0x14 \<or> opcode = 0x15 then read_with (skipLeb mem) (\<lambda>_. read_with (skipLeb mem) (\<lambda>_. go))
      else if opcode = 0x16 then
        read_with (getLeb mem) (\<lambda>r.
          if r = DW_REG_PC
          then read_with (parseExpression mem) (\<lambda>v.
                 if v \<noteq> 0 then set_cur (\<lambda>c. c\<lparr>fp_off := DW_PC_OFFSET OR push_bit 1 v\<rparr>) else go)
          else read_with (getLeb mem) jump)
      else if opcode = 0x2e then read_with (skipLeb mem) (\<lambda>_. go)
      else (\<lambda>s. Inr (False, s)))"

definition exec_op ::
  "u8 list \<Rightarrow> (nat \<Rightarrow> bool) \<Rightarrow> u32 \<Rightarrow> u32 \<Rightarrow> int \<Rightarrow> u8 \<Rightarrow> cfi_state \<Rightarrow> exec_result" where
  "exec_op mem realloc_ok ca da end opcode =
     (if drop_bit 6 opcode = 0 then exec_low mem realloc_ok ca da end opcode
      else if drop_bit 6 opcode = 1 then record_then realloc_ok (advance (ucast (opcode AND 0x3f) * ca))
      else if drop_bit 6 opcode = 2 then set_offset mem (getLeb mem) da (ucast (opcode AND 0x3f))
      else if ucast (opcode AND 0x3f) = DW_REG_FP then set_cur (\<lambda>c. c\<lparr>fp_off := DW_SAME_FP\<rparr>)
      else go)"

fun instr_loop ::
  "nat \<Rightarrow> u8 list \<Rightarrow> (nat \<Rightarrow> bool) \<Rightarrow> u32 \<Rightarrow> u32 \<Rightarrow> int \<Rightarrow> cfi_state \<Rightarrow> exec_result" where
  "instr_loop fuel mem realloc_ok ca da end s =
     (if ip s < end then
        (case fuel of
           0 \<Rightarrow> Inl Out_Of_Fuel
         | Suc fuel' \<Rightarrow>
             (case read_with (get8 mem) (exec_op mem realloc_ok ca da end) s of
                Inl e \<Rightarrow> Inl e
              | Inr (False, s') \<Rightarrow> Inr (False, s')
              | Inr (True, s') \<Rightarrow> instr_loop fuel' mem realloc_ok ca da end s'))
      else go s)"

declare instr_loop.simps [simp del]

section \<open>Entries and the whole section\<close>

record dwarf_parser =
  image_base :: int
  code_align :: u32
  data_align :: u32
  frames :: frame_table

definition parseInstructions ::
  "u8 list \<Rightarrow> (nat \<Rightarrow> bool) \<Rightarrow> u32 \<Rightarrow> int \<Rightarrow> int \<Rightarrow> dwarf_parser \<Rightarrow> dwarf_error + dwarf_parser" where
  "parseInstructions mem realloc_ok start end p d =
     (case instr_loop (nat (end - p)) mem realloc_ok (code_align d) (data_align d) end
             \<lparr>ip = p, loc = start, cur = entry_cfi, rem = entry_cfi, tbl = frames d\<rparr> of
        Inl e \<Rightarrow> Inl e
      | Inr (False, s) \<Rightarrow> Inr (d\<lparr>frames := tbl s\<rparr>)
      | Inr (True, s) \<Rightarrow>
          (case addRecord realloc_ok (loc s) (cur s) (tbl s) of Inl e \<Rightarrow> Inl e | Inr t \<Rightarrow> Inr (d\<lparr>frames := t\<rparr>)))"

definition parseCie :: "u8 list \<Rightarrow> int \<Rightarrow> dwarf_parser \<Rightarrow> dwarf_error + dwarf_parser" where
  "parseCie mem p d =
     (case get32 mem p of
        Inl e \<Rightarrow> Inl e
      | Inr (cie_len, cie_start) \<Rightarrow>
          if cie_len = 0 \<or> cie_len = 0xffffffff then Inr d
          else
            (case skip_while (\<lambda>b. b \<noteq> 0) mem (cie_start + 5) of
               Inl e \<Rightarrow> Inl e
             | Inr (_, q) \<Rightarrow>
                 (case getLeb mem q of
                    Inl e \<Rightarrow> Inl e
                  | Inr (ca, q1) \<Rightarrow>
                      (case getSLeb mem q1 of
                         Inl e \<Rightarrow> Inl e
                       | Inr (da, _) \<Rightarrow> Inr (d\<lparr>code_align := ca, data_align := da\<rparr>)))))"

definition end_cfi :: cfi where
  "end_cfi = \<lparr>cfa_reg = DW_REG_FP, cfa_off = LINKED_FRAME_SIZE, fp_off = - LINKED_FRAME_SIZE,
              pc_off = - LINKED_FRAME_SIZE + DW_STACK_SLOT\<rparr>"

text \<open>The body of an entry, from its address range on.\<close>

definition parseFde_body ::
  "u8 list \<Rightarrow> (nat \<Rightarrow> bool) \<Rightarrow> int \<Rightarrow> u32 \<Rightarrow> dwarf_parser \<Rightarrow> dwarf_error + dwarf_parser" where
  "parseFde_body mem realloc_ok fde_start fde_len d =
     (case getPtr mem (fde_start + 4) of
        Inl e \<Rightarrow> Inl e
      | Inr (target, q1) \<Rightarrow>
          (case get32 mem q1 of
             Inl e \<Rightarrow> Inl e
           | Inr (range_len, q2) \<Rightarrow>
               (case getLeb mem q2 of
                  Inl e \<Rightarrow> Inl e
                | Inr (aug, q3) \<Rightarrow>
                    (let range_start = word_of_int (target - image_base d) :: u32 in
                     case parseInstructions mem realloc_ok range_start (fde_start + int (unat fde_len))
                            (q3 + int (unat aug)) d of
                       Inl e \<Rightarrow> Inl e
                     | Inr d1 \<Rightarrow>
                         (case addRecord realloc_ok (range_start + range_len) end_cfi (frames d1) of
                            Inl e \<Rightarrow> Inl e
                          | Inr t \<Rightarrow> Inr (d1\<lparr>frames := t\<rparr>))))))"

definition parseFde :: "u8 list \<Rightarrow> (nat \<Rightarrow> bool) \<Rightarrow> int \<Rightarrow> dwarf_parser \<Rightarrow> dwarf_error + dwarf_parser" where
  "parseFde mem realloc_ok p d =
     (case get32 mem p of
        Inl e \<Rightarrow> Inl e
      | Inr (fde_len, fde_start) \<Rightarrow>
          if fde_len = 0 \<or> fde_len = 0xffffffff then Inr d
          else
            (case get32 mem fde_start of
               Inl e \<Rightarrow> Inl e
             | Inr (cie_offset, _) \<Rightarrow>
                 (case (if count (frames d) = 0 then parseCie mem (fde_start - int (unat cie_offset)) d else Inr d) of
                    Inl e \<Rightarrow> Inl e
                  | Inr d1 \<Rightarrow> parseFde_body mem realloc_ok fde_start fde_len d1)))"

definition omit_sign_bit :: "u8 \<Rightarrow> u8" where "omit_sign_bit v = v AND 0xf7"
definition omit_sign_bit_mask_low :: "u8 \<Rightarrow> u8" where "omit_sign_bit_mask_low v = v AND 0x7"

fun parse_fdes :: "u8 list \<Rightarrow> (nat \<Rightarrow> bool) \<Rightarrow> int \<Rightarrow> nat \<Rightarrow> nat \<Rightarrow> dwarf_parser \<Rightarrow> dwarf_error + dwarf_parser" where
  "parse_fdes mem realloc_ok hdr i 0 d = Inr d"
| "parse_fdes mem realloc_ok hdr i (Suc n) d =
     (case get32 mem (hdr + 16 + 8 * int i) of
        Inl e \<Rightarrow> Inl e
      | Inr (entry, _) \<Rightarrow>
          (case parseFde mem realloc_ok (hdr + sint entry) d of
             Inl e \<Rightarrow> Inl e
           | Inr d1 \<Rightarrow> parse_fdes mem realloc_ok hdr (Suc i) n d1))"

definition parse :: "u8 list \<Rightarrow> (nat \<Rightarrow> bool) \<Rightarrow> int \<Rightarrow> dwarf_parser \<Rightarrow> dwarf_error + dwarf_parser" where
  "parse mem realloc_ok hdr d =
     (case (byte_at mem hdr, byte_at mem (hdr + 1), byte_at mem (hdr + 2), byte_at mem (hdr + 3)) of
        (Inr version, Inr eh_frame_ptr_enc, Inr fde_count_enc, Inr table_enc) \<Rightarrow>
          if version \<noteq> 1 \<or> omit_sign_bit_mask_low eh_frame_ptr_enc \<noteq> 0x03
             \<or> omit_sign_bit_mask_low fde_count_enc \<noteq> 0x03 \<or> omit_sign_bit table_enc \<noteq> 0x33
          then Inr d
          else
            (case get32 mem (hdr + 8) of
               Inl e \<Rightarrow> Inl e
             | Inr (fde_count, _) \<Rightarrow> parse_fdes mem realloc_ok hdr 0 (nat (sint fde_count)) d)
      | _ \<Rightarrow> Inl Bad_Read)"

definition new_DwarfParser :: "u8 list \<Rightarrow> (nat \<Rightarrow> bool) \<Rightarrow> u32 \<Rightarrow> int \<Rightarrow> int \<Rightarrow> dwarf_error + dwarf_parser" where
  "new_DwarfParser mem realloc_ok sizeof_instruction base eh_frame_hdr =
     parse mem realloc_ok eh_frame_hdr
       \<lparr>image_base = base, code_align = sizeof_instruction, data_align = - 8,
        frames = \<lparr>capacity = 128, count = 0, table = [], prev = None\<rparr>\<rparr>"

section \<open>Every loop ends, and the table stays well-formed\<close>

text \<open>
  A reader moves forward and does not run out of fuel; an instruction either moves forward from a given
  position or jumps to the end, and keeps the table well-formed.
\<close>

definition wf_table :: "frame_table \<Rightarrow> bool" where
  "wf_table t \<longleftrightarrow> length (table t) = count t \<and> count t \<le> capacity t \<and> 0 < capacity t
     \<and> (case prev t of None \<Rightarrow> True | Some i \<Rightarrow> count t = Suc i)"

definition ok_at :: "int \<Rightarrow> dwarf_error + 'a \<times> int \<Rightarrow> bool" where
  "ok_at p res \<longleftrightarrow> (case res of Inl e \<Rightarrow> e \<noteq> Out_Of_Fuel | Inr (x, q) \<Rightarrow> p \<le> q)"

definition forward :: "'a reader \<Rightarrow> bool" where
  "forward r \<longleftrightarrow> (\<forall>p. ok_at p (r p))"

definition steady :: "int \<Rightarrow> int \<Rightarrow> (cfi_state \<Rightarrow> exec_result) \<Rightarrow> bool" where
  "steady end p k \<longleftrightarrow>
     (\<forall>s. p \<le> ip s \<longrightarrow> wf_table (tbl s) \<longrightarrow>
        (case k s of
           Inl e \<Rightarrow> e \<noteq> Out_Of_Fuel
         | Inr (_, s') \<Rightarrow> (p \<le> ip s' \<or> end \<le> ip s') \<and> wf_table (tbl s')))"

named_theorems steady_intros

lemma forwardD: "forward r \<Longrightarrow> r p = Inr (x, q) \<Longrightarrow> p \<le> q"
  unfolding forward_def ok_at_def by (drule spec [of _ p]) simp

lemma forward_fuel: "forward r \<Longrightarrow> r p \<noteq> Inl Out_Of_Fuel"
  unfolding forward_def ok_at_def by (drule spec [of _ p]) auto

lemma ok_at_map:
  "forward r \<Longrightarrow> ok_at p (case r p of Inl e \<Rightarrow> Inl e | Inr (v, q) \<Rightarrow> Inr (f v, q))"
  using forwardD [of r p] forward_fuel [of r p] by (auto simp: ok_at_def split: sum.split)

lemma ok_at_if: "ok_at p x \<Longrightarrow> ok_at p y \<Longrightarrow> ok_at p (if c then x else y)"
  by simp

lemma ok_at_Inr: "p \<le> q \<Longrightarrow> ok_at p (Inr (x, q))"
  by (simp add: ok_at_def)

lemma ok_at_mono: "ok_at q x \<Longrightarrow> p \<le> q \<Longrightarrow> ok_at p x"
  by (auto simp: ok_at_def split: sum.splits)

lemma forward_get8 [steady_intros]: "forward (get8 mem)"
  by (auto simp: forward_def ok_at_def get8_def byte_at_def)

lemma forward_get16 [steady_intros]: "forward (get16 mem)"
  by (auto simp: forward_def ok_at_def get16_def byte_at_def)

lemma forward_get32 [steady_intros]: "forward (get32 mem)"
  by (auto simp: forward_def ok_at_def get32_def get16_def byte_at_def)

lemma byte_at_fuel: "byte_at mem p \<noteq> Inl Out_Of_Fuel"
  by (simp add: byte_at_def)

lemma leb_from_forward: "forward (leb_from mem shift result)"
proof -
  have "ok_at p (leb_from mem shift result p)" for p
  proof (induction mem shift result p rule: leb_from.induct)
    case (1 mem shift result p)
    show ?case
    proof (cases "byte_at mem p")
      case (Inl e)
      then show ?thesis using byte_at_fuel [of mem p] by (subst leb_from.simps) (simp add: ok_at_def)
    next
      case (Inr b)
      have "ok_at p (leb_from mem (shift + 7) (result OR push_bit shift (ucast (b AND 0x7f))) (p + 1))"
        if "\<not> 32 \<le> shift" "b AND 0x80 \<noteq> 0"
        using "1.IH" [OF Inr that(1) refl that(2)] by (rule ok_at_mono) simp
      then show ?thesis using Inr by (subst leb_from.simps) (simp add: ok_at_def Let_def)
    qed
  qed
  then show ?thesis by (simp add: forward_def)
qed

lemma leb_from_ok: "ok_at p (leb_from mem shift result p)"
  using leb_from_forward by (auto simp: forward_def)

lemma forward_getLeb [steady_intros]: "forward (getLeb mem)"
  unfolding forward_def getLeb_def
proof
  fix p
  show "ok_at p (case leb_from mem 0 0 p of Inl e \<Rightarrow> Inl e | Inr ((r, _, _), q) \<Rightarrow> Inr (r, q))"
    using leb_from_ok [of p mem 0 0] by (cases "leb_from mem 0 0 p") (auto simp: ok_at_def)
qed

lemma forward_getSLeb [steady_intros]: "forward (getSLeb mem)"
  unfolding forward_def
proof
  fix p
  show "ok_at p (getSLeb mem p)"
    using leb_from_ok [of p mem 0 0] by (cases "leb_from mem 0 0 p") (auto simp: ok_at_def getSLeb_def)
qed

lemma forward_skip_while: "forward (skip_while go_on mem)"
proof -
  have "ok_at p (skip_while go_on mem p)" for p
  proof (induction go_on mem p rule: skip_while.induct)
    case (1 go_on mem p)
    show ?case
    proof (cases "byte_at mem p")
      case (Inl e)
      then show ?thesis using byte_at_fuel [of mem p] by (subst skip_while.simps) (simp add: ok_at_def)
    next
      case (Inr b)
      have "ok_at p (skip_while go_on mem (p + 1))" if "go_on b"
        using "1.IH" [OF Inr that] by (rule ok_at_mono) simp
      then show ?thesis using Inr by (subst skip_while.simps) (simp add: ok_at_def)
    qed
  qed
  then show ?thesis by (simp add: forward_def)
qed

lemma forward_skipLeb [steady_intros]: "forward (skipLeb mem)"
  unfolding skipLeb_def by (rule forward_skip_while)

lemma forward_exec_expr: "forward (exec_expr mem opcode pc tos)"
  unfolding forward_def exec_expr_def
  by (intro allI ok_at_if ok_at_map ok_at_Inr order_refl steady_intros)

lemma get8_advances: "get8 mem p = Inr (b, q) \<Longrightarrow> q = p + 1"
  by (auto simp: get8_def split: sum.splits)

lemma expr_loop_forward: "nat (end - p) \<le> fuel \<Longrightarrow> ok_at p (expr_loop fuel mem end pc tos p)"
proof (induction fuel arbitrary: pc tos p)
  case 0
  then show ?case by (subst expr_loop.simps) (simp add: ok_at_def)
next
  case (Suc fuel)
  show ?case
  proof (cases "p < end")
    case True
    show ?thesis
    proof (cases "get8 mem p")
      case (Inl e)
      then show ?thesis
        using True forward_fuel [OF forward_get8, of mem p] by (subst expr_loop.simps) (simp add: ok_at_def)
    next
      case (Inr bq)
      obtain b q where bq: "bq = (b, q)" by (cases bq)
      have q: "q = p + 1" using get8_advances Inr bq by simp
      show ?thesis
      proof (cases "exec_expr mem b pc tos q")
        case Inl': (Inl e)
        then show ?thesis
          using True Inr bq forward_fuel [OF forward_exec_expr, of mem b pc tos q]
          by (subst expr_loop.simps) (simp add: ok_at_def)
      next
        case Inr': (Inr xq)
        obtain x q' where xq: "xq = (x, q')" by (cases xq)
        have q': "p + 1 \<le> q'" using forwardD [OF forward_exec_expr] Inr' xq q by metis
        then have "nat (end - q') \<le> fuel" using Suc.prems by linarith
        then have "ok_at p (expr_loop fuel mem end pc' tos' q')" for pc' tos'
          using q' by (intro ok_at_mono [OF Suc.IH]) simp_all
        then show ?thesis
          using True Inr bq Inr' xq by (subst expr_loop.simps) (auto simp: ok_at_Inr split: option.split)
      qed
    qed
  qed (subst expr_loop.simps, simp add: ok_at_def)
qed

lemma forward_parseExpression [steady_intros]: "forward (parseExpression mem)"
proof -
  have "ok_at p (parseExpression mem p)" for p
  proof (cases "getLeb mem p")
    case (Inl e)
    then show ?thesis using forward_fuel [OF forward_getLeb, of mem p] by (simp add: parseExpression_def ok_at_def)
  next
    case (Inr lq)
    obtain len q where lq: "lq = (len, q)" by (cases lq)
    have "p \<le> q" using forwardD [OF forward_getLeb] Inr lq by metis
    moreover have "ok_at q (expr_loop (unat len) mem (q + int (unat len)) 0 0 q)"
      by (rule expr_loop_forward) simp
    ultimately show ?thesis using Inr lq by (simp add: parseExpression_def) (rule ok_at_mono)
  qed
  then show ?thesis by (simp add: forward_def)
qed

text \<open>The table.\<close>

lemma wf_addRecordRaw:
  assumes "length (table t) \<ge> count t" and "count t \<le> capacity t" and "0 < capacity t"
    and "addRecordRaw realloc_ok l cfa fp pc t = (p, t1)" and "p = None \<longrightarrow> length (table t) = count t"
  shows "wf_table (t1\<lparr>prev := p\<rparr>)"
  using assms by (auto simp: addRecordRaw_def wf_table_def Let_def split: if_splits)

lemma wf_addRecord:
  assumes "wf_table t" and "addRecord realloc_ok l r t = Inr t1"
  shows "wf_table t1"
proof (cases "prev t")
  case None
  with assms show ?thesis
    by (auto simp: addRecord_def wf_table_def Let_def addRecordRaw_def split: if_splits)
next
  case (Some i)
  with assms show ?thesis
    by (auto simp: addRecord_def wf_table_def Let_def addRecordRaw_def split: if_splits)
qed

lemma addRecord_fuel: "addRecord realloc_ok l r t \<noteq> Inl Out_Of_Fuel"
  by (simp add: addRecord_def Let_def split: option.split prod.split)

text \<open>Instructions.\<close>

lemma steady_go [steady_intros]: "steady end p go"
  by (simp add: steady_def go_def)

lemma steady_set_cur [steady_intros]: "steady end p (set_cur f)"
  by (simp add: steady_def set_cur_def go_def)

lemma steady_advance [steady_intros]: "steady end p (advance d)"
  by (simp add: steady_def advance_def go_def)

lemma steady_jump [steady_intros]: "steady end p (jump n)"
  by (auto simp: steady_def jump_def go_def intro: add_increasing2)

lemma steady_update [steady_intros]:
  "steady end p (\<lambda>s. go (s\<lparr>ip := end\<rparr>))" "steady end p (\<lambda>s. go (s\<lparr>rem := cur s\<rparr>))"
  "steady end p (\<lambda>s. go (s\<lparr>cur := rem s\<rparr>))" "steady end p (\<lambda>s. Inr (False, s))"
  "steady end p (\<lambda>s. jump n (s\<lparr>cur := f (cur s)\<rparr>))"
  by (auto simp: steady_def go_def jump_def intro: add_increasing2)

lemma steady_if [steady_intros]: "steady end p k \<Longrightarrow> steady end p k' \<Longrightarrow> steady end p (if c then k else k')"
  by simp

lemma steady_read_with [steady_intros]:
  assumes "forward r" and "\<And>x. steady end p (k x)"
  shows "steady end p (read_with r k)"
  unfolding steady_def
proof (intro allI impI)
  fix s :: cfi_state assume s: "p \<le> ip s" "wf_table (tbl s)"
  show "case read_with r k s of Inl e \<Rightarrow> e \<noteq> Out_Of_Fuel | Inr (_, s') \<Rightarrow> (p \<le> ip s' \<or> end \<le> ip s') \<and> wf_table (tbl s')"
  proof (cases "r (ip s)")
    case (Inl e)
    then show ?thesis using forward_fuel [OF assms(1), of "ip s"] by (simp add: read_with_def)
  next
    case (Inr xq)
    obtain x q where xq: "xq = (x, q)" by (cases xq)
    have "p \<le> q" using forwardD [OF assms(1)] Inr xq s(1) by (metis order_trans)
    then show ?thesis using assms(2) [of x] Inr xq s(2) by (simp add: read_with_def steady_def)
  qed
qed

lemma steady_record_then [steady_intros]:
  assumes "steady end p k"
  shows "steady end p (record_then realloc_ok k)"
  unfolding steady_def
proof (intro allI impI)
  fix s :: cfi_state assume s: "p \<le> ip s" "wf_table (tbl s)"
  show "case record_then realloc_ok k s of Inl e \<Rightarrow> e \<noteq> Out_Of_Fuel
      | Inr (_, s') \<Rightarrow> (p \<le> ip s' \<or> end \<le> ip s') \<and> wf_table (tbl s')"
  proof (cases "addRecord realloc_ok (loc s) (cur s) (tbl s)")
    case (Inl e)
    then show ?thesis using addRecord_fuel [of realloc_ok "loc s" "cur s" "tbl s"] by (simp add: record_then_def)
  next
    case (Inr t)
    then show ?thesis using assms s wf_addRecord [OF s(2) Inr] by (simp add: record_then_def steady_def)
  qed
qed

lemma steady_set_offset [steady_intros]: "forward r \<Longrightarrow> steady end p (set_offset mem r da reg)"
  unfolding set_offset_def by (intro steady_intros)

lemma steady_exec_low [steady_intros]: "steady end p (exec_low mem realloc_ok ca da end opcode)"
  unfolding exec_low_def by (intro steady_intros)

lemma steady_exec_op: "steady end p (exec_op mem realloc_ok ca da end opcode)"
  unfolding exec_op_def by (intro steady_intros)
definition loop_ok :: "exec_result \<Rightarrow> bool" where
  "loop_ok r \<longleftrightarrow> (case r of Inl e \<Rightarrow> e \<noteq> Out_Of_Fuel | Inr (_, s') \<Rightarrow> wf_table (tbl s'))"

lemma instr_loop_ok:
  "nat (end - ip s) \<le> fuel \<Longrightarrow> wf_table (tbl s) \<Longrightarrow> loop_ok (instr_loop fuel mem realloc_ok ca da end s)"
proof (induction fuel arbitrary: s)
  case 0
  then show ?case by (subst instr_loop.simps) (simp add: go_def loop_ok_def)
next
  case (Suc fuel)
  show ?case
  proof (cases "ip s < end")
    case True
    show ?thesis
    proof (cases "get8 mem (ip s)")
      case (Inl e)
      then show ?thesis
        using True forward_fuel [OF forward_get8, of mem "ip s"] by (subst instr_loop.simps) (simp add: read_with_def loop_ok_def)
    next
      case (Inr bq)
      obtain b q where bq: "bq = (b, q)" by (cases bq)
      let ?s = "s\<lparr>ip := q\<rparr>"
      have q: "q = ip s + 1" using get8_advances Inr bq by simp
      have st: "case exec_op mem realloc_ok ca da end b ?s of Inl e \<Rightarrow> e \<noteq> Out_Of_Fuel
          | Inr (_, s') \<Rightarrow> (ip s + 1 \<le> ip s' \<or> end \<le> ip s') \<and> wf_table (tbl s')"
        using steady_exec_op [of "end" "ip s + 1" mem realloc_ok ca da b] q Suc.prems(2) by (simp add: steady_def)
      have run: "read_with (get8 mem) (exec_op mem realloc_ok ca da end) s = exec_op mem realloc_ok ca da end b ?s"
        using Inr bq by (simp add: read_with_def)
      have IH: "loop_ok (instr_loop fuel mem realloc_ok ca da end s')"
        if "ip s + 1 \<le> ip s' \<or> end \<le> ip s'" "wf_table (tbl s')" for s'
        using that Suc.prems(1) by (intro Suc.IH) linarith+
      show ?thesis
      proof (cases "exec_op mem realloc_ok ca da end b ?s")
        case (Inl e)
        then show ?thesis using True st unfolding instr_loop.simps [of "Suc fuel"] run by (simp add: loop_ok_def)
      next
        case (Inr cs)
        obtain c s' where cs: "cs = (c, s')" by (cases cs)
        have "ip s + 1 \<le> ip s' \<or> end \<le> ip s'" "wf_table (tbl s')" using st Inr cs by simp_all
        with IH [of s'] show ?thesis
          using True Inr cs unfolding instr_loop.simps [of "Suc fuel"] run by (cases c) (simp_all add: loop_ok_def)
      qed
    qed
  next
    case False
    then show ?thesis using Suc.prems by (subst instr_loop.simps) (simp add: go_def loop_ok_def)
  qed
qed

text \<open>A parse step neither runs out of fuel nor breaks the table.\<close>

definition fine :: "dwarf_error + dwarf_parser \<Rightarrow> bool" where
  "fine r \<longleftrightarrow> (case r of Inl e \<Rightarrow> e \<noteq> Out_Of_Fuel | Inr d \<Rightarrow> wf_table (frames d))"

lemma fine_add:
  "wf_table t0 \<Longrightarrow>
     fine (case addRecord realloc_ok l r t0 of Inl e \<Rightarrow> Inl e | Inr t \<Rightarrow> Inr (d\<lparr>frames := t\<rparr>))"
  using wf_addRecord [of t0 realloc_ok l r] addRecord_fuel [of realloc_ok l r t0]
  by (auto simp: fine_def split: sum.split)

lemma fine_parseInstructions:
  assumes "wf_table (frames d)"
  shows "fine (parseInstructions mem realloc_ok start end p d)"
proof -
  let ?s = "\<lparr>ip = p, loc = start, cur = entry_cfi, rem = entry_cfi, tbl = frames d\<rparr>"
  have ok: "loop_ok (instr_loop (nat (end - p)) mem realloc_ok (code_align d) (data_align d) end ?s)"
    using assms by (intro instr_loop_ok) simp_all
  show ?thesis
  proof (cases "instr_loop (nat (end - p)) mem realloc_ok (code_align d) (data_align d) end ?s")
    case (Inl e)
    then show ?thesis using ok by (simp add: parseInstructions_def loop_ok_def fine_def)
  next
    case (Inr cs)
    obtain c s where cs: "cs = (c, s)" by (cases cs)
    have "wf_table (tbl s)" using ok Inr cs by (simp add: loop_ok_def)
    then show ?thesis
      using Inr cs fine_add [where ?t0.0 = "tbl s" and d = d]
      by (cases c) (simp_all add: parseInstructions_def fine_def)
  qed
qed

lemma fine_bind: "r \<noteq> Inl Out_Of_Fuel \<Longrightarrow> (\<And>x. fine (k x)) \<Longrightarrow> fine (case r of Inl e \<Rightarrow> Inl e | Inr x \<Rightarrow> k x)"
  by (cases r) (simp_all add: fine_def)

lemma fine_bind_parser:
  "fine r \<Longrightarrow> (\<And>d. wf_table (frames d) \<Longrightarrow> fine (k d)) \<Longrightarrow> fine (case r of Inl e \<Rightarrow> Inl e | Inr d \<Rightarrow> k d)"
  by (cases r) (simp_all add: fine_def)

lemma fine_prod: "(\<And>a b. fine (f a b)) \<Longrightarrow> fine (case x of (a, b) \<Rightarrow> f a b)"
  by (cases x) simp

lemma fine_Inr: "wf_table (frames d) \<Longrightarrow> fine (Inr d)"
  by (simp add: fine_def)

lemma fine_if: "fine x \<Longrightarrow> fine y \<Longrightarrow> fine (if c then x else y)"
  by simp

lemma getPtr_fuel: "getPtr mem p \<noteq> Inl Out_Of_Fuel"
  using forward_fuel [OF forward_get32, of mem p] by (auto simp: getPtr_def split: sum.split)

lemmas reader_fuel = getPtr_fuel forward_fuel [OF forward_get32] forward_fuel [OF forward_skip_while]
  forward_fuel [OF forward_getLeb] forward_fuel [OF forward_getSLeb]

lemma fine_parseCie: "wf_table (frames d) \<Longrightarrow> fine (parseCie mem p d)"
  unfolding parseCie_def by (intro fine_bind reader_fuel fine_prod fine_if fine_Inr) simp_all

lemma fine_parseFde_body: "wf_table (frames d) \<Longrightarrow> fine (parseFde_body mem realloc_ok fde_start fde_len d)"
  unfolding parseFde_body_def Let_def
  by (intro fine_bind reader_fuel fine_prod fine_bind_parser fine_parseInstructions fine_add)

lemma fine_parseFde: "wf_table (frames d) \<Longrightarrow> fine (parseFde mem realloc_ok p d)"
  unfolding parseFde_def
  by (intro fine_bind reader_fuel fine_prod fine_bind_parser fine_if fine_Inr fine_parseCie fine_parseFde_body)

lemma fine_parse_fdes: "wf_table (frames d) \<Longrightarrow> fine (parse_fdes mem realloc_ok hdr i n d)"
proof (induction n arbitrary: i d)
  case (Suc n)
  show ?case
    unfolding parse_fdes.simps
    by (intro fine_bind reader_fuel fine_prod fine_bind_parser fine_parseFde Suc)
qed (simp add: fine_def)

lemma fine_parse: "wf_table (frames d) \<Longrightarrow> fine (parse mem realloc_ok hdr d)"
proof -
  assume wf: "wf_table (frames d)"
  have tail: "fine (case get32 mem (hdr + 8) of Inl e \<Rightarrow> Inl e
      | Inr (fde_count, _) \<Rightarrow> parse_fdes mem realloc_ok hdr 0 (nat (sint fde_count)) d)"
    by (intro fine_bind reader_fuel fine_prod fine_parse_fdes wf)
  have "fine (Inl Bad_Read)" by (simp add: fine_def)
  with tail fine_Inr [OF wf] show ?thesis unfolding parse_def
    by (cases "get32 mem (hdr + 8)") (auto split: sum.split)
qed

text \<open>
  C23. The DWARF parser terminates on every image, even a malformed one: constructing the parser never
  exhausts the fuel of its loops, that is, it ends with a table or with an access outside the image, an
  over-long LEB128 number or a failed assertion. A finished table has exactly \<^verbatim>\<open>_count\<close> entries, no more
  than its capacity, and \<^verbatim>\<open>_prev\<close>, when set, points to the last of them.
\<close>

theorem parser_total:
  "new_DwarfParser mem realloc_ok sizeof_instruction base hdr \<noteq> Inl Out_Of_Fuel
   \<and> (\<forall>d. new_DwarfParser mem realloc_ok sizeof_instruction base hdr = Inr d \<longrightarrow> wf_table (frames d))"
proof -
  have "fine (new_DwarfParser mem realloc_ok sizeof_instruction base hdr)"
    unfolding new_DwarfParser_def by (rule fine_parse) (simp add: wf_table_def)
  then show ?thesis by (auto simp: fine_def)
qed
theorem parser_total_witness:
  "\<exists>d. new_DwarfParser [1, 0x1b, 0x03, 0x3b, 0, 0, 0, 0, 0, 0, 0, 0] (\<lambda>_. True) 1 0 0 = Inr d \<and> wf_table (frames d)"
proof -
  let ?mem = "[1, 0x1b, 0x03, 0x3b, 0, 0, 0, 0, 0, 0, 0, 0] :: u8 list"
  have "\<exists>d. new_DwarfParser ?mem (\<lambda>_. True) 1 0 0 = Inr d"
    by (simp add: new_DwarfParser_def parse_def byte_at_def get32_def get16_def omit_sign_bit_def
        omit_sign_bit_mask_low_def)
  with parser_total [of ?mem "\<lambda>_. True" 1 0 0] show ?thesis by blast
qed

section \<open>Merging equal rows loses nothing\<close>

type_synonym rule = "u32 \<times> u32 \<times> u32"

definition rule_of :: "frame_desc \<Rightarrow> rule" where
  "rule_of f = (fd_cfa f, fd_fp_off f, fd_pc_off f)"

text \<open>The rule in force at an address: that of the last row that starts at or before it.\<close>

definition rule_at :: "frame_desc list \<Rightarrow> u32 \<Rightarrow> rule option" where
  "rule_at fs pc = (let hits = filter (\<lambda>f. fd_loc f \<le> pc) fs in if hits = [] then None else Some (rule_of (last hits)))"

definition row_desc :: "u32 \<times> cfi \<Rightarrow> frame_desc" where
  "row_desc = (\<lambda>(l, r). \<lparr>fd_loc = l, fd_cfa = pack_cfa (cfa_reg r) (cfa_off r), fd_fp_off = fp_off r, fd_pc_off = pc_off r\<rparr>)"

definition valid_row :: "cfi \<Rightarrow> bool" where
  "valid_row r \<longleftrightarrow> cfa_reg r \<le> 0xff \<and> -8388608 \<le> sint (cfa_off r) \<and> sint (cfa_off r) \<le> 8388607"

definition push_row :: "frame_desc \<Rightarrow> frame_desc list \<Rightarrow> frame_desc list" where
  "push_row f fs =
     (if fs = [] then [f]
      else if fd_loc (last fs) = fd_loc f then butlast fs @ [f]
      else if rule_of (last fs) \<noteq> rule_of f then fs @ [f] else fs)"

definition tracked :: "frame_table \<Rightarrow> bool" where
  "tracked t \<longleftrightarrow> wf_table t \<and> prev t = (if table t = [] then None else Some (length (table t) - 1))"

lemma addRecord_push:
  assumes "tracked t" and "valid_row r" and "\<forall>n. realloc_ok n"
  obtains t1 where "addRecord realloc_ok l r t = Inr t1" and "tracked t1" and "table t1 = push_row (row_desc (l, r)) (table t)"
proof -
  let ?f = "row_desc (l, r)"
  have wf: "length (table t) = count t" "count t \<le> capacity t" "0 < capacity t"
    using assms(1) by (auto simp: tracked_def wf_table_def)
  have ok: "\<not> (\<not> (cfa_reg r \<le> 0xff) \<or> \<not> (-8388608 \<le> sint (cfa_off r) \<and> sint (cfa_off r) \<le> 8388607))"
    using assms(2) by (simp add: valid_row_def)
  have "\<exists>t1. addRecord realloc_ok l r t = Inr t1 \<and> table t1 = push_row ?f (table t) \<and> prev t1 \<noteq> None"
  proof (cases "table t = []")
    case True
    then have "prev t = None" "count t = 0" using assms(1) wf by (auto simp: tracked_def)
    then show ?thesis
      using ok True wf assms(3)
      by (auto simp: addRecord_def addRecordRaw_def Let_def push_row_def row_desc_def)
  next
    case False
    let ?i = "length (table t) - 1"
    have prev: "prev t = Some ?i" using False assms(1) by (simp add: tracked_def)
    have last: "table t ! ?i = last (table t)" using False by (simp add: last_conv_nth)
    have but: "take ?i (table t) = butlast (table t)" by (simp add: butlast_conv_take)
    show ?thesis
      using ok False wf assms(3) prev last but
      by (auto simp: addRecord_def addRecordRaw_def Let_def push_row_def row_desc_def rule_of_def)
  qed
  then obtain t1 where t1: "addRecord realloc_ok l r t = Inr t1" "table t1 = push_row ?f (table t)" "prev t1 \<noteq> None" by blast
  have "wf_table t1" using wf_addRecord [OF _ t1(1)] assms(1) by (simp add: tracked_def)
  moreover have "push_row ?f (table t) \<noteq> []" by (simp add: push_row_def)
  ultimately have "tracked t1" using t1 by (auto simp: tracked_def wf_table_def split: option.splits)
  then show ?thesis using that t1 by blast
qed

lemma rule_at_snoc: "rule_at (fs @ [f]) pc = (if fd_loc f \<le> pc then Some (rule_of f) else rule_at fs pc)"
  by (simp add: rule_at_def)

lemma rule_at_push:
  assumes "\<forall>g \<in> set fs. fd_loc g \<le> fd_loc f"
  shows "rule_at (push_row f fs) pc = (if fd_loc f \<le> pc then Some (rule_of f) else rule_at fs pc)"
proof (cases "fs = []")
  case True
  then show ?thesis by (simp add: push_row_def rule_at_def)
next
  case False
  have fs: "rule_at fs pc = (if fd_loc (last fs) \<le> pc then Some (rule_of (last fs)) else rule_at (butlast fs) pc)"
    using rule_at_snoc [of "butlast fs" "last fs" pc] False by simp
  have "fd_loc (last fs) \<le> fd_loc f" using assms False by simp
  then show ?thesis
    using False fs by (auto simp: push_row_def rule_at_snoc)
qed

lemma set_push_row: "set (push_row f fs) \<subseteq> insert f (set fs)"
  by (auto simp: push_row_def dest: in_set_butlastD)

lemma strict_push_row:
  assumes "sorted_wrt (\<lambda>g h. fd_loc g < fd_loc h) fs" and "\<forall>g \<in> set fs. fd_loc g \<le> fd_loc f"
  shows "sorted_wrt (\<lambda>g h. fd_loc g < fd_loc h) (push_row f fs)"
proof (cases "fs = []")
  case False
  have s: "sorted_wrt (\<lambda>g h. fd_loc g < fd_loc h) (butlast fs @ [last fs])" using assms(1) False by simp
  then have b: "\<forall>g \<in> set (butlast fs). fd_loc g < fd_loc (last fs)" by (simp only: sorted_wrt_append) auto
  have l: "fd_loc (last fs) \<le> fd_loc f" using assms(2) False by simp
  have "\<forall>g \<in> set fs. fd_loc g < fd_loc f" if ne: "fd_loc (last fs) \<noteq> fd_loc f"
  proof
    fix g assume "g \<in> set fs"
    then have "g = last fs \<or> g \<in> set (butlast fs)"
      using False by (metis append_butlast_last_id in_set_conv_decomp rotate1.simps(2) set_rotate1 set_ConsD)
    then show "fd_loc g < fd_loc f" using b l ne by (metis order_le_less order_less_trans)
  qed
  then show ?thesis using s b assms(1) by (auto simp: push_row_def sorted_wrt_append)
qed (simp add: push_row_def)

text \<open>Rows recorded one after the other, with addresses that do not decrease.\<close>

definition record_rows :: "(nat \<Rightarrow> bool) \<Rightarrow> (u32 \<times> cfi) list \<Rightarrow> frame_table \<Rightarrow> dwarf_error + frame_table" where
  "record_rows realloc_ok rows = run_ops (map (\<lambda>(l, r). addRecord realloc_ok l r) rows)"

lemma record_rows_push:
  assumes "tracked t" and "\<forall>(l, r) \<in> set rows. valid_row r" and "\<forall>n. realloc_ok n"
  shows "\<exists>t1. record_rows realloc_ok rows t = Inr t1 \<and> tracked t1 \<and> table t1 = fold push_row (map row_desc rows) (table t)"
  using assms(1,2)
proof (induction rows arbitrary: t)
  case (Cons row rows)
  obtain l r where row: "row = (l, r)" by (cases row)
  have "valid_row r" using Cons.prems(2) row by simp
  then obtain t1 where t1: "addRecord realloc_ok l r t = Inr t1" "tracked t1" "table t1 = push_row (row_desc (l, r)) (table t)"
    by (rule addRecord_push [OF Cons.prems(1) _ assms(3)])
  from Cons.IH [OF t1(2)] Cons.prems(2) obtain t2 where
    "record_rows realloc_ok rows t1 = Inr t2" "tracked t2" "table t2 = fold push_row (map row_desc rows) (table t1)" by auto
  then show ?case using t1 row by (simp add: record_rows_def)
qed (simp add: record_rows_def)

lemma push_rows_spec:
  assumes "sorted (map fd_loc (done @ fs))" and "sorted_wrt (\<lambda>g h. fd_loc g < fd_loc h) acc"
    and "set acc \<subseteq> set done" and "\<And>pc. rule_at acc pc = rule_at done pc"
  shows "sorted_wrt (\<lambda>g h. fd_loc g < fd_loc h) (fold push_row fs acc)
     \<and> (\<forall>pc. rule_at (fold push_row fs acc) pc = rule_at (done @ fs) pc)"
  using assms
proof (induction fs arbitrary: "done" acc)
  case (Cons f fs)
  have le: "\<forall>g \<in> set done. fd_loc g \<le> fd_loc f" using Cons.prems(1) by (simp add: sorted_append)
  then have le': "\<forall>g \<in> set acc. fd_loc g \<le> fd_loc f" using Cons.prems(3) by blast
  have "sorted_wrt (\<lambda>g h. fd_loc g < fd_loc h) (fold push_row fs (push_row f acc))
     \<and> (\<forall>pc. rule_at (fold push_row fs (push_row f acc)) pc = rule_at ((done @ [f]) @ fs) pc)"
  proof (rule Cons.IH)
    show "sorted (map fd_loc ((done @ [f]) @ fs))" using Cons.prems(1) by simp
    show "sorted_wrt (\<lambda>g h. fd_loc g < fd_loc h) (push_row f acc)" using strict_push_row [OF Cons.prems(2) le'] .
    show "set (push_row f acc) \<subseteq> set (done @ [f])" using set_push_row [of f acc] Cons.prems(3) by auto
    show "rule_at (push_row f acc) pc = rule_at (done @ [f]) pc" for pc
      by (simp add: rule_at_push [OF le'] rule_at_snoc Cons.prems(4))
  qed
  then show ?case by simp
qed simp

definition new_table :: frame_table where
  "new_table = \<lparr>capacity = 128, count = 0, table = [], prev = None\<rparr>"

text \<open>
  C10. \<^verbatim>\<open>DwarfParser::addRecord\<close> stores a row only when its rule differs from the previous one and overwrites
  a row of the same address. For any sequence of rows with non-decreasing addresses (and memory to grow) the
  compressed table is strictly sorted by address, and at every program counter it gives the same unwinding
  rule as the full sequence.
\<close>

theorem addRecord_lossless:
  assumes "sorted (map fst rows)" and "\<forall>(l, r) \<in> set rows. valid_row r" and "\<forall>n. realloc_ok n"
  shows "\<exists>t. record_rows realloc_ok rows new_table = Inr t
     \<and> sorted_wrt (\<lambda>f g. fd_loc f < fd_loc g) (table t)
     \<and> (\<forall>pc. rule_at (table t) pc = rule_at (map row_desc rows) pc)"
proof -
  have tr: "tracked new_table" by (simp add: tracked_def wf_table_def new_table_def)
  obtain t where t: "record_rows realloc_ok rows new_table = Inr t" "table t = fold push_row (map row_desc rows) []"
    using record_rows_push [OF tr assms(2,3)] by (auto simp: new_table_def)
  have "map fd_loc (map row_desc rows) = map fst rows" by (auto simp: row_desc_def)
  then have "sorted (map fd_loc ([] @ map row_desc rows))" using assms(1) by (simp only: append_Nil)
  from push_rows_spec [OF this, of "[]"] t show ?thesis by simp
qed

theorem addRecord_lossless_witness:
  "\<exists>t. record_rows (\<lambda>_. True) [(0x10, entry_cfi), (0x20, entry_cfi), (0x30, end_cfi)] new_table = Inr t
     \<and> rule_at (table t) 0x25 = rule_at [row_desc (0x10, entry_cfi), row_desc (0x20, entry_cfi), row_desc (0x30, end_cfi)] 0x25"
proof -
  have "valid_row entry_cfi" "valid_row end_cfi"
    by (simp_all add: valid_row_def entry_cfi_def end_cfi_def dw_consts)
  then have "\<forall>(l, r) \<in> set [(0x10 :: u32, entry_cfi), (0x20, entry_cfi), (0x30, end_cfi)]. valid_row r" by simp
  from addRecord_lossless [OF _ this, of "\<lambda>_. True"] show ?thesis by auto
qed

section \<open>Encodings\<close>

text \<open>
  The packing of the CFA rule in \<^verbatim>\<open>addRecord\<close>: for the register and offset that its assertions admit,
  the low byte of the packed word is the register and the word shifted right arithmetically by 8 is the
  signed offset.
\<close>

theorem pack_cfa_roundtrip:
  assumes "valid_row r"
  shows "pack_cfa (cfa_reg r) (cfa_off r) AND 0xff = cfa_reg r
     \<and> sint (pack_cfa (cfa_reg r) (cfa_off r)) div 2 ^ 8 = sint (cfa_off r)"
proof -
  let ?reg = "cfa_reg r" and ?off = "cfa_off r"
  have reg: "uint ?reg \<le> 255" using assms by (simp add: valid_row_def word_le_def)
  have off: "-8388608 \<le> sint ?off" "sint ?off \<le> 8388607" using assms by (simp_all add: valid_row_def)
  have mask: "(0xff :: u32) = mask 8" by (simp add: mask_eq_exp_minus_1)
  have m: "?reg AND 0xff = ?reg"
  proof -
    have "unat ?reg < 2 ^ 8" using assms by (simp add: valid_row_def word_le_nat_alt)
    then show ?thesis unfolding mask
      by (intro word_unat_eq_iff [THEN iffD2])
        (simp only: take_bit_eq_mask [symmetric] unsigned_take_bit_eq take_bit_nat_eq_self)
  qed
  have small: "\<not> bit ?reg n" if "8 \<le> n" for n
    using m that by (metis bit_and_iff bit_mask_iff mask not_less)
  then have small': "bit ?reg n \<Longrightarrow> n < 8" for n by (meson not_less)
  have low: "pack_cfa ?reg ?off AND 0xff = ?reg"
    unfolding pack_cfa_def mask
    by (intro bit_word_eqI) (auto simp: bit_simps dest: small')
  have "pack_cfa ?reg ?off = push_bit 8 ?off + ?reg"
    unfolding pack_cfa_def m using small by (intro disjunctive_add [symmetric]) (auto simp: bit_simps not_le)
  also have "\<dots> = word_of_int (sint ?off * 256 + uint ?reg)"
    by (simp add: push_bit_eq_mult)
  finally have eq: "pack_cfa ?reg ?off = word_of_int (sint ?off * 256 + uint ?reg)" .
  have "0 \<le> uint ?reg" by simp
  then have range: "-2147483648 \<le> sint ?off * 256 + uint ?reg" "sint ?off * 256 + uint ?reg < 2147483648"
    using off reg by linarith+
  have "sint (pack_cfa ?reg ?off) = signed_take_bit 31 (sint ?off * 256 + uint ?reg)"
    unfolding eq by (subst sint_sbintrunc') simp
  also have "\<dots> = sint ?off * 256 + uint ?reg"
    using range by (intro signed_take_bit_int_eq_self) simp_all
  finally have "sint (pack_cfa ?reg ?off) = sint ?off * 256 + uint ?reg" .
  then show ?thesis using low reg by simp
qed

theorem pack_cfa_roundtrip_witness:
  "pack_cfa (cfa_reg end_cfi) (cfa_off end_cfi) AND 0xff = 6 \<and> sint (pack_cfa (cfa_reg end_cfi) (cfa_off end_cfi)) div 2 ^ 8 = 16"
  using pack_cfa_roundtrip [of end_cfi] by (simp add: valid_row_def end_cfi_def dw_consts)

lemma and_127: "(b :: u8) AND 0x7f = take_bit 7 b"
proof -
  have "(0x7f :: u8) = mask 7" by (simp add: mask_eq_exp_minus_1)
  then show ?thesis by (simp add: take_bit_eq_mask)
qed

lemma and_128: "(b :: u8) AND 0x80 = 0 \<longleftrightarrow> unat b < 128"
proof -
  have "b AND 0x80 = 0 \<longleftrightarrow> \<not> bit b 7" using and_exp_eq_0_iff_not_bit [of b 7] by simp
  moreover have "bit b 7 \<longleftrightarrow> bit (unat b) 7" by (simp add: bit_unsigned_iff)
  moreover have "bit (unat b) 7 \<longleftrightarrow> odd (unat b div 128)" by (simp add: bit_iff_odd)
  moreover have "unat b < 256" using unsigned_less [of b] by simp
  then have "unat b div 128 < 2" by (simp add: less_mult_imp_div_less)
  then have "odd (unat b div 128) \<longleftrightarrow> unat b div 128 = 1" by (auto simp: less_2_cases_iff)
  moreover have "unat b div 128 = 1 \<longleftrightarrow> \<not> unat b < 128"
    using \<open>unat b div 128 < 2\<close> by (auto simp: div_eq_0_iff less_2_cases_iff)
  ultimately show ?thesis by simp
qed

lemma unat_low7 [simp]: "unat (ucast ((b :: u8) AND 0x7f) :: u32) = unat b mod 128"
proof -
  have "unat b mod 128 < 2 ^ 32" by (rule less_trans [of _ 128]) simp_all
  moreover have "unat (take_bit 7 b) = unat b mod 128"
    by (simp only: unsigned_take_bit_eq) (simp add: take_bit_eq_mod)
  ultimately have "take_bit 32 (unat (take_bit 7 b)) = unat b mod 128"
    by (simp only: take_bit_nat_eq_self)
  then show ?thesis unfolding and_127 by (simp only: unsigned_ucast_eq) simp
qed

lemma byte_at_append:
  "byte_at (pre @ b # rest) (int (length pre)) = Inr b"
  by (simp add: byte_at_def)

lemma leb_from_var_loop:
  fixes v :: u32
  assumes "unat result < 2 ^ shift" and "unat result + 2 ^ shift * unat v < 2 ^ 32" and "shift < 32"
  shows "\<exists>r x. leb_from (pre @ var_loop v @ rest) shift result (int (length pre))
       = Inr ((r, x), int (length pre + length (var_loop v))) \<and> unat r = unat result + 2 ^ shift * unat v"
  using assms
proof (induction v arbitrary: pre result shift rule: var_loop.induct)
  case (1 v)
  show ?case
  proof (cases "127 < unat v")
    case False
    then have bytes: "var_loop v = [ucast v]" by (simp add: var_loop.simps [of v])
    have b: "unat (ucast v :: u8) = unat v" using False by (intro unat_last_byte) simp
    let ?r = "result OR push_bit shift (ucast ((ucast v :: u8) AND 0x7f))"
    have "unat v mod 128 = unat v" using False by simp
    then have "unat ?r = unat result + 2 ^ shift * unat v"
      using or_push_bit_add [of result shift "ucast ((ucast v :: u8) AND 0x7f)"] "1.prems" b by simp
    moreover have "leb_from (pre @ var_loop v @ rest) shift result (int (length pre)) = Inr ((?r, shift, ucast v), int (length pre) + 1)"
      unfolding bytes using "1.prems"(3) b False
      by (subst leb_from.simps) (simp add: byte_at_append and_128 Let_def)
    ultimately show ?thesis by (simp add: bytes)
  next
    case True
    then have bytes: "var_loop v = cont_byte v # var_loop (drop_bit 7 v)" by (simp add: var_loop.simps [of v])
    let ?r = "result OR push_bit shift (ucast (cont_byte v AND 0x7f))"
    have split: "unat v = unat v mod 128 + 128 * (unat v div 128)" by simp
    have le: "2 ^ shift * (unat v mod 128) \<le> 2 ^ shift * unat v" by simp
    have le': "unat result + 2 ^ shift * (unat v mod 128) < 2 ^ 32" using "1.prems"(2) le by linarith
    have r: "unat ?r = unat result + 2 ^ shift * (unat v mod 128)"
      using or_push_bit_add [of result shift "ucast (cont_byte v AND 0x7f)"] "1.prems"(1) le' by simp
    have sum: "unat ?r + 2 ^ (shift + 7) * unat (drop_bit 7 v) = unat result + 2 ^ shift * unat v"
    proof -
      have "2 ^ shift * unat v = 2 ^ shift * (unat v mod 128) + 2 ^ shift * (128 * (unat v div 128))"
        by (subst split) (simp only: distrib_left)
      then show ?thesis unfolding r by (simp only: power_add unat_drop_bit_div) simp
    qed
    have lt: "unat ?r < 2 ^ (shift + 7)"
    proof -
      have "2 ^ shift * (unat v mod 128) \<le> 2 ^ shift * 127" by (intro mult_le_mono) (simp_all add: less_Suc_eq_le [symmetric])
      then have "unat ?r < 2 ^ shift + 2 ^ shift * 127" using "1.prems"(1) r by linarith
      then show ?thesis by (simp add: power_add)
    qed
    have "1 \<le> unat (drop_bit 7 v)" using True by (simp add: Suc_le_eq div_greater_zero_iff)
    then have "2 ^ (shift + 7) * 1 \<le> 2 ^ (shift + 7) * unat (drop_bit 7 v)" by (intro mult_le_mono) simp_all
    then have "(2::nat) ^ (shift + 7) < 2 ^ 32" using sum "1.prems"(2) by linarith
    then have sh: "shift + 7 < 32" by (rule power_less_imp_less_exp [rotated]) simp
    have "leb_from (pre @ var_loop v @ rest) shift result (int (length pre))
        = leb_from ((pre @ [cont_byte v]) @ var_loop (drop_bit 7 v) @ rest) (shift + 7) ?r (int (length (pre @ [cont_byte v])))"
      unfolding bytes using "1.prems"(3)
      by (subst leb_from.simps) (simp add: byte_at_append and_128 Let_def add.commute)
    moreover obtain r' x where "leb_from ((pre @ [cont_byte v]) @ var_loop (drop_bit 7 v) @ rest) (shift + 7) ?r (int (length (pre @ [cont_byte v])))
       = Inr ((r', x), int (length (pre @ [cont_byte v]) + length (var_loop (drop_bit 7 v))))"
      "unat r' = unat ?r + 2 ^ (shift + 7) * unat (drop_bit 7 v)"
      using "1.IH" [of ?r "shift + 7" "pre @ [cont_byte v]"] True lt sum sh "1.prems"(2) by auto
    ultimately show ?thesis using sum by (simp add: bytes)
  qed
qed

text \<open>
  \<^verbatim>\<open>getLeb\<close> decodes the variable-length encoding that \<^verbatim>\<open>Buffer::putVar32\<close> writes: wherever the encoded
  bytes of a 32-bit value stand in the image, it returns the value and stops right behind them.
\<close>

theorem getLeb_roundtrip:
  "getLeb (pre @ var_loop v @ rest) (int (length pre)) = Inr (v, int (length pre + length (var_loop v)))"
proof -
  have "unat (0 :: u32) + 2 ^ 0 * unat v < 2 ^ 32" using u32_less [of v] by simp
  from leb_from_var_loop [of 0 0 v pre rest, OF _ this] obtain r x where
    "leb_from (pre @ var_loop v @ rest) 0 0 (int (length pre)) = Inr ((r, x), int (length pre + length (var_loop v)))"
    "unat r = unat v" by auto
  moreover then have "r = v" by (simp add: word_unat_eq_iff)
  ultimately show ?thesis by (simp add: getLeb_def case_prod_beta)
qed
end
