(* ===== verification/Code_Cache.thy ===== *)
theory Code_Cache
  imports Prelude Dwarf "HOL-Library.Multiset"
begin

text \<open>
  Model of \<^verbatim>\<open>codeCache.h\<close> and \<^verbatim>\<open>codeCache.cpp\<close>: the symbols of a native library, its imports and its
  frame table, with the searches the stack walker uses.

  Addresses are 64-bit words; a NULL pointer to an import entry is the address 0. The list \<open>blobs\<close> holds the
  first \<^verbatim>\<open>_count\<close> elements of the array; a symbol name is the \<^verbatim>\<open>NativeFunc\<close> header together with its
  text. Fields that the copy constructor leaves uninitialised are parameters of its model, and so is what
  \<^verbatim>\<open>posix_memalign\<close> returns in \<^verbatim>\<open>libIndex\<close>. C leaves the order of equal elements after \<^verbatim>\<open>qsort\<close> open;
  the model keeps them as they were.

  Both searches are instances of one bisection. The locale \<open>bisection\<close> states what makes it correct, and is
  interpreted for the sorted blobs and for the sorted frame table.
\<close>

section \<open>Data\<close>

definition NO_MIN_ADDRESS :: u64 where "NO_MIN_ADDRESS = -1"
definition NO_MAX_ADDRESS :: u64 where "NO_MAX_ADDRESS = 0"
definition INITIAL_CODE_CACHE_CAPACITY :: nat where "INITIAL_CODE_CACHE_CAPACITY = 1000"
definition MAX_NATIVE_LIBS :: nat where "MAX_NATIVE_LIBS = 2048"

datatype ImportId = im_dlopen | im_pthread_create | im_pthread_exit | im_pthread_setspecific | im_poll | im_malloc
  | im_calloc | im_realloc | im_free

fun import_index :: "ImportId \<Rightarrow> nat" where
  "import_index im_dlopen = 0" | "import_index im_pthread_create = 1" | "import_index im_pthread_exit = 2"
| "import_index im_pthread_setspecific = 3" | "import_index im_poll = 4" | "import_index im_malloc = 5"
| "import_index im_calloc = 6" | "import_index im_realloc = 7" | "import_index im_free = 8"

definition NUM_IMPORTS :: nat where "NUM_IMPORTS = 9"
definition NUM_IMPORT_TYPES :: nat where "NUM_IMPORT_TYPES = 2"
definition MARK_VM_RUNTIME :: u8 where "MARK_VM_RUNTIME = 1"

record native_func =
  fn_lib_index :: int
  fn_mark :: u8
  fn_name :: string

record code_blob =
  start :: u64
  blob_end :: u64
  blob_name :: "native_func option"

record code_cache =
  cc_name :: native_func
  lib_index :: int
  min_address :: u64
  max_address :: u64
  text_base :: u64
  plt_offset :: u32
  plt_size :: u32
  import_slots :: "u64 list list"
  imports_patchable :: bool
  debug_symbols :: bool
  dwarf_table :: "frame_desc list"
  cc_capacity :: nat
  blobs :: "code_blob list"

section \<open>Names\<close>

definition NativeFunc_create :: "string \<Rightarrow> int \<Rightarrow> native_func" where
  "NativeFunc_create name lib = \<lparr>fn_lib_index = lib, fn_mark = 0, fn_name = name\<rparr>"

text \<open>
  \<^verbatim>\<open>libIndex\<close> computes the header of the name and then lets \<^verbatim>\<open>posix_memalign\<close> overwrite the pointer with
  fresh memory, whose content it returns.
\<close>

definition libIndex :: "int option \<Rightarrow> native_func \<Rightarrow> int" where
  "libIndex memalign f = (case memalign of None \<Rightarrow> -1 | Some junk \<Rightarrow> junk)"

definition isMarked :: "native_func \<Rightarrow> bool" where
  "isMarked f \<longleftrightarrow> fn_mark f \<noteq> 0"

definition NativeFunc_mark :: "u8 \<Rightarrow> native_func \<Rightarrow> native_func" where
  "NativeFunc_mark v f = f\<lparr>fn_mark := v\<rparr>"

text \<open>A plain \<^verbatim>\<open>char\<close> below the blank: control characters and, the type being signed, every byte from 0x80.\<close>

definition printable :: "char \<Rightarrow> char" where
  "printable c = (if (of_char c :: nat) < 32 \<or> 128 \<le> (of_char c :: nat) then CHR ''?'' else c)"

section \<open>Construction\<close>

definition new_CodeCache :: "string \<Rightarrow> int \<Rightarrow> bool \<Rightarrow> u64 \<Rightarrow> u64 \<Rightarrow> code_cache" where
  "new_CodeCache name lib patchable lo hi =
     \<lparr>cc_name = NativeFunc_create name (-1), lib_index = lib, min_address = lo, max_address = hi, text_base = 0,
      plt_offset = 0, plt_size = 0, import_slots = replicate NUM_IMPORTS (replicate NUM_IMPORT_TYPES 0),
      imports_patchable = patchable, debug_symbols = False, dwarf_table = [],
      cc_capacity = INITIAL_CODE_CACHE_CAPACITY, blobs = []\<rparr>"

text \<open>The copy constructor does not set the imports nor the debug flag.\<close>

definition copy_CodeCache :: "u64 list list \<Rightarrow> bool \<Rightarrow> code_cache \<Rightarrow> code_cache" where
  "copy_CodeCache junk_imports junk_debug other =
     other\<lparr>cc_name := NativeFunc_create (fn_name (cc_name other)) (-1), import_slots := junk_imports,
           debug_symbols := junk_debug\<rparr>"

text \<open>The assignment keeps them as they are in the target.\<close>

definition assign_CodeCache :: "code_cache \<Rightarrow> code_cache \<Rightarrow> code_cache" where
  "assign_CodeCache this other =
     other\<lparr>cc_name := NativeFunc_create (fn_name (cc_name other)) (-1), import_slots := import_slots this,
           debug_symbols := debug_symbols this\<rparr>"

definition contains :: "code_cache \<Rightarrow> u64 \<Rightarrow> bool" where
  "contains c a \<longleftrightarrow> min_address c \<le> a \<and> a < max_address c"

definition setTextBase :: "u64 \<Rightarrow> code_cache \<Rightarrow> code_cache" where
  "setTextBase base c = c\<lparr>text_base := base\<rparr>"

definition setPlt :: "u32 \<Rightarrow> u32 \<Rightarrow> code_cache \<Rightarrow> code_cache" where
  "setPlt off sz c = c\<lparr>plt_offset := off, plt_size := sz\<rparr>"

definition setDebugSymbols :: "bool \<Rightarrow> code_cache \<Rightarrow> code_cache" where
  "setDebugSymbols b c = c\<lparr>debug_symbols := b\<rparr>"

definition setDwarfTable :: "frame_desc list \<Rightarrow> code_cache \<Rightarrow> code_cache" where
  "setDwarfTable fs c = c\<lparr>dwarf_table := fs\<rparr>"

definition expand :: "code_cache \<Rightarrow> code_cache" where
  "expand c = c\<lparr>cc_capacity := cc_capacity c * 2\<rparr>"

definition updateBounds :: "u64 \<Rightarrow> u64 \<Rightarrow> code_cache \<Rightarrow> code_cache" where
  "updateBounds lo hi c =
     (let c1 = (if lo < min_address c then c\<lparr>min_address := lo\<rparr> else c)
      in if hi > max_address c1 then c1\<lparr>max_address := hi\<rparr> else c1)"

definition add_blob :: "u64 \<Rightarrow> int \<Rightarrow> string \<Rightarrow> bool \<Rightarrow> code_cache \<Rightarrow> code_cache" where
  "add_blob lo len name update_bounds c =
     (let name_copy = NativeFunc_create (map printable name) (lib_index c);
          c1 = (if length (blobs c) \<ge> cc_capacity c then expand c else c);
          hi = lo + word_of_int len;
          c2 = c1\<lparr>blobs := blobs c1 @ [\<lparr>start = lo, blob_end = hi, blob_name = Some name_copy\<rparr>]\<rparr>
      in if update_bounds then updateBounds lo hi c2 else c2)"

section \<open>Sorting\<close>

definition blob_comparator :: "code_blob \<Rightarrow> code_blob \<Rightarrow> int" where
  "blob_comparator a b =
     (if start a < start b then -1 else if start a > start b then 1
      else if blob_end a = blob_end b then 0 else if blob_end a > blob_end b then -1 else 1)"

fun insert_by :: "('a \<Rightarrow> 'a \<Rightarrow> int) \<Rightarrow> 'a \<Rightarrow> 'a list \<Rightarrow> 'a list" where
  "insert_by cmp x [] = [x]"
| "insert_by cmp x (y # ys) = (if cmp x y \<le> 0 then x # y # ys else y # insert_by cmp x ys)"

definition qsort :: "('a \<Rightarrow> 'a \<Rightarrow> int) \<Rightarrow> 'a list \<Rightarrow> 'a list" where
  "qsort cmp xs = foldr (insert_by cmp) xs []"

definition sort_blobs :: "code_cache \<Rightarrow> code_cache" where
  "sort_blobs c =
     (if blobs c = [] then c
      else
        (let bs = qsort blob_comparator (blobs c);
             c1 = c\<lparr>blobs := bs\<rparr>;
             c2 = (if min_address c1 = NO_MIN_ADDRESS then c1\<lparr>min_address := start (hd bs)\<rparr> else c1)
         in if max_address c2 = NO_MAX_ADDRESS then c2\<lparr>max_address := blob_end (last bs)\<rparr> else c2))"

definition mark_blobs :: "(string \<Rightarrow> bool) \<Rightarrow> u8 \<Rightarrow> code_cache \<Rightarrow> code_cache" where
  "mark_blobs pred v c =
     (let c1 = c\<lparr>blobs := map (\<lambda>b. case blob_name b of
                  Some f \<Rightarrow> if pred (fn_name f) then b\<lparr>blob_name := Some (NativeFunc_mark v f)\<rparr> else b
                | None \<Rightarrow> b) (blobs c)\<rparr>
      in if v = MARK_VM_RUNTIME then c1\<lparr>cc_name := NativeFunc_mark v (cc_name c1)\<rparr> else c1)"

section \<open>Searching\<close>

definition findBlob :: "string \<Rightarrow> code_cache \<Rightarrow> code_blob option" where
  "findBlob name c = find (\<lambda>b. case blob_name b of Some f \<Rightarrow> fn_name f = name | None \<Rightarrow> False) (blobs c)"

definition findBlobByAddress :: "u64 \<Rightarrow> code_cache \<Rightarrow> code_blob option" where
  "findBlobByAddress a c = find (\<lambda>b. start b \<le> a \<and> a < blob_end b) (blobs c)"

definition findSymbol :: "string \<Rightarrow> code_cache \<Rightarrow> u64" where
  "findSymbol name c = (case findBlob name c of None \<Rightarrow> 0 | Some b \<Rightarrow> start b)"

text \<open>\<^verbatim>\<open>strncmp(blob_name, prefix, len) == 0\<close> for a length within the prefix.\<close>

definition has_prefix :: "string \<Rightarrow> string \<Rightarrow> bool" where
  "has_prefix pre s \<longleftrightarrow> take (length pre) s = pre"

definition findSymbolByPrefix :: "string \<Rightarrow> code_cache \<Rightarrow> u64" where
  "findSymbolByPrefix pre c =
     (case find (\<lambda>b. case blob_name b of Some f \<Rightarrow> has_prefix pre (fn_name f) | None \<Rightarrow> False) (blobs c) of
        None \<Rightarrow> 0 | Some b \<Rightarrow> start b)"

text \<open>
  \<^verbatim>\<open>findSymbolsByPrefix\<close>: the inner loop declares its own \<^verbatim>\<open>i\<close>, so the address that is stored is that of
  the blob whose position is the number of the matching prefix. \<open>None\<close> is reading an element of the array
  beyond \<^verbatim>\<open>_count\<close>.
\<close>

definition findSymbolsByPrefix :: "string list \<Rightarrow> code_cache \<Rightarrow> u64 option list" where
  "findSymbolsByPrefix prefixes c =
     concat (map (\<lambda>b. case blob_name b of
        None \<Rightarrow> []
      | Some f \<Rightarrow> map (\<lambda>i. if i < length (blobs c) then Some (start (blobs c ! i)) else None)
                       (filter (\<lambda>i. has_prefix (prefixes ! i) (fn_name f)) [0..<length prefixes])) (blobs c))"

text \<open>The loop that both searches share: the position of a hit, or the final \<^verbatim>\<open>low\<close>.\<close>

datatype verdict = Go_Right | Go_Left | Here

function search_loop :: "(int \<Rightarrow> verdict) \<Rightarrow> int \<Rightarrow> int \<Rightarrow> int + int" where
  "search_loop probe low high =
     (if low \<le> high then
        (let mid = (low + high) div 2
         in case probe mid of
              Go_Right \<Rightarrow> search_loop probe (mid + 1) high
            | Go_Left \<Rightarrow> search_loop probe low (mid - 1)
            | Here \<Rightarrow> Inr mid)
      else Inl low)"
  by pat_completeness auto
termination
  by (relation "measure (\<lambda>(_, low, high). nat (high - low + 1))") auto

declare search_loop.simps [simp del]

definition probe_blob :: "code_blob list \<Rightarrow> u64 \<Rightarrow> int \<Rightarrow> verdict" where
  "probe_blob bs a i =
     (if blob_end (bs ! nat i) \<le> a then Go_Right else if start (bs ! nat i) > a then Go_Left else Here)"

text \<open>The blob that is found, or none: then the code returns the name of the library instead.\<close>

definition binarySearch :: "u64 \<Rightarrow> code_cache \<Rightarrow> code_blob option" where
  "binarySearch a c =
     (let bs = blobs c in
      case search_loop (probe_blob bs a) 0 (int (length bs) - 1) of
        Inr mid \<Rightarrow> Some (bs ! nat mid)
      | Inl low \<Rightarrow>
          if low > 0 \<and> (start (bs ! nat (low - 1)) = blob_end (bs ! nat (low - 1)) \<or> blob_end (bs ! nat (low - 1)) = a)
          then Some (bs ! nat (low - 1)) else None)"

definition probe_frame :: "frame_desc list \<Rightarrow> u32 \<Rightarrow> int \<Rightarrow> verdict" where
  "probe_frame fs l i =
     (if fd_loc (fs ! nat i) < l then Go_Right else if fd_loc (fs ! nat i) > l then Go_Left else Here)"

definition findFrameDesc :: "u64 \<Rightarrow> code_cache \<Rightarrow> frame_desc" where
  "findFrameDesc pc c =
     (let target_loc = ucast (pc - text_base c) :: u32; fs = dwarf_table c in
      case search_loop (probe_frame fs target_loc) 0 (int (length fs) - 1) of
        Inr mid \<Rightarrow> fs ! nat mid
      | Inl low \<Rightarrow>
          if low > 0 then fs ! nat (low - 1)
          else if target_loc - plt_offset c < plt_size c then empty_frame else default_frame)"

section \<open>Imports\<close>

definition saveImport :: "ImportId \<Rightarrow> u64 \<Rightarrow> code_cache \<Rightarrow> code_cache" where
  "saveImport im entry c =
     (let row = import_slots c ! import_index im in
      if row ! 0 = 0 then c\<lparr>import_slots := (import_slots c)[import_index im := row[0 := entry]]\<rparr>
      else if row ! 1 = 0 then c\<lparr>import_slots := (import_slots c)[import_index im := row[1 := entry]]\<rparr>
      else c)"

definition import_of :: "string \<Rightarrow> ImportId option" where
  "import_of name =
     (case name of
        [] \<Rightarrow> None
      | ch # _ \<Rightarrow>
          if ch = CHR ''c'' then (if name = ''calloc'' then Some im_calloc else None)
          else if ch = CHR ''d'' then (if name = ''dlopen'' then Some im_dlopen else None)
          else if ch = CHR ''f'' then (if name = ''free'' then Some im_free else None)
          else if ch = CHR ''m'' then (if name = ''malloc'' then Some im_malloc else None)
          else if ch = CHR ''p'' then
            (if name = ''pthread_create'' then Some im_pthread_create
             else if name = ''pthread_exit'' then Some im_pthread_exit
             else if name = ''pthread_setspecific'' then Some im_pthread_setspecific
             else if name = ''poll'' then Some im_poll else None)
          else if ch = CHR ''r'' then (if name = ''realloc'' then Some im_realloc else None)
          else None)"

definition addImport :: "u64 \<Rightarrow> string \<Rightarrow> code_cache \<Rightarrow> code_cache" where
  "addImport entry name c = (case import_of name of None \<Rightarrow> c | Some im \<Rightarrow> saveImport im entry c)"

text \<open>The page range that \<^verbatim>\<open>makeImportsPatchable\<close> makes writable, if there is any import.\<close>

definition makeImportsPatchable :: "u64 \<Rightarrow> u64 \<Rightarrow> code_cache \<Rightarrow> (u64 \<times> u64) option" where
  "makeImportsPatchable page_mask page_size c =
     (let entries = filter (\<lambda>e. e \<noteq> 0) (concat (import_slots c));
          min_import = fold (\<lambda>e m. if e < m then e else m) entries (-1);
          max_import = fold (\<lambda>e m. if e > m then e else m) entries 0;
          patch_start = min_import AND NOT page_mask;
          patch_end = max_import AND NOT page_mask
      in if max_import \<noteq> 0 then Some (patch_start, patch_end - patch_start + page_size) else None)"

text \<open>The range given to \<^verbatim>\<open>mprotect\<close> before the first use of the imports.\<close>

definition ensure_patchable :: "u64 \<Rightarrow> u64 \<Rightarrow> code_cache \<Rightarrow> (u64 \<times> u64) option \<times> code_cache" where
  "ensure_patchable page_mask page_size c =
     (if imports_patchable c then (None, c)
      else (makeImportsPatchable page_mask page_size c, c\<lparr>imports_patchable := True\<rparr>))"

definition findImport :: "u64 \<Rightarrow> u64 \<Rightarrow> ImportId \<Rightarrow> code_cache \<Rightarrow> u64 \<times> (u64 \<times> u64) option \<times> code_cache" where
  "findImport page_mask page_size im c =
     (import_slots c ! import_index im ! 0, ensure_patchable page_mask page_size c)"

text \<open>The cells that are overwritten with the hook.\<close>

definition patchImport ::
  "u64 \<Rightarrow> u64 \<Rightarrow> ImportId \<Rightarrow> u64 \<Rightarrow> code_cache \<Rightarrow> (u64 \<times> u64) list \<times> (u64 \<times> u64) option \<times> code_cache" where
  "patchImport page_mask page_size im hook c =
     (map (\<lambda>entry. (entry, hook)) (filter (\<lambda>e. e \<noteq> 0) (import_slots c ! import_index im)),
      ensure_patchable page_mask page_size c)"

definition cc_memoryUsage :: "code_cache \<Rightarrow> nat" where
  "cc_memoryUsage c = cc_capacity c * 8 + length (blobs c) * 4"

section \<open>The array of libraries\<close>

type_synonym code_cache_array = "code_cache list"

text \<open>\<^verbatim>\<open>CodeCacheArray::add\<close> does not check the bound of the array; \<open>None\<close> is a store outside it.\<close>

definition array_add :: "code_cache \<Rightarrow> code_cache_array \<Rightarrow> code_cache_array option" where
  "array_add lib libs = (if length libs < MAX_NATIVE_LIBS then Some (libs @ [lib]) else None)"

definition array_memoryUsage :: "code_cache_array \<Rightarrow> nat" where
  "array_memoryUsage libs = sum_list (map cc_memoryUsage libs)"

section \<open>Sorting is correct\<close>

lemma mset_insert_by [simp]: "mset (insert_by cmp x ys) = add_mset x (mset ys)"
  by (induction ys) auto

lemma mset_qsort: "mset (qsort cmp xs) = mset xs"
  unfolding qsort_def by (induction xs) auto

lemma set_insert_by [simp]: "set (insert_by cmp x ys) = insert x (set ys)"
  by (induction ys) auto

lemma sorted_insert_by:
  assumes total: "\<And>a b. cmp a b \<le> (0::int) \<or> cmp b a \<le> 0"
    and trans: "\<And>a b c. cmp a b \<le> 0 \<Longrightarrow> cmp b c \<le> 0 \<Longrightarrow> cmp a c \<le> 0"
  shows "sorted_wrt (\<lambda>a b. cmp a b \<le> 0) ys \<Longrightarrow> sorted_wrt (\<lambda>a b. cmp a b \<le> 0) (insert_by cmp x ys)"
proof (induction ys)
  case (Cons y ys)
  show ?case
  proof (cases "cmp x y \<le> 0")
    case True
    with Cons.prems trans show ?thesis by auto
  next
    case False
    with total have "cmp y x \<le> 0" by blast
    with Cons False show ?thesis by auto
  qed
qed simp

lemma comparator_total: "blob_comparator a b \<le> 0 \<or> blob_comparator b a \<le> 0"
  by (auto simp: blob_comparator_def)

lemma comparator_le: "blob_comparator a b \<le> 0 \<longleftrightarrow> start a < start b \<or> (start a = start b \<and> blob_end b \<le> blob_end a)"
  by (auto simp: blob_comparator_def)

lemma sorted_qsort_blobs: "sorted_wrt (\<lambda>a b. blob_comparator a b \<le> 0) (qsort blob_comparator bs)"
  unfolding qsort_def
proof (induction bs)
  case (Cons b bs)
  have "sorted_wrt (\<lambda>a b. blob_comparator a b \<le> 0) (insert_by blob_comparator b (foldr (insert_by blob_comparator) bs []))"
    by (rule sorted_insert_by [OF comparator_total _ Cons]) (auto simp: comparator_le)
  then show ?case by simp
qed simp

text \<open>
  \<^verbatim>\<open>CodeCache::sort\<close> permutes the blobs into the order of the comparator: by increasing start and, for
  equal starts, the longer one first; and it sets the bounds that were unset from the first and last blob.
\<close>

theorem sort_blobs_ordered:
  "mset (blobs (sort_blobs c)) = mset (blobs c)
   \<and> sorted_wrt (\<lambda>a b. start a < start b \<or> (start a = start b \<and> blob_end b \<le> blob_end a)) (blobs (sort_blobs c))
   \<and> (blobs c \<noteq> [] \<longrightarrow> min_address c = NO_MIN_ADDRESS \<longrightarrow>
        (\<forall>b \<in> set (blobs c). min_address (sort_blobs c) \<le> start b))"
proof (cases "blobs c = []")
  case True
  then show ?thesis by (simp add: sort_blobs_def)
next
  case False
  let ?bs = "qsort blob_comparator (blobs c)"
  have bs: "blobs (sort_blobs c) = ?bs" using False by (simp add: sort_blobs_def Let_def)
  have s: "sorted_wrt (\<lambda>a b. start a < start b \<or> (start a = start b \<and> blob_end b \<le> blob_end a)) ?bs"
    using sorted_qsort_blobs [of "blobs c"] by (simp add: comparator_le)
  have set: "set ?bs = set (blobs c)" using mset_qsort [of blob_comparator "blobs c"] by (metis set_mset_mset)
  have ne: "?bs \<noteq> []" using False set by (metis set_empty)
  have hd: "start (hd ?bs) \<le> start b" if "b \<in> set ?bs" for b
  proof (cases ?bs)
    case (Cons x xs)
    then show ?thesis using s that by (auto simp: less_imp_le)
  qed (use ne in simp)
  have "min_address (sort_blobs c) = start (hd ?bs)" if "min_address c = NO_MIN_ADDRESS"
    using False that by (simp add: sort_blobs_def Let_def)
  then show ?thesis using bs s hd set mset_qsort [of blob_comparator "blobs c"] by simp
qed

theorem sort_blobs_ordered_witness:
  "\<forall>b \<in> set (blobs (add_blob 0x1000 32 ''f'' False (add_blob 0x2000 16 ''g'' False (new_CodeCache ''lib'' 0 False NO_MIN_ADDRESS NO_MAX_ADDRESS)))).
     min_address (sort_blobs (add_blob 0x1000 32 ''f'' False (add_blob 0x2000 16 ''g'' False (new_CodeCache ''lib'' 0 False NO_MIN_ADDRESS NO_MAX_ADDRESS)))) \<le> start b"
proof -
  let ?c = "add_blob 0x1000 32 ''f'' False (add_blob 0x2000 16 ''g'' False (new_CodeCache ''lib'' 0 False NO_MIN_ADDRESS NO_MAX_ADDRESS))"
  have "blobs ?c \<noteq> []" "min_address ?c = NO_MIN_ADDRESS"
    by (simp_all add: add_blob_def new_CodeCache_def Let_def INITIAL_CODE_CACHE_CAPACITY_def)
  then show ?thesis using sort_blobs_ordered [of ?c] by blast
qed

section \<open>Bisection\<close>

text \<open>
  The contract of a table that can be bisected: where the probe says go right, it does so for all smaller
  positions, where it says go left, for all larger ones, and around a hit it points to the hit.
\<close>

locale bisection =
  fixes probe :: "'t \<Rightarrow> 'k \<Rightarrow> int \<Rightarrow> verdict" and len :: "'t \<Rightarrow> int" and wf :: "'t \<Rightarrow> bool"
  assumes len_nonneg: "0 \<le> len t"
    and right_down: "wf t \<Longrightarrow> 0 \<le> i \<Longrightarrow> i < j \<Longrightarrow> j < len t \<Longrightarrow> probe t k j \<noteq> Go_Left \<Longrightarrow> probe t k i = Go_Right"
    and left_up: "wf t \<Longrightarrow> 0 \<le> i \<Longrightarrow> i < j \<Longrightarrow> j < len t \<Longrightarrow> probe t k i \<noteq> Go_Right \<Longrightarrow> probe t k j = Go_Left"
begin

definition frontier :: "'t \<Rightarrow> 'k \<Rightarrow> int \<Rightarrow> int \<Rightarrow> bool" where
  "frontier t k low high \<longleftrightarrow> 0 \<le> low \<and> low \<le> high + 1 \<and> high < len t
     \<and> (\<forall>i. 0 \<le> i \<longrightarrow> i < low \<longrightarrow> probe t k i = Go_Right) \<and> (\<forall>i. high < i \<longrightarrow> i < len t \<longrightarrow> probe t k i = Go_Left)"

lemma mid_between: "low \<le> high \<Longrightarrow> low \<le> (low + high) div 2 \<and> (low + high) div 2 \<le> (high :: int)"
  by linarith

lemma search_from:
  assumes "wf t" and "frontier t k low high"
  shows "case search_loop (probe t k) low high of
      Inr m \<Rightarrow> 0 \<le> m \<and> m < len t \<and> probe t k m = Here
    | Inl l \<Rightarrow> frontier t k l (l - 1)"
  using assms(2)
proof (induction "probe t k" low high rule: search_loop.induct)
  case (1 low high)
  show ?case
  proof (cases "low \<le> high")
    case False
    then have "high = low - 1" using "1.prems" by (simp add: frontier_def)
    then show ?thesis using False "1.prems" by (subst search_loop.simps) simp
  next
    case True
    define mid where "mid = (low + high) div 2"
    have m: "low \<le> mid" "mid \<le> high" using mid_between [OF True] by (simp_all add: mid_def)
    have inside: "0 \<le> mid" "mid < len t" using m "1.prems" by (auto simp: frontier_def)
    show ?thesis
    proof (cases "probe t k mid")
      case Go_Right
      have "\<forall>i. 0 \<le> i \<longrightarrow> i < mid + 1 \<longrightarrow> probe t k i = Go_Right"
        using right_down [OF assms(1) _ _ inside(2)] Go_Right by (metis verdict.distinct(1) zless_add1_eq)
      then have "frontier t k (mid + 1) high" using "1.prems" m by (simp add: frontier_def)
      with "1.hyps"(1) [OF True mid_def Go_Right] True Go_Right show ?thesis
        by (subst search_loop.simps) (simp add: Let_def mid_def)
    next
      case Go_Left
      have "\<forall>i. mid - 1 < i \<longrightarrow> i < len t \<longrightarrow> probe t k i = Go_Left"
        using left_up [OF assms(1) inside(1)] Go_Left by (metis verdict.distinct(1) order_le_less zle_diff1_eq not_less)
      then have "frontier t k low (mid - 1)" using "1.prems" m by (simp add: frontier_def)
      with "1.hyps"(2) [OF True mid_def Go_Left] True Go_Left show ?thesis
        by (subst search_loop.simps) (simp add: Let_def mid_def)
    next
      case Here
      then show ?thesis using True inside by (subst search_loop.simps) (simp add: Let_def mid_def)
    qed
  qed
qed

lemma search_hit:
  assumes "wf t" and "0 \<le> m" and "m < len t" and "probe t k m = Here"
  shows "search_loop (probe t k) 0 (len t - 1) = Inr m"
proof -
  have "frontier t k 0 (len t - 1)" using len_nonneg [of t] by (simp add: frontier_def)
  note res = search_from [OF assms(1) this]
  show ?thesis
  proof (cases "search_loop (probe t k) 0 (len t - 1)")
    case (Inl l)
    then have f: "frontier t k l (l - 1)" using res by simp
    then have "m < l \<longrightarrow> probe t k m = Go_Right" "l \<le> m \<longrightarrow> probe t k m = Go_Left"
      using assms(2,3) by (auto simp: frontier_def)
    then show ?thesis using assms(4) by (cases "m < l") auto
  next
    case (Inr n)
    then have n: "0 \<le> n" "n < len t" "probe t k n = Here" using res by simp_all
    then have "n = m"
      using right_down [OF assms(1), of n m k] right_down [OF assms(1), of m n k] assms(2-4)
      by (cases n m rule: linorder_cases) auto
    then show ?thesis using Inr by simp
  qed
qed

lemma search_miss:
  assumes "wf t" and "\<forall>i. 0 \<le> i \<longrightarrow> i < len t \<longrightarrow> probe t k i \<noteq> Here"
  obtains l where "search_loop (probe t k) 0 (len t - 1) = Inl l" and "0 \<le> l" and "l \<le> len t"
    and "\<forall>i. 0 \<le> i \<longrightarrow> i < l \<longrightarrow> probe t k i = Go_Right" and "\<forall>i. l \<le> i \<longrightarrow> i < len t \<longrightarrow> probe t k i = Go_Left"
proof -
  have "frontier t k 0 (len t - 1)" using len_nonneg [of t] by (simp add: frontier_def)
  note res = search_from [OF assms(1) this]
  then obtain l where l: "search_loop (probe t k) 0 (len t - 1) = Inl l"
    using assms(2) by (cases "search_loop (probe t k) 0 (len t - 1)") auto
  with res have "frontier t k l (l - 1)" by simp
  then show ?thesis using that [OF l] by (auto simp: frontier_def)
qed

end

lemma filter_prefix:
  assumes "k \<le> length xs" and "\<forall>i < k. P (xs ! i)" and "\<forall>i. k \<le> i \<longrightarrow> i < length xs \<longrightarrow> \<not> P (xs ! i)"
  shows "filter P xs = take k xs"
proof -
  have "filter P (take k xs) = take k xs"
    using assms(1,2) by (intro filter_True) (auto simp: in_set_conv_nth)
  moreover have "filter P (drop k xs) = []"
    using assms(1,3) by (auto simp: filter_empty_conv in_set_conv_nth)
  ultimately show ?thesis using filter_append [of P "take k xs" "drop k xs"] by simp
qed

lemma last_take_nth: "0 < k \<Longrightarrow> k \<le> length xs \<Longrightarrow> last (take k xs) = xs ! (k - 1)"
  by (subst last_conv_nth) auto

definition disjoint_blobs :: "code_blob list \<Rightarrow> bool" where
  "disjoint_blobs bs \<longleftrightarrow> sorted_wrt (\<lambda>a b. blob_end a \<le> start b) bs \<and> (\<forall>b \<in> set bs. start b \<le> blob_end b)"

lemma disjoint_blobsD:
  assumes "disjoint_blobs bs" and "0 \<le> i" and "i < j" and "j < int (length bs)"
  shows "blob_end (bs ! nat i) \<le> start (bs ! nat j)" and "start (bs ! nat j) \<le> blob_end (bs ! nat j)"
proof -
  have "nat i < nat j" "nat j < length bs" using assms by auto
  then show "blob_end (bs ! nat i) \<le> start (bs ! nat j)"
    using assms(1) by (simp add: disjoint_blobs_def sorted_wrt_iff_nth_less)
  show "start (bs ! nat j) \<le> blob_end (bs ! nat j)"
    using assms(1) \<open>nat j < length bs\<close> by (simp add: disjoint_blobs_def)
qed

interpretation blob_search: bisection probe_blob "\<lambda>bs. int (length bs)" disjoint_blobs
proof (unfold_locales, goal_cases)
  case (2 bs i j a)
  note d = disjoint_blobsD [OF 2(1-4)]
  have "start (bs ! nat j) \<le> a" using 2(5) d(2) by (auto simp: probe_blob_def not_le split: if_splits)
  then show ?case using d(1) by (simp add: probe_blob_def)
next
  case (3 bs i j a)
  note d = disjoint_blobsD [OF 3(1-4)]
  have "a < blob_end (bs ! nat i)" using 3(5) by (auto simp: probe_blob_def split: if_splits)
  then have "a < start (bs ! nat j)" "a < blob_end (bs ! nat j)" using d by auto
  then show ?case by (simp add: probe_blob_def not_le)
qed simp

definition strict_frames :: "frame_desc list \<Rightarrow> bool" where
  "strict_frames fs \<longleftrightarrow> sorted_wrt (\<lambda>f g. fd_loc f < fd_loc g) fs"

lemma strict_framesD:
  assumes "strict_frames fs" and "0 \<le> i" and "i < j" and "j < int (length fs)"
  shows "fd_loc (fs ! nat i) < fd_loc (fs ! nat j)"
proof -
  have "nat i < nat j" "nat j < length fs" using assms by auto
  then show ?thesis using assms(1) by (simp add: strict_frames_def sorted_wrt_iff_nth_less)
qed

interpretation frame_search: bisection probe_frame "\<lambda>fs. int (length fs)" strict_frames
proof (unfold_locales, goal_cases)
  case (2 fs i j l)
  then have "fd_loc (fs ! nat j) \<le> l" by (auto simp: probe_frame_def not_less split: if_splits)
  then show ?case using strict_framesD [OF 2(1-4)] by (simp add: probe_frame_def)
next
  case (3 fs i j l)
  then have "l \<le> fd_loc (fs ! nat i)" by (auto simp: probe_frame_def not_less split: if_splits)
  then show ?case using strict_framesD [OF 3(1-4)] by (auto simp: probe_frame_def)
qed simp

section \<open>The searches find what they should\<close>

lemma probe_blob_Here: "probe_blob bs a i = Here \<longleftrightarrow> start (bs ! nat i) \<le> a \<and> a < blob_end (bs ! nat i)"
  by (auto simp: probe_blob_def)

lemma binarySearch_hit:
  assumes "disjoint_blobs (blobs c)" and "findBlobByAddress a c = Some b"
  shows "binarySearch a c = Some b"
proof -
  obtain i where i: "i < length (blobs c)" "b = blobs c ! i" "start b \<le> a" "a < blob_end b"
    using assms(2) by (auto simp: findBlobByAddress_def find_Some_iff)
  then have "search_loop (probe_blob (blobs c) a) 0 (int (length (blobs c)) - 1) = Inr (int i)"
    by (intro blob_search.search_hit assms(1)) (simp_all add: probe_blob_Here)
  then show ?thesis using i by (simp add: binarySearch_def)
qed

lemma binarySearch_miss:
  assumes "disjoint_blobs (blobs c)" and "findBlobByAddress a c = None"
  shows "binarySearch a c =
     (let below = filter (\<lambda>b. blob_end b \<le> a) (blobs c)
      in if below \<noteq> [] \<and> (start (last below) = blob_end (last below) \<or> blob_end (last below) = a)
         then Some (last below) else None)"
proof -
  let ?bs = "blobs c"
  have "\<forall>i. 0 \<le> i \<longrightarrow> i < int (length ?bs) \<longrightarrow> probe_blob ?bs a i \<noteq> Here"
    using assms(2) by (auto simp: findBlobByAddress_def find_None_iff probe_blob_Here nat_less_iff)
  then obtain l where l: "search_loop (probe_blob ?bs a) 0 (int (length ?bs) - 1) = Inl l" "0 \<le> l" "l \<le> int (length ?bs)"
      "\<forall>i. 0 \<le> i \<longrightarrow> i < l \<longrightarrow> probe_blob ?bs a i = Go_Right" "\<forall>i. l \<le> i \<longrightarrow> i < int (length ?bs) \<longrightarrow> probe_blob ?bs a i = Go_Left"
    using blob_search.search_miss [OF assms(1)] by blast
  have "\<forall>i < nat l. blob_end (?bs ! i) \<le> a"
  proof (intro allI impI)
    fix i assume "i < nat l"
    then have "probe_blob ?bs a (int i) = Go_Right" using l(4) by simp
    then show "blob_end (?bs ! i) \<le> a" by (simp add: probe_blob_def split: if_splits)
  qed
  moreover have "\<forall>i. nat l \<le> i \<longrightarrow> i < length ?bs \<longrightarrow> \<not> blob_end (?bs ! i) \<le> a"
  proof (intro allI impI)
    fix i assume "nat l \<le> i" "i < length ?bs"
    then have "probe_blob ?bs a (int i) = Go_Left" using l(5) by simp
    then show "\<not> blob_end (?bs ! i) \<le> a" by (simp add: probe_blob_def split: if_splits)
  qed
  ultimately have f: "filter (\<lambda>b. blob_end b \<le> a) ?bs = take (nat l) ?bs"
    using l(3) by (intro filter_prefix) simp_all
  have "last (take (nat l) ?bs) = ?bs ! nat (l - 1)" if "0 < l"
    using that l(3) last_take_nth [of "nat l" ?bs] by (simp add: nat_diff_distrib)
  then show ?thesis
    using l(1,2,3) unfolding binarySearch_def Let_def f by (cases "0 < l") auto
qed

text \<open>
  C24. \<^verbatim>\<open>CodeCache::binarySearch\<close> on disjoint blobs in address order agrees with the linear
  \<^verbatim>\<open>findBlobByAddress\<close>: it finds the blob that contains the address; and when there is none, it takes the
  last blob that ends at or before the address, provided it is empty or ends exactly there, and otherwise
  falls back to the library.
\<close>

theorem binarySearch_linear:
  assumes "disjoint_blobs (blobs c)"
  shows "binarySearch a c =
     (case findBlobByAddress a c of
        Some b \<Rightarrow> Some b
      | None \<Rightarrow>
          (let below = filter (\<lambda>b. blob_end b \<le> a) (blobs c)
           in if below \<noteq> [] \<and> (start (last below) = blob_end (last below) \<or> blob_end (last below) = a)
              then Some (last below) else None))"
  using binarySearch_hit [OF assms] binarySearch_miss [OF assms] by (cases "findBlobByAddress a c") simp_all

theorem binarySearch_linear_witness:
  "disjoint_blobs (blobs (add_blob 0x2000 16 ''g'' False (add_blob 0x1000 32 ''f'' False (new_CodeCache ''lib'' 0 False 0 0))))
   \<and> map_option start (binarySearch 0x1010 (add_blob 0x2000 16 ''g'' False (add_blob 0x1000 32 ''f'' False (new_CodeCache ''lib'' 0 False 0 0)))) = Some 0x1000"
proof -
  let ?c = "add_blob 0x2000 16 ''g'' False (add_blob 0x1000 32 ''f'' False (new_CodeCache ''lib'' 0 False 0 0))"
  have d: "disjoint_blobs (blobs ?c)"
    by (simp add: disjoint_blobs_def add_blob_def new_CodeCache_def Let_def INITIAL_CODE_CACHE_CAPACITY_def)
  have "map_option start (findBlobByAddress 0x1010 ?c) = Some 0x1000"
    by (simp add: findBlobByAddress_def add_blob_def new_CodeCache_def Let_def INITIAL_CODE_CACHE_CAPACITY_def)
  then show ?thesis using d binarySearch_linear [OF d, of "0x1010"] by (auto split: option.splits)
qed

lemma probe_frame_Here: "probe_frame fs l i = Here \<longleftrightarrow> fd_loc (fs ! nat i) = l"
  by (auto simp: probe_frame_def)

lemma probe_frame_pos:
  assumes "strict_frames fs"
  obtains k where "k \<le> length fs" and "\<forall>i < k. fd_loc (fs ! i) \<le> l" and "\<forall>i. k \<le> i \<longrightarrow> i < length fs \<longrightarrow> \<not> fd_loc (fs ! i) \<le> l"
    and "search_loop (probe_frame fs l) 0 (int (length fs) - 1) = (if k > 0 \<and> fd_loc (fs ! (k - 1)) = l then Inr (int k - 1) else Inl (int k))"
proof (cases "\<exists>m < length fs. fd_loc (fs ! m) = l")
  case True
  then obtain m where m: "m < length fs" "fd_loc (fs ! m) = l" by blast
  have "search_loop (probe_frame fs l) 0 (int (length fs) - 1) = Inr (int m)"
    using m by (intro frame_search.search_hit assms) (simp_all add: probe_frame_Here)
  moreover have "fd_loc (fs ! i) < l" if "i < m" for i
    using strict_framesD [OF assms, of "int i" "int m"] that m by simp
  then have "\<forall>i < Suc m. fd_loc (fs ! i) \<le> l" using m by (auto simp: less_Suc_eq less_imp_le)
  moreover have "\<not> fd_loc (fs ! i) \<le> l" if "Suc m \<le> i" "i < length fs" for i
    using strict_framesD [OF assms, of "int m" "int i"] that m by simp
  ultimately show ?thesis using that [of "Suc m"] m by simp
next
  case False
  then have "\<forall>i. 0 \<le> i \<longrightarrow> i < int (length fs) \<longrightarrow> probe_frame fs l i \<noteq> Here"
    by (auto simp: probe_frame_Here nat_less_iff)
  then obtain k where k: "search_loop (probe_frame fs l) 0 (int (length fs) - 1) = Inl k" "0 \<le> k" "k \<le> int (length fs)"
      "\<forall>i. 0 \<le> i \<longrightarrow> i < k \<longrightarrow> probe_frame fs l i = Go_Right" "\<forall>i. k \<le> i \<longrightarrow> i < int (length fs) \<longrightarrow> probe_frame fs l i = Go_Left"
    using frame_search.search_miss [OF assms] by blast
  have "fd_loc (fs ! i) \<le> l" if "i < nat k" for i
  proof -
    have "probe_frame fs l (int i) = Go_Right" using k(4) that by simp
    then show ?thesis by (simp add: probe_frame_def split: if_splits)
  qed
  moreover have "\<not> fd_loc (fs ! i) \<le> l" if "nat k \<le> i" "i < length fs" for i
  proof -
    have "probe_frame fs l (int i) = Go_Left" using k(5) that by simp
    then show ?thesis by (simp add: probe_frame_def split: if_splits)
  qed
  moreover have "\<not> (nat k > 0 \<and> fd_loc (fs ! (nat k - 1)) = l)"
  proof
    assume k0: "nat k > 0 \<and> fd_loc (fs ! (nat k - 1)) = l"
    then have "nat k - 1 < length fs" using k(3) by linarith
    with False k0 show False by blast
  qed
  ultimately show ?thesis using that [of "nat k"] k(1-3) by simp
qed

text \<open>
  C11. \<^verbatim>\<open>CodeCache::findFrameDesc\<close> on a frame table strictly sorted by address returns an entry with the rule
  in force at the program counter, and when no entry starts at or before it, the empty frame inside the PLT
  and the default frame elsewhere.
\<close>

theorem findFrameDesc_rule:
  assumes "strict_frames (dwarf_table c)" and "target = (ucast (pc - text_base c) :: u32)"
  shows "case rule_at (dwarf_table c) target of
      Some r \<Rightarrow> findFrameDesc pc c \<in> set (dwarf_table c) \<and> rule_of (findFrameDesc pc c) = r
    | None \<Rightarrow> findFrameDesc pc c = (if target - plt_offset c < plt_size c then empty_frame else default_frame)"
proof -
  let ?fs = "dwarf_table c"
  obtain k where k: "k \<le> length ?fs" "\<forall>i < k. fd_loc (?fs ! i) \<le> target"
      "\<forall>i. k \<le> i \<longrightarrow> i < length ?fs \<longrightarrow> \<not> fd_loc (?fs ! i) \<le> target"
      "search_loop (probe_frame ?fs target) 0 (int (length ?fs) - 1) =
        (if k > 0 \<and> fd_loc (?fs ! (k - 1)) = target then Inr (int k - 1) else Inl (int k))"
    by (rule probe_frame_pos [OF assms(1)])
  have hits: "filter (\<lambda>f. fd_loc f \<le> target) ?fs = take k ?fs" using k(1-3) by (intro filter_prefix) simp_all
  show ?thesis
  proof (cases "k = 0")
    case True
    then show ?thesis using k(4) hits assms(2) by (simp add: rule_at_def findFrameDesc_def Let_def)
  next
    case False
    have "findFrameDesc pc c = ?fs ! (k - 1)"
      using k(4) False assms(2) by (simp add: findFrameDesc_def Let_def nat_diff_distrib)
    moreover have "rule_at ?fs target = Some (rule_of (?fs ! (k - 1)))"
      using hits False k(1) last_take_nth [of k ?fs] by (auto simp: rule_at_def)
    moreover have "?fs ! (k - 1) \<in> set ?fs" using False k(1) by (intro nth_mem) simp
    ultimately show ?thesis by simp
  qed
qed

theorem findFrameDesc_rule_witness:
  "rule_of (findFrameDesc 0x1018 (setDwarfTable [row_desc (0x10, entry_cfi), row_desc (0x20, end_cfi)]
     (setTextBase 0x1000 (new_CodeCache ''lib'' 0 False 0 0)))) = rule_of (row_desc (0x10, entry_cfi))"
proof -
  let ?c = "setDwarfTable [row_desc (0x10, entry_cfi), row_desc (0x20, end_cfi)]
     (setTextBase 0x1000 (new_CodeCache ''lib'' 0 False 0 0))"
  have "strict_frames (dwarf_table ?c)" by (simp add: strict_frames_def setDwarfTable_def row_desc_def)
  from findFrameDesc_rule [OF this refl, of "0x1018"] show ?thesis
    by (simp add: rule_at_def setDwarfTable_def setTextBase_def new_CodeCache_def row_desc_def)
qed

section \<open>What does not hold\<close>

text \<open>
  \<^verbatim>\<open>findSymbolsByPrefix\<close> with a single prefix reports the address of the first blob of the library once
  for every blob whose name has the prefix, instead of the addresses of those blobs.
\<close>

theorem findSymbolsByPrefix_first_blob:
  assumes "blobs c = b # bs"
  shows "findSymbolsByPrefix [pre] c =
     replicate (length (filter (\<lambda>x. case blob_name x of Some f \<Rightarrow> has_prefix pre (fn_name f) | None \<Rightarrow> False) (blobs c)))
       (Some (start b))"
proof -
  have "concat (map (\<lambda>x. case blob_name x of None \<Rightarrow> []
        | Some f \<Rightarrow> map (\<lambda>i. if i < length (blobs c) then Some (start (blobs c ! i)) else None)
            (filter (\<lambda>i. has_prefix ([pre] ! i) (fn_name f)) [0..<length [pre]])) xs)
    = replicate (length (filter (\<lambda>x. case blob_name x of Some f \<Rightarrow> has_prefix pre (fn_name f) | None \<Rightarrow> False) xs)) (Some (start b))"
    for xs
    using assms by (induction xs) (auto split: option.split)
  then show ?thesis by (simp only: findSymbolsByPrefix_def)
qed

theorem findSymbolsByPrefix_first_blob_witness:
  "findSymbolsByPrefix [''g''] (add_blob 0x2000 16 ''g'' False (add_blob 0x1000 32 ''f'' False (new_CodeCache ''lib'' 0 False 0 0)))
   = [Some 0x1000]"
proof -
  let ?c = "add_blob 0x2000 16 ''g'' False (add_blob 0x1000 32 ''f'' False (new_CodeCache ''lib'' 0 False 0 0))"
  obtain b bs where b: "blobs ?c = b # bs" "start b = 0x1000"
    by (simp add: add_blob_def new_CodeCache_def Let_def INITIAL_CODE_CACHE_CAPACITY_def)
  show ?thesis
    using findSymbolsByPrefix_first_blob [OF b(1), of "''g''"] b(2)
    by (simp add: add_blob_def new_CodeCache_def Let_def INITIAL_CODE_CACHE_CAPACITY_def NativeFunc_create_def has_prefix_def
        printable_def)
qed
end
