(* ===== verification/Libraries.thy ===== *)
theory Libraries
  imports Prelude Code_Cache
begin

text \<open>
  Model of \<^verbatim>\<open>libraries.h\<close> and \<^verbatim>\<open>libraries.cpp\<close>: the search for a symbol or for a library among the native
  libraries. Parsing the libraries (\<^verbatim>\<open>updateSymbols\<close>) belongs to the symbol parser; \<^verbatim>\<open>VM::isOpenJ9\<close> and
  \<^verbatim>\<open>VMStructs::libjvm\<close> are parameters.
\<close>

section \<open>Mangling\<close>

text \<open>\<^verbatim>\<open>strstr(name, "::")\<close>: the text before the separator and the text behind it.\<close>

fun split_scope :: "string \<Rightarrow> string \<Rightarrow> (string \<times> string) option" where
  "split_scope acc (a # b # s) =
     (if a = CHR '':'' \<and> b = CHR '':'' then Some (rev acc, s) else split_scope (a # acc) (b # s))"
| "split_scope acc s = None"

lemma split_scope_shorter: "split_scope acc s = Some (pre, rest) \<Longrightarrow> length rest < length s"
  by (induction acc s rule: split_scope.induct) (auto split: if_splits)

text \<open>
  The buffer holds \<open>buf_size\<close> characters; the condition of the loop leaves room for the digits and the scope.
  The last \<^verbatim>\<open>snprintf\<close> is cut to what fits.
\<close>

function mangle_loop :: "nat \<Rightarrow> string \<Rightarrow> string \<Rightarrow> string" where
  "mangle_loop buf_size out name =
     (case split_scope [] name of
        Some (pre, rest) \<Rightarrow>
          if length out + length pre + 4 < buf_size then
            if length (dec (length pre)) \<ge> buf_size - length out
            then out @ take (buf_size - length out - 1) (dec (length pre))
            else mangle_loop buf_size (out @ dec (length pre) @ pre) rest
          else out @ take (buf_size - length out - 1) (dec (length name) @ name @ ''E*'')
      | None \<Rightarrow> out @ take (buf_size - length out - 1) (dec (length name) @ name @ ''E*''))"
  by pat_completeness auto
termination
  by (relation "measure (\<lambda>(_, _, name). length name)") (auto dest: split_scope_shorter)

declare mangle_loop.simps [simp del]

definition mangle :: "string \<Rightarrow> nat \<Rightarrow> string" where
  "mangle name buf_size = mangle_loop buf_size ''_ZN'' name"

section \<open>Lookup\<close>

fun first_nonzero :: "(code_cache \<Rightarrow> u64) \<Rightarrow> code_cache_array \<Rightarrow> u64" where
  "first_nonzero f [] = 0"
| "first_nonzero f (c # cs) = (if f c \<noteq> 0 then f c else first_nonzero f cs)"

definition resolveSymbol :: "string \<Rightarrow> code_cache_array \<Rightarrow> u64" where
  "resolveSymbol name0 libs =
     (let name = (if split_scope [] name0 \<noteq> None then mangle name0 256 else name0)
      in if name \<noteq> [] \<and> last name = CHR ''*''
         then first_nonzero (findSymbolByPrefix (butlast name)) libs
         else first_nonzero (findSymbol name) libs)"

definition findLibraryByName :: "string \<Rightarrow> code_cache_array \<Rightarrow> code_cache option" where
  "findLibraryByName lib_name libs =
     find (\<lambda>c. case strrchr_pos (fn_name (cc_name c)) (CHR ''/'') of
                 None \<Rightarrow> False | Some p \<Rightarrow> has_prefix lib_name (drop (p + 1) (fn_name (cc_name c)))) libs"

definition findJvmLibrary :: "bool \<Rightarrow> code_cache option \<Rightarrow> string \<Rightarrow> code_cache_array \<Rightarrow> code_cache option" where
  "findJvmLibrary isOpenJ9 libjvm j9_lib_name libs = (if isOpenJ9 then findLibraryByName j9_lib_name libs else libjvm)"

definition findLibraryByAddress :: "u64 \<Rightarrow> code_cache_array \<Rightarrow> code_cache option" where
  "findLibraryByAddress a libs = find (\<lambda>c. contains c a) libs"

section \<open>Properties\<close>

lemma dec_length: "n < 1000 \<Longrightarrow> length (dec n) \<le> 3"
  by (simp add: dec.simps [of n] dec.simps [of "n div 10"] dec.simps [of "n div 10 div 10"])

lemma mangle_loop_bound:
  "length out < buf_size \<Longrightarrow> buf_size \<le> 1000 \<Longrightarrow> length (mangle_loop buf_size out name) < buf_size"
proof (induction buf_size out name rule: mangle_loop.induct)
  case (1 buf_size out name)
  have cut: "length out + min n (buf_size - Suc (length out)) < buf_size" for n
    using "1.prems"(1) by simp
  show ?case
  proof (cases "split_scope [] name")
    case None
    then show ?thesis using cut by (subst mangle_loop.simps) (simp del: take_append)
  next
    case (Some pr)
    obtain pre rest where pr: "pr = (pre, rest)" by (cases pr)
    show ?thesis
    proof (cases "length out + length pre + 4 < buf_size \<and> \<not> buf_size - length out \<le> length (dec (length pre))")
      case True
      have "length (dec (length pre)) \<le> 3" using True "1.prems"(2) by (intro dec_length) simp
      then have "length (out @ dec (length pre) @ pre) < buf_size" using True by simp
      then show ?thesis
        using "1.IH" [OF Some] True "1.prems"(2) Some pr by (subst mangle_loop.simps) simp
    next
      case False
      then show ?thesis using cut Some pr by (subst mangle_loop.simps) (auto simp del: take_append)
    qed
  qed
qed

text \<open>
  Resolving a symbol: the mangled form of a qualified name always fits the 256 characters of its buffer,
  and \<^verbatim>\<open>resolveSymbol\<close> of a plain name returns the address from the first library that has the symbol at a
  non-zero address, and NULL only when none has.
\<close>

theorem resolveSymbol_spec:
  "length (mangle qualified 256) < 256
   \<and> (split_scope [] name = None \<longrightarrow> name \<noteq> [] \<longrightarrow> last name \<noteq> CHR ''*'' \<longrightarrow>
        resolveSymbol name libs =
          (case find (\<lambda>c. findSymbol name c \<noteq> 0) libs of None \<Rightarrow> 0 | Some c \<Rightarrow> findSymbol name c))"
proof -
  have "first_nonzero f libs = (case find (\<lambda>c. f c \<noteq> 0) libs of None \<Rightarrow> 0 | Some c \<Rightarrow> f c)" for f
    by (induction libs) auto
  moreover have "length (mangle qualified 256) < 256"
    unfolding mangle_def by (rule mangle_loop_bound) simp_all
  ultimately show ?thesis by (simp add: resolveSymbol_def)
qed

theorem resolveSymbol_spec_witness:
  "resolveSymbol ''f'' [new_CodeCache ''a'' 0 False 0 0, add_blob 0x1000 32 ''f'' False (new_CodeCache ''lib'' 1 False 0 0)] = 0x1000"
  using resolveSymbol_spec [of "[]" "''f''" "[new_CodeCache ''a'' 0 False 0 0, add_blob 0x1000 32 ''f'' False (new_CodeCache ''lib'' 1 False 0 0)]"]
  by (simp add: findSymbol_def findBlob_def add_blob_def new_CodeCache_def Let_def INITIAL_CODE_CACHE_CAPACITY_def
      NativeFunc_create_def printable_def)

end
