(* ===== verification/Liveness_Tracker.thy ===== *)
theory Liveness_Tracker
  imports Prelude Events Arguments
begin

text \<open>
  Model of \<^verbatim>\<open>livenessTracker.h/.cpp\<close>: the table of weak references to sampled objects.

  A weak reference is a number, 0 for NULL. The state keeps, besides the fields of the class, the number of
  entries of the allocated block (\<open>block_cap\<close>), which the code does not know, and the set of weak references
  that exist in the VM (\<open>weak_refs\<close>), so that storing outside the block is the error \<open>Outside_Block\<close> and a
  lost reference is visible. Operations run one at a time; that the shared lock may not be available is a
  parameter of \<^verbatim>\<open>track\<close>. From the VM come: which objects are dead, the classes of objects, the size of the
  heap, the ticks, and the random choice of the subsampling. The accumulated size of skipped samples is a
  \<^verbatim>\<open>double\<close> given by its bit pattern; its addition is a parameter.
\<close>

section \<open>State\<close>

definition MAX_TRACKING_TABLE_SIZE :: int where "MAX_TRACKING_TABLE_SIZE = 262144"
definition MIN_SAMPLING_INTERVAL :: int where "MIN_SAMPLING_INTERVAL = 524288"

record tracking_entry =
  te_ref :: nat
  te_alloc :: alloc_event
  te_skipped :: u64
  te_call_trace_id :: u32
  te_tid :: int
  te_time :: u64
  te_age :: int
  te_ctx :: ctx

record liveness_tracker =
  initialized :: bool
  enabled :: bool
  tab :: "tracking_entry list"
  table_size :: nat
  table_cap :: int
  table_max_cap :: int
  block_cap :: int
  subsample_ratio :: c_double
  lt_record_heap_usage :: bool
  gc_epoch :: u64
  last_gc_epoch :: u64
  used_after_last_gc :: u64
  weak_refs :: "nat set"

datatype liveness_error = Outside_Block

definition new_LivenessTracker :: liveness_tracker where
  "new_LivenessTracker =
     \<lparr>initialized = False, enabled = False, tab = [], table_size = 0, table_cap = 0, table_max_cap = 0, block_cap = 0,
      subsample_ratio = Fin (1 / 10), lt_record_heap_usage = False, gc_epoch = 0, last_gc_epoch = 0,
      used_after_last_gc = 0, weak_refs = {}\<rparr>"

section \<open>Cleaning up\<close>

text \<open>One round of the compaction loop: the array, the new size, and the references that remain in the VM.\<close>

definition compact_step ::
  "(nat \<Rightarrow> bool) \<Rightarrow> int \<Rightarrow> nat \<Rightarrow> tracking_entry list \<times> nat \<times> nat set \<Rightarrow> tracking_entry list \<times> nat \<times> nat set" where
  "compact_step dead epoch_diff i = (\<lambda>(t, newsz, refs).
     if te_ref (t ! i) \<noteq> 0 \<and> \<not> dead (te_ref (t ! i)) then
       (let t1 = (if newsz \<noteq> i
                  then t[newsz := t ! i, i := (t ! i)\<lparr>te_ref := 0, te_call_trace_id := 0\<rparr>] else t);
            t2 = t1[newsz := (t1 ! newsz)\<lparr>te_age := te_age (t1 ! newsz) + epoch_diff\<rparr>]
        in (t2, Suc newsz, refs))
     else
       (t[i := (t ! i)\<lparr>te_ref := 0, te_call_trace_id := 0\<rparr>], newsz, refs - {te_ref (t ! i)}))"

definition cleanup_table :: "(nat \<Rightarrow> bool) \<Rightarrow> bool \<Rightarrow> liveness_tracker \<Rightarrow> liveness_tracker" where
  "cleanup_table dead forced s =
     (let current = last_gc_epoch s; target = gc_epoch s in
      if target = last_gc_epoch s \<and> \<not> forced then s
      else
        (let epoch_diff = s32 (sint (target - current));
             s1 = s\<lparr>last_gc_epoch := target\<rparr>
         in if table_size s1 > 0 then
              (case fold (compact_step dead epoch_diff) [0..<table_size s1] (tab s1, 0, weak_refs s1) of
                 (t, newsz, refs) \<Rightarrow> s1\<lparr>tab := t, table_size := newsz, weak_refs := refs\<rparr>)
            else s1))"

section \<open>Flushing\<close>

text \<open>
  What the flush asks of the VM: which references are dead, the number of the class of an object in the class
  map, and the heap usage. \<open>skipped_u64\<close> is the conversion of the \<^verbatim>\<open>double\<close> to the integer field.
\<close>

record vm_view =
  is_dead :: "nat \<Rightarrow> bool"
  class_id :: "nat \<Rightarrow> u32"
  skipped_u64 :: "u64 \<Rightarrow> u64"
  last_gc_supported :: bool
  used_at_last_gc :: u64
  used_now :: u64

text \<open>What the flush hands over: the events with thread and call trace, the threads, and the heap usage.\<close>

record flushed =
  fl_events :: "(int \<times> u32 \<times> object_liveness_event) list"
  fl_threads :: "int set"
  fl_heap :: "(u64 \<times> bool) option"

definition liveness_event :: "vm_view \<Rightarrow> tracking_entry \<Rightarrow> object_liveness_event" where
  "liveness_event vm e =
     \<lparr>ol_id = class_id vm (te_ref e), ol_alloc = te_alloc e, ol_skipped = skipped_u64 vm (te_skipped e),
      ol_start_time = te_time e, ol_age = word_of_int (te_age e), ol_ctx = te_ctx e\<rparr>"

definition heap_usage :: "vm_view \<Rightarrow> liveness_tracker \<Rightarrow> (u64 \<times> bool) option" where
  "heap_usage vm s =
     (if lt_record_heap_usage s then
        (let used = (if last_gc_supported vm then used_at_last_gc vm else used_after_last_gc s)
         in Some (if used = 0 then (used_now vm, False) else (used, last_gc_supported vm)))
      else None)"

definition flush_entry :: "vm_view \<Rightarrow> tracking_entry \<Rightarrow> flushed \<Rightarrow> flushed" where
  "flush_entry vm e out =
     (if te_ref e \<noteq> 0 \<and> \<not> is_dead vm (te_ref e)
      then out\<lparr>fl_events := fl_events out @ [(te_tid e, te_call_trace_id e, liveness_event vm e)],
               fl_threads := insert (te_tid e) (fl_threads out)\<rparr>
      else out)"

definition flush_table :: "vm_view \<Rightarrow> liveness_tracker \<Rightarrow> flushed \<times> liveness_tracker" where
  "flush_table vm s =
     (let s1 = cleanup_table (is_dead vm) False s;
          out = fold (\<lambda>i. flush_entry vm (tab s1 ! i)) [0..<table_size s1] \<lparr>fl_events = [], fl_threads = {}, fl_heap = None\<rparr>
      in (out\<lparr>fl_heap := heap_usage vm s1\<rparr>, s1))"

definition flush :: "vm_view \<Rightarrow> liveness_tracker \<Rightarrow> flushed \<times> liveness_tracker" where
  "flush vm s = (if enabled s then flush_table vm s else (\<lparr>fl_events = [], fl_threads = {}, fl_heap = None\<rparr>, s))"

section \<open>Starting and stopping\<close>

definition initialize_table :: "int \<Rightarrow> int \<Rightarrow> liveness_tracker \<Rightarrow> bool \<times> liveness_tracker" where
  "initialize_table max_heap sampling_interval s =
     (if max_heap = -1 then (False, s\<lparr>table_max_cap := 0\<rparr>)
      else
        (let required = s32 (if sampling_interval > 0 then max_heap div sampling_interval else max_heap);
             max_cap = min MAX_TRACKING_TABLE_SIZE required
         in (True, s\<lparr>table_max_cap := max_cap, table_cap := max 2048 (max_cap div 8)\<rparr>)))"

text \<open>
  \<^verbatim>\<open>initialize\<close>; the error it returns is always \<^verbatim>\<open>Error::OK\<close>. The VM gives the version, the size of the
  heap and whether \<^verbatim>\<open>java.lang.Class#getName\<close> is found; the size of the sampling interval is cut to \<^verbatim>\<open>int\<close>.
\<close>

definition lt_initialize :: "int \<Rightarrow> int \<Rightarrow> bool \<Rightarrow> bool \<Rightarrow> arguments \<Rightarrow> liveness_tracker \<Rightarrow> liveness_tracker" where
  "lt_initialize hotspot_version max_heap getName_found malloc_ok args s =
     (let s1 = s\<lparr>enabled := gc_generations args \<or> record_liveness args\<rparr> in
      if \<not> enabled s1 \<or> initialized s1 then s1
      else
        (let s2 = s1\<lparr>initialized := True\<rparr> in
         if hotspot_version < 11 then s2\<lparr>table_max_cap := 0\<rparr>
         else
           (case initialize_table max_heap (s32 (memory args)) s2 of
              (False, s3) \<Rightarrow> s3\<lparr>table_max_cap := 0\<rparr>
            | (True, s3) \<Rightarrow>
                if \<not> getName_found then s3\<lparr>table_max_cap := 0\<rparr>
                else
                  (let cap = min 2048 (table_max_cap s3)
                   in s3\<lparr>subsample_ratio := live_samples_ratio args, tab := [], table_size := 0, table_cap := cap,
                         block_cap := (if malloc_ok \<and> cap \<ge> 0 then cap else 0),
                         lt_record_heap_usage := record_heap_usage args, gc_epoch := 0, last_gc_epoch := 0\<rparr>))))"

text \<open>\<^verbatim>\<open>start\<close> also says whether the GC notifications are switched on.\<close>

definition lt_start :: "int \<Rightarrow> int \<Rightarrow> bool \<Rightarrow> bool \<Rightarrow> arguments \<Rightarrow> liveness_tracker \<Rightarrow> bool \<times> liveness_tracker" where
  "lt_start hotspot_version max_heap getName_found malloc_ok args s =
     (let s1 = lt_initialize hotspot_version max_heap getName_found malloc_ok args s in (enabled s1, s1))"

definition lt_stop :: "vm_view \<Rightarrow> liveness_tracker \<Rightarrow> flushed \<times> liveness_tracker" where
  "lt_stop vm s =
     (if enabled s then (case flush_table vm (cleanup_table (is_dead vm) False s) of (out, s1) \<Rightarrow> (out\<lparr>fl_threads := {}\<rparr>, s1))
      else (\<lparr>fl_events = [], fl_threads = {}, fl_heap = None\<rparr>, s))"

definition onGC :: "bool \<Rightarrow> u64 \<Rightarrow> liveness_tracker \<Rightarrow> liveness_tracker" where
  "onGC supported used s =
     (if initialized s
      then (let s1 = s\<lparr>gc_epoch := gc_epoch s + 1\<rparr> in if supported then s1 else s1\<lparr>used_after_last_gc := used\<rparr>)
      else s)"

section \<open>Tracking an object\<close>

text \<open>The part of \<^verbatim>\<open>track\<close> under the shared lock: the index that was taken, if the table had room.\<close>

definition insert_entry :: "tracking_entry \<Rightarrow> liveness_tracker \<Rightarrow> liveness_error + bool \<times> liveness_tracker" where
  "insert_entry e s =
     (if int (table_size s) < table_cap s then
        if int (table_size s) < block_cap s
        then Inr (True, s\<lparr>tab := take (table_size s) (tab s) @ e # drop (Suc (table_size s)) (tab s), table_size := Suc (table_size s)\<rparr>)
        else Inl Outside_Block
      else Inr (False, s))"

text \<open>Growing the table; the capacity is raised even when \<^verbatim>\<open>realloc\<close> fails.\<close>

definition grow :: "bool \<Rightarrow> liveness_tracker \<Rightarrow> liveness_tracker" where
  "grow realloc_ok s =
     (let newcap = min (table_cap s * 2) (table_max_cap s) in
      if table_cap s \<noteq> newcap
      then s\<lparr>table_cap := newcap, block_cap := (if realloc_ok then newcap else block_cap s)\<rparr> else s)"

text \<open>
  \<^verbatim>\<open>track\<close>: \<open>sampled\<close> is the outcome of the subsampling, \<open>ref\<close> the new weak reference, \<open>lock1\<close> and \<open>lock2\<close>
  say whether the shared lock is obtained at the first and the second attempt. The result carries the
  \<^verbatim>\<open>skipped\<close> value of the thread.
\<close>

definition track ::
  "(nat \<Rightarrow> bool) \<Rightarrow> (u64 \<Rightarrow> alloc_event \<Rightarrow> u64) \<Rightarrow> bool \<Rightarrow> bool \<Rightarrow> bool \<Rightarrow> bool \<Rightarrow>
     alloc_event \<Rightarrow> int \<Rightarrow> nat \<Rightarrow> u32 \<Rightarrow> u64 \<Rightarrow> ctx \<Rightarrow> u64 \<times> liveness_tracker \<Rightarrow> liveness_error + u64 \<times> liveness_tracker" where
  "track dead add_skipped sampled lock1 lock2 realloc_ok ev tid ref call_trace_id ticks context = (\<lambda>(skipped, s).
     if \<not> enabled s \<or> table_max_cap s = 0 then Inr (skipped, s)
     else if \<not> sampled then Inr (add_skipped skipped ev, s)
     else if ref = 0 then Inr (skipped, s)
     else
       (let s0 = s\<lparr>weak_refs := insert ref (weak_refs s)\<rparr>;
            drop_ref = (\<lambda>s. s\<lparr>weak_refs := weak_refs s - {ref}\<rparr>);
            e = \<lparr>te_ref = ref, te_alloc = ev, te_skipped = skipped, te_call_trace_id = call_trace_id, te_tid = tid,
                 te_time = ticks, te_age = 0, te_ctx = context\<rparr>
        in if \<not> lock1 then Inr (skipped, drop_ref s0)
           else case insert_entry e s0 of
                  Inl err \<Rightarrow> Inl err
                | Inr (True, s1) \<Rightarrow> Inr (0, s1)
                | Inr (False, s1) \<Rightarrow>
                    if int (table_size s1) = table_cap s1 then
                      (let s2 = cleanup_table dead True s1 in
                       if table_cap s2 < table_max_cap s2 then
                         (let s3 = grow realloc_ok s2 in
                          if \<not> lock2 then Inr (skipped, drop_ref s3)
                          else case insert_entry e s3 of Inl err \<Rightarrow> Inl err | Inr (_, s4) \<Rightarrow> Inr (0, s4))
                       else Inr (0, s2))
                    else Inr (0, s1)))"

section \<open>Compaction\<close>

definition live_entry :: "(nat \<Rightarrow> bool) \<Rightarrow> tracking_entry \<Rightarrow> bool" where
  "live_entry dead e = (te_ref e \<noteq> 0 \<and> \<not> dead (te_ref e))"

definition advance_age :: "int \<Rightarrow> tracking_entry \<Rightarrow> tracking_entry" where
  "advance_age d e = e\<lparr>te_age := te_age e + d\<rparr>"

text \<open>The entries in use, and what the compaction loop has established after \<open>k\<close> rounds.\<close>

definition used_entries :: "liveness_tracker \<Rightarrow> tracking_entry list" where
  "used_entries s = take (table_size s) (tab s)"

definition compacted ::
  "(nat \<Rightarrow> bool) \<Rightarrow> int \<Rightarrow> tracking_entry list \<Rightarrow> nat set \<Rightarrow> nat \<Rightarrow> tracking_entry list \<times> nat \<times> nat set \<Rightarrow> bool" where
  "compacted dead d t0 refs0 k = (\<lambda>(t, newsz, refs).
     newsz \<le> k \<and> length t = length t0 \<and> drop k t = drop k t0 \<and>
     take newsz t = map (advance_age d) (filter (live_entry dead) (take k t0)) \<and>
     refs = refs0 - te_ref ` {e \<in> set (take k t0). \<not> live_entry dead e})"

lemma drop_nth_eq: "drop k t = drop k t0 \<Longrightarrow> k < length t0 \<Longrightarrow> length t = length t0 \<Longrightarrow> t ! k = t0 ! k"
  by (metis Cons_nth_drop_Suc list.inject)

lemma drop_Suc_eq: "drop k t = drop k t0 \<Longrightarrow> drop (Suc k) t = drop (Suc k) t0"
  by (metis drop_drop plus_1_eq_Suc)

lemma compacted_step:
  assumes inv: "compacted dead d t0 refs0 k acc" and k: "k < length t0"
  shows "compacted dead d t0 refs0 (Suc k) (compact_step dead d k acc)"
proof -
  obtain t n refs where acc: "acc = (t, n, refs)" by (cases acc)
  have n: "n \<le> k" and len: "length t = length t0" and dr: "drop k t = drop k t0"
    and tk: "take n t = map (advance_age d) (filter (live_entry dead) (take k t0))"
    and rf: "refs = refs0 - te_ref ` {e \<in> set (take k t0). \<not> live_entry dead e}"
    using inv by (auto simp: compacted_def acc)
  have nth: "t ! k = t0 ! k" by (rule drop_nth_eq [OF dr k len])
  have tS: "take (Suc k) t0 = take k t0 @ [t0 ! k]" by (rule take_Suc_conv_app_nth [OF k])
  note dS = drop_Suc_eq [OF dr]
  show ?thesis
  proof (cases "live_entry dead (t0 ! k)")
    case True
    have "take (Suc n) (t[n := v]) = take n t @ [v]" for v
      using n k len by (simp add: take_Suc_conv_app_nth)
    then show ?thesis
      using True n k len tk rf dS nth unfolding compacted_def acc compact_step_def
      by (auto simp: live_entry_def tS Let_def advance_age_def list_update_swap [of n k] nth_list_update
          take_Suc_conv_app_nth)
  next
    case False
    then show ?thesis
      using n k len tk rf dS nth unfolding compacted_def acc compact_step_def
      by (auto simp: live_entry_def tS)
  qed
qed

lemma compacted_fold:
  "k \<le> length t0 \<Longrightarrow> compacted dead d t0 refs0 k (fold (compact_step dead d) [0..<k] (t0, 0, refs0))"
proof (induction k)
  case 0
  show ?case by (simp add: compacted_def)
next
  case (Suc k)
  then show ?case by (simp add: compacted_step)
qed

text \<open>The effect of a clean-up that takes place, for the entries in use, the capacities and the references.\<close>

definition epoch_diff :: "liveness_tracker \<Rightarrow> int" where
  "epoch_diff s = s32 (sint (gc_epoch s - last_gc_epoch s))"

lemma cleanup_table_effect:
  assumes "forced \<or> gc_epoch s \<noteq> last_gc_epoch s" and "table_size s \<le> length (tab s)"
  shows "used_entries (cleanup_table dead forced s) =
           map (advance_age (epoch_diff s)) (filter (live_entry dead) (used_entries s))"
    and "weak_refs (cleanup_table dead forced s) =
           weak_refs s - te_ref ` {e \<in> set (used_entries s). \<not> live_entry dead e}"
    and "table_size (cleanup_table dead forced s) \<le> table_size s"
    and "length (tab (cleanup_table dead forced s)) = length (tab s)"
    and "last_gc_epoch (cleanup_table dead forced s) = gc_epoch s"
proof -
  obtain t n refs where f: "fold (compact_step dead (epoch_diff s)) [0..<table_size s] (tab s, 0, weak_refs s) = (t, n, refs)"
    by (metis prod_cases3)
  note c = compacted_fold [OF assms(2), of dead "epoch_diff s" "weak_refs s", unfolded f compacted_def, simplified]
  have cl: "cleanup_table dead forced s =
    (if table_size s > 0 then s\<lparr>last_gc_epoch := gc_epoch s, tab := t, table_size := n, weak_refs := refs\<rparr>
     else s\<lparr>last_gc_epoch := gc_epoch s\<rparr>)"
    using assms(1) f by (auto simp: cleanup_table_def Let_def epoch_diff_def)
  show "used_entries (cleanup_table dead forced s) =
           map (advance_age (epoch_diff s)) (filter (live_entry dead) (used_entries s))"
    and "weak_refs (cleanup_table dead forced s) =
           weak_refs s - te_ref ` {e \<in> set (used_entries s). \<not> live_entry dead e}"
    and "table_size (cleanup_table dead forced s) \<le> table_size s"
    and "length (tab (cleanup_table dead forced s)) = length (tab s)"
    and "last_gc_epoch (cleanup_table dead forced s) = gc_epoch s"
    using c by (auto simp: cl used_entries_def)
qed

lemma cleanup_table_keeps [simp]:
  "table_cap (cleanup_table dead forced s) = table_cap s"
  "table_max_cap (cleanup_table dead forced s) = table_max_cap s"
  "block_cap (cleanup_table dead forced s) = block_cap s"
  "enabled (cleanup_table dead forced s) = enabled s"
  "initialized (cleanup_table dead forced s) = initialized s"
  "gc_epoch (cleanup_table dead forced s) = gc_epoch s"
  by (simp_all add: cleanup_table_def Let_def split: prod.split)

lemma cleanup_table_idle: "\<not> forced \<Longrightarrow> gc_epoch s = last_gc_epoch s \<Longrightarrow> cleanup_table dead forced s = s"
  by (simp add: cleanup_table_def)

section \<open>Invariant\<close>

text \<open>
  The states of a tracker whose allocations succeed. The entries in use lie inside the allocated block, and
  each refers to a distinct existing weak reference.
\<close>

definition lt_ok :: "liveness_tracker \<Rightarrow> bool" where
  "lt_ok s \<longleftrightarrow> table_size s \<le> length (tab s) \<and> int (table_size s) \<le> max 0 (table_cap s) \<and>
     (table_max_cap s \<noteq> 0 \<longrightarrow> table_cap s \<le> block_cap s \<and> table_cap s \<le> table_max_cap s) \<and>
     (\<not> initialized s \<longrightarrow> table_size s = 0 \<and> table_max_cap s = 0) \<and>
     distinct (map te_ref (used_entries s)) \<and> set (map te_ref (used_entries s)) \<subseteq> weak_refs s \<and> 0 \<notin> weak_refs s"

inductive lt_reachable :: "liveness_tracker \<Rightarrow> bool" where
  lt_new: "lt_reachable new_LivenessTracker"
| lt_start_step: "lt_reachable s \<Longrightarrow> lt_reachable (snd (lt_start version max_heap found True args s))"
| lt_stop_step: "lt_reachable s \<Longrightarrow> lt_reachable (snd (lt_stop vm s))"
| lt_flush_step: "lt_reachable s \<Longrightarrow> lt_reachable (snd (flush vm s))"
| lt_gc_step: "lt_reachable s \<Longrightarrow> lt_reachable (onGC supported used s)"
| lt_track_step: "lt_reachable s \<Longrightarrow> ref \<notin> weak_refs s \<Longrightarrow>
    track dead add sampled lock1 lock2 True ev tid ref ctid ticks c (skipped, s) = Inr (skipped', s') \<Longrightarrow> lt_reachable s'"

lemma lt_ok_new: "lt_ok new_LivenessTracker"
  by (simp add: lt_ok_def new_LivenessTracker_def used_entries_def)

lemma te_ref_advance [simp]: "te_ref (advance_age d e) = te_ref e"
  by (simp add: advance_age_def)

lemma distinct_live_refs:
  assumes "distinct (map te_ref es)" and "set (map te_ref es) \<subseteq> refs"
  shows "set (map te_ref (filter p es)) \<subseteq> refs - te_ref ` {e \<in> set es. \<not> p e}"
proof -
  have "inj_on te_ref (set es)" using assms(1) by (simp add: distinct_map)
  then show ?thesis using assms(2) by (auto dest: inj_onD)
qed

lemma lt_ok_cleanup:
  assumes "lt_ok s"
  shows "lt_ok (cleanup_table dead forced s)"
proof (cases "forced \<or> gc_epoch s \<noteq> last_gc_epoch s")
  case True
  have sz: "table_size s \<le> length (tab s)" using assms by (simp add: lt_ok_def)
  note eff = cleanup_table_effect [OF True sz, of dead]
  have d: "distinct (map te_ref (used_entries s))" and sub: "set (map te_ref (used_entries s)) \<subseteq> weak_refs s"
    using assms by (simp_all add: lt_ok_def)
  have m: "map te_ref (map (advance_age (epoch_diff s)) (filter (live_entry dead) (used_entries s)))
      = map te_ref (filter (live_entry dead) (used_entries s))"
    by simp
  show ?thesis
    using assms eff(3,4) distinct_map_filter [OF d, of "live_entry dead"] distinct_live_refs [OF d sub, of "live_entry dead"]
    unfolding lt_ok_def eff(1,2) m by auto
next
  case False
  then show ?thesis using assms by (simp add: cleanup_table_idle)
qed

lemma lt_ok_flush_table: "lt_ok s \<Longrightarrow> lt_ok (snd (flush_table vm s))"
  by (simp add: flush_table_def Let_def lt_ok_cleanup)

lemma lt_ok_disabled:
  assumes "lt_ok s" and "\<not> initialized s"
  shows "lt_ok (s\<lparr>enabled := e, initialized := i, table_max_cap := 0\<rparr>)"
    and "c \<ge> 0 \<Longrightarrow> lt_ok (s\<lparr>enabled := e, initialized := i, table_cap := c, table_max_cap := 0\<rparr>)"
    and "lt_ok (s\<lparr>enabled := e\<rparr>)"
  using assms by (simp_all add: lt_ok_def used_entries_def)

lemma lt_ok_start:
  assumes ok: "lt_ok s"
  shows "lt_ok (snd (lt_start version max_heap found True args s))"
proof (cases "\<not> (gc_generations args \<or> record_liveness args) \<or> initialized s")
  case True
  then show ?thesis
    using ok by (auto simp: lt_start_def lt_initialize_def lt_ok_def used_entries_def Let_def)
next
  case False
  then have ni: "\<not> initialized s" and en: "gc_generations args \<or> record_liveness args" by auto
  note d = lt_ok_disabled [OF ok ni]
  let ?ok = "version \<ge> 11 \<and> max_heap \<noteq> -1 \<and> found"
  show ?thesis
  proof (cases ?ok)
    case True
    have "0 \<notin> weak_refs s" using ok by (simp add: lt_ok_def)
    then show ?thesis
      using True ni en by (auto simp: lt_start_def lt_initialize_def initialize_table_def Let_def lt_ok_def used_entries_def)
  next
    case nok: False
    show ?thesis
    proof (cases "version < 11 \<or> max_heap = -1")
      case True
      then show ?thesis
        using ni en d(1) [of True True] by (auto simp: lt_start_def lt_initialize_def initialize_table_def Let_def)
    next
      case False
      then show ?thesis
        using nok ni en d(2) [of _ True True]
        by (simp add: lt_start_def lt_initialize_def initialize_table_def Let_def)
    qed
  qed
qed

lemma lt_ok_insert:
  assumes "lt_ok s" and "te_ref e \<in> weak_refs s" and "te_ref e \<notin> set (map te_ref (used_entries s))"
    and "initialized s" and "insert_entry e s = Inr (b, s')"
  shows "lt_ok s'"
proof (cases "int (table_size s) < table_cap s")
  case True
  then have s': "s' = s\<lparr>tab := take (table_size s) (tab s) @ e # drop (Suc (table_size s)) (tab s), table_size := Suc (table_size s)\<rparr>"
    using assms(5) by (auto simp: insert_entry_def split: if_splits)
  have sz: "table_size s \<le> length (tab s)" using assms(1) by (simp add: lt_ok_def)
  then have u: "used_entries s' = used_entries s @ [e]" by (simp add: s' used_entries_def)
  have "set (map te_ref (used_entries s)) \<subseteq> weak_refs s" "distinct (map te_ref (used_entries s))"
    using assms(1) by (simp_all add: lt_ok_def)
  then have "set (map te_ref (used_entries s')) \<subseteq> weak_refs s" "distinct (map te_ref (used_entries s'))"
    using assms(2,3) unfolding u by auto
  then show ?thesis
    using assms(1,4) True sz unfolding lt_ok_def by (simp add: s')
next
  case False
  then have "s' = s" using assms(5) by (simp add: insert_entry_def)
  then show ?thesis using assms(1) by simp
qed

lemma lt_ok_grow: "lt_ok s \<Longrightarrow> table_cap s < table_max_cap s \<Longrightarrow> table_max_cap s \<noteq> 0 \<Longrightarrow> lt_ok (grow True s)"
  by (cases "initialized s") (auto simp: lt_ok_def grow_def Let_def used_entries_def)

lemma lt_ok_add_ref: "lt_ok s \<Longrightarrow> ref \<noteq> 0 \<Longrightarrow> lt_ok (s\<lparr>weak_refs := insert ref (weak_refs s)\<rparr>)"
  by (auto simp: lt_ok_def used_entries_def)

lemma lt_ok_drop_ref:
  "lt_ok s \<Longrightarrow> ref \<notin> set (map te_ref (used_entries s)) \<Longrightarrow> lt_ok (s\<lparr>weak_refs := weak_refs s - {ref}\<rparr>)"
  by (auto simp: lt_ok_def used_entries_def)

lemma insert_entry_inside: "lt_ok s \<Longrightarrow> table_max_cap s \<noteq> 0 \<Longrightarrow> \<exists>b s'. insert_entry e s = Inr (b, s')"
  by (auto simp: lt_ok_def insert_entry_def)

lemma grow_keeps [simp]:
  "tab (grow b s) = tab s" "table_size (grow b s) = table_size s" "weak_refs (grow b s) = weak_refs s"
  "initialized (grow b s) = initialized s" "table_max_cap (grow b s) = table_max_cap s" "enabled (grow b s) = enabled s"
  "used_entries (grow b s) = used_entries s"
  by (simp_all add: grow_def Let_def used_entries_def)

text \<open>The clean-up and the growth inside \<^verbatim>\<open>track\<close> leave the new reference unused and existing.\<close>

lemma cleanup_refs_subset:
  assumes "lt_ok s"
  shows "set (map te_ref (used_entries (cleanup_table dead forced s))) \<subseteq> set (map te_ref (used_entries s))"
proof (cases "forced \<or> gc_epoch s \<noteq> last_gc_epoch s")
  case True
  have "table_size s \<le> length (tab s)" using assms by (simp add: lt_ok_def)
  from cleanup_table_effect(1) [OF True this] show ?thesis by auto
qed (simp add: cleanup_table_idle)

lemma cleanup_keeps_other_ref:
  assumes "lt_ok s" and "ref \<in> weak_refs s" and "ref \<notin> set (map te_ref (used_entries s))"
  shows "ref \<in> weak_refs (cleanup_table dead forced s)"
proof (cases "forced \<or> gc_epoch s \<noteq> last_gc_epoch s")
  case True
  have "table_size s \<le> length (tab s)" using assms by (simp add: lt_ok_def)
  from cleanup_table_effect(2) [OF True this] show ?thesis using assms by auto
qed (use assms in \<open>simp add: cleanup_table_idle\<close>)

text \<open>
  What a call of \<^verbatim>\<open>track\<close> whose \<^verbatim>\<open>realloc\<close> succeeds does, with the state \<open>s0\<close> after the creation of the weak
  reference.
\<close>

lemma track_ok:
  assumes ok: "lt_ok s" and fresh: "ref \<notin> weak_refs s"
  shows "\<exists>skipped' s'. track dead add sampled lock1 lock2 True ev tid ref ctid ticks c (skipped, s) = Inr (skipped', s') \<and> lt_ok s'"
proof (cases "\<not> enabled s \<or> table_max_cap s = 0 \<or> \<not> sampled \<or> ref = 0")
  case True
  then show ?thesis using ok by (auto simp: track_def)
next
  case False
  define s0 where "s0 = s\<lparr>weak_refs := insert ref (weak_refs s)\<rparr>"
  define e where "e = \<lparr>te_ref = ref, te_alloc = ev, te_skipped = skipped, te_call_trace_id = ctid, te_tid = tid,
                 te_time = ticks, te_age = 0, te_ctx = c\<rparr>"
  have ok0: "lt_ok s0" using ok False by (simp add: s0_def lt_ok_add_ref)
  have m0: "table_max_cap s0 \<noteq> 0" and e_ref: "te_ref e = ref" using False by (simp_all add: s0_def e_def)
  have unused: "ref \<notin> set (map te_ref (used_entries s0))" and ex: "ref \<in> weak_refs s0"
    using ok fresh by (auto simp: s0_def lt_ok_def used_entries_def)
  have ini: "initialized s0" using ok0 m0 by (auto simp: lt_ok_def)
  have drop0: "lt_ok (s0\<lparr>weak_refs := weak_refs s0 - {ref}\<rparr>)" by (rule lt_ok_drop_ref [OF ok0 unused])
  have t: "track dead add sampled lock1 lock2 True ev tid ref ctid ticks c (skipped, s) =
    (if \<not> lock1 then Inr (skipped, s0\<lparr>weak_refs := weak_refs s0 - {ref}\<rparr>)
     else case insert_entry e s0 of
            Inl err \<Rightarrow> Inl err
          | Inr (True, s1) \<Rightarrow> Inr (0, s1)
          | Inr (False, s1) \<Rightarrow>
              if int (table_size s1) = table_cap s1 then
                (let s2 = cleanup_table dead True s1 in
                 if table_cap s2 < table_max_cap s2 then
                   (let s3 = grow True s2 in
                    if \<not> lock2 then Inr (skipped, s3\<lparr>weak_refs := weak_refs s3 - {ref}\<rparr>)
                    else case insert_entry e s3 of Inl err \<Rightarrow> Inl err | Inr (_, s4) \<Rightarrow> Inr (0, s4))
                 else Inr (0, s2))
              else Inr (0, s1))"
    using False unfolding track_def Let_def e_def s0_def by simp
  obtain b s1 where i1: "insert_entry e s0 = Inr (b, s1)" using insert_entry_inside [OF ok0 m0] by blast
  have ok1: "lt_ok s1"
    by (rule lt_ok_insert [OF ok0 _ _ ini i1]) (use ex unused e_ref in simp_all)
  show ?thesis
  proof (cases "lock1 \<and> \<not> b \<and> int (table_size s1) = table_cap s1 \<and> table_cap s1 < table_max_cap s1")
    case False
    then show ?thesis
      using drop0 ok1 lt_ok_cleanup [OF ok1, of dead True]
      by (auto simp: t i1 Let_def split: bool.split)
  next
    case True
    then have s1: "s1 = s0" using i1 by (auto simp: insert_entry_def split: if_splits)
    define s2 where "s2 = cleanup_table dead True s0"
    have ok2: "lt_ok s2" unfolding s2_def by (rule lt_ok_cleanup [OF ok0])
    have ok3: "lt_ok (grow True s2)"
      by (rule lt_ok_grow [OF ok2]) (use True m0 s1 in \<open>simp_all add: s2_def\<close>)
    have u2: "ref \<notin> set (map te_ref (used_entries s2))"
      using cleanup_refs_subset [OF ok0] unused unfolding s2_def by blast
    have r2: "ref \<in> weak_refs s2" unfolding s2_def by (rule cleanup_keeps_other_ref [OF ok0 ex unused])
    have m3: "table_max_cap (grow True s2) \<noteq> 0" using m0 by (simp add: s2_def)
    obtain b4 s4 where i4: "insert_entry e (grow True s2) = Inr (b4, s4)" using insert_entry_inside [OF ok3 m3] by blast
    have ok4: "lt_ok s4"
      by (rule lt_ok_insert [OF ok3 _ _ _ i4]) (use r2 u2 e_ref ini in \<open>simp_all add: s2_def\<close>)
    have d3: "lt_ok ((grow True s2)\<lparr>weak_refs := weak_refs (grow True s2) - {ref}\<rparr>)"
      by (rule lt_ok_drop_ref [OF ok3]) (use u2 in simp)
    have c2: "table_cap s2 < table_max_cap s2" using True s1 by (simp add: s2_def)
    show ?thesis
      using True i1 i4 ok4 d3 c2 unfolding t s1 by (simp add: Let_def s2_def [symmetric])
  qed
qed

lemma lt_ok_stop: "lt_ok s \<Longrightarrow> lt_ok (snd (lt_stop vm s))"
  by (simp add: lt_stop_def split_beta lt_ok_flush_table lt_ok_cleanup)

lemma lt_ok_flush: "lt_ok s \<Longrightarrow> lt_ok (snd (flush vm s))"
  by (simp add: flush_def lt_ok_flush_table)

lemma lt_ok_onGC: "lt_ok s \<Longrightarrow> lt_ok (onGC supported used s)"
  by (simp add: onGC_def Let_def lt_ok_def used_entries_def)

lemma lt_reachable_ok: "lt_reachable s \<Longrightarrow> lt_ok s"
proof (induction rule: lt_reachable.induct)
  case (lt_track_step s ref dead add sampled lock1 lock2 ev tid ctid ticks c skipped skipped' s')
  then show ?case using track_ok [of s ref dead add sampled lock1 lock2 ev tid ctid ticks c skipped] by auto
qed (simp_all add: lt_ok_new lt_ok_start lt_ok_stop lt_ok_flush lt_ok_onGC)

section \<open>Properties\<close>

text \<open>The loop of the flush collects what the live entries of a list contribute.\<close>

lemma flush_entries_fold:
  "fold (flush_entry vm) es out =
     out\<lparr>fl_events := fl_events out @ map (\<lambda>e. (te_tid e, te_call_trace_id e, liveness_event vm e)) (filter (live_entry (is_dead vm)) es),
         fl_threads := fl_threads out \<union> te_tid ` set (filter (live_entry (is_dead vm)) es)\<rparr>"
proof (induction es arbitrary: out)
  case (Cons e es)
  have "flush_entry vm e out = (if live_entry (is_dead vm) e
      then out\<lparr>fl_events := fl_events out @ [(te_tid e, te_call_trace_id e, liveness_event vm e)],
               fl_threads := insert (te_tid e) (fl_threads out)\<rparr> else out)"
    by (simp add: flush_entry_def live_entry_def)
  then show ?case by (simp only: fold.simps comp_apply Cons.IH) simp
qed simp

lemma fold_indices:
  assumes "n \<le> length xs"
  shows "fold (\<lambda>i. f (xs ! i)) [0..<n] a = fold f (take n xs) a"
proof -
  have "take n xs = map (\<lambda>i. xs ! i) [0..<n]" using assms by (simp add: list_eq_iff_nth_eq)
  then show ?thesis by (simp add: fold_map comp_def)
qed

lemma live_entry_advance [simp]: "live_entry dead (advance_age d e) = live_entry dead e"
  by (simp add: live_entry_def)

lemma epoch_diff_idle: "gc_epoch s = last_gc_epoch s \<Longrightarrow> epoch_diff s = 0"
  by (simp add: epoch_diff_def s32_def)

lemma advance_age_0 [simp]: "advance_age 0 = id"
  by (simp add: advance_age_def fun_eq_iff)

lemma cleanup_live_entries:
  assumes "table_size s \<le> length (tab s)"
  shows "filter (live_entry dead) (used_entries (cleanup_table dead False s)) =
           map (advance_age (epoch_diff s)) (filter (live_entry dead) (used_entries s))"
proof (cases "gc_epoch s = last_gc_epoch s")
  case True
  then show ?thesis by (simp add: cleanup_table_idle epoch_diff_idle)
next
  case False
  then show ?thesis using cleanup_table_effect(1) [of False s dead] assms by (simp add: filter_map comp_def)
qed

lemma used_entries_le: "lt_ok s \<Longrightarrow> table_size s \<le> length (tab s)"
  by (simp add: lt_ok_def)

lemma used_ref_nonzero: "lt_ok s \<Longrightarrow> e \<in> set (used_entries s) \<Longrightarrow> te_ref e \<noteq> 0"
  unfolding lt_ok_def by (metis image_eqI in_mono list.set_map)

text \<open>
  C21. The clean-up after a garbage collection is exact: the in-place compaction leaves, in the order of their
  insertion, exactly the entries whose object survived, each older by the number of collections since the
  last clean-up, and it deletes exactly the weak references of the entries it drops.
\<close>

theorem cleanup_table_exact:
  assumes "lt_reachable s" and "forced \<or> gc_epoch s \<noteq> last_gc_epoch s"
  shows "used_entries (cleanup_table dead forced s) =
           map (\<lambda>e. e\<lparr>te_age := te_age e + epoch_diff s\<rparr>) (filter (\<lambda>e. \<not> dead (te_ref e)) (used_entries s)) \<and>
         weak_refs (cleanup_table dead forced s) =
           weak_refs s - {te_ref e | e. e \<in> set (used_entries s) \<and> dead (te_ref e)} \<and>
         last_gc_epoch (cleanup_table dead forced s) = gc_epoch s"
proof -
  have ok: "lt_ok s" by (rule lt_reachable_ok [OF assms(1)])
  note eff = cleanup_table_effect [OF assms(2) used_entries_le [OF ok], of dead]
  have nz: "te_ref e \<noteq> 0" if "e \<in> set (used_entries s)" for e
    by (rule used_ref_nonzero [OF ok that])
  have "filter (live_entry dead) (used_entries s) = filter (\<lambda>e. \<not> dead (te_ref e)) (used_entries s)"
    by (rule filter_cong) (use nz in \<open>auto simp: live_entry_def\<close>)
  moreover have "te_ref ` {e \<in> set (used_entries s). \<not> live_entry dead e} =
      {te_ref e | e. e \<in> set (used_entries s) \<and> dead (te_ref e)}"
    unfolding live_entry_def using nz by blast
  ultimately show ?thesis using eff by (simp add: advance_age_def [abs_def])
qed

text \<open>
  C15. Memory safety of the tracking table: as long as its allocations succeed, in every state that any
  sequence of starts, stops, flushes, collections and tracked objects reaches, the entries in use lie inside
  the allocated block and refer to distinct existing weak references, and the next call of \<^verbatim>\<open>track\<close> does not
  store outside the block either.
\<close>

theorem tracking_table_safe:
  assumes "lt_reachable s" and "ref \<notin> weak_refs s"
  shows "(table_max_cap s \<noteq> 0 \<longrightarrow> int (table_size s) \<le> max 0 (block_cap s)) \<and>
         distinct (map te_ref (used_entries s)) \<and> set (map te_ref (used_entries s)) \<subseteq> weak_refs s \<and>
         track dead add sampled lock1 lock2 True ev tid ref ctid ticks c (skipped, s) \<noteq> Inl Outside_Block"
proof -
  have ok: "lt_ok s" by (rule lt_reachable_ok [OF assms(1)])
  show ?thesis
    using ok track_ok [OF ok assms(2), of dead add sampled lock1 lock2 ev tid ctid ticks c skipped]
    by (auto simp: lt_ok_def)
qed

text \<open>
  A flush reports every live object once: the events are those of the tracked objects that are still
  alive, in the order of their insertion, with their age in collections; the threads are those of these
  objects.
\<close>

theorem flush_reports_live:
  assumes "lt_reachable s" and "enabled s"
  shows "fl_events (fst (flush vm s)) =
           map (\<lambda>e. (te_tid e, te_call_trace_id e, liveness_event vm (e\<lparr>te_age := te_age e + epoch_diff s\<rparr>)))
             (filter (\<lambda>e. \<not> is_dead vm (te_ref e)) (used_entries s)) \<and>
         fl_threads (fst (flush vm s)) = te_tid ` {e \<in> set (used_entries s). \<not> is_dead vm (te_ref e)}"
proof -
  let ?s1 = "cleanup_table (is_dead vm) False s"
  have ok: "lt_ok s" and ok1: "lt_ok ?s1" using lt_reachable_ok [OF assms(1)] by (simp_all add: lt_ok_cleanup)
  note fl = cleanup_live_entries [OF used_entries_le [OF ok], of "is_dead vm"]
  have live: "filter (live_entry (is_dead vm)) (used_entries s) = filter (\<lambda>e. \<not> is_dead vm (te_ref e)) (used_entries s)"
    by (rule filter_cong) (use used_ref_nonzero [OF ok] in \<open>auto simp: live_entry_def\<close>)
  let ?out = "\<lparr>fl_events = [], fl_threads = {}, fl_heap = None\<rparr>"
  have f: "fold (\<lambda>i. flush_entry vm (tab ?s1 ! i)) [0..<table_size ?s1] ?out = fold (flush_entry vm) (used_entries ?s1) ?out"
    unfolding used_entries_def by (rule fold_indices [OF used_entries_le [OF ok1]])
  have "te_tid ` set (filter (live_entry (is_dead vm)) (used_entries ?s1))
      = te_tid ` {e \<in> set (used_entries s). \<not> is_dead vm (te_ref e)}"
    unfolding fl live by (auto simp: advance_age_def image_image)
  then show ?thesis
    using assms(2) by (simp add: flush_def flush_table_def Let_def f flush_entries_fold fl live comp_def advance_age_def)
qed

text \<open>
  A failed growth of the table is not survived: when the full table should grow and \<^verbatim>\<open>realloc\<close> fails, the
  capacity is raised all the same, and the entry is stored behind the end of the old block.
\<close>

theorem track_failed_realloc:
  assumes "enabled s" and "ref \<noteq> 0"
    and full: "int (table_size s) = table_cap s" "block_cap s = table_cap s" "0 < table_cap s" "table_cap s < table_max_cap s"
    and live: "table_size s \<le> length (tab s)" "\<forall>e\<in>set (used_entries s). te_ref e \<noteq> 0 \<and> \<not> dead (te_ref e)"
  shows "track dead add True True True False ev tid ref ctid ticks c (skipped, s) = Inl Outside_Block"
proof -
  define s0 where "s0 = s\<lparr>weak_refs := insert ref (weak_refs s)\<rparr>"
  have u0: "used_entries s0 = used_entries s" and sz: "table_size s0 \<le> length (tab s0)"
    using live by (simp_all add: s0_def used_entries_def)
  have "filter (live_entry dead) (used_entries s0) = used_entries s0"
    using live(2) by (simp add: u0 filter_id_conv live_entry_def)
  then have "length (used_entries (cleanup_table dead True s0)) = length (used_entries s0)"
    using cleanup_table_effect(1) [of True s0 dead, OF _ sz] by simp
  then have "table_size (cleanup_table dead True s0) = table_size s0"
    using cleanup_table_effect(3,4) [of True s0 dead, OF _ sz] sz by (simp add: used_entries_def)
  then show ?thesis
    using assms(1,2) full by (simp add: track_def s0_def [symmetric] Let_def insert_entry_def grow_def)
      (simp add: s0_def)
qed

section \<open>A run of the tracker\<close>

definition demo_args :: arguments where
  "demo_args = (new_Arguments False)\<lparr>record_liveness := True, memory := 524288\<rparr>"

definition demo_started :: liveness_tracker where
  "demo_started = snd (lt_start 11 1073741824 True True demo_args new_LivenessTracker)"

definition demo_entry :: "nat \<Rightarrow> tracking_entry" where
  "demo_entry ref = \<lparr>te_ref = ref, te_alloc = new_AllocEvent, te_skipped = 0, te_call_trace_id = 5, te_tid = int ref, te_time = 9,
     te_age = 0, te_ctx = \<lparr>spanId = 0, rootSpanId = 0, checksum = 0, tags = []\<rparr>\<rparr>"

definition demo_tracker :: liveness_tracker where
  "demo_tracker = demo_started\<lparr>gc_epoch := 1, tab := [demo_entry 7, demo_entry 8], table_size := 2, weak_refs := {7, 8}\<rparr>"

definition demo_track :: "nat \<Rightarrow> liveness_tracker \<Rightarrow> liveness_error + u64 \<times> liveness_tracker" where
  "demo_track ref s = track (\<lambda>_. False) (\<lambda>x _. x) True True True True new_AllocEvent (int ref) ref 5 9
     \<lparr>spanId = 0, rootSpanId = 0, checksum = 0, tags = []\<rparr> (0, s)"

lemma demo_started_eq:
  "demo_started = \<lparr>initialized = True, enabled = True, tab = [], table_size = 0, table_cap = 2048, table_max_cap = 2048,
     block_cap = 2048, subsample_ratio = Fin (1 / 10), lt_record_heap_usage = False, gc_epoch = 0, last_gc_epoch = 0,
     used_after_last_gc = 0, weak_refs = {}\<rparr>"
  by (simp add: demo_started_def lt_start_def lt_initialize_def initialize_table_def demo_args_def new_Arguments_def
      new_LivenessTracker_def s32_def MAX_TRACKING_TABLE_SIZE_def)

lemma demo_reachable: "lt_reachable demo_tracker"
proof -
  let ?one = "demo_started\<lparr>tab := [demo_entry 7], table_size := 1, weak_refs := {7}\<rparr>"
  let ?two = "demo_started\<lparr>tab := [demo_entry 7, demo_entry 8], table_size := 2, weak_refs := {7, 8}\<rparr>"
  note defs = demo_track_def track_def insert_entry_def demo_started_eq demo_entry_def Let_def
  have r0: "lt_reachable demo_started" unfolding demo_started_def by (rule lt_start_step [OF lt_new])
  have t1: "demo_track 7 demo_started = Inr (0, ?one)" by (simp add: defs)
  have r1: "lt_reachable ?one" by (rule lt_track_step [OF r0 _ t1 [unfolded demo_track_def]]) (simp add: demo_started_eq)
  have t2: "demo_track 8 ?one = Inr (0, ?two)" by (simp add: defs numeral_2_eq_2 insert_commute)
  have r2: "lt_reachable ?two" by (rule lt_track_step [OF r1 _ t2 [unfolded demo_track_def]]) simp
  have "onGC True 0 ?two = demo_tracker" by (simp add: onGC_def demo_tracker_def demo_started_eq Let_def)
  then show ?thesis using lt_gc_step [OF r2, of True 0] by simp
qed

lemma demo_entry_simps [simp]: "te_ref (demo_entry r) = r" "te_tid (demo_entry r) = int r"
  "te_call_trace_id (demo_entry r) = 5" "te_age (demo_entry r) = 0"
  by (simp_all add: demo_entry_def)

lemma demo_used: "used_entries demo_tracker = [demo_entry 7, demo_entry 8]"
  by (simp add: used_entries_def demo_tracker_def)

lemma demo_fields: "gc_epoch demo_tracker = 1" "last_gc_epoch demo_tracker = 0" "enabled demo_tracker"
  "weak_refs demo_tracker = {7, 8}" "epoch_diff demo_tracker = 1"
  by (simp_all add: demo_tracker_def demo_started_eq epoch_diff_def s32_def)

theorem cleanup_table_exact_witness:
  "used_entries (cleanup_table (\<lambda>r. r = 7) False demo_tracker) = [(demo_entry 8)\<lparr>te_age := 1\<rparr>] \<and>
   weak_refs (cleanup_table (\<lambda>r. r = 7) False demo_tracker) = {8}"
proof -
  have "{te_ref e | e. e \<in> set (used_entries demo_tracker) \<and> te_ref e = 7} = {7}"
    by (auto simp: demo_used intro: exI [of _ "demo_entry 7"])
  then show ?thesis
    using cleanup_table_exact [OF demo_reachable, of False "\<lambda>r. r = 7"]
    by (simp add: demo_used demo_fields)
qed

theorem tracking_table_safe_witness:
  "distinct (map te_ref (used_entries demo_tracker)) \<and> demo_track 9 demo_tracker \<noteq> Inl Outside_Block"
  unfolding demo_track_def
  using tracking_table_safe [OF demo_reachable, of 9 "\<lambda>_. False" "\<lambda>x _. x" True True True]
  by (simp add: demo_fields)

definition demo_vm :: vm_view where
  "demo_vm = \<lparr>is_dead = (\<lambda>r. r = 7), class_id = (\<lambda>_. 3), skipped_u64 = id, last_gc_supported = False, used_at_last_gc = 0,
     used_now = 0\<rparr>"

theorem flush_reports_live_witness:
  "fl_events (fst (flush demo_vm demo_tracker)) = [(8, 5, liveness_event demo_vm ((demo_entry 8)\<lparr>te_age := 1\<rparr>))] \<and>
   fl_threads (fst (flush demo_vm demo_tracker)) = {8}"
proof -
  have "te_tid ` set (filter (\<lambda>e. te_ref e \<noteq> 7) (used_entries demo_tracker)) = {8}"
    by (simp add: demo_used del: set_filter)
  then have "te_tid ` {e \<in> set (used_entries demo_tracker). te_ref e \<noteq> 7} = {8}" by simp
  moreover have "is_dead demo_vm = (\<lambda>r. r = 7)" by (simp add: demo_vm_def)
  ultimately show ?thesis
    using flush_reports_live [OF demo_reachable demo_fields(3), of demo_vm]
    by (simp add: demo_used demo_fields)
qed

theorem track_failed_realloc_witness:
  "track (\<lambda>_. False) (\<lambda>x _. x) True True True False new_AllocEvent 1 9 5 9 \<lparr>spanId = 0, rootSpanId = 0, checksum = 0, tags = []\<rparr>
     (0, demo_tracker\<lparr>table_cap := 2, block_cap := 2\<rparr>) = Inl Outside_Block"
  by (rule track_failed_realloc) (simp_all add: demo_tracker_def demo_started_eq used_entries_def demo_entry_def)

end
