(* ===== verification/Spec2Isabelle.thy ===== *)
theory Spec2Isabelle
  imports Prelude Buffers Locks Counters Dictionaries Linear_Allocator Call_Trace_Storage Thread_Filter Contexts
    Unwind_Stats Arguments Jfr_Metadata Jfr_Format Event_Writer Recording_Info Metadata_Event
    Method_Lookup Constant_Pool Chunk_Contracts Flight_Recorder Recording_Life Dwarf Code_Cache Libraries Rust_Demangler Threads Events Liveness_Tracker
begin

text \<open>
  A verification library for the Java profiler under \<^verbatim>\<open>src/ddprof-lib/src/main/cpp\<close>.
\<close>

end
